(* ===== verification/Hidfi_Prelude.thy ===== *)
theory Hidfi_Prelude
  imports Main "HOL-Library.Word"
begin

unbundle bit_operations_syntax

section \<open>Prelude: machine types, outcomes, slices and byte order\<close>

text \<open>
  What every component of the HID-Fi development shares.

  \<^item> The Rust integer types at their width (\<open>u8\<close> to \<open>u64\<close>) as words, and the little-endian
    conversions \<open>to_le_bytes\<close> / \<open>from_le_bytes\<close> of the standard library with their round trips.
  \<^item> \<open>outcome\<close>: what a Rust call ends in. \<open>Ok\<close> and \<open>Err\<close> are \<open>Result\<close>'s; \<open>Panic\<close> is an
    unwinding panic (a slice out of range, an \<open>unwrap\<close> of nothing); \<open>OutOfFuel\<close> says that a
    loop of the source, which the model bounds by a fuel argument, was still running.  A program
    always comes with the state it left, whatever its outcome, so a safety theorem speaks about
    every prefix of every run.
  \<^item> \<open>triple I m Q\<close>: from every state in \<open>I\<close> the program \<open>m\<close> ends in \<open>I\<close>, and its \<open>Ok\<close> value is in
    \<open>Q\<close>.  The rules are collected in \<open>triple_rules\<close>, so that a component proves its invariant
    by applying them along its own text.
  \<^item> Lists as Rust slices: \<open>slice\<close>, \<open>slice_opt\<close> (the \<open>get\<close> of a range), \<open>splice\<close> (\<open>copy_from_slice\<close>).
\<close>

named_theorems triple_rules \<open>rules that push an invariant through a program\<close>
named_theorems slice_simps \<open>equations on slices of lists\<close>
named_theorems le_simps \<open>equations on little-endian encodings\<close>

type_synonym u8 = "8 word"
type_synonym u16 = "16 word"
type_synonym u32 = "32 word"
type_synonym u64 = "64 word"

subsection \<open>Outcomes and programs\<close>

datatype ('e, 'a) outcome = Ok 'a | Err 'e | Panic | OutOfFuel

type_synonym ('s, 'e, 'a) prog = "'s \<Rightarrow> ('e, 'a) outcome \<times> 's"

definition ret :: "'a \<Rightarrow> ('s, 'e, 'a) prog" where
  "ret x s = (Ok x, s)"

definition throw :: "'e \<Rightarrow> ('s, 'e, 'a) prog" where
  "throw e s = (Err e, s)"

definition panic :: "('s, 'e, 'a) prog" where
  "panic s = (Panic, s)"

definition modify :: "('s \<Rightarrow> 's) \<Rightarrow> ('s, 'e, unit) prog" where
  "modify f s = (Ok (), f s)"

definition asks :: "('s \<Rightarrow> 'a) \<Rightarrow> ('s, 'e, 'a) prog" where
  "asks f s = (Ok (f s), s)"

text \<open>\<open>bnd\<close> is Rust's \<open>?\<close>: anything but \<open>Ok\<close> ends the caller too.\<close>

definition bnd :: "('s, 'e, 'a) prog \<Rightarrow> ('a \<Rightarrow> ('s, 'e, 'b) prog) \<Rightarrow> ('s, 'e, 'b) prog" where
  "bnd m k s = (case m s of
     (Ok x, s') \<Rightarrow> k x s'
   | (Err e, s') \<Rightarrow> (Err e, s')
   | (Panic, s') \<Rightarrow> (Panic, s')
   | (OutOfFuel, s') \<Rightarrow> (OutOfFuel, s'))"

definition seq :: "('s, 'e, unit) prog \<Rightarrow> ('s, 'e, 'b) prog \<Rightarrow> ('s, 'e, 'b) prog" where
  "seq m n = bnd m (\<lambda>_. n)"

text \<open>\<open>attempt\<close> hands the \<open>Result\<close> to the caller instead of returning early: \<open>is_ok()\<close>, \<open>let _ =\<close>.\<close>

definition attempt :: "('s, 'e, 'a) prog \<Rightarrow> ('s, 'e, 'e + 'a) prog" where
  "attempt m s = (case m s of
     (Ok x, s') \<Rightarrow> (Ok (Inr x), s')
   | (Err e, s') \<Rightarrow> (Ok (Inl e), s')
   | (Panic, s') \<Rightarrow> (Panic, s')
   | (OutOfFuel, s') \<Rightarrow> (OutOfFuel, s'))"

text \<open>\<open>zoom\<close> runs a program on a part of a larger state, converting the error (\<open>map_err\<close>, \<open>From\<close>).\<close>

definition zoom ::
  "('s \<Rightarrow> 't) \<Rightarrow> ('t \<Rightarrow> 's \<Rightarrow> 's) \<Rightarrow> ('e \<Rightarrow> 'f) \<Rightarrow> ('t, 'e, 'a) prog \<Rightarrow> ('s, 'f, 'a) prog" where
  "zoom sel upd conv m s = (case m (sel s) of
     (Ok x, t) \<Rightarrow> (Ok x, upd t s)
   | (Err e, t) \<Rightarrow> (Err (conv e), upd t s)
   | (Panic, t) \<Rightarrow> (Panic, upd t s)
   | (OutOfFuel, t) \<Rightarrow> (OutOfFuel, upd t s))"

definition triple :: "('s \<Rightarrow> bool) \<Rightarrow> ('s, 'e, 'a) prog \<Rightarrow> ('a \<Rightarrow> bool) \<Rightarrow> bool" where
  "triple I m Q \<longleftrightarrow> (\<forall>s. I s \<longrightarrow> I (snd (m s)) \<and> (\<forall>x. fst (m s) = Ok x \<longrightarrow> Q x))"

text \<open>\<open>achieves I m Q\<close>: from every state in \<open>I\<close> the program returns \<open>Ok\<close>, with a value in \<open>Q\<close>, in \<open>I\<close>.\<close>

definition achieves :: "('s \<Rightarrow> bool) \<Rightarrow> ('s, 'e, 'a) prog \<Rightarrow> ('a \<Rightarrow> bool) \<Rightarrow> bool" where
  "achieves I m Q \<longleftrightarrow> (\<forall>s. I s \<longrightarrow> I (snd (m s)) \<and> (\<exists>x. fst (m s) = Ok x \<and> Q x))"

text \<open>\<open>okay P m Q\<close>: when \<open>m\<close> returns \<open>Ok\<close> from a state in \<open>P\<close>, its value and the state it leaves are in
  \<open>Q\<close>.  Any other outcome ends the caller too, so this is the logic of what follows a \<open>?\<close>.\<close>

definition okay :: "('s \<Rightarrow> bool) \<Rightarrow> ('s, 'e, 'a) prog \<Rightarrow> ('a \<Rightarrow> 's \<Rightarrow> bool) \<Rightarrow> bool" where
  "okay P m Q \<longleftrightarrow> (\<forall>s x s'. P s \<longrightarrow> m s = (Ok x, s') \<longrightarrow> Q x s')"

text \<open>\<open>guarded P I m Q\<close> joins the two: the invariant \<open>I\<close> holds whatever the outcome, and \<open>Ok\<close> leads from
  \<open>P\<close> to \<open>Q\<close>.  It is how an invariant that depends on what was read earlier is carried along.\<close>

definition guarded ::
  "('s \<Rightarrow> bool) \<Rightarrow> ('s \<Rightarrow> bool) \<Rightarrow> ('s, 'e, 'a) prog \<Rightarrow> ('a \<Rightarrow> 's \<Rightarrow> bool) \<Rightarrow> bool" where
  "guarded P I m Q \<longleftrightarrow>
     (\<forall>s. P s \<longrightarrow> I s \<longrightarrow> I (snd (m s)) \<and> (\<forall>x s'. m s = (Ok x, s') \<longrightarrow> Q x s'))"

subsection \<open>Slices\<close>

definition slice :: "'a list \<Rightarrow> nat \<Rightarrow> nat \<Rightarrow> 'a list" where
  "slice xs a b = take (b - a) (drop a xs)"

text \<open>\<open>xs.get(a..b)\<close>: nothing when the range is not inside the list.\<close>

definition slice_opt :: "'a list \<Rightarrow> nat \<Rightarrow> nat \<Rightarrow> 'a list option" where
  "slice_opt xs a b = (if a \<le> b \<and> b \<le> length xs then Some (slice xs a b) else None)"

text \<open>\<open>xs[a..a + ys.len()].copy_from_slice(ys)\<close>.\<close>

definition splice :: "'a list \<Rightarrow> nat \<Rightarrow> 'a list \<Rightarrow> 'a list" where
  "splice xs a ys = take a xs @ ys @ drop (a + length ys) xs"

text \<open>\<open>n.div_ceil(d)\<close>.\<close>

definition div_ceil :: "nat \<Rightarrow> nat \<Rightarrow> nat" where
  "div_ceil n d = (n + d - 1) div d"

text \<open>\<open>chunks(n)\<close>: consecutive pieces of length \<open>n\<close>, the last one possibly shorter
  (Rust panics on \<open>n = 0\<close>; the callers pass a positive constant).\<close>

function chunks :: "nat \<Rightarrow> 'a list \<Rightarrow> 'a list list" where
  "chunks n xs = (if xs = [] \<or> n = 0 then [] else take n xs # chunks n (drop n xs))"
  by pat_completeness auto
termination
  by (relation "measure (\<lambda>(n, xs). length xs)") auto

declare chunks.simps [simp del]

text \<open>\<open>v.resize(n, x)\<close>.\<close>

definition resize :: "'a list \<Rightarrow> nat \<Rightarrow> 'a \<Rightarrow> 'a list" where
  "resize xs n x = take n xs @ replicate (n - length xs) x"

text \<open>\<open>iter().position(p)\<close>.\<close>

fun position :: "('a \<Rightarrow> bool) \<Rightarrow> 'a list \<Rightarrow> nat option" where
  "position p [] = None"
| "position p (x # xs) = (if p x then Some 0 else map_option Suc (position p xs))"

subsection \<open>Little-endian words\<close>

definition u16_le :: "u8 \<Rightarrow> u8 \<Rightarrow> u16" where
  "u16_le a b = ucast a OR push_bit 8 (ucast b)"

definition u32_le :: "u8 \<Rightarrow> u8 \<Rightarrow> u8 \<Rightarrow> u8 \<Rightarrow> u32" where
  "u32_le a b c d = ucast a OR push_bit 8 (ucast b) OR push_bit 16 (ucast c) OR push_bit 24 (ucast d)"

definition u16_to_le :: "u16 \<Rightarrow> u8 list" where
  "u16_to_le w = [ucast w, ucast (drop_bit 8 w)]"

definition u32_to_le :: "u32 \<Rightarrow> u8 list" where
  "u32_to_le w = [ucast w, ucast (drop_bit 8 w), ucast (drop_bit 16 w), ucast (drop_bit 24 w)]"

text \<open>\<open>from_le_bytes(xs[i..i + 4])\<close>; the callers check the range.\<close>

definition u32_at :: "u8 list \<Rightarrow> nat \<Rightarrow> u32" where
  "u32_at xs i = u32_le (xs ! i) (xs ! (i + 1)) (xs ! (i + 2)) (xs ! (i + 3))"

definition u32_be :: "u8 \<Rightarrow> u8 \<Rightarrow> u8 \<Rightarrow> u8 \<Rightarrow> u32" where
  "u32_be a b c d = u32_le d c b a"

text \<open>The bytes of an ASCII literal (\<open>b"..."\<close>, \<open>as_bytes()\<close>).\<close>

definition bytes :: "string \<Rightarrow> u8 list" where
  "bytes s = map of_char s"

definition chr :: "u8 \<Rightarrow> char" where
  "chr b = char_of (unat b)"

text \<open>A byte shown as two hex digits (\<open>{:02x}\<close>, \<open>{:02X}\<close>).\<close>

definition hex_digit :: "nat \<Rightarrow> char" where
  "hex_digit n = char_of (if n < 10 then 48 + n else 87 + n)"

definition hex_digit_upper :: "nat \<Rightarrow> char" where
  "hex_digit_upper n = char_of (if n < 10 then 48 + n else 55 + n)"

definition hex2 :: "u8 \<Rightarrow> string" where
  "hex2 b = [hex_digit (unat b div 16), hex_digit (unat b mod 16)]"

definition hex2_upper :: "u8 \<Rightarrow> string" where
  "hex2_upper b = [hex_digit_upper (unat b div 16), hex_digit_upper (unat b mod 16)]"

text \<open>One hex digit read (\<open>from_str_radix(_, 16)\<close> takes either case).\<close>

definition hex_val :: "char \<Rightarrow> nat option" where
  "hex_val c = (let n = of_char c :: nat in
     if 48 \<le> n \<and> n \<le> 57 then Some (n - 48)
     else if 97 \<le> n \<and> n \<le> 102 then Some (n - 87)
     else if 65 \<le> n \<and> n \<le> 70 then Some (n - 55)
     else None)"

text \<open>\<open>u8::from_str_radix(xy, 16)\<close> of two characters: a leading plus sign is taken too.\<close>

definition hex_pair :: "char \<Rightarrow> char \<Rightarrow> u8 option" where
  "hex_pair a b =
     (if a = CHR ''+'' then map_option of_nat (hex_val b)
      else (case (hex_val a, hex_val b) of
              (Some x, Some y) \<Rightarrow> Some (of_nat (16 * x + y))
            | _ \<Rightarrow> None))"

subsection \<open>Rules for programs\<close>

lemma tripleI:
  assumes "\<And>s. I s \<Longrightarrow> I (snd (m s))"
    and "\<And>s x. I s \<Longrightarrow> fst (m s) = Ok x \<Longrightarrow> Q x"
  shows "triple I m Q"
  using assms by (simp add: triple_def)

lemma tripleD: "triple I m Q \<Longrightarrow> I s \<Longrightarrow> I (snd (m s))"
  by (simp add: triple_def)

lemma tripleD_val: "triple I m Q \<Longrightarrow> I s \<Longrightarrow> fst (m s) = Ok x \<Longrightarrow> Q x"
  by (simp add: triple_def)

lemma triple_weaken: "triple I m P \<Longrightarrow> (\<And>x. P x \<Longrightarrow> Q x) \<Longrightarrow> triple I m Q"
  by (simp add: triple_def)

lemma triple_ret [triple_rules]: "Q x \<Longrightarrow> triple I (ret x) Q"
  by (simp add: triple_def ret_def)

lemma triple_throw [triple_rules]: "triple I (throw e) Q"
  by (simp add: triple_def throw_def)

lemma triple_panic [triple_rules]: "triple I panic Q"
  by (simp add: triple_def panic_def)

lemma triple_modify [triple_rules]: "(\<And>s. I s \<Longrightarrow> I (f s)) \<Longrightarrow> Q () \<Longrightarrow> triple I (modify f) Q"
  by (simp add: triple_def modify_def)

lemma triple_asks [triple_rules]: "(\<And>s. I s \<Longrightarrow> Q (f s)) \<Longrightarrow> triple I (asks f) Q"
  by (auto simp: triple_def asks_def)

lemma triple_bnd:
  assumes m: "triple I m P" and k: "\<And>x. P x \<Longrightarrow> triple I (k x) Q"
  shows "triple I (bnd m k) Q"
proof (rule tripleI)
  fix s assume I: "I s"
  show "I (snd (bnd m k s))"
    using tripleD [OF m I] tripleD_val [OF m I] k
    by (auto simp: bnd_def triple_def split: outcome.splits prod.splits)
next
  fix s x assume I: "I s" and "fst (bnd m k s) = Ok x"
  then show "Q x"
    using tripleD [OF m I] tripleD_val [OF m I] k
    by (fastforce simp: bnd_def triple_def split: outcome.splits prod.splits)
qed

lemma triple_seq:
  assumes "triple I m (\<lambda>_. True)" and "triple I n Q"
  shows "triple I (seq m n) Q"
  unfolding seq_def by (rule triple_bnd [OF assms(1)]) (rule assms(2))

lemma triple_attempt:
  assumes "triple I m (\<lambda>_. True)"
  shows "triple I (attempt m) (\<lambda>_. True)"
proof (rule tripleI)
  fix s assume "I s"
  from tripleD [OF assms this] show "I (snd (attempt m s))"
    by (auto simp: attempt_def split: outcome.splits prod.splits)
qed simp

lemma triple_if [triple_rules]:
  "(c \<Longrightarrow> triple I m Q) \<Longrightarrow> (\<not> c \<Longrightarrow> triple I n Q) \<Longrightarrow> triple I (if c then m else n) Q"
  by simp

lemma triple_zoom:
  assumes "triple J m Q" and "\<And>s. I s \<Longrightarrow> J (sel s)" and "\<And>t s. J t \<Longrightarrow> I s \<Longrightarrow> I (upd t s)"
  shows "triple I (zoom sel upd conv m) Q"
  using assms tripleD [OF assms(1)] tripleD_val [OF assms(1)]
  by (fastforce intro!: tripleI simp: zoom_def split: outcome.splits prod.splits)

lemma achieves_bnd:
  assumes "achieves I m P" and "\<And>x. P x \<Longrightarrow> achieves I (k x) Q"
  shows "achieves I (bnd m k) Q"
  using assms unfolding achieves_def bnd_def
  by (fastforce split: outcome.splits prod.splits)

lemma achieves_ret: "Q x \<Longrightarrow> achieves I (ret x) Q"
  by (simp add: achieves_def ret_def)

lemma achieves_weaken: "achieves I m P \<Longrightarrow> (\<And>x. P x \<Longrightarrow> Q x) \<Longrightarrow> achieves I m Q"
  by (fastforce simp: achieves_def)

lemma okayI: "(\<And>s x s'. P s \<Longrightarrow> m s = (Ok x, s') \<Longrightarrow> Q x s') \<Longrightarrow> okay P m Q"
  by (simp add: okay_def)

lemma okayD: "okay P m Q \<Longrightarrow> P s \<Longrightarrow> m s = (Ok x, s') \<Longrightarrow> Q x s'"
  by (simp add: okay_def)

lemma bnd_eq_Ok: "bnd m k s = (Ok y, s'') \<longleftrightarrow> (\<exists>x s'. m s = (Ok x, s') \<and> k x s' = (Ok y, s''))"
  by (auto simp: bnd_def split: outcome.splits prod.splits)

lemma seq_eq_Ok: "seq m n s = (Ok y, s'') \<longleftrightarrow> (\<exists>s'. m s = (Ok (), s') \<and> n s' = (Ok y, s''))"
  by (simp add: seq_def bnd_eq_Ok)

lemma modify_eq_Ok: "modify f s = (Ok y, s') \<longleftrightarrow> s' = f s"
  by (auto simp: modify_def)

lemma okay_bnd: "okay P m R \<Longrightarrow> (\<And>x. okay (R x) (k x) Q) \<Longrightarrow> okay P (bnd m k) Q"
  unfolding okay_def bnd_eq_Ok by blast

lemma okay_seq: "okay P m (\<lambda>_. R) \<Longrightarrow> okay R n Q \<Longrightarrow> okay P (seq m n) Q"
  unfolding seq_def by (erule okay_bnd)

lemma okay_weaken:
  "okay P' m Q' \<Longrightarrow> (\<And>s. P s \<Longrightarrow> P' s) \<Longrightarrow> (\<And>x s. Q' x s \<Longrightarrow> Q x s) \<Longrightarrow> okay P m Q"
  unfolding okay_def by blast

lemma okay_ret: "(\<And>s. P s \<Longrightarrow> Q x s) \<Longrightarrow> okay P (ret x) Q"
  by (simp add: okay_def ret_def)

lemma okay_throw: "okay P (throw e) Q" and okay_panic: "okay P panic Q"
  by (simp_all add: okay_def throw_def panic_def)

lemma okay_modify: "(\<And>s. P s \<Longrightarrow> Q () (f s)) \<Longrightarrow> okay P (modify f) Q"
  by (simp add: okay_def modify_def)

lemma okay_asks: "(\<And>s. P s \<Longrightarrow> Q (f s) s) \<Longrightarrow> okay P (asks f) Q"
  by (simp add: okay_def asks_def)

lemma okay_if: "(c \<Longrightarrow> okay P m Q) \<Longrightarrow> (\<not> c \<Longrightarrow> okay P n Q) \<Longrightarrow> okay P (if c then m else n) Q"
  by simp

lemma okay_False: "okay (\<lambda>_. False) m Q"
  by (simp add: okay_def)

lemma okay_triple: "triple I m (\<lambda>_. True) \<Longrightarrow> okay P m Q \<Longrightarrow> okay (\<lambda>s. P s \<and> I s) m (\<lambda>x s. Q x s \<and> I s)"
  unfolding okay_def triple_def by (metis snd_conv)

lemma guardedI: "triple I m (\<lambda>_. True) \<Longrightarrow> okay (\<lambda>s. P s \<and> I s) m Q \<Longrightarrow> guarded P I m Q"
  unfolding guarded_def okay_def triple_def by blast

lemma guardedD: "guarded P I m Q \<Longrightarrow> P s \<Longrightarrow> I s \<Longrightarrow> I (snd (m s))"
  unfolding guarded_def by blast

lemma guarded_bnd:
  assumes "guarded P I m R" and "\<And>x. guarded (R x) I (k x) Q"
  shows "guarded P I (bnd m k) Q"
  unfolding guarded_def
proof (intro allI impI conjI)
  fix s assume "P s" and "I s"
  show "I (snd (bnd m k s))"
  proof (cases "m s")
    case (Pair r s')
    have "I s'" using assms(1) \<open>P s\<close> \<open>I s\<close> Pair unfolding guarded_def by (metis snd_conv)
    moreover have "R x s'" if "r = Ok x" for x
      using assms(1) \<open>P s\<close> \<open>I s\<close> Pair that unfolding guarded_def by blast
    ultimately show ?thesis
      using assms(2) Pair unfolding guarded_def by (cases r) (auto simp: bnd_def)
  qed
  fix y s'' assume "bnd m k s = (Ok y, s'')"
  then obtain x s' where m: "m s = (Ok x, s')" and k: "k x s' = (Ok y, s'')"
    by (auto simp: bnd_eq_Ok)
  from assms(1) \<open>P s\<close> \<open>I s\<close> m have "R x s'" unfolding guarded_def by blast
  moreover from assms(1) \<open>P s\<close> \<open>I s\<close> m have "I s'" unfolding guarded_def by (metis snd_conv)
  ultimately show "Q y s''" using assms(2) k unfolding guarded_def by blast
qed

lemma guarded_seq:
  "guarded P I m (\<lambda>_. R) \<Longrightarrow> guarded R I n Q \<Longrightarrow> guarded P I (seq m n) Q"
  unfolding seq_def by (erule guarded_bnd)

lemma guarded_if: "(c \<Longrightarrow> guarded P I m Q) \<Longrightarrow> (\<not> c \<Longrightarrow> guarded P I n Q) \<Longrightarrow> guarded P I (if c then m else n) Q"
  by simp

lemma guarded_ret: "(\<And>s. P s \<Longrightarrow> Q x s) \<Longrightarrow> guarded P I (ret x) Q"
  by (simp add: guarded_def ret_def)

lemma guarded_throw: "guarded P I (throw e) Q"
  by (simp add: guarded_def throw_def)

lemma guarded_pre: "guarded P' I m Q \<Longrightarrow> (\<And>s. P s \<Longrightarrow> P' s) \<Longrightarrow> guarded P I m Q"
  unfolding guarded_def by blast

lemma guarded_assume: "(C \<Longrightarrow> guarded P I m Q) \<Longrightarrow> guarded (\<lambda>s. C \<and> P s) I m Q"
  unfolding guarded_def by blast

lemma zoom_eq_Ok: "zoom sel upd conv m s = (Ok x, s') \<longleftrightarrow> (\<exists>t. m (sel s) = (Ok x, t) \<and> s' = upd t s)"
  by (auto simp: zoom_def split: outcome.splits prod.splits)

lemma attempt_eq_Ok:
  "attempt m s = (Ok r, s') \<longleftrightarrow> (\<exists>x. m s = (Ok x, s') \<and> r = Inr x) \<or> (\<exists>e. m s = (Err e, s') \<and> r = Inl e)"
  by (auto simp: attempt_def split: outcome.splits prod.splits)

lemma attempt_state [simp]: "snd (attempt m s) = snd (m s)"
  by (simp add: attempt_def split: prod.split outcome.split)

lemma bnd_Ok [simp]: "m s = (Ok x, s') \<Longrightarrow> bnd m k s = k x s'"
  by (simp add: bnd_def)

lemma bnd_Err [simp]: "m s = (Err e, s') \<Longrightarrow> bnd m k s = (Err e, s')"
  by (simp add: bnd_def)

lemma seq_Ok [simp]: "m s = (Ok (), s') \<Longrightarrow> seq m n s = n s'"
  by (simp add: seq_def)

lemma seq_Err [simp]: "m s = (Err e, s') \<Longrightarrow> seq m n s = (Err e, s')"
  by (simp add: seq_def)

lemma bnd_ret [simp]: "bnd (ret x) k = k x"
  by (rule ext) (simp add: ret_def)

subsection \<open>Lemmas on slices\<close>

lemma length_slice [simp]: "b \<le> length xs \<Longrightarrow> length (slice xs a b) = b - a"
  by (simp add: slice_def)

lemma nth_slice [simp]: "b \<le> length xs \<Longrightarrow> i < b - a \<Longrightarrow> slice xs a b ! i = xs ! (a + i)"
  by (simp add: slice_def)

lemma slice_opt_Some [slice_simps]:
  "slice_opt xs a b = Some ys \<longleftrightarrow> a \<le> b \<and> b \<le> length xs \<and> ys = slice xs a b"
  by (auto simp: slice_opt_def)

lemma slice_append_left [slice_simps]: "b \<le> length xs \<Longrightarrow> slice (xs @ ys) a b = slice xs a b"
  by (simp add: slice_def)

lemma slice_append_right [slice_simps]:
  "length xs \<le> a \<Longrightarrow> slice (xs @ ys) a b = slice ys (a - length xs) (b - length xs)"
  by (simp add: slice_def)

lemma length_splice [simp]: "a + length ys \<le> length xs \<Longrightarrow> length (splice xs a ys) = length xs"
  by (simp add: splice_def)

lemma nth_splice:
  assumes "a + length ys \<le> length xs" and "i < length xs"
  shows "splice xs a ys ! i = (if a \<le> i \<and> i < a + length ys then ys ! (i - a) else xs ! i)"
  using assms by (auto simp: splice_def nth_append)

lemma slice_splice_same [slice_simps]:
  "a + length ys \<le> length xs \<Longrightarrow> slice (splice xs a ys) a (a + length ys) = ys"
  by (simp add: slice_def splice_def)

lemma slice_splice_other [slice_simps]:
  assumes "a + length ys \<le> length xs" and "d \<le> length xs" and "d \<le> a \<or> a + length ys \<le> c"
  shows "slice (splice xs a ys) c d = slice xs c d"
  using assms by (intro nth_equalityI) (auto simp: nth_splice)

lemma slice_block:
  "\<forall>x \<in> set xs. length x = n \<Longrightarrow> i < length xs \<Longrightarrow> slice (concat xs @ rest) (i * n) (i * n + n) = xs ! i"
proof (induction xs arbitrary: i)
  case (Cons x xs)
  show ?case
  proof (cases i)
    case 0
    with Cons.prems show ?thesis by (simp add: slice_def)
  next
    case (Suc j)
    with Cons.prems have "slice (concat (x # xs) @ rest) (i * n) (i * n + n) = slice (concat xs @ rest) (j * n) (j * n + n)"
      by (simp add: slice_def)
    with Cons Suc show ?thesis by simp
  qed
qed simp

lemma length_concat_block: "\<forall>x \<in> set xs. length x = n \<Longrightarrow> length (concat xs) = length xs * n"
  by (induction xs) auto

lemma length_resize [simp]: "length (resize xs n x) = n"
  by (simp add: resize_def)

lemma take_resize: "length xs \<le> n \<Longrightarrow> take (length xs) (resize xs n x) = xs"
  by (simp add: resize_def)

lemma position_Some: "position p xs = Some i \<Longrightarrow> i < length xs \<and> p (xs ! i)"
  by (induction xs arbitrary: i) (auto split: if_splits)

lemma position_first: "position p xs = Some i \<Longrightarrow> j < i \<Longrightarrow> \<not> p (xs ! j)"
proof (induction xs arbitrary: i j)
  case (Cons x xs)
  then show ?case by (cases j) (auto split: if_splits)
qed simp

lemma position_None: "position p xs = None \<longleftrightarrow> (\<forall>x \<in> set xs. \<not> p x)"
  by (induction xs) auto

lemma position_distinct: "distinct xs \<Longrightarrow> i < length xs \<Longrightarrow> position (\<lambda>t. t = xs ! i) xs = Some i"
proof (induction xs arbitrary: i)
  case (Cons x xs)
  then show ?case by (cases i) auto
qed simp

lemma chunks_Nil [simp]: "chunks n [] = []"
  by (simp add: chunks.simps)

lemma concat_chunks [simp]: "0 < n \<Longrightarrow> concat (chunks n xs) = xs"
proof (induction n xs rule: chunks.induct)
  case (1 n xs)
  then show ?case by (subst chunks.simps) auto
qed

lemma chunks_bound: "c \<in> set (chunks n xs) \<Longrightarrow> 0 < length c \<and> length c \<le> n"
proof (induction n xs rule: chunks.induct)
  case (1 n xs)
  then show ?case by (subst (asm) chunks.simps) (auto split: if_splits)
qed

lemma chunks_full: "length xs = k * n \<Longrightarrow> 0 < n \<Longrightarrow> c \<in> set (chunks n xs) \<Longrightarrow> length c = n"
proof (induction k arbitrary: xs)
  case (Suc k)
  then have "length (drop n xs) = k * n" by simp
  from Suc.IH [OF this] Suc.prems show ?case
    by (subst (asm) (2) chunks.simps) (auto split: if_splits)
qed simp

lemma div_ceil_mult: "0 < d \<Longrightarrow> n \<le> div_ceil n d * d"
proof -
  assume d: "0 < d"
  have "(n + d - 1) div d * d + (n + d - 1) mod d = n + d - 1"
    by simp
  moreover have "(n + d - 1) mod d < d"
    using d by simp
  ultimately show ?thesis
    using d unfolding div_ceil_def by linarith
qed

subsection \<open>Lemmas on characters\<close>

lemma unat_u8_less: "unat (b :: u8) < 256"
  using unsigned_less [of b, where 'a = nat] by simp

lemma unat_of_char [simp]: "unat (of_char c :: u8) = of_char c"
proof -
  have "(of_char c :: u8) = of_nat (of_char c)" by (simp add: of_nat_of_char)
  then show ?thesis
    using nat_of_char_less_256 [of c] by (simp add: unat_of_nat del: of_nat_of_char)
qed

lemma chr_of_char [simp]: "chr (of_char c) = c"
  by (simp add: chr_def)

lemma of_char_chr [simp]: "(of_char (chr b) :: u8) = b"
proof -
  have "unat b < 256" using unsigned_less [of b] by simp
  then have "unat (of_char (chr b) :: u8) = unat b" by (simp add: chr_def)
  then show ?thesis by (rule unsigned_word_eqI)
qed

lemma map_chr_bytes [simp]: "map chr (bytes s) = s"
  by (simp add: bytes_def comp_def)

lemma bytes_map_chr [simp]: "bytes (map chr bs) = bs"
  by (simp add: bytes_def comp_def)

lemma length_bytes [simp]: "length (bytes s) = length s"
  by (simp add: bytes_def)

subsection \<open>Lemmas on little-endian words\<close>

lemma u32_le_to_le [le_simps, simp]:
  "u32_le (ucast w) (ucast (drop_bit 8 w)) (ucast (drop_bit 16 w)) (ucast (drop_bit 24 (w :: u32))) = w"
proof (rule bit_word_eqI)
  fix n assume "n < LENGTH(32)"
  then consider "n < 8" | "8 \<le> n" "n < 16" | "16 \<le> n" "n < 24" | "24 \<le> n" "n < 32"
    by fastforce
  then show "bit (u32_le (ucast w) (ucast (drop_bit 8 w)) (ucast (drop_bit 16 w)) (ucast (drop_bit 24 w))) n
      = bit w n"
    by cases (auto simp: u32_le_def bit_simps)
qed

lemma u16_le_to_le [le_simps, simp]:
  "u16_le (ucast w) (ucast (drop_bit 8 (w :: u16))) = w"
  by (rule bit_word_eqI) (auto simp: u16_le_def bit_simps)

lemma unat_ucast_u8_u32 [le_simps, simp]: "unat (ucast (a :: u8) :: u32) = unat a"
proof -
  have "unat a < 2 ^ LENGTH(8)" by (rule unsigned_less)
  then show ?thesis by (simp add: unsigned_ucast_eq take_bit_nat_eq_self)
qed

lemma ucast_u8_u32_inj [le_simps, simp]: "(ucast (a :: u8) :: u32) = ucast b \<longleftrightarrow> a = b"
  by (metis unat_ucast_u8_u32 unsigned_word_eqI)

lemma length_u32_to_le [simp]: "length (u32_to_le w) = 4"
  by (simp add: u32_to_le_def)

lemma length_u16_to_le [simp]: "length (u16_to_le w) = 2"
  by (simp add: u16_to_le_def)

lemma u32_at_to_le [le_simps, simp]: "u32_at (u32_to_le w) 0 = w"
  by (simp add: u32_at_def u32_to_le_def)

lemma u32_at_append_to_le [le_simps]:
  "length xs = i \<Longrightarrow> u32_at (xs @ u32_to_le w @ ys) i = w"
  by (simp add: u32_at_def u32_to_le_def nth_append)

lemma u32_at_slice [le_simps]:
  "b \<le> length xs \<Longrightarrow> i + 4 \<le> b - a \<Longrightarrow> u32_at (slice xs a b) i = u32_at xs (a + i)"
  by (simp add: u32_at_def add.assoc)

lemma u32_to_le_le: "u32_to_le (u32_le a b c d) = [a, b, c, d]"
proof -
  have small: "\<not> bit (x :: u8) (8 + n)" for x n
    by (auto dest: bit_imp_le_length)
  have "ucast (u32_le a b c d) = a" by (rule bit_word_eqI) (auto simp: u32_le_def bit_simps)
  moreover have "ucast (drop_bit 8 (u32_le a b c d)) = b"
    using small [of a] by (intro bit_word_eqI) (auto simp: u32_le_def bit_simps)
  moreover have "ucast (drop_bit 16 (u32_le a b c d)) = c"
    using small [of a "8 + _"] small [of b] by (intro bit_word_eqI) (auto simp: u32_le_def bit_simps dest: bit_imp_le_length)
  moreover have "ucast (drop_bit 24 (u32_le a b c d)) = d"
    by (intro bit_word_eqI) (auto simp: u32_le_def bit_simps dest: bit_imp_le_length)
  ultimately show ?thesis by (simp add: u32_to_le_def)
qed

lemma u32_le_inj:
  "u32_le a b c d = u32_le a' b' c' d' \<longleftrightarrow> a = a' \<and> b = b' \<and> c = c' \<and> d = d'"
proof
  assume "u32_le a b c d = u32_le a' b' c' d'"
  then have "u32_to_le (u32_le a b c d) = u32_to_le (u32_le a' b' c' d')" by simp
  then show "a = a' \<and> b = b' \<and> c = c' \<and> d = d'" by (simp add: u32_to_le_le)
qed simp

lemma u32_at_cong:
  "u32_at xs i = u32_at ys i \<longleftrightarrow>
   xs ! i = ys ! i \<and> xs ! (i + 1) = ys ! (i + 1) \<and> xs ! (i + 2) = ys ! (i + 2) \<and> xs ! (i + 3) = ys ! (i + 3)"
  by (simp add: u32_at_def u32_le_inj)

lemma u32_to_le_zero: "u32_to_le s = [0, 0, 0, 0] \<longleftrightarrow> s = 0"
proof
  assume "u32_to_le s = [0, 0, 0, 0]"
  then have "u32_at (u32_to_le s) 0 = u32_at [0, 0, 0, 0] 0" by (rule arg_cong)
  then show "s = 0" unfolding u32_at_to_le by (simp add: u32_at_def u32_le_def)
qed (simp add: u32_to_le_def)

lemma mod_reach: "slot < slots \<Longrightarrow> \<exists>j < slots. (n + j) mod slots = (slot :: nat)"
proof -
  assume s: "slot < slots"
  let ?j = "(slot + (slots - n mod slots)) mod slots"
  have "n mod slots < slots" using s by simp
  then have "(n mod slots + (slot + (slots - n mod slots))) mod slots = (slot + slots) mod slots"
    by simp
  then have "(n + ?j) mod slots = slot" using s by (metis mod_add_eq mod_add_self2 mod_less mod_mod_trivial)
  with s show ?thesis by (intro exI [of _ ?j]) simp
qed

end
