(* ===== verification/Slip.thy ===== *)
theory Slip
  imports Hidfi_Prelude
begin

section \<open>SLIP framing (crates/hidfi-flash/src/slip.rs)\<close>

text \<open>
  The byte framing under the ESP serial loader protocol: \<open>encode\<close> and the streaming \<open>Decoder\<close>,
  fed one byte at a time.  The theorems: whatever the decoder has seen before, an encoded
  non-empty frame comes out whole and leaves the decoder clean (so frames survive noise and
  a torn predecessor); a byte stream of encoded frames decodes to exactly those frames; a
  malformed escape yields nothing.
\<close>

subsection \<open>Definitions\<close>

definition END :: u8 where "END = 0xC0"
definition ESC :: u8 where "ESC = 0xDB"
definition ESC_END :: u8 where "ESC_END = 0xDC"
definition ESC_ESC :: u8 where "ESC_ESC = 0xDD"

definition escape :: "u8 \<Rightarrow> u8 list" where
  "escape b = (if b = END then [ESC, ESC_END] else if b = ESC then [ESC, ESC_ESC] else [b])"

definition encode :: "u8 list \<Rightarrow> u8 list" where
  "encode frame = END # concat (map escape frame) @ [END]"

record decoder =
  dec_buf :: "u8 list"
  dec_esc :: bool
  dec_bad :: bool
  dec_started :: bool

definition decoder_default :: decoder where
  "decoder_default = \<lparr>dec_buf = [], dec_esc = False, dec_bad = False, dec_started = False\<rparr>"

definition push :: "decoder \<Rightarrow> u8 \<Rightarrow> u8 list list \<Rightarrow> decoder \<times> u8 list list" where
  "push d byte out =
     (if byte = END then
        (\<lparr>dec_buf = [], dec_esc = False, dec_bad = False, dec_started = True\<rparr>,
         if dec_started d \<and> dec_buf d \<noteq> [] \<and> \<not> dec_bad d then out @ [dec_buf d] else out)
      else if \<not> dec_started d then (d, out)
      else if dec_esc d then
        (if byte = ESC_END then (d\<lparr>dec_esc := False, dec_buf := dec_buf d @ [END]\<rparr>, out)
         else if byte = ESC_ESC then (d\<lparr>dec_esc := False, dec_buf := dec_buf d @ [ESC]\<rparr>, out)
         else (d\<lparr>dec_esc := False, dec_bad := True\<rparr>, out))
      else if byte = ESC then (d\<lparr>dec_esc := True\<rparr>, out)
      else (d\<lparr>dec_buf := dec_buf d @ [byte]\<rparr>, out))"

text \<open>The loop every reader runs: \<open>for &b in bytes { dec.push(b, &mut out) }\<close>.\<close>

fun feed :: "decoder \<Rightarrow> u8 list \<Rightarrow> u8 list list \<Rightarrow> decoder \<times> u8 list list" where
  "feed d [] out = (d, out)"
| "feed d (b # bs) out = (case push d b out of (d', out') \<Rightarrow> feed d' bs out')"

text \<open>A decoder between two frames.\<close>

definition dec_clean :: decoder where
  "dec_clean = \<lparr>dec_buf = [], dec_esc = False, dec_bad = False, dec_started = True\<rparr>"

subsection \<open>Lemmas\<close>

lemmas slip_bytes = END_def ESC_def ESC_END_def ESC_ESC_def

lemma feed_append: "feed d (xs @ ys) out = (case feed d xs out of (d', out') \<Rightarrow> feed d' ys out')"
  by (induction xs arbitrary: d out) (auto split: prod.splits)

lemma push_END:
  "push d END out = (dec_clean,
     if dec_started d \<and> dec_buf d \<noteq> [] \<and> \<not> dec_bad d then out @ [dec_buf d] else out)"
  by (simp add: push_def dec_clean_def)

lemma push_out: "\<exists>new. snd (push d b out) = out @ new"
  by (auto simp: push_def)

lemma push_acc: "push d b (pre @ out) = (fst (push d b out), pre @ snd (push d b out))"
  by (auto simp: push_def)

lemma feed_acc: "feed d bs (pre @ out) = (fst (feed d bs out), pre @ snd (feed d bs out))"
proof (induction bs arbitrary: d out)
  case (Cons b bs)
  show ?case
    by (cases "push d b out") (simp add: push_acc Cons.IH)
qed simp

lemma feed_acc_Nil: "feed d bs out = (fst (feed d bs []), out @ snd (feed d bs []))"
  using feed_acc [of d bs out "[]"] by simp

text \<open>Escaped bytes are collected as they were, in a decoder that is inside a good frame.\<close>

lemma feed_escape:
  "feed \<lparr>dec_buf = buf, dec_esc = False, dec_bad = False, dec_started = True\<rparr> (escape b) out =
   (\<lparr>dec_buf = buf @ [b], dec_esc = False, dec_bad = False, dec_started = True\<rparr>, out)"
  by (auto simp: escape_def push_def slip_bytes)

lemma feed_escaped:
  "feed \<lparr>dec_buf = buf, dec_esc = False, dec_bad = False, dec_started = True\<rparr>
     (concat (map escape xs)) out =
   (\<lparr>dec_buf = buf @ xs, dec_esc = False, dec_bad = False, dec_started = True\<rparr>, out)"
  by (induction xs arbitrary: buf) (auto simp: feed_append feed_escape)

text \<open>An encoded frame, whatever came before: its leading END flushes what was there, and the
  frame itself follows whole.\<close>

lemma feed_encode:
  "feed d (encode frame) out =
   (dec_clean, snd (push d END out) @ (if frame = [] then [] else [frame]))"
proof -
  have "feed d (encode frame) out =
      (case feed dec_clean (concat (map escape frame)) (snd (push d END out)) of
         (d', out') \<Rightarrow> feed d' [END] out')"
    by (simp add: encode_def feed_append push_END)
  also have "feed dec_clean (concat (map escape frame)) (snd (push d END out)) =
      (\<lparr>dec_buf = frame, dec_esc = False, dec_bad = False, dec_started = True\<rparr>, snd (push d END out))"
    unfolding dec_clean_def using feed_escaped [of "[]" frame] by simp
  finally show ?thesis
    by (auto simp: push_END)
qed

lemma feed_encode_clean:
  "feed dec_clean (encode frame) out = (dec_clean, out @ (if frame = [] then [] else [frame]))"
  by (simp add: feed_encode push_END) (simp add: dec_clean_def)

lemma feed_encode_default:
  "feed decoder_default (encode frame) out = (dec_clean, out @ (if frame = [] then [] else [frame]))"
  by (simp add: feed_encode push_END) (simp add: decoder_default_def)

lemma feed_frames:
  "feed dec_clean (concat (map encode frames)) out = (dec_clean, out @ filter (\<lambda>f. f \<noteq> []) frames)"
  by (induction frames arbitrary: out) (auto simp: feed_append feed_encode_clean)

text \<open>Only the frame delimiter is ever sent unescaped, so a frame cannot be cut from inside.\<close>

lemma escape_no_END: "END \<notin> set (escape b)"
  by (auto simp: escape_def slip_bytes)

lemma length_escape: "1 \<le> length (escape b) \<and> length (escape b) \<le> 2"
  by (simp add: escape_def)

lemma length_encode:
  "length frame + 2 \<le> length (encode frame) \<and> length (encode frame) \<le> 2 * length frame + 2"
proof -
  have "length frame \<le> length (concat (map escape frame)) \<and>
      length (concat (map escape frame)) \<le> 2 * length frame"
  proof (induction frame)
    case (Cons b frame)
    then show ?case using length_escape [of b] by simp
  qed simp
  then show ?thesis by (simp add: encode_def)
qed

lemma feed_not_started:
  "END \<notin> set noise \<Longrightarrow> feed decoder_default noise out = (decoder_default, out)"
  by (induction noise) (auto simp: push_def decoder_default_def)

text \<open>Bytes that are not END never produce a frame; a bad escape stays bad until the next END.\<close>

lemma feed_no_END_out: "END \<notin> set bs \<Longrightarrow> snd (feed d bs out) = out"
  by (induction bs arbitrary: d) (auto simp: push_def)

lemma feed_bad: "END \<notin> set bs \<Longrightarrow> dec_bad d \<Longrightarrow> dec_bad (fst (feed d bs out))"
  by (induction bs arbitrary: d) (auto simp: push_def)

lemma feed_pieces:
  "foldl (\<lambda>(d, out) piece. feed d piece out) (d, out) pieces = feed d (concat pieces) out"
  by (induction pieces arbitrary: d out) (auto simp: feed_append split: prod.split)

lemma feed_frames_default:
  "frames \<noteq> [] \<Longrightarrow> feed decoder_default (concat (map encode frames)) out = (dec_clean, out @ filter (\<lambda>f. f \<noteq> []) frames)"
  by (cases frames) (auto simp: feed_append feed_encode_default feed_frames)

subsection \<open>Properties\<close>

text \<open>C16. Frames survive the wire: whatever bytes come before the first frame marker (boot noise),
  and however the serial port cuts the stream into reads, the decoder hands out exactly the
  non-empty frames that were encoded, in order, and is ready for the next one.\<close>

theorem slip_stream:
  assumes "END \<notin> set noise" and "frames \<noteq> []"
    and "concat pieces = noise @ concat (map encode frames)"
  shows "foldl (\<lambda>(d, out) piece. feed d piece out) (decoder_default, []) pieces =
    (dec_clean, filter (\<lambda>f. f \<noteq> []) frames)"
  using assms by (simp add: feed_pieces feed_append feed_not_started feed_frames_default)

theorem slip_stream_witness:
  "foldl (\<lambda>(d, out) piece. feed d piece out) (decoder_default, [])
     [[0x41], [0xC0, 0xDB], [0xDC, 0x01, 0xC0, 0xC0], [0xDB, 0xDD, 0xC0]] =
   (dec_clean, [[0xC0, 0x01], [0xDB]])"
  using slip_stream [of "[0x41]" "[[0xC0, 0x01], [0xDB]]"
      "[[0x41], [0xC0, 0xDB], [0xDC, 0x01, 0xC0, 0xC0], [0xDB, 0xDD, 0xC0]]"]
  by (simp add: encode_def escape_def slip_bytes)

text \<open>A frame damaged by an escape byte that is followed by neither of the two escape codes is
  dropped whole, up to the next marker, and the frames after it are not affected.\<close>

theorem slip_bad_escape:
  assumes "b \<noteq> END" and "b \<noteq> ESC_END" and "b \<noteq> ESC_ESC" and "END \<notin> set rest"
  shows "feed dec_clean (concat (map escape good) @ [ESC, b] @ rest @ [END] @ concat (map encode frames)) out =
    (dec_clean, out @ filter (\<lambda>f. f \<noteq> []) frames)"
proof -
  define d where "d = fst (feed dec_clean (concat (map escape good) @ [ESC, b]) out)"
  have esc: "END \<noteq> ESC" "ESC \<noteq> END" by (simp_all add: slip_bytes)
  have start: "feed dec_clean (concat (map escape good) @ [ESC, b]) out = (d, out)" and bad: "dec_bad d"
    using assms esc feed_escaped [of "[]" good out]
    by (simp_all add: d_def feed_append dec_clean_def push_def)
  obtain d' where "feed d rest out = (d', out)"
    using feed_no_END_out [OF assms(4), of d out] by (metis prod.collapse)
  moreover from this have "dec_bad d'" using feed_bad [OF assms(4) bad, of out] by simp
  ultimately have "feed d (rest @ [END]) out = (dec_clean, out)"
    by (simp add: feed_append push_END)
  with start have "feed dec_clean ((concat (map escape good) @ [ESC, b]) @ (rest @ [END]) @ concat (map encode frames)) out =
      (dec_clean, out @ filter (\<lambda>f. f \<noteq> []) frames)"
    by (simp only: feed_append prod.case feed_frames)
  then show ?thesis by simp
qed

theorem slip_bad_escape_witness:
  "feed dec_clean ([0x01] @ [0xDB, 0x02] @ [0x03] @ [0xC0] @ [0xC0, 0x07, 0xC0]) [] = (dec_clean, [[0x07]])"
  using slip_bad_escape [of "0x02" "[0x03]" "[0x01]" "[[0x07]]" "[]"]
  by (simp add: encode_def escape_def slip_bytes)

end
