(* ===== verification/Loader_Proto.thy ===== *)
theory Loader_Proto
  imports Slip
begin

section \<open>The ESP serial loader protocol (crates/hidfi-flash/src/proto.rs)\<close>

text \<open>
  The closed set of operations the flasher can send, the named register writes, the checksum
  and the two frame formats with their parsers.  The theorems: the forbidden opcodes are not
  operations and no request frame carries one; \<open>Op::from_u8\<close> inverts the opcode; no named
  register write touches the eFuse block; a request parses back to what was sent; the
  checksum detects every change of one byte.
\<close>

subsection \<open>Definitions\<close>

datatype op = FlashBegin | FlashData | FlashEnd | MemBegin | MemEnd | MemData | Sync | WriteReg
  | ReadReg | SpiSetParams | SpiAttach | ChangeBaudrate | SpiFlashMd5 | GetSecurityInfo | ReadFlash

fun op_code :: "op \<Rightarrow> u8" where
  "op_code FlashBegin = 0x02"
| "op_code FlashData = 0x03"
| "op_code FlashEnd = 0x04"
| "op_code MemBegin = 0x05"
| "op_code MemEnd = 0x06"
| "op_code MemData = 0x07"
| "op_code Sync = 0x08"
| "op_code WriteReg = 0x09"
| "op_code ReadReg = 0x0A"
| "op_code SpiSetParams = 0x0B"
| "op_code SpiAttach = 0x0D"
| "op_code ChangeBaudrate = 0x0F"
| "op_code SpiFlashMd5 = 0x13"
| "op_code GetSecurityInfo = 0x14"
| "op_code ReadFlash = 0xD2"

definition forbidden :: "(u8 \<times> string) list" where
  "forbidden = [(0xD0, ''ERASE_FLASH - wipes every setting''),
     (0xD1, ''ERASE_REGION - erases outside a checked write''),
     (0x10, ''FLASH_DEFL_BEGIN - not needed''),
     (0x11, ''FLASH_DEFL_DATA - not needed''),
     (0x12, ''FLASH_DEFL_END - not needed'')]"

definition all_ops :: "op list" where
  "all_ops = [FlashBegin, FlashData, FlashEnd, MemBegin, MemEnd, MemData, Sync, WriteReg, ReadReg,
     SpiSetParams, SpiAttach, ChangeBaudrate, SpiFlashMd5, GetSecurityInfo, ReadFlash]"

definition op_from_u8 :: "u8 \<Rightarrow> op option" where
  "op_from_u8 b = find (\<lambda>o'. op_code o' = b) all_ops"

datatype safe_write = ClearForceDownload

definition RTC_CNTL_OPTION1_REG :: u32 where "RTC_CNTL_OPTION1_REG = 0x6000812C"

definition EFUSE_RANGE :: "u32 \<times> u32" where "EFUSE_RANGE = (0x60007000, 0x60008000)"

definition safe_write_all :: "safe_write list" where "safe_write_all = [ClearForceDownload]"

fun safe_target :: "safe_write \<Rightarrow> u32 \<times> u32 \<times> u32" where
  "safe_target ClearForceDownload = (RTC_CNTL_OPTION1_REG, 0, 0x1)"

definition safe_payload :: "safe_write \<Rightarrow> u8 list" where
  "safe_payload w = (case safe_target w of (a, v, m) \<Rightarrow> concat (map u32_to_le [a, v, m, 0]))"

definition checksum :: "u8 list \<Rightarrow> u32" where
  "checksum data = ucast (foldl (XOR) (0xEF :: u8) data)"

text \<open>\<open>data.len() as u16\<close> keeps the low 16 bits.\<close>

definition request :: "op \<Rightarrow> u8 list \<Rightarrow> u32 \<Rightarrow> u8 list" where
  "request op data chk =
     [0x00, op_code op] @ u16_to_le (of_nat (length data)) @ u32_to_le chk @ data"

record response =
  rsp_op :: u8
  rsp_value :: u32
  rsp_data :: "u8 list"

definition rsp_status :: "response \<Rightarrow> nat \<Rightarrow> (u8 \<times> u8) option" where
  "rsp_status r expected =
     (case slice_opt (rsp_data r) expected (expected + 2) of
        None \<Rightarrow> None
      | Some s \<Rightarrow> Some (s ! 0, s ! 1))"

definition parse_response :: "u8 list \<Rightarrow> response option" where
  "parse_response frame =
     (if length frame < 8 \<or> frame ! 0 \<noteq> 0x01 then None
      else
        let len = unat (u16_le (frame ! 2) (frame ! 3));
            value = u32_at frame 4
        in case slice_opt frame 8 (8 + len) of
             None \<Rightarrow> None
           | Some data \<Rightarrow> Some \<lparr>rsp_op = frame ! 1, rsp_value = value, rsp_data = data\<rparr>)"

record loader_request =
  req_op :: u8
  req_chk :: u32
  req_data :: "u8 list"

definition parse_request :: "u8 list \<Rightarrow> loader_request option" where
  "parse_request frame =
     (if length frame < 8 \<or> frame ! 0 \<noteq> 0x00 then None
      else
        let len = unat (u16_le (frame ! 2) (frame ! 3));
            chk = u32_at frame 4
        in case slice_opt frame 8 (8 + len) of
             None \<Rightarrow> None
           | Some data \<Rightarrow> Some \<lparr>req_op = frame ! 1, req_chk = chk, req_data = data\<rparr>)"

subsection \<open>Lemmas\<close>

lemma op_from_u8_code [simp]: "op_from_u8 (op_code op) = Some op"
  by (cases op) (simp_all add: op_from_u8_def all_ops_def)

lemma op_from_u8_Some: "op_from_u8 b = Some op \<Longrightarrow> op_code op = b"
  by (auto simp: op_from_u8_def find_Some_iff)

lemma op_code_inj: "op_code a = op_code b \<longleftrightarrow> a = b"
  by (metis op_from_u8_code option.inject)

lemma op_code_not_forbidden: "op_code op \<notin> fst ` set forbidden"
  by (cases op) (simp_all add: forbidden_def)

lemma forbidden_not_op: "b \<in> fst ` set forbidden \<Longrightarrow> op_from_u8 b = None"
  using op_code_not_forbidden op_from_u8_Some by (cases "op_from_u8 b") auto

lemma length_request [simp]: "length (request op data chk) = 8 + length data"
  by (simp add: request_def)

lemma request_neq_Nil [simp]: "request op data chk \<noteq> []"
  by (simp add: request_def)

lemma request_nth: "request op data chk ! 0 = 0" "request op data chk ! Suc 0 = op_code op"
  by (simp_all add: request_def)

lemma request_slice: "slice (request op data chk) 8 (8 + length data) = data"
  by (simp add: request_def slice_def u16_to_le_def u32_to_le_def)

lemma parse_request_request:
  assumes "length data < 65536"
  shows "parse_request (request op data chk) =
    Some \<lparr>req_op = op_code op, req_chk = chk, req_data = data\<rparr>"
proof -
  have len: "u16_le (request op data chk ! 2) (request op data chk ! 3) = of_nat (length data)"
    by (simp add: request_def u16_to_le_def)
  have chk: "u32_at (request op data chk) 4 = chk"
    by (simp add: request_def u16_to_le_def u32_to_le_def u32_at_def)
  have "unat (of_nat (length data) :: u16) = length data"
    using assms by (simp add: unat_of_nat)
  then show ?thesis
    by (simp add: parse_request_def len chk Let_def slice_opt_def request_slice request_nth)
qed

lemma parse_request_op:
  "parse_request (request op data chk) = Some r \<Longrightarrow> req_op r = op_code op"
  by (auto simp: parse_request_def Let_def request_nth split: if_splits option.splits)

lemma parse_response_reply:
  assumes "length data < 65536"
  shows "parse_response ([0x01, op] @ u16_to_le (of_nat (length data)) @ u32_to_le value @ data) =
    Some \<lparr>rsp_op = op, rsp_value = value, rsp_data = data\<rparr>"
proof -
  let ?f = "[0x01, op] @ u16_to_le (of_nat (length data)) @ u32_to_le value @ data"
  have "u16_le (?f ! 2) (?f ! 3) = of_nat (length data)"
    by (simp add: u16_to_le_def)
  moreover have "u32_at ?f 4 = value"
    by (simp add: u16_to_le_def u32_to_le_def u32_at_def)
  moreover have "unat (of_nat (length data) :: u16) = length data"
    using assms by (simp add: unat_of_nat)
  moreover have "slice ?f 8 (8 + length data) = data"
    by (simp add: slice_def u16_to_le_def u32_to_le_def)
  ultimately show ?thesis
    by (simp add: parse_response_def Let_def slice_opt_def)
qed

lemma safe_write_target: "safe_target w = (RTC_CNTL_OPTION1_REG, 0, 1)"
  by (cases w) simp

lemma foldl_xor: "foldl (XOR) (a :: u8) xs = a XOR foldl (XOR) 0 xs"
  by (induction xs arbitrary: a) (simp, metis foldl_Cons xor.assoc xor.left_neutral)

lemma checksum_append: "checksum (xs @ b # ys) = checksum (xs @ c # ys) \<longleftrightarrow> b = c"
proof -
  have eq: "foldl (XOR) 0xEF (xs @ x # ys) =
      (foldl (XOR) 0xEF xs XOR foldl (XOR) 0 ys) XOR (x :: u8)" for x
    using foldl_xor [of "foldl (XOR) 0xEF xs XOR x" ys] by (simp add: xor.assoc xor.commute [of x])
  have "checksum (xs @ b # ys) = checksum (xs @ c # ys) \<longleftrightarrow>
      foldl (XOR) 0xEF (xs @ b # ys) = foldl (XOR) 0xEF (xs @ c # ys)"
    unfolding checksum_def by (rule ucast_u8_u32_inj)
  also have "\<dots> \<longleftrightarrow> b = c"
    unfolding eq by (metis bit.xor_left_self)
  finally show ?thesis .
qed

subsection \<open>Properties\<close>

text \<open>C17. What the flasher sends is what the chip reads: every request with a payload that fits the
  16-bit length field is parsed back to its operation, checksum and payload, and its opcode is
  never one of the forbidden ones (erase the chip, erase a region, compressed writes).\<close>

theorem request_roundtrip:
  assumes "length data < 65536"
  shows "\<exists>req. parse_request (request op data chk) = Some req \<and> op_from_u8 (req_op req) = Some op \<and>
    req_op req \<notin> fst ` set forbidden \<and> req_chk req = chk \<and> req_data req = data"
  using parse_request_request [OF assms] op_code_not_forbidden by (simp del: op_code.simps)

theorem request_roundtrip_witness:
  "\<exists>req. parse_request (request FlashData [1, 2, 3] 0xEF) = Some req \<and> op_from_u8 (req_op req) = Some FlashData \<and>
    req_op req \<notin> fst ` set forbidden \<and> req_chk req = 0xEF \<and> req_data req = [1, 2, 3]"
  by (rule request_roundtrip) simp

text \<open>The only register writes that have a name go to the RTC register, outside the eFuse range,
  and change a single bit.\<close>

theorem safe_write_not_efuse:
  "\<forall>w. case safe_target w of (addr, value, msk) \<Rightarrow>
     \<not> (fst EFUSE_RANGE \<le> addr \<and> addr < snd EFUSE_RANGE) \<and> msk = 1 \<and> value AND NOT msk = 0"
proof
  fix w
  show "case safe_target w of (addr, value, msk) \<Rightarrow>
     \<not> (fst EFUSE_RANGE \<le> addr \<and> addr < snd EFUSE_RANGE) \<and> msk = 1 \<and> value AND NOT msk = 0"
    by (cases w) (simp add: EFUSE_RANGE_def RTC_CNTL_OPTION1_REG_def)
qed

text \<open>A data block with exactly one changed byte never passes the loader's checksum.\<close>

theorem checksum_detects_byte:
  "checksum (before @ b # after) = checksum (before @ c # after) \<longleftrightarrow> b = c"
  by (rule checksum_append)

end
