(* ===== verification/Image.thy ===== *)
theory Image
  imports Hidfi_Prelude
begin

unbundle bit_operations_syntax

section \<open>What is on a board's flash (crates/hidfi-flash/src/image.rs)\<close>

text \<open>
  The partition table, \<open>otadata\<close> (which slot the bootloader starts) and app images.  MD5 and
  SHA-256 come from crates outside the repository, so they are arguments.  The theorems: a table
  parses only when it is closed by a matching MD5 entry or an erased one, and its names come from
  whole entries; the CRC protects the sequence number; \<open>otadata_switch\<close> always ends on an existing
  slot, makes the bootloader choose that slot with the given state, and writes only the sector that
  does not hold the current choice, so that a torn write leaves the old choice standing.
\<close>

subsection \<open>UTF-8 as the standard library reads it\<close>

text \<open>\<open>String::from_utf8_lossy\<close>: one step reads a whole character, or the longest prefix of one
  that stays invalid, which is replaced by U+FFFD.  The result is (valid, bytes consumed).\<close>

definition is_cont :: "u8 list \<Rightarrow> nat \<Rightarrow> bool" where
  "is_cont bs i \<longleftrightarrow> i < length bs \<and> 0x80 \<le> bs ! i \<and> bs ! i \<le> 0xBF"

definition second_ok :: "u8 \<Rightarrow> u8 \<Rightarrow> bool" where
  "second_ok a b \<longleftrightarrow>
     (if a = 0xE0 then 0xA0 \<le> b \<and> b \<le> 0xBF
      else if a = 0xED then 0x80 \<le> b \<and> b \<le> 0x9F
      else if a = 0xF0 then 0x90 \<le> b \<and> b \<le> 0xBF
      else if a = 0xF4 then 0x80 \<le> b \<and> b \<le> 0x8F
      else 0x80 \<le> b \<and> b \<le> 0xBF)"

definition utf8_step :: "u8 list \<Rightarrow> bool \<times> nat" where
  "utf8_step bs =
     (case bs of
        [] \<Rightarrow> (False, 1)
      | a # _ \<Rightarrow>
          if a < 0x80 then (True, 1)
          else if 0xC2 \<le> a \<and> a \<le> 0xDF then
            (if is_cont bs 1 then (True, 2) else (False, 1))
          else if 0xE0 \<le> a \<and> a \<le> 0xEF then
            (if \<not> (1 < length bs \<and> second_ok a (bs ! 1)) then (False, 1)
             else if is_cont bs 2 then (True, 3) else (False, 2))
          else if 0xF0 \<le> a \<and> a \<le> 0xF4 then
            (if \<not> (1 < length bs \<and> second_ok a (bs ! 1)) then (False, 1)
             else if \<not> is_cont bs 2 then (False, 2)
             else if is_cont bs 3 then (True, 4) else (False, 3))
          else (False, 1))"

lemma utf8_step_pos: "0 < snd (utf8_step bs)"
  by (auto simp: utf8_step_def split: list.splits)

function utf8_lossy :: "u8 list \<Rightarrow> string" where
  "utf8_lossy bs =
     (if bs = [] then []
      else (if fst (utf8_step bs) then map chr (take (snd (utf8_step bs)) bs)
            else map chr [0xEF, 0xBF, 0xBD])
           @ utf8_lossy (drop (snd (utf8_step bs)) bs))"
  by pat_completeness auto
termination
  by (relation "measure length") (use utf8_step_pos in auto)

declare utf8_lossy.simps [simp del]

text \<open>\<open>str::from_utf8\<close> accepts exactly the bytes every step of which is valid.\<close>

function utf8_valid :: "u8 list \<Rightarrow> bool" where
  "utf8_valid bs =
     (if bs = [] then True
      else if fst (utf8_step bs) then utf8_valid (drop (snd (utf8_step bs)) bs) else False)"
  by pat_completeness auto
termination
  by (relation "measure length") (use utf8_step_pos in auto)

declare utf8_valid.simps [simp del]

text \<open>\<open>trim_end_matches('\0')\<close>.\<close>

definition trim_end_nul :: "string \<Rightarrow> string" where
  "trim_end_nul s = rev (dropWhile (\<lambda>c. c = char_of (0::nat)) (rev s))"

subsection \<open>The partition table\<close>

definition TABLE_OFFSET :: u32 where "TABLE_OFFSET = 0x8000"
definition TABLE_LEN :: nat where "TABLE_LEN = 0xC00"
definition OTADATA_SECTOR :: nat where "OTADATA_SECTOR = 0x1000"
definition ESP32S3_CHIP_ID :: u16 where "ESP32S3_CHIP_ID = 9"
definition ID_WINDOW :: nat where "ID_WINDOW = 0x1000"

record partition =
  pt_name :: string
  pt_ptype :: u8
  pt_subtype :: u8
  pt_offset :: u32
  pt_size :: u32

definition table_row :: "u8 list \<Rightarrow> partition" where
  "table_row e = \<lparr>pt_name = trim_end_nul (utf8_lossy (slice e 12 28)),
     pt_ptype = e ! 2, pt_subtype = e ! 3, pt_offset = u32_at e 4, pt_size = u32_at e 8\<rparr>"

text \<open>The loop over the 32-byte entries: \<open>i\<close> is the entry, the third argument counts what is left.\<close>

fun parse_rows ::
  "(u8 list \<Rightarrow> u8 list) \<Rightarrow> u8 list \<Rightarrow> nat \<Rightarrow> nat \<Rightarrow> partition list \<Rightarrow> partition list option" where
  "parse_rows md5 data i 0 out = None"
| "parse_rows md5 data i (Suc k) out =
     (let e = slice data (i * 32) (i * 32 + 32) in
      if (e ! 0, e ! 1) = (0xAA, 0x50) then parse_rows md5 data (Suc i) k (out @ [table_row e])
      else if (e ! 0, e ! 1) = (0xEB, 0xEB) then
        (if md5 (take (i * 32) data) = slice e 16 32 \<and> out \<noteq> [] then Some out else None)
      else if (e ! 0, e ! 1) = (0xFF, 0xFF) then
        (if out \<noteq> [] then Some out else None)
      else None)"

definition parse_table :: "(u8 list \<Rightarrow> u8 list) \<Rightarrow> u8 list \<Rightarrow> partition list option" where
  "parse_table md5 data = parse_rows md5 data 0 (length data div 32) []"

definition app_slots :: "partition list \<Rightarrow> partition list" where
  "app_slots table = filter (\<lambda>p. pt_ptype p = 0 \<and> 0x10 \<le> pt_subtype p \<and> pt_subtype p < 0x20) table"

subsection \<open>otadata\<close>

definition OTA_NEW :: u32 where "OTA_NEW = 0"
definition PENDING_VERIFY :: u32 where "PENDING_VERIFY = 1"
definition OTA_VALID :: u32 where "OTA_VALID = 2"
definition OTA_INVALID :: u32 where "OTA_INVALID = 3"
definition ABORTED :: u32 where "ABORTED = 4"
definition UNDEFINED :: u32 where "UNDEFINED = 0xFFFFFFFF"

definition crc_bit :: "u32 \<Rightarrow> u32" where
  "crc_bit crc = (if crc AND 1 \<noteq> 0 then drop_bit 1 crc XOR 0xEDB88320 else drop_bit 1 crc)"

definition crc_byte :: "u32 \<Rightarrow> u8 \<Rightarrow> u32" where
  "crc_byte crc b = (crc_bit ^^ 8) (crc XOR ucast b)"

definition otadata_crc :: "u32 \<Rightarrow> u32" where
  "otadata_crc s = NOT (foldl crc_byte 0 (u32_to_le s))"

definition otadata_entry :: "u32 \<Rightarrow> u32 \<Rightarrow> u8 list" where
  "otadata_entry s state =
     splice (splice (splice (replicate 32 0xFF) 0 (u32_to_le s)) 24 (u32_to_le state))
       28 (u32_to_le (otadata_crc s))"

record choice =
  ch_sector :: nat
  ch_seq :: u32
  ch_slot :: nat
  ch_state :: u32

text \<open>The entry of one sector, when the bootloader would count it.\<close>

definition otadata_sector :: "u8 list \<Rightarrow> nat \<Rightarrow> nat \<Rightarrow> choice option" where
  "otadata_sector data slots sector =
     (let e = slice data (sector * OTADATA_SECTOR) (sector * OTADATA_SECTOR + 32);
          s = u32_at e 0; state = u32_at e 24; crc = u32_at e 28
      in if s = 0xFFFFFFFF \<or> crc \<noteq> otadata_crc s \<or> state = OTA_INVALID \<or> state = ABORTED then None
         else Some \<lparr>ch_sector = sector, ch_seq = s, ch_slot = unat (s - 1) mod slots, ch_state = state\<rparr>)"

definition better :: "choice option \<Rightarrow> choice option \<Rightarrow> choice option" where
  "better best c = (case c of
     None \<Rightarrow> best
   | Some n \<Rightarrow> (case best of None \<Rightarrow> Some n | Some b \<Rightarrow> if ch_seq b < ch_seq n then Some n else best))"

definition otadata_choice :: "u8 list \<Rightarrow> nat \<Rightarrow> choice option" where
  "otadata_choice data slots =
     (if slots = 0 \<or> length data < 2 * OTADATA_SECTOR then None
      else better (better None (otadata_sector data slots 0)) (otadata_sector data slots 1))"

text \<open>\<open>while (seq.wrapping_sub(1) as usize) % slots != slot { seq += 1 }\<close>, in wrapping (release)
  arithmetic.  The loop never ends when \<open>slot\<close> is not a slot; otherwise \<open>2 * slots + 1\<close> rounds are
  enough, the second \<open>slots\<close> of them for a wrap of the counter.\<close>

fun seek_seq :: "nat \<Rightarrow> u32 \<Rightarrow> nat \<Rightarrow> nat \<Rightarrow> u32 option" where
  "seek_seq 0 s slots slot = None"
| "seek_seq (Suc k) s slots slot =
     (if unat (s - 1) mod slots = slot then Some s else seek_seq k (s + 1) slots slot)"

definition otadata_switch :: "u8 list \<Rightarrow> nat \<Rightarrow> u32 \<Rightarrow> nat \<Rightarrow> (unit, u8 list) outcome" where
  "otadata_switch data slot state slots0 =
     (let slots = max slots0 1;
          cur = otadata_choice data slots;
          seq0 = (case cur of None \<Rightarrow> 0 | Some c \<Rightarrow> ch_seq c) + 1
      in case seek_seq (2 * slots + 1) seq0 slots slot of
           None \<Rightarrow> OutOfFuel
         | Some s \<Rightarrow>
             (let other = (case cur of None \<Rightarrow> 0 | Some c \<Rightarrow> 1 - ch_sector c) in
              if length data < (other + 1) * OTADATA_SECTOR then Panic
              else Ok (splice (splice data (other * OTADATA_SECTOR) (replicate OTADATA_SECTOR 0xFF))
                         (other * OTADATA_SECTOR) (otadata_entry s state))))"

subsection \<open>App images\<close>

record image_id =
  id_chip :: u16
  id_version :: "string option"

definition is_ascii_graphic :: "u8 \<Rightarrow> bool" where
  "is_ascii_graphic b \<longleftrightarrow> 0x21 \<le> b \<and> b \<le> 0x7E"

text \<open>\<open>windows(n).position(|w| w == pat)\<close> for a pattern of length \<open>n\<close>.\<close>

fun find_window :: "u8 list \<Rightarrow> u8 list \<Rightarrow> nat option" where
  "find_window pat [] = (if pat = [] then Some 0 else None)"
| "find_window pat (x # xs) =
     (if take (length pat) (x # xs) = pat then Some 0 else map_option Suc (find_window pat xs))"

definition identify :: "u8 list \<Rightarrow> image_id option" where
  "identify head =
     (if length head < 24 \<or> head ! 0 \<noteq> 0xE9 then None
      else
        let window = take (min (length head) ID_WINDOW) head;
            version = map_option (\<lambda>i.
              let rest = drop i window;
                  e = (case position (\<lambda>b. b = 0 \<or> \<not> is_ascii_graphic b) rest of
                         Some e \<Rightarrow> e | None \<Rightarrow> length rest)
              in utf8_lossy (take e rest)) (find_window (bytes ''hid_fi_v'') window)
        in Some \<lparr>id_chip = u16_le (head ! 12) (head ! 13), id_version = version\<rparr>)"

text \<open>The walk over the segment headers: the end of the last one, or nothing when one leaves the image.\<close>

fun segments_end :: "u8 list \<Rightarrow> nat \<Rightarrow> nat \<Rightarrow> nat option" where
  "segments_end img 0 pos = Some pos"
| "segments_end img (Suc k) pos =
     (if length img < pos + 8 then None
      else let pos' = pos + 8 + unat (u32_at img (pos + 4)) in
           if length img < pos' then None else segments_end img k pos')"

text \<open>\<open>(pos + 16) & !15\<close>.\<close>

definition pad16 :: "nat \<Rightarrow> nat" where
  "pad16 pos = (pos + 16) div 16 * 16"

definition image_is_valid :: "(u8 list \<Rightarrow> u8 list) \<Rightarrow> u8 list \<Rightarrow> bool" where
  "image_is_valid sha256 img =
     (if length img < 24 \<or> img ! 0 \<noteq> 0xE9 then False
      else case segments_end img (unat (img ! 1)) 24 of
             None \<Rightarrow> False
           | Some p \<Rightarrow>
               let pos = pad16 p in
               if img ! 23 \<noteq> 1 then pos \<le> length img
               else if length img < pos + 32 then False
               else sha256 (take pos img) = slice img pos (pos + 32))"

subsection \<open>The otadata write as power sees it\<close>

definition switch_sector :: "u8 list \<Rightarrow> nat \<Rightarrow> nat" where
  "switch_sector data slots = (case otadata_choice data slots of None \<Rightarrow> 0 | Some c \<Rightarrow> 1 - ch_sector c)"

text \<open>What the flash holds when power was lost after \<open>k\<close> bytes of the new sector: erased flash
  (0xFF) beyond them.\<close>

definition torn_switch :: "u8 list \<Rightarrow> nat \<Rightarrow> u8 list \<Rightarrow> nat \<Rightarrow> u8 list" where
  "torn_switch data slots entry k =
     splice (splice data (switch_sector data slots * OTADATA_SECTOR) (replicate OTADATA_SECTOR 0xFF))
       (switch_sector data slots * OTADATA_SECTOR) (take k entry)"

definition cut_entry :: "u8 list \<Rightarrow> nat \<Rightarrow> u8 list" where
  "cut_entry entry k = take k entry @ replicate (32 - k) 0xFF"

text \<open>The sequence numbers stay below the counter's end: the next one to be written exists.\<close>

definition seq_room :: "u8 list \<Rightarrow> nat \<Rightarrow> bool" where
  "seq_room data slots \<longleftrightarrow>
     (case otadata_choice data slots of None \<Rightarrow> 1 | Some c \<Rightarrow> unat (ch_seq c) + 1) + slots < 2 ^ 32"

text \<open>A table entry as esptool writes it, for the round trip: the name padded with zero bytes.\<close>

definition name_ok :: "string \<Rightarrow> bool" where
  "name_ok n \<longleftrightarrow> length n \<le> 16 \<and> list_all (\<lambda>c. 0 < (of_char c :: nat) \<and> (of_char c :: nat) < 128) n"

definition row_bytes :: "partition \<Rightarrow> u8 list" where
  "row_bytes p = [0xAA, 0x50, pt_ptype p, pt_subtype p] @ u32_to_le (pt_offset p) @ u32_to_le (pt_size p)
     @ resize (bytes (pt_name p)) 16 0 @ [0, 0, 0, 0]"

subsection \<open>Lemmas: CRC and sequence numbers\<close>

lemma crc_bit_inv:
  assumes "\<not> bit (crc_bit x) 31"
  shows "x = push_bit 1 (crc_bit x)"
proof -
  have b31: "bit (drop_bit 1 x) 31 = False"
    by (auto simp: bit_simps dest: bit_imp_le_length)
  have "crc_bit x = drop_bit 1 x" and even: "\<not> bit x 0"
    using assms b31
    by (auto simp: crc_bit_def bit_simps and_one_eq odd_iff_mod_2_eq_one[symmetric] bit_0 split: if_splits)
  moreover have "push_bit 1 (drop_bit 1 x) = x"
  proof (rule bit_word_eqI)
    fix n assume "n < LENGTH(32)"
    then show "bit (push_bit 1 (drop_bit 1 x)) n = bit x n"
      using even unfolding bit_push_bit_iff bit_drop_bit_eq by (cases n) auto
  qed
  ultimately show ?thesis by simp
qed

text \<open>Running the register backwards: a result without its top bits came from a plain shift.\<close>

lemma crc_bits_inv:
  assumes "(crc_bit ^^ n) x = y" and "\<And>i. bit y i \<Longrightarrow> i < 32 - n"
  shows "x = push_bit n y"
  using assms
proof (induction n arbitrary: x)
  case (Suc n)
  have "(crc_bit ^^ n) (crc_bit x) = y"
    using Suc.prems(1) by (simp add: funpow_swap1)
  moreover have "\<And>i. bit y i \<Longrightarrow> i < 32 - n"
    using Suc.prems(2) by fastforce
  ultimately have eq: "crc_bit x = push_bit n y"
    by (rule Suc.IH)
  have "\<not> bit (push_bit n y) 31"
    using Suc.prems(2) [of "31 - n"] by (auto simp: bit_simps)
  with crc_bit_inv [of x] eq have "x = push_bit 1 (push_bit n y)" by simp
  then show ?case by simp
qed simp

lemma crc_byte_inv:
  assumes "crc_byte c b = y" and "\<And>i. bit y i \<Longrightarrow> i < 24"
  shows "c = push_bit 8 y XOR ucast b"
proof -
  have "c XOR ucast b = push_bit 8 y"
    using crc_bits_inv [of 8 "c XOR ucast b" y] assms by (simp add: crc_byte_def)
  then have "(c XOR ucast b) XOR ucast b = push_bit 8 y XOR ucast b" by simp
  then show ?thesis by (simp add: xor.assoc)
qed

lemma crc_zero:
  assumes "foldl crc_byte 0 [a, b, c, d] = 0"
  shows "a = 0 \<and> b = 0 \<and> c = 0 \<and> d = 0"
proof -
  define c1 c2 c3 where "c1 = crc_byte 0 a" and "c2 = crc_byte c1 b" and "c3 = crc_byte c2 c"
  have c3: "c3 = ucast d"
    using crc_byte_inv [of c3 d 0] assms by (simp add: c1_def c2_def c3_def)
  have s3: "i < 8" if "bit c3 i" for i
    using that by (auto simp: c3 bit_simps dest: bit_imp_le_length)
  have c2: "c2 = push_bit 8 c3 XOR ucast c"
    by (rule crc_byte_inv) (simp add: c3_def, use s3 in fastforce)
  have s2: "i < 16" if "bit c2 i" for i
    using that s3 [of "i - 8"] by (auto simp: c2 bit_simps dest: bit_imp_le_length)
  have c1: "c1 = push_bit 8 c2 XOR ucast b"
    by (rule crc_byte_inv) (simp add: c2_def, use s2 in fastforce)
  have s1: "i < 24" if "bit c1 i" for i
    using that s2 [of "i - 8"] by (auto simp: c1 bit_simps dest: bit_imp_le_length)
  have 0: "0 = push_bit 8 c1 XOR (ucast a :: u32)"
    by (rule crc_byte_inv) (simp add: c1_def, use s1 in fastforce)
  have low: "z = 0" if "push_bit 8 x XOR (ucast z :: u32) = 0" for x :: u32 and z :: u8
  proof (rule bit_word_eqI)
    fix n assume "n < LENGTH(8)"
    moreover have "bit (push_bit 8 x XOR (ucast z :: u32)) n = False" using that by simp
    ultimately show "bit z n = bit 0 n" by (auto simp: bit_simps)
  qed
  have high: "x = 0" if "push_bit 8 x = (0 :: u32)" and "\<And>i. bit x i \<Longrightarrow> i < 24" for x
  proof (rule bit_word_eqI)
    fix n assume "n < LENGTH(32)"
    have "bit (push_bit 8 x) (n + 8) = False" using that(1) by simp
    then show "bit x n = bit 0 n" using that(2) [of n] by (auto simp: bit_simps)
  qed
  have a: "a = 0" using low 0 by metis
  then have "c1 = 0" using high [of c1] 0 s1 by simp
  then have b: "b = 0" using low c1 by metis
  then have "c2 = 0" using high [of c2] c1 \<open>c1 = 0\<close> s2 by fastforce
  then have c: "c = 0" using low c2 by metis
  then have "c3 = 0" using high [of c3] c2 \<open>c2 = 0\<close> s3 by fastforce
  then have "d = 0" using c3 ucast_u8_u32_inj [of d 0] by simp
  with a b c show ?thesis by simp
qed

lemma otadata_crc_FF: "otadata_crc s = 0xFFFFFFFF \<longleftrightarrow> s = 0"
proof -
  have not: "NOT x = 0xFFFFFFFF \<longleftrightarrow> x = 0" for x :: u32
  proof -
    have "(0xFFFFFFFF :: u32) = NOT 0" by simp
    then show ?thesis by (metis bit.double_compl)
  qed
  have "foldl crc_byte 0 (u32_to_le s) = 0 \<longleftrightarrow> s = 0"
  proof
    assume "foldl crc_byte 0 (u32_to_le s) = 0"
    then show "s = 0"
      using crc_zero [of "u32_to_le s ! 0" "u32_to_le s ! 1" "u32_to_le s ! 2" "u32_to_le s ! 3"]
        u32_to_le_zero [of s]
      by (simp add: u32_to_le_def)
  qed (simp add: u32_to_le_def crc_byte_def crc_bit_def numeral_eq_Suc)
  then show ?thesis by (simp add: otadata_crc_def not)
qed

lemma otadata_entry_eq:
  "otadata_entry s state =
     u32_to_le s @ replicate 20 0xFF @ u32_to_le state @ u32_to_le (otadata_crc s)"
  by (simp add: otadata_entry_def splice_def flip: replicate_add)

lemma length_otadata_entry [simp]: "length (otadata_entry s state) = 32"
  by (simp add: otadata_entry_eq)

lemma otadata_entry_fields:
  "u32_at (otadata_entry s state) 0 = s"
  "u32_at (otadata_entry s state) 24 = state"
  "u32_at (otadata_entry s state) 28 = otadata_crc s"
  by (simp_all add: otadata_entry_eq u32_at_def u32_to_le_def nth_append)

lemma seek_found:
  assumes "unat (s + of_nat j - 1) mod slots = slot" and "j < n"
  shows "\<exists>i \<le> j. seek_seq n s slots slot = Some (s + of_nat i) \<and> unat (s + of_nat i - 1) mod slots = slot"
  using assms
proof (induction n arbitrary: s j)
  case (Suc n)
  show ?case
  proof (cases "unat (s - 1) mod slots = slot")
    case True
    then show ?thesis by (intro exI [of _ 0]) simp
  next
    case False
    with Suc.prems(1) have "j \<noteq> 0" by (cases j) auto
    then obtain j' where j: "j = Suc j'" by (cases j) auto
    with Suc.prems have "unat ((s + 1) + of_nat j' - 1) mod slots = slot" and "j' < n"
      by (simp_all add: algebra_simps)
    from Suc.IH [OF this] obtain i where "i \<le> j'"
      and "seek_seq n (s + 1) slots slot = Some ((s + 1) + of_nat i)"
      and "unat ((s + 1) + of_nat i - 1) mod slots = slot" by blast
    with False j show ?thesis by (intro exI [of _ "Suc i"]) (simp add: algebra_simps)
  qed
qed simp

lemma seek_no_wrap:
  assumes "slot < slots" and "1 \<le> unat s" and "unat s + slots \<le> 2 ^ 32" and "slots \<le> n"
  obtains s' where "seek_seq n s slots slot = Some s'" and "unat (s' - 1) mod slots = slot"
    and "unat s \<le> unat s'" and "unat s' < unat s + slots"
proof -
  obtain j where j: "j < slots" "(unat s - 1 + j) mod slots = slot"
    using mod_reach [OF assms(1)] by blast
  have val: "unat (s + of_nat i) = unat s + i" if "i < slots" for i
    using that assms(3) by (simp add: unat_word_ariths unat_of_nat)
  have val1: "unat (s + of_nat i - 1) = unat s - 1 + i" if "i < slots" for i
  proof -
    have "1 \<le> s + of_nat i" using val [OF that] assms(2) by (simp add: word_le_nat_alt)
    then show ?thesis using val [OF that] assms(2) by (simp add: unat_sub)
  qed
  have "unat (s + of_nat j - 1) mod slots = slot" using val1 j by simp
  from seek_found [OF this, of n] j(1) assms(4) obtain i where "i \<le> j"
    and "seek_seq n s slots slot = Some (s + of_nat i)" "unat (s + of_nat i - 1) mod slots = slot"
    by fastforce
  then show ?thesis using that val [of i] j(1) by auto
qed

lemma seek_total:
  assumes "slot < slots" and "slots < 2 ^ 32"
  shows "\<exists>s'. seek_seq (2 * slots + 1) s slots slot = Some s' \<and> unat (s' - 1) mod slots = slot"
proof (cases "1 \<le> unat s \<and> unat s + slots \<le> 2 ^ 32")
  case True
  obtain s' where "seek_seq (2 * slots + 1) s slots slot = Some s'" "unat (s' - 1) mod slots = slot"
    by (rule seek_no_wrap [of slot slots s "2 * slots + 1"]) (use True assms in auto)
  then show ?thesis by blast
next
  case False
  define j where "j = (if unat s = 0 then slot + 1 else 2 ^ 32 - unat s + slot + 1)"
  have lt: "unat s < 2 ^ LENGTH(32)" by (rule unsigned_less)
  then have "of_nat (2 ^ 32 - unat s) = (of_nat (2 ^ 32) :: u32) - of_nat (unat s)"
    by (intro of_nat_diff) simp
  also have "\<dots> = - s" by simp
  finally have "of_nat (2 ^ 32 - unat s) = - s" .
  then have "s + of_nat j - 1 = of_nat slot"
    by (cases "unat s = 0") (simp_all add: j_def unat_eq_zero algebra_simps)
  then have "unat (s + of_nat j - 1) mod slots = slot"
    using assms by (simp add: unat_of_nat)
  moreover have "j < 2 * slots + 1"
    using False assms by (auto simp: j_def)
  ultimately show ?thesis using seek_found by blast
qed

lemma otadata_sector_slice:
  assumes "sector < 2" and "2 * OTADATA_SECTOR \<le> length d" and "2 * OTADATA_SECTOR \<le> length d'"
    and "slice d (sector * OTADATA_SECTOR) (sector * OTADATA_SECTOR + 32) =
         slice d' (sector * OTADATA_SECTOR) (sector * OTADATA_SECTOR + 32)"
  shows "otadata_sector d slots sector = otadata_sector d' slots sector"
  using assms by (simp add: otadata_sector_def)

lemma otadata_sector_Some:
  "otadata_sector d slots sector = Some c \<Longrightarrow>
   ch_sector c = sector \<and> ch_seq c \<noteq> 0xFFFFFFFF \<and> ch_slot c = unat (ch_seq c - 1) mod slots \<and>
   ch_state c \<noteq> OTA_INVALID \<and> ch_state c \<noteq> ABORTED"
  by (auto simp: otadata_sector_def Let_def split: if_splits)

lemma otadata_choice_sectors:
  "slots \<noteq> 0 \<Longrightarrow> 2 * OTADATA_SECTOR \<le> length d \<Longrightarrow> otadata_choice d slots =
     better (better None (otadata_sector d slots 0)) (otadata_sector d slots 1)"
  by (simp add: otadata_choice_def)

lemma otadata_choice_sector:
  assumes "otadata_choice d slots = Some c"
  shows "ch_sector c < 2 \<and> otadata_sector d slots (ch_sector c) = Some c \<and>
    slots \<noteq> 0 \<and> 2 * OTADATA_SECTOR \<le> length d"
  using assms otadata_sector_Some [of d slots 0] otadata_sector_Some [of d slots 1]
  by (auto simp: otadata_choice_def better_def split: if_splits option.splits)

lemma otadata_choice_slot:
  "otadata_choice d slots = Some c \<Longrightarrow> ch_slot c < slots"
  using otadata_choice_sector [of d slots c] otadata_sector_Some [of d slots "ch_sector c" c] by auto

text \<open>When the sector not holding the choice counts for nothing, the choice stands.\<close>

lemma choice_other_None:
  assumes "slots \<noteq> 0" and "2 * OTADATA_SECTOR \<le> length d" and "2 * OTADATA_SECTOR \<le> length d'"
    and "other = (case otadata_choice d slots of None \<Rightarrow> 0 | Some c \<Rightarrow> 1 - ch_sector c)"
    and "otadata_sector d' slots (1 - other) = otadata_sector d slots (1 - other)"
    and "otadata_sector d' slots other = None"
  shows "otadata_choice d' slots = otadata_choice d slots"
proof (cases "otadata_choice d slots")
  case None
  then have "otadata_sector d slots 0 = None" and "otadata_sector d slots 1 = None"
    using assms(1,2) by (auto simp: otadata_choice_sectors better_def split: option.splits if_splits)
  with None assms show ?thesis by (simp add: otadata_choice_sectors better_def)
next
  case (Some c)
  from otadata_choice_sector [OF Some] have s: "ch_sector c = 0 \<or> ch_sector c = 1"
    and "otadata_sector d slots (ch_sector c) = Some c" by auto
  with Some assms show ?thesis by (auto simp: otadata_choice_sectors better_def)
qed

text \<open>A higher sequence number in the other sector wins.\<close>

lemma choice_other_newer:
  assumes "slots \<noteq> 0" and "2 * OTADATA_SECTOR \<le> length d" and "2 * OTADATA_SECTOR \<le> length d'"
    and "other = (case otadata_choice d slots of None \<Rightarrow> 0 | Some c \<Rightarrow> 1 - ch_sector c)"
    and "otadata_sector d' slots (1 - other) = otadata_sector d slots (1 - other)"
    and "otadata_sector d' slots other = Some n"
    and "\<And>c. otadata_choice d slots = Some c \<Longrightarrow> ch_seq c < ch_seq n"
  shows "otadata_choice d' slots = Some n"
proof (cases "otadata_choice d slots")
  case None
  then have "otadata_sector d slots 0 = None" and "otadata_sector d slots 1 = None"
    using assms(1,2) by (auto simp: otadata_choice_sectors better_def split: option.splits if_splits)
  with None assms show ?thesis by (simp add: otadata_choice_sectors better_def)
next
  case (Some c)
  from otadata_choice_sector [OF Some] have s: "ch_sector c = 0 \<or> ch_sector c = 1"
    and sec: "otadata_sector d slots (ch_sector c) = Some c" by auto
  from assms(7) [OF Some] have "ch_seq c < ch_seq n" .
  with s sec Some assms show ?thesis by (auto simp: otadata_choice_sectors better_def)
qed

lemma switch_sector_less: "switch_sector data slots < 2"
  by (auto simp: switch_sector_def split: option.splits)

lemma length_torn [simp]:
  assumes "2 * OTADATA_SECTOR \<le> length data" and "length entry = 32"
  shows "length (torn_switch data slots entry k) = length data"
  using assms switch_sector_less [of data slots]
  by (auto simp: torn_switch_def OTADATA_SECTOR_def less_2_cases_iff)

text \<open>The new sector's first 32 bytes after the cut, and the other sector untouched.\<close>

lemma torn_slice:
  assumes "2 * OTADATA_SECTOR \<le> length data" and "length entry = 32" and "k \<le> 32"
  shows "slice (torn_switch data slots entry k) (switch_sector data slots * OTADATA_SECTOR)
      (switch_sector data slots * OTADATA_SECTOR + 32) = take k entry @ replicate (32 - k) 0xFF"
proof (rule nth_equalityI)
  let ?o = "switch_sector data slots * OTADATA_SECTOR"
  have o: "?o + 4096 \<le> length data"
    using assms(1) switch_sector_less [of data slots] by (auto simp: OTADATA_SECTOR_def less_2_cases_iff)
  then show "length (slice (torn_switch data slots entry k) ?o (?o + 32)) =
      length (take k entry @ replicate (32 - k) 0xFF)"
    using assms by (simp add: min_def)
  fix i assume "i < length (slice (torn_switch data slots entry k) ?o (?o + 32))"
  with o assms have i: "i < 32" by simp
  with o assms show "slice (torn_switch data slots entry k) ?o (?o + 32) ! i =
      (take k entry @ replicate (32 - k) 0xFF) ! i"
    by (simp add: torn_switch_def nth_splice OTADATA_SECTOR_def nth_append)
qed

lemma torn_other:
  assumes "2 * OTADATA_SECTOR \<le> length data" and "length entry = 32" and "k \<le> 32"
  shows "otadata_sector (torn_switch data slots entry k) n (1 - switch_sector data slots) =
         otadata_sector data n (1 - switch_sector data slots)"
proof (rule otadata_sector_slice)
  let ?o = "switch_sector data slots * OTADATA_SECTOR" and ?p = "(1 - switch_sector data slots) * OTADATA_SECTOR"
  have cases: "(?o = 0 \<and> ?p = 4096) \<or> (?o = 4096 \<and> ?p = 0)"
    using switch_sector_less [of data slots] by (auto simp: OTADATA_SECTOR_def less_2_cases_iff)
  show "slice (torn_switch data slots entry k) ?p (?p + 32) = slice data ?p (?p + 32)"
    using cases assms unfolding torn_switch_def
    by (auto simp: slice_splice_other OTADATA_SECTOR_def)
qed (use assms in auto)

lemma otadata_switch_eq:
  assumes "2 * OTADATA_SECTOR \<le> length data" and "0 < slots"
    and "seek_seq (2 * slots + 1) ((case otadata_choice data slots of None \<Rightarrow> 0 | Some c \<Rightarrow> ch_seq c) + 1)
           slots slot = Some s"
  shows "otadata_switch data slot state slots = Ok (torn_switch data slots (otadata_entry s state) 32)"
proof -
  have "max slots 1 = slots" using assms(2) by simp
  moreover have "(switch_sector data slots + 1) * OTADATA_SECTOR \<le> length data"
    using assms(1) switch_sector_less [of data slots] by (auto simp: OTADATA_SECTOR_def less_2_cases_iff)
  ultimately show ?thesis
    using assms(3) unfolding otadata_switch_def Let_def
    by (simp add: torn_switch_def switch_sector_def not_less)
qed

lemma cut_entry_nth: "length entry = 32 \<Longrightarrow> i < 32 \<Longrightarrow> cut_entry entry k ! i = (if i < k then entry ! i else 0xFF)"
  by (auto simp: cut_entry_def nth_append)

lemma length_cut_entry [simp]: "length entry = 32 \<Longrightarrow> k \<le> 32 \<Longrightarrow> length (cut_entry entry k) = 32"
  by (simp add: cut_entry_def)

text \<open>An entry cut short is either not valid (its CRC does not match) or lost nothing: the
  missing bytes were 0xFF anyway.\<close>

lemma cut_entry_crc:
  assumes "s \<noteq> 0" and "k \<le> 32"
    and crc: "u32_at (cut_entry (otadata_entry s state) k) 28 = otadata_crc (u32_at (cut_entry (otadata_entry s state) k) 0)"
  shows "cut_entry (otadata_entry s state) k = otadata_entry s state"
proof (cases "k \<le> 28")
  case True
  let ?e = "cut_entry (otadata_entry s state) k"
  have "u32_at ?e 28 = u32_at [0xFF, 0xFF, 0xFF, 0xFF] 0"
    using True by (simp add: u32_at_def cut_entry_nth)
  also have "\<dots> = 0xFFFFFFFF" by (simp add: u32_at_def u32_le_def)
  finally have z: "u32_at ?e 0 = 0" using crc otadata_crc_FF by metis
  have "u32_at [0, 0, 0, 0] 0 = 0" by (simp add: u32_at_def u32_le_def)
  with z have "u32_at ?e 0 = u32_at [0, 0, 0, 0] 0" by simp
  then have "?e ! 3 = 0" unfolding u32_at_cong by simp
  then have "3 < k" by (simp add: cut_entry_nth split: if_splits)
  then have "u32_at ?e 0 = s"
    using otadata_entry_fields(1) [of s state] by (simp add: u32_at_def cut_entry_nth)
  with z assms(1) show ?thesis by simp
next
  case False
  let ?e = "cut_entry (otadata_entry s state) k"
  have "u32_at ?e 0 = s"
    using False otadata_entry_fields(1) [of s state] by (simp add: u32_at_def cut_entry_nth)
  then have "u32_at ?e 28 = u32_at (otadata_entry s state) 28"
    using crc by (simp add: otadata_entry_fields)
  then have tail: "?e ! 28 = otadata_entry s state ! 28" "?e ! 29 = otadata_entry s state ! 29"
     "?e ! 30 = otadata_entry s state ! 30" "?e ! 31 = otadata_entry s state ! 31"
    unfolding u32_at_cong by simp_all
  show ?thesis
  proof (rule nth_equalityI)
    fix i assume "i < length ?e"
    then consider "i < 28" | "i = 28" | "i = 29" | "i = 30" | "i = 31" using assms(2) by fastforce
    then show "?e ! i = otadata_entry s state ! i"
      using False tail by cases (auto simp: cut_entry_nth)
  qed (use assms in simp)
qed

lemma torn_sector:
  assumes "2 * OTADATA_SECTOR \<le> length data" and "k \<le> 32" and "length entry = 32"
  shows "otadata_sector (torn_switch data slots entry k) n (switch_sector data slots) =
    (let e = cut_entry entry k; s = u32_at e 0; state = u32_at e 24; crc = u32_at e 28
     in if s = 0xFFFFFFFF \<or> crc \<noteq> otadata_crc s \<or> state = OTA_INVALID \<or> state = ABORTED then None
        else Some \<lparr>ch_sector = switch_sector data slots, ch_seq = s, ch_slot = unat (s - 1) mod n, ch_state = state\<rparr>)"
  unfolding otadata_sector_def cut_entry_def torn_slice [OF assms(1) assms(3) assms(2)] ..

lemma switch_seek:
  assumes "seq_room data slots" and "slot < slots"
  obtains s where "seek_seq (2 * slots + 1)
      ((case otadata_choice data slots of None \<Rightarrow> 0 | Some c \<Rightarrow> ch_seq c) + 1) slots slot = Some s"
    and "unat (s - 1) mod slots = slot" and "s \<noteq> 0" and "s \<noteq> 0xFFFFFFFF"
    and "\<And>c. otadata_choice data slots = Some c \<Longrightarrow> ch_seq c < s"
proof -
  define s0 where "s0 = (case otadata_choice data slots of None \<Rightarrow> 0 | Some c \<Rightarrow> ch_seq c) + 1"
  have u0: "unat s0 = (case otadata_choice data slots of None \<Rightarrow> 1 | Some c \<Rightarrow> unat (ch_seq c) + 1)"
    using assms(1) by (auto simp: s0_def seq_room_def unat_word_ariths split: option.splits)
  obtain s where "seek_seq (2 * slots + 1) s0 slots slot = Some s" "unat (s - 1) mod slots = slot"
    and s: "unat s0 \<le> unat s" "unat s < unat s0 + slots"
  proof (rule seek_no_wrap [of slot slots s0 "2 * slots + 1"])
    show "1 \<le> unat s0" using u0 by (simp split: option.splits)
    show "unat s0 + slots \<le> 2 ^ 32" using assms(1) u0 by (simp add: seq_room_def)
  qed (use assms(2) in auto)
  moreover have "s \<noteq> 0" using s u0 by (auto split: option.splits)
  moreover have "s \<noteq> 0xFFFFFFFF"
    using s assms(1) u0 by (auto simp: seq_room_def)
  moreover have "ch_seq c < s" if "otadata_choice data slots = Some c" for c
    using s(1) u0 that by (simp add: word_less_nat_alt)
  ultimately show ?thesis using that unfolding s0_def by blast
qed

lemma otadata_switch_choice:
  assumes len: "2 * OTADATA_SECTOR \<le> length data" and slot: "slot < slots"
    and st: "state \<noteq> OTA_INVALID" "state \<noteq> ABORTED" and room: "seq_room data slots"
  shows "\<exists>out s. otadata_switch data slot state slots = Ok out \<and>
    out = torn_switch data slots (otadata_entry s state) 32 \<and> s \<noteq> 0 \<and>
    otadata_choice out slots = Some \<lparr>ch_sector = switch_sector data slots, ch_seq = s,
       ch_slot = slot, ch_state = state\<rparr>"
proof -
  obtain s where seek: "seek_seq (2 * slots + 1)
      ((case otadata_choice data slots of None \<Rightarrow> 0 | Some c \<Rightarrow> ch_seq c) + 1) slots slot = Some s"
    and s: "unat (s - 1) mod slots = slot" "s \<noteq> 0" "s \<noteq> 0xFFFFFFFF"
    and newer: "\<And>c. otadata_choice data slots = Some c \<Longrightarrow> ch_seq c < s"
    using switch_seek [OF room slot] by blast
  let ?out = "torn_switch data slots (otadata_entry s state) 32"
  let ?c = "\<lparr>ch_sector = switch_sector data slots, ch_seq = s, ch_slot = slot, ch_state = state\<rparr>"
  have slots: "slots \<noteq> 0" using slot by simp
  have sec: "otadata_sector ?out slots (switch_sector data slots) = Some ?c"
    using s st by (simp add: torn_sector [OF len] cut_entry_def Let_def otadata_entry_fields)
  have "otadata_choice ?out slots = Some ?c"
    by (rule choice_other_newer [OF slots len _ _ torn_other [OF len] sec])
      (use len newer in \<open>auto simp: switch_sector_def\<close>)
  with otadata_switch_eq [OF len _ seek] slots s(2) show ?thesis by auto
qed

lemma splice_cut_entry:
  assumes "cut_entry e k = e" and "length e = 32" and "k \<le> 32" and "32 \<le> S" and "o' + S \<le> length d"
  shows "splice (splice d o' (replicate S 0xFF)) o' (take k e) =
    splice (splice d o' (replicate S 0xFF)) o' e"
proof (rule nth_equalityI)
  fix i assume "i < length (splice (splice d o' (replicate S 0xFF)) o' (take k e))"
  moreover have "o' \<le> i \<and> i < o' + 32 \<longrightarrow> e ! (i - o') = (if i < o' + k then e ! (i - o') else 0xFF)"
  proof
    assume "o' \<le> i \<and> i < o' + 32"
    then have i: "i - o' < 32" and "(i - o' < k) = (i < o' + k)" by auto
    then show "e ! (i - o') = (if i < o' + k then e ! (i - o') else 0xFF)"
      using cut_entry_nth [OF assms(2) i, of k] assms(1) by metis
  qed
  ultimately show "splice (splice d o' (replicate S 0xFF)) o' (take k e) ! i =
      splice (splice d o' (replicate S 0xFF)) o' e ! i"
    using assms by (auto simp: nth_splice min_absorb2 split: if_splits)
qed (use assms in simp)

lemma otadata_switch_torn:
  assumes len: "2 * OTADATA_SECTOR \<le> length data" and "0 < slots" and "s \<noteq> 0" and "k \<le> 32"
  shows "otadata_choice (torn_switch data slots (otadata_entry s state) k) slots = otadata_choice data slots \<or>
    torn_switch data slots (otadata_entry s state) k = torn_switch data slots (otadata_entry s state) 32"
proof (cases "cut_entry (otadata_entry s state) k = otadata_entry s state")
  case True
  have "torn_switch data slots (otadata_entry s state) k = torn_switch data slots (otadata_entry s state) 32"
    unfolding torn_switch_def
    by (subst splice_cut_entry [OF True]) (use len switch_sector_less [of data slots] in
        \<open>auto simp: OTADATA_SECTOR_def less_2_cases_iff assms(4)\<close>)
  then show ?thesis ..
next
  case False
  with cut_entry_crc [OF assms(3,4)]
  have none: "otadata_sector (torn_switch data slots (otadata_entry s state) k) slots (switch_sector data slots) = None"
    by (auto simp: torn_sector [OF len assms(4)] Let_def)
  have "otadata_choice (torn_switch data slots (otadata_entry s state) k) slots = otadata_choice data slots"
    by (rule choice_other_None [OF _ len _ _ torn_other [OF len] none])
      (use assms in \<open>auto simp: switch_sector_def\<close>)
  then show ?thesis ..
qed

lemma otadata_switch_total:
  assumes "slot < slots" and "slots < 2 ^ 32" and "2 * OTADATA_SECTOR \<le> length data"
  shows "\<exists>out. otadata_switch data slot state slots = Ok out \<and> length out = length data"
proof -
  obtain s where "seek_seq (2 * slots + 1)
      ((case otadata_choice data slots of None \<Rightarrow> 0 | Some c \<Rightarrow> ch_seq c) + 1) slots slot = Some s"
    using seek_total [OF assms(1,2)] by blast
  from otadata_switch_eq [OF assms(3) _ this, of state] assms(1)
  have "otadata_switch data slot state slots = Ok (torn_switch data slots (otadata_entry s state) 32)" by simp
  moreover have "length (torn_switch data slots (otadata_entry s state) 32) = length data"
    using assms(3) switch_sector_less [of data slots]
    by (auto simp: torn_switch_def OTADATA_SECTOR_def less_2_cases_iff otadata_entry_def)
  ultimately show ?thesis by blast
qed

subsection \<open>Lemmas: names, tables and versions\<close>

lemma utf8_lossy_ascii: "\<forall>b \<in> set bs. b < 0x80 \<Longrightarrow> utf8_lossy bs = map chr bs"
proof (induction bs)
  case (Cons b bs)
  then show ?case by (subst utf8_lossy.simps) (simp add: utf8_step_def)
qed (simp add: utf8_lossy.simps)

lemma of_char_u8_less: "(of_char c :: nat) < 128 \<Longrightarrow> (of_char c :: u8) < 0x80"
  by (simp add: word_less_nat_alt)

lemma find_window_take: "find_window pat xs = Some i \<Longrightarrow> take (length pat) (drop i xs) = pat"
  by (induction xs arbitrary: i) (auto split: if_splits)

lemma length_row_bytes [simp]: "length (row_bytes p) = 32"
  by (simp add: row_bytes_def)

lemma row_bytes_head [simp]: "row_bytes p ! 0 = 0xAA" "row_bytes p ! Suc 0 = 0x50"
  by (simp_all add: row_bytes_def)

lemma dropWhile_replicate_append: "P x \<Longrightarrow> dropWhile P (replicate n x @ ys) = dropWhile P ys"
  by (induction n) simp_all

lemma trim_padded:
  assumes "name_ok n" shows "trim_end_nul (n @ replicate k (char_of (0 :: nat))) = n"
proof -
  have "dropWhile (\<lambda>c. c = char_of (0 :: nat)) (rev n) = rev n"
  proof (cases "rev n")
    case (Cons c cs)
    then have "c \<in> set n" by (metis list.set_intros(1) set_rev)
    with assms have "0 < (of_char c :: nat)" by (simp add: name_ok_def list_all_iff)
    then have "c \<noteq> char_of (0 :: nat)" by (metis less_irrefl of_char_of mod_0)
    with Cons show ?thesis by simp
  qed simp
  then show ?thesis by (simp add: trim_end_nul_def dropWhile_replicate_append)
qed

lemma table_row_bytes:
  assumes "name_ok (pt_name p)" shows "table_row (row_bytes p) = p"
proof -
  let ?n = "resize (bytes (pt_name p)) 16 0 :: u8 list"
  have name: "slice (row_bytes p) 12 28 = ?n"
    by (simp add: row_bytes_def slice_def u32_to_le_def)
  have short: "?n = bytes (pt_name p) @ replicate (16 - length (pt_name p)) 0"
    using assms by (simp add: resize_def name_ok_def)
  have "\<forall>b \<in> set ?n. b < 0x80"
    unfolding short using assms of_char_u8_less by (auto simp: bytes_def name_ok_def list_all_iff)
  then have "utf8_lossy ?n = pt_name p @ replicate (16 - length (pt_name p)) (char_of (0 :: nat))"
    by (simp add: utf8_lossy_ascii) (simp add: short chr_def)
  then have "trim_end_nul (utf8_lossy ?n) = pt_name p"
    using trim_padded [OF assms] by simp
  moreover have "u32_at (row_bytes p) 4 = pt_offset p" "u32_at (row_bytes p) 8 = pt_size p"
    "row_bytes p ! 2 = pt_ptype p" "row_bytes p ! 3 = pt_subtype p"
    by (simp_all add: row_bytes_def u32_at_def u32_to_le_def)
  ultimately show ?thesis by (simp add: table_row_def name)
qed

lemma parse_rows_prefix:
  assumes "data = concat (map row_bytes ps) @ rest" and "\<forall>p \<in> set ps. name_ok (pt_name p)"
    and "i + length todo = length ps" and "drop i ps = todo"
  shows "parse_rows md5 data i (length todo + k) out = parse_rows md5 data (length ps) k (out @ todo)"
  using assms(3,4)
proof (induction todo arbitrary: i out)
  case (Cons p todo)
  then have i: "i < length ps" "ps ! i = p" by (auto simp: nth_via_drop)
  have "slice data (i * 32) (i * 32 + 32) = row_bytes p"
    unfolding assms(1) using slice_block [of "map row_bytes ps" 32 i rest] i by simp
  moreover have "name_ok (pt_name p)" using assms(2) i by auto
  moreover have "drop (Suc i) ps = todo" using Cons.prems(2) by (metis drop_Suc drop_tl list.sel(3))
  ultimately show ?case using Cons.IH [of "Suc i" "out @ [p]"] Cons.prems(1)
    by (simp add: table_row_bytes Let_def)
qed simp

lemma parse_table_closing:
  assumes "\<forall>p \<in> set ps. name_ok (pt_name p)" and "length closing = 32"
  shows "parse_table md5 (concat (map row_bytes ps) @ closing @ rest) =
    (if (closing ! 0, closing ! 1) = (0xAA, 0x50) then parse_rows md5 (concat (map row_bytes ps) @ closing @ rest)
        (Suc (length ps)) (length rest div 32) (ps @ [table_row closing])
     else if (closing ! 0, closing ! 1) = (0xEB, 0xEB) then
        (if md5 (concat (map row_bytes ps)) = slice closing 16 32 \<and> ps \<noteq> [] then Some ps else None)
     else if (closing ! 0, closing ! 1) = (0xFF, 0xFF) \<and> ps \<noteq> [] then Some ps else None)"
proof -
  let ?d = "concat (map row_bytes ps) @ closing @ rest"
  have len: "length (concat (map row_bytes ps)) = length ps * 32"
    using length_concat_block [of "map row_bytes ps" 32] by simp
  have "slice ?d (length ps * 32) (length ps * 32 + 32) = closing"
    using assms(2) len by (simp add: slice_def)
  moreover have "take (length ps * 32) ?d = concat (map row_bytes ps)" using len by simp
  moreover have "length ?d div 32 = length ps + Suc (length rest div 32)" using len assms(2) by simp
  ultimately show ?thesis
    using parse_rows_prefix [of ?d ps "closing @ rest" 0 ps md5 "Suc (length rest div 32)" "[]"] assms(1)
    by (simp add: parse_table_def Let_def)
qed

lemma find_window_len: "find_window pat xs = Some i \<Longrightarrow> pat \<noteq> [] \<Longrightarrow> i + length pat \<le> length xs"
proof (induction xs arbitrary: i)
  case (Cons x xs)
  show ?case
  proof (cases "take (length pat) (x # xs) = pat")
    case True
    then have "length pat \<le> length (x # xs)" by (metis length_take min.cobounded1)
    with True Cons.prems show ?thesis by simp
  next
    case False
    with Cons show ?thesis by auto
  qed
qed simp

lemma graphic_prefix:
  fixes rest :: "u8 list"
  defines "e \<equiv> (case position (\<lambda>b. b = 0 \<or> \<not> is_ascii_graphic b) rest of Some e \<Rightarrow> e | None \<Rightarrow> length rest)"
  shows "\<forall>b \<in> set (take e rest). is_ascii_graphic b"
    and "\<And>n. \<forall>b \<in> set (take n rest). b \<noteq> 0 \<and> is_ascii_graphic b \<Longrightarrow> n \<le> length rest \<Longrightarrow> n \<le> e"
proof -
  show "\<forall>b \<in> set (take e rest). is_ascii_graphic b"
  proof
    fix b assume "b \<in> set (take e rest)"
    then obtain j where j: "j < e" "j < length rest" "rest ! j = b" by (auto simp: in_set_conv_nth)
    then show "is_ascii_graphic b"
      using position_first [of _ rest] position_None [of _ rest]
      by (auto simp: e_def split: option.splits)
  qed
  fix n assume n: "\<forall>b \<in> set (take n rest). b \<noteq> 0 \<and> is_ascii_graphic b" "n \<le> length rest"
  show "n \<le> e"
  proof (rule ccontr)
    assume "\<not> n \<le> e"
    with n(2) obtain p: "position (\<lambda>b. b = 0 \<or> \<not> is_ascii_graphic b) rest = Some e" and "e < n"
      by (auto simp: e_def split: option.splits)
    moreover have "rest ! e \<in> set (take n rest)"
      using \<open>e < n\<close> n(2) by (metis in_set_conv_nth length_take min.absorb2 nth_take)
    ultimately show False using position_Some [OF p] n(1) by auto
  qed
qed

lemma take_min_length: "take (min (length xs) n) xs = take n xs"
  by (simp add: min_def)

lemma graphic_less: "is_ascii_graphic b \<Longrightarrow> b < 0x80"
  by (auto simp: is_ascii_graphic_def word_le_nat_alt word_less_nat_alt)

lemma erased_choice: "otadata_choice (replicate 8192 0xFF) 2 = None"
proof -
  have "otadata_sector (replicate 8192 0xFF) 2 0 = None" "otadata_sector (replicate 8192 0xFF) 2 1 = None"
    by (simp_all add: otadata_sector_def OTADATA_SECTOR_def u32_at_def u32_le_def slice_def Let_def)
  then show ?thesis by (simp add: otadata_choice_def better_def OTADATA_SECTOR_def)
qed

lemma erased_room: "seq_room (replicate 8192 0xFF) 2"
  by (simp add: seq_room_def erased_choice)

subsection \<open>Properties\<close>

text \<open>The switch works: on otadata of two sectors whose sequence numbers have room, switching to an
  existing slot with a live state ends, leaves the bootloader choosing exactly that slot with that
  state, and changes only the sector that does not hold the current choice.\<close>

theorem switch_selects_slot:
  assumes "2 * OTADATA_SECTOR \<le> length data" and "slot < slots"
    and "state \<noteq> OTA_INVALID" and "state \<noteq> ABORTED" and "seq_room data slots"
  shows "\<exists>out c. otadata_switch data slot state slots = Ok out \<and> otadata_choice out slots = Some c \<and>
    ch_slot c = slot \<and> ch_state c = state \<and> ch_sector c = switch_sector data slots \<and>
    otadata_sector out slots (1 - switch_sector data slots) = otadata_sector data slots (1 - switch_sector data slots)"
proof -
  obtain out s where "otadata_switch data slot state slots = Ok out"
    and out: "out = torn_switch data slots (otadata_entry s state) 32"
    and "otadata_choice out slots = Some \<lparr>ch_sector = switch_sector data slots, ch_seq = s,
       ch_slot = slot, ch_state = state\<rparr>"
    using otadata_switch_choice [OF assms] by blast
  with torn_other [OF assms(1)] show ?thesis by fastforce
qed

theorem switch_selects_slot_witness:
  "\<exists>out c. otadata_switch (replicate 8192 0xFF) 1 OTA_NEW 2 = Ok out \<and> otadata_choice out 2 = Some c \<and>
    ch_slot c = 1 \<and> ch_state c = OTA_NEW \<and> ch_sector c = switch_sector (replicate 8192 0xFF) 2 \<and>
    otadata_sector out 2 (1 - switch_sector (replicate 8192 0xFF) 2) =
      otadata_sector (replicate 8192 0xFF) 2 (1 - switch_sector (replicate 8192 0xFF) 2)"
  by (rule switch_selects_slot)
    (simp_all add: erased_room OTADATA_SECTOR_def OTA_NEW_def OTA_INVALID_def ABORTED_def)

text \<open>C3. The switch is atomic under power loss: cut after any number of bytes of the new entry, the
  bootloader still makes the choice it made before, or it makes the new one; there is no third
  outcome.\<close>

theorem switch_torn_write:
  assumes "2 * OTADATA_SECTOR \<le> length data" and "slot < slots"
    and "state \<noteq> OTA_INVALID" and "state \<noteq> ABORTED" and "seq_room data slots"
  shows "\<exists>s out. otadata_switch data slot state slots = Ok out \<and>
    out = torn_switch data slots (otadata_entry s state) 32 \<and>
    (\<forall>k \<le> 32. let now = otadata_choice (torn_switch data slots (otadata_entry s state) k) slots in
       now = otadata_choice data slots \<or> now = otadata_choice out slots)"
proof -
  obtain out s where "otadata_switch data slot state slots = Ok out" and "s \<noteq> 0"
    and "out = torn_switch data slots (otadata_entry s state) 32"
    using otadata_switch_choice [OF assms] by blast
  then show ?thesis
    using otadata_switch_torn [OF assms(1), of slots s _ state] assms(2)
    by (metis gr_implies_not_zero neq0_conv)
qed

theorem switch_torn_write_witness:
  "\<exists>s out. otadata_switch (replicate 8192 0xFF) 1 OTA_NEW 2 = Ok out \<and>
    out = torn_switch (replicate 8192 0xFF) 2 (otadata_entry s OTA_NEW) 32 \<and>
    (\<forall>k \<le> 32. let now = otadata_choice (torn_switch (replicate 8192 0xFF) 2 (otadata_entry s OTA_NEW) k) 2 in
       now = otadata_choice (replicate 8192 0xFF) 2 \<or> now = otadata_choice out 2)"
  by (rule switch_torn_write)
    (simp_all add: erased_room OTADATA_SECTOR_def OTA_NEW_def OTA_INVALID_def ABORTED_def)

text \<open>C15. The search for the next sequence number ends for every existing slot, also when the counter
  wraps, and the result has the length of the input: \<open>otadata_switch\<close> neither hangs nor panics.\<close>

theorem switch_terminates:
  assumes "slot < slots" and "slots < 2 ^ 32" and "2 * OTADATA_SECTOR \<le> length data"
  shows "\<exists>out. otadata_switch data slot state slots = Ok out \<and> length out = length data"
  by (rule otadata_switch_total [OF assms])

theorem switch_terminates_witness:
  "\<exists>out. otadata_switch (replicate 8192 0xFF) 0 OTA_VALID 2 = Ok out \<and> length out = length (replicate 8192 (0xFF :: u8))"
  by (rule switch_terminates) (simp_all add: OTADATA_SECTOR_def)

text \<open>Partition tables round trip: the entries of a table closed by an erased entry, or by the MD5
  of exactly the entries before it, are read back as they were; with any other MD5 the table is
  refused.\<close>

theorem table_roundtrip:
  assumes "\<forall>p \<in> set ps. name_ok (pt_name p)" and "ps \<noteq> []" and "length pad = 14" and "length digest = 16"
  shows "parse_table md5 (concat (map row_bytes ps) @ replicate 32 0xFF @ rest) = Some ps \<and>
    parse_table md5 (concat (map row_bytes ps) @ ([0xEB, 0xEB] @ pad @ digest) @ rest) =
      (if digest = md5 (concat (map row_bytes ps)) then Some ps else None)"
proof
  have "slice ([0xEB, 0xEB] @ pad @ digest) 16 32 = digest"
    using assms(3,4) by (simp add: slice_def)
  then show "parse_table md5 (concat (map row_bytes ps) @ ([0xEB, 0xEB] @ pad @ digest) @ rest) =
      (if digest = md5 (concat (map row_bytes ps)) then Some ps else None)"
    using parse_table_closing [OF assms(1), of "[0xEB, 0xEB] @ pad @ digest" md5 rest] assms by auto
  show "parse_table md5 (concat (map row_bytes ps) @ replicate 32 0xFF @ rest) = Some ps"
    using parse_table_closing [OF assms(1), of "replicate 32 0xFF" md5 rest] assms(2) by simp
qed

theorem table_roundtrip_witness:
  "let ps = [\<lparr>pt_name = ''app0'', pt_ptype = 0, pt_subtype = 0x10, pt_offset = 0x10000, pt_size = 0x640000\<rparr>] in
   parse_table (\<lambda>_. replicate 16 7) (concat (map row_bytes ps) @ replicate 32 0xFF @ []) = Some ps \<and>
   parse_table (\<lambda>_. replicate 16 7)
     (concat (map row_bytes ps) @ ([0xEB, 0xEB] @ replicate 14 0xFF @ replicate 16 8) @ []) = None"
  using table_roundtrip [of "[\<lparr>pt_name = ''app0'', pt_ptype = 0, pt_subtype = 0x10,
        pt_offset = 0x10000, pt_size = 0x640000\<rparr>]" "replicate 14 0xFF" "replicate 16 8"
      "\<lambda>_. replicate 16 7" "[]"]
  by (simp add: name_ok_def Let_def numeral_eq_Suc)

text \<open>A version read from an image is what HID-Fi writes there: it starts with the marker, has
  only graphic ASCII characters and lies in the first 4 KB; conversely, an image with the marker in
  its first 4 KB has a version.\<close>

theorem identify_version:
  assumes ident: "identify head = Some ident"
  shows "(case id_version ident of
      None \<Rightarrow> find_window (bytes ''hid_fi_v'') (take ID_WINDOW head) = None
    | Some v \<Rightarrow> take 8 v = ''hid_fi_v'' \<and> list_all (\<lambda>c. is_ascii_graphic (of_char c)) v \<and> length v \<le> ID_WINDOW)"
proof (cases "find_window (bytes ''hid_fi_v'') (take ID_WINDOW head)")
  case None
  with ident show ?thesis by (auto simp: identify_def take_min_length Let_def split: if_splits)
next
  case i: (Some i)
  define rest where "rest = drop i (take ID_WINDOW head)"
  define e where "e = (case position (\<lambda>b. b = 0 \<or> \<not> is_ascii_graphic b) rest of Some e \<Rightarrow> e | None \<Rightarrow> length rest)"
  note pre = graphic_prefix [where rest = rest, folded e_def]
  have "id_version ident = Some (utf8_lossy (take e rest))"
    using ident i unfolding e_def rest_def
    by (auto simp: identify_def take_min_length Let_def split: if_splits)
  moreover have "utf8_lossy (take e rest) = map chr (take e rest)"
    using pre(1) graphic_less by (intro utf8_lossy_ascii) auto
  ultimately have v: "id_version ident = Some (map chr (take e rest))" by simp
  have "length (bytes ''hid_fi_v'') = 8" by simp
  moreover have "i + length (bytes ''hid_fi_v'') \<le> length (take ID_WINDOW head)"
    by (rule find_window_len [OF i]) (simp add: bytes_def)
  ultimately have pat: "take 8 rest = bytes ''hid_fi_v''" and "8 \<le> length rest"
    using find_window_take [OF i] unfolding rest_def by (simp_all add: le_diff_conv2 del: length_bytes)
  have "\<forall>b \<in> set (take 8 rest). b \<noteq> 0 \<and> is_ascii_graphic b"
    unfolding pat by (simp add: bytes_def is_ascii_graphic_def)
  with \<open>8 \<le> length rest\<close> have "8 \<le> e" by (intro pre(2)) auto
  then have "take 8 (take e rest) = bytes ''hid_fi_v''" using pat by (simp add: min_def)
  then have "take 8 (map chr (take e rest)) = ''hid_fi_v''" by (metis map_chr_bytes take_map)
  moreover have "list_all (\<lambda>c. is_ascii_graphic (of_char c)) (map chr (take e rest))"
    using pre(1) by (auto simp: list_all_iff)
  moreover have "length (map chr (take e rest)) \<le> ID_WINDOW" by (simp add: rest_def)
  ultimately show ?thesis using v by simp
qed

theorem identify_version_witness:
  "identify ([0xE9] @ replicate 11 0 @ [9, 0] @ replicate 10 0 @ bytes ''hid_fi_v4.1'' @ [0]) =
     Some \<lparr>id_chip = 9, id_version = Some ''hid_fi_v4.1''\<rparr> \<and>
   take 8 ''hid_fi_v4.1'' = ''hid_fi_v''"
  using identify_version [of "[0xE9] @ replicate 11 0 @ [9, 0] @ replicate 10 0 @ bytes ''hid_fi_v4.1'' @ [0]"
      "\<lparr>id_chip = 9, id_version = Some ''hid_fi_v4.1''\<rparr>"]
  by code_simp

end
