(* ===== verification/Port.thy ===== *)
theory Port
  imports Slip Loader_Proto
begin

section \<open>The port interface (crates/hidfi-flash/src/port.rs)\<close>

text \<open>
  What the flasher and the recovery link need from a serial port, as a record of operations on
  a port state \<open>'p\<close>: the trait \<open>Port\<close>.  An \<open>io::Error\<close> is kept as its message.  \<open>p_read\<close> returns
  the bytes instead of filling a buffer.

  The locale \<open>port_contract\<close> is the interface the flasher's safety rests on: an invariant of the
  port's state that reading, waiting and the two control lines keep, and that writing a frame
  keeps whenever the frame is \<open>allowed\<close>.  Every operation but \<open>FLASH_BEGIN\<close> and \<open>WRITE_REG\<close> is
  allowed; \<open>FLASH_BEGIN\<close> is allowed for the regions \<open>region\<close> accepts; \<open>WRITE_REG\<close> only with the
  payload of a named \<open>SafeWrite\<close>.  The simulated chip provides it (theory \<open>Sim\<close>), once for "what
  lies outside the region is never changed" and once for "no forbidden opcode ever arrives".
\<close>

subsection \<open>Definitions\<close>

record 'p port_ops =
  p_write_all :: "u8 list \<Rightarrow> ('p, string, unit) prog"
  p_read :: "nat \<Rightarrow> nat \<Rightarrow> ('p, string, u8 list) prog"
  p_set_dtr :: "bool \<Rightarrow> ('p, string, unit) prog"
  p_set_rts :: "bool \<Rightarrow> ('p, string, unit) prog"
  p_set_baud :: "u32 \<Rightarrow> ('p, string, unit) prog"
  p_sleep_ms :: "nat \<Rightarrow> 'p \<Rightarrow> 'p"

text \<open>\<open>le(words)\<close> (flasher.rs): the words of a payload in little-endian bytes.\<close>

definition le :: "u32 list \<Rightarrow> u8 list" where
  "le words = concat (map u32_to_le words)"

subsection \<open>The contract\<close>

locale port_contract =
  fixes P :: "'p port_ops"
    and I :: "'p \<Rightarrow> bool"
    and allowed :: "u8 list \<Rightarrow> bool"
    and region :: "u32 \<Rightarrow> u32 \<Rightarrow> bool"
  assumes port_write: "allowed frame \<Longrightarrow> triple I (p_write_all P (encode frame)) (\<lambda>_. True)"
    and port_read: "triple I (p_read P n t) (\<lambda>_. True)"
    and port_dtr: "triple I (p_set_dtr P on) (\<lambda>_. True)"
    and port_rts: "triple I (p_set_rts P on) (\<lambda>_. True)"
    and port_sleep: "I p \<Longrightarrow> I (p_sleep_ms P ms p)"
    and allowed_plain:
      "op \<noteq> FlashBegin \<Longrightarrow> op \<noteq> WriteReg \<Longrightarrow> length data < 65536 \<Longrightarrow> allowed (request op data chk)"
    and allowed_begin:
      "region at len \<Longrightarrow> length tail < 1000 \<Longrightarrow>
       allowed (request FlashBegin (le [len, blocks, block, at] @ tail) chk)"
    and allowed_reg: "allowed (request WriteReg (safe_payload w) chk)"
    and allowed_ack: "length frame = 4 \<Longrightarrow> allowed frame"

lemma length_le [simp]: "length (le ws) = 4 * length ws"
  by (induction ws) (simp_all add: le_def)

lemma le_Cons: "le (w # ws) = u32_to_le w @ le ws"
  by (simp add: le_def)

end
