(* ===== verification/Flasher.thy ===== *)
theory Flasher
  imports Port Image
begin

section \<open>The flasher (crates/hidfi-flash/src/flasher.rs, stub.rs)\<close>

text \<open>
  The client of the ROM loader and of Espressif's stub, over any port.  Its state is the port, the
  SLIP decoder, the queue of whole frames and the two flags.  Each loop of the source that only
  the other side can end (\<open>next_frame\<close>, \<open>command\<close>, the drain after \<open>sync\<close>) takes a fuel argument;
  running out of it is \<open>OutOfFuel\<close> with the state reached so far.  The safety theorems hold for
  every fuel, that is for every prefix of every run.  MD5 is an argument.
\<close>

subsection \<open>Definitions\<close>

definition SECTOR :: u32 where "SECTOR = 0x1000"
definition STUB_BLOCK :: nat where "STUB_BLOCK = 0x4000"
definition RAM_BLOCK :: nat where "RAM_BLOCK = 0x1800"
definition USB_RAM_BLOCK :: nat where "USB_RAM_BLOCK = 0x800"
definition MAC_EFUSE_REG :: u32 where "MAC_EFUSE_REG = 0x60007044"

datatype flash_error =
    FPort string
  | FTimeout string
  | FRefused string u8 u8
  | FWrongChip u32
  | FCheck string
  | FCancelled

record 'p flasher =
  fl_port :: 'p
  fl_dec :: decoder
  fl_frames :: "u8 list list"
  fl_stub :: bool
  fl_usb :: bool

definition flasher_new :: "'p \<Rightarrow> 'p flasher" where
  "flasher_new port = \<lparr>fl_port = port, fl_dec = decoder_default, fl_frames = [],
     fl_stub = False, fl_usb = False\<rparr>"

record stub =
  st_text :: "u8 list"
  st_text_start :: u32
  st_data :: "u8 list"
  st_data_start :: u32
  st_entry :: u32

type_synonym ('p, 'a) fprog = "('p flasher, flash_error, 'a) prog"

text \<open>A port call from the flasher: \<open>From<io::Error>\<close> turns its error into \<open>FlashError::Port\<close>.\<close>

definition on_port :: "('p, string, 'a) prog \<Rightarrow> ('p, 'a) fprog" where
  "on_port m = zoom fl_port (\<lambda>p f. f\<lparr>fl_port := p\<rparr>) FPort m"

definition fl_sleep :: "'p port_ops \<Rightarrow> nat \<Rightarrow> ('p, unit) fprog" where
  "fl_sleep P ms = modify (\<lambda>f. f\<lparr>fl_port := p_sleep_ms P ms (fl_port f)\<rparr>)"

definition fl_send :: "'p port_ops \<Rightarrow> op \<Rightarrow> u8 list \<Rightarrow> u32 \<Rightarrow> ('p, unit) fprog" where
  "fl_send P op data chk = on_port (p_write_all P (encode (request op data chk)))"

definition fl_send_raw :: "'p port_ops \<Rightarrow> u8 list \<Rightarrow> ('p, unit) fprog" where
  "fl_send_raw P frame = on_port (p_write_all P (encode frame))"

fun next_frame_loop :: "'p port_ops \<Rightarrow> nat \<Rightarrow> nat \<Rightarrow> nat \<Rightarrow> ('p, u8 list) fprog" where
  "next_frame_loop P 0 timeout_ms waited s = (OutOfFuel, s)"
| "next_frame_loop P (Suc fuel) timeout_ms waited s =
     (case fl_frames s of
        f # fs \<Rightarrow> (Ok f, s\<lparr>fl_frames := fs\<rparr>)
      | [] \<Rightarrow>
          if timeout_ms \<le> waited then (Err (FTimeout ''frame''), s)
          else
            bnd (on_port (p_read P 1024 50)) (\<lambda>bs.
              if bs = [] then next_frame_loop P fuel timeout_ms (waited + 50)
              else
                seq (modify (\<lambda>f. case feed (fl_dec f) bs [] of
                       (d, out) \<Rightarrow> f\<lparr>fl_dec := d, fl_frames := fl_frames f @ out\<rparr>))
                  (next_frame_loop P fuel timeout_ms waited)) s)"

definition next_frame :: "'p port_ops \<Rightarrow> nat \<Rightarrow> nat \<Rightarrow> ('p, u8 list) fprog" where
  "next_frame P fuel timeout_ms = next_frame_loop P fuel timeout_ms 0"

text \<open>The wait for the answer to \<open>op\<close>: other frames are skipped, and only a frame that is no
  response at all is counted against the timeout (\<open>continue\<close> goes round the check).\<close>

fun command_loop ::
  "'p port_ops \<Rightarrow> nat \<Rightarrow> nat \<Rightarrow> op \<Rightarrow> nat \<Rightarrow> string \<Rightarrow> nat \<Rightarrow> nat \<Rightarrow> ('p, response) fprog" where
  "command_loop P frame_fuel 0 op expect what timeout_ms waited s = (OutOfFuel, s)"
| "command_loop P frame_fuel (Suc fuel) op expect what timeout_ms waited s =
     bnd (next_frame P frame_fuel (max (timeout_ms - waited) 50)) (\<lambda>f.
       case parse_response f of
         Some r \<Rightarrow>
           if rsp_op r \<noteq> op_code op then
             command_loop P frame_fuel fuel op expect what timeout_ms (waited + 50)
           else
             (case rsp_status r expect of
                Some (a, b) \<Rightarrow> if a = 0 then ret r else throw (FRefused what a b)
              | None \<Rightarrow> throw (FRefused what 0xFF 0xFF))
       | None \<Rightarrow>
           if timeout_ms < waited + 50 then throw (FTimeout what)
           else command_loop P frame_fuel fuel op expect what timeout_ms (waited + 50)) s"

definition command ::
  "'p port_ops \<Rightarrow> nat \<Rightarrow> op \<Rightarrow> u8 list \<Rightarrow> u32 \<Rightarrow> nat \<Rightarrow> string \<Rightarrow> nat \<Rightarrow> ('p, response) fprog" where
  "command P fuel op data chk expect what timeout_ms =
     seq (fl_send P op data chk) (command_loop P fuel fuel op expect what timeout_ms 0)"

definition enter_bootloader :: "'p port_ops \<Rightarrow> ('p, unit) fprog" where
  "enter_bootloader P =
     seq (on_port (p_set_dtr P False))
     (seq (on_port (p_set_rts P True))
     (seq (fl_sleep P 100)
     (seq (on_port (p_set_dtr P True))
     (seq (on_port (p_set_rts P False))
     (seq (fl_sleep P 50)
     (seq (on_port (p_set_dtr P False))
       (modify (\<lambda>f. f\<lparr>fl_stub := False, fl_frames := [], fl_dec := decoder_default\<rparr>))))))))"

definition hard_reset :: "'p port_ops \<Rightarrow> ('p, unit) fprog" where
  "hard_reset P =
     bnd (asks fl_usb) (\<lambda>usb.
       let hold = (if usb then 200 else 100); settle = (if usb then 200 else 0) in
       seq (on_port (p_set_dtr P False))
       (seq (on_port (p_set_rts P True))
       (seq (fl_sleep P hold)
       (seq (on_port (p_set_rts P False))
       (seq (if settle > 0 then fl_sleep P settle else ret ())
         (modify (\<lambda>f. f\<lparr>fl_stub := False\<rparr>)))))))"

definition attach_to_loader :: "('p, unit) fprog" where
  "attach_to_loader =
     modify (\<lambda>f. f\<lparr>fl_stub := False, fl_usb := True, fl_frames := [], fl_dec := decoder_default\<rparr>)"

definition fl_safe_write :: "'p port_ops \<Rightarrow> nat \<Rightarrow> safe_write \<Rightarrow> ('p, unit) fprog" where
  "fl_safe_write P fuel w =
     bnd (command P fuel WriteReg (safe_payload w) 0 0 ''clear a boot flag'' 1000) (\<lambda>_. ret ())"

definition leave_forced_download :: "'p port_ops \<Rightarrow> nat \<Rightarrow> ('p, unit) fprog" where
  "leave_forced_download P fuel = seq (fl_safe_write P fuel ClearForceDownload) (hard_reset P)"

text \<open>\<open>while self.next_frame(100).is_ok() {}\<close>: any error ends it.\<close>

fun drain :: "'p port_ops \<Rightarrow> nat \<Rightarrow> nat \<Rightarrow> ('p, unit) fprog" where
  "drain P frame_fuel 0 s = (OutOfFuel, s)"
| "drain P frame_fuel (Suc fuel) s =
     bnd (attempt (next_frame P frame_fuel 100)) (\<lambda>r.
       case r of Inr _ \<Rightarrow> drain P frame_fuel fuel | Inl _ \<Rightarrow> ret ()) s"

definition sync_data :: "u8 list" where
  "sync_data = [0x07, 0x07, 0x12, 0x20] @ replicate 32 0x55"

fun sync_tries :: "'p port_ops \<Rightarrow> nat \<Rightarrow> nat \<Rightarrow> ('p, unit) fprog" where
  "sync_tries P fuel 0 s = (Err (FTimeout ''sync''), s)"
| "sync_tries P fuel (Suc n) s =
     bnd (attempt (command P fuel Sync sync_data 0 0 ''sync'' 200)) (\<lambda>r.
       case r of Inr _ \<Rightarrow> drain P fuel fuel | Inl _ \<Rightarrow> sync_tries P fuel n) s"

definition sync :: "'p port_ops \<Rightarrow> nat \<Rightarrow> ('p, unit) fprog" where
  "sync P fuel = sync_tries P fuel 7"

text \<open>\<open>r.data[12..16]\<close> is inside: the status bytes were found after 20 bytes.\<close>

definition chip_id :: "'p port_ops \<Rightarrow> nat \<Rightarrow> ('p, u32) fprog" where
  "chip_id P fuel =
     bnd (command P fuel GetSecurityInfo [] 0 20 ''read security info'' 1000)
       (\<lambda>r. ret (u32_at (rsp_data r) 12))"

definition read_reg :: "'p port_ops \<Rightarrow> nat \<Rightarrow> u32 \<Rightarrow> ('p, u32) fprog" where
  "read_reg P fuel addr =
     bnd (command P fuel ReadReg (u32_to_le addr) 0 0 ''read a register'' 1000)
       (\<lambda>r. ret (rsp_value r))"

definition fl_mac :: "'p port_ops \<Rightarrow> nat \<Rightarrow> ('p, u8 list) fprog" where
  "fl_mac P fuel =
     bnd (read_reg P fuel MAC_EFUSE_REG) (\<lambda>m0.
     bnd (read_reg P fuel (MAC_EFUSE_REG + 4)) (\<lambda>m1.
       ret [ucast (drop_bit 8 m1), ucast m1, ucast (drop_bit 24 m0), ucast (drop_bit 16 m0),
            ucast (drop_bit 8 m0), ucast m0]))"

text \<open>The numbered data blocks of \<open>load_stub\<close>: \<open>for (seq, chunk) in bytes.chunks(block).enumerate()\<close>.\<close>

fun mem_data :: "'p port_ops \<Rightarrow> nat \<Rightarrow> nat \<Rightarrow> u8 list list \<Rightarrow> ('p, unit) fprog" where
  "mem_data P fuel n [] s = (Ok (), s)"
| "mem_data P fuel n (chunk # rest) s =
     bnd (command P fuel MemData (le [of_nat (length chunk), of_nat n, 0, 0] @ chunk)
            (checksum chunk) 0 ''load the stub'' 1000)
       (\<lambda>_. mem_data P fuel (Suc n) rest) s"

definition load_part :: "'p port_ops \<Rightarrow> nat \<Rightarrow> u32 \<Rightarrow> u8 list \<Rightarrow> ('p, unit) fprog" where
  "load_part P fuel addr bs =
     bnd (asks fl_usb) (\<lambda>usb.
       let block = (if usb then USB_RAM_BLOCK else RAM_BLOCK);
           blocks = div_ceil (length bs) block
       in bnd (command P fuel MemBegin (le [of_nat (length bs), of_nat blocks, of_nat block, addr])
                 0 0 ''load the stub'' 1000)
            (\<lambda>_. mem_data P fuel 0 (chunks block bs)))"

text \<open>Up to 20 frames are looked at for the stub's greeting.\<close>

fun wait_ohai :: "'p port_ops \<Rightarrow> nat \<Rightarrow> nat \<Rightarrow> ('p, unit) fprog" where
  "wait_ohai P fuel 0 s = (Err (FTimeout ''the stub to start''), s)"
| "wait_ohai P fuel (Suc n) s =
     bnd (attempt (next_frame P fuel 200)) (\<lambda>r.
       if r = Inr (bytes ''OHAI'') then modify (\<lambda>f. f\<lparr>fl_stub := True\<rparr>)
       else wait_ohai P fuel n) s"

definition load_stub :: "'p port_ops \<Rightarrow> nat \<Rightarrow> stub \<Rightarrow> ('p, unit) fprog" where
  "load_stub P fuel stub =
     seq (load_part P fuel (st_text_start stub) (st_text stub))
     (seq (load_part P fuel (st_data_start stub) (st_data stub))
     (seq (fl_send P MemEnd (le [0, st_entry stub]) 0)
       (wait_ohai P fuel 20)))"

definition attach_flash :: "'p port_ops \<Rightarrow> nat \<Rightarrow> u32 \<Rightarrow> ('p, unit) fprog" where
  "attach_flash P fuel flash_size =
     bnd (command P fuel SpiAttach (le [0]) 0 0 ''attach the flash'' 1000) (\<lambda>_.
     bnd (command P fuel SpiSetParams (le [0, flash_size, 0x10000, SECTOR, 0x100, 0xFFFF]) 0 0
            ''set the flash size'' 1000) (\<lambda>_. ret ()))"

text \<open>The ROM answers the MD5 as 32 hex digits, the stub as 16 bytes.  The digits are read pair by
  pair from a checked string: a pair that is not hex is an error, and a pair that ends inside a
  multi-byte character makes the string slice panic.\<close>

fun hex_pairs :: "u8 list \<Rightarrow> (unit, u8 list) outcome" where
  "hex_pairs (a # b # rest) =
     (if is_cont rest 0 then Panic
      else case hex_pair (chr a) (chr b) of
             None \<Rightarrow> Err ()
           | Some x \<Rightarrow> (case hex_pairs rest of Ok zs \<Rightarrow> Ok (x # zs) | r \<Rightarrow> r))"
| "hex_pairs _ = Ok []"

definition fl_md5 :: "'p port_ops \<Rightarrow> nat \<Rightarrow> u32 \<Rightarrow> u32 \<Rightarrow> ('p, u8 list) fprog" where
  "fl_md5 P fuel offset len =
     bnd (asks fl_stub) (\<lambda>stub.
     bnd (command P fuel SpiFlashMd5 (le [offset, len, 0, 0]) 0 (if stub then 16 else 32)
            ''hash flash'' 30000) (\<lambda>r.
       if stub then ret (take 16 (rsp_data r))
       else if \<not> utf8_valid (take 32 (rsp_data r)) then throw (FCheck ''md5 not hex'')
       else (case hex_pairs (take 32 (rsp_data r)) of
               Ok d \<Rightarrow> ret d
             | Err _ \<Rightarrow> throw (FCheck ''md5'')
             | _ \<Rightarrow> panic)))"

text \<open>The blocks of a flash read, each acknowledged with the number of bytes so far.\<close>

fun read_blocks :: "'p port_ops \<Rightarrow> nat \<Rightarrow> nat \<Rightarrow> nat \<Rightarrow> u8 list \<Rightarrow> ('p, u8 list) fprog" where
  "read_blocks P frame_fuel 0 len data s = (OutOfFuel, s)"
| "read_blocks P frame_fuel (Suc fuel) len data s =
     (if length data < len then
        bnd (next_frame P frame_fuel 3000) (\<lambda>f.
          let data' = data @ f in
          if length data' < len \<and> length f < unat SECTOR then
            throw (FCheck ''short block while reading flash'')
          else seq (fl_send_raw P (u32_to_le (of_nat (length data'))))
                 (read_blocks P frame_fuel fuel len data')) s
      else (Ok data, s))"

definition read_flash ::
  "'p port_ops \<Rightarrow> (u8 list \<Rightarrow> u8 list) \<Rightarrow> nat \<Rightarrow> u32 \<Rightarrow> u32 \<Rightarrow> ('p, u8 list) fprog" where
  "read_flash P md5 fuel offset len =
     bnd (asks fl_stub) (\<lambda>stub.
       if \<not> stub then throw (FCheck ''reading flash needs the stub'')
       else
         bnd (command P fuel ReadFlash (le [offset, len, SECTOR, 64]) 0 0 ''read flash'' 2000) (\<lambda>_.
         bnd (read_blocks P fuel fuel (unat len) []) (\<lambda>data.
         bnd (next_frame P fuel 3000) (\<lambda>digest.
           if length digest \<noteq> 16 \<or> digest \<noteq> md5 data then
             throw (FCheck ''the data read back does not match its MD5'')
           else ret (take (unat len) data)))))"

text \<open>The numbered data blocks of a write; \<open>progress\<close> sees the bytes written so far and answers
  whether to go on.\<close>

fun write_blocks ::
  "'p port_ops \<Rightarrow> nat \<Rightarrow> nat \<Rightarrow> nat \<Rightarrow> (nat \<Rightarrow> bool) \<Rightarrow> nat \<Rightarrow> u8 list list \<Rightarrow> ('p, unit) fprog" where
  "write_blocks P fuel block total_len progress n [] s = (Ok (), s)"
| "write_blocks P fuel block total_len progress n (chunk # rest) s =
     bnd (command P fuel FlashData (le [of_nat (length chunk), of_nat n, 0, 0] @ chunk)
            (checksum chunk) 0 ''write'' 10000) (\<lambda>_.
       if \<not> progress (min (Suc n * block) total_len) then throw FCancelled
       else write_blocks P fuel block total_len progress (Suc n) rest) s"

text \<open>\<open>{offset:#x}\<close> in the two messages below is left out of the message.  An empty write divides
  by a zero block size: \<open>div_ceil\<close> panics.\<close>

definition fl_write ::
  "'p port_ops \<Rightarrow> (u8 list \<Rightarrow> u8 list) \<Rightarrow> nat \<Rightarrow> u32 \<Rightarrow> u8 list \<Rightarrow> (nat \<Rightarrow> bool) \<Rightarrow> ('p, unit) fprog" where
  "fl_write P md5 fuel offset data progress =
     (if offset mod SECTOR \<noteq> 0 then throw (FCheck ''unaligned write'')
      else bnd (asks fl_stub) (\<lambda>stub.
        let sectors = div_ceil (length data) (unat SECTOR) * unat SECTOR;
            block = (if stub then min STUB_BLOCK sectors else 0x400)
        in if block = 0 then panic
           else
             let padded = resize data (div_ceil sectors block * block) 0xFF;
                 blocks = length padded div block;
                 begin = le [of_nat (length padded), of_nat blocks, of_nat block, offset]
                           @ (if stub then [] else u32_to_le 0)
             in bnd (command P fuel FlashBegin begin 0 0 ''start writing'' 30000) (\<lambda>_.
                seq (write_blocks P fuel block (length padded) progress 0 (chunks block padded))
                (bnd (fl_md5 P fuel offset (of_nat (length padded))) (\<lambda>got.
                   if got \<noteq> md5 padded then throw (FCheck ''what was written does not read back'')
                   else ret ())))))"

text \<open>The length \<open>fl_write\<close> announces to the loader for \<open>n\<close> bytes of data: whole sectors, then
  whole blocks.\<close>

definition padded_len :: "bool \<Rightarrow> nat \<Rightarrow> nat" where
  "padded_len stub n =
     (let sectors = div_ceil n (unat SECTOR) * unat SECTOR;
          block = (if stub then min STUB_BLOCK sectors else 0x400)
      in div_ceil sectors block * block)"

definition keeps :: "('p \<Rightarrow> bool) \<Rightarrow> ('p, 'a) fprog \<Rightarrow> bool" where
  "keeps I m \<longleftrightarrow> triple (\<lambda>f. I (fl_port f)) m (\<lambda>_. True)"

subsection \<open>Lemmas: composing programs that keep a port invariant\<close>

lemma keepsI: "(\<And>s. I (fl_port s) \<Longrightarrow> I (fl_port (snd (m s)))) \<Longrightarrow> keeps I m"
  by (simp add: keeps_def tripleI)

lemma keepsD: "keeps I m \<Longrightarrow> I (fl_port s) \<Longrightarrow> I (fl_port (snd (m s)))"
  unfolding keeps_def by (drule tripleD) simp_all

lemma keeps_ret: "keeps I (ret x)" and keeps_throw: "keeps I (throw e)"
  and keeps_panic: "keeps I panic" and keeps_asks: "keeps I (asks g)"
  by (simp_all add: keeps_def triple_rules)

lemma keeps_bnd: "keeps I m \<Longrightarrow> (\<And>x. keeps I (k x)) \<Longrightarrow> keeps I (bnd m k)"
  unfolding keeps_def by (erule triple_bnd) simp

lemma keeps_seq: "keeps I m \<Longrightarrow> keeps I n \<Longrightarrow> keeps I (seq m n)"
  unfolding keeps_def by (rule triple_seq)

lemma keeps_attempt: "keeps I m \<Longrightarrow> keeps I (attempt m)"
  unfolding keeps_def by (rule triple_attempt)

lemma keeps_if: "(c \<Longrightarrow> keeps I m) \<Longrightarrow> (\<not> c \<Longrightarrow> keeps I n) \<Longrightarrow> keeps I (if c then m else n)"
  by simp

lemma keeps_modify: "(\<And>f. fl_port (g f) = fl_port f) \<Longrightarrow> keeps I (modify g)"
  by (simp add: keeps_def triple_rules)

lemma keeps_fail: "keeps I (\<lambda>s. (OutOfFuel, s))" "keeps I (\<lambda>s. (Err e, s))" "keeps I (\<lambda>s. (Ok x, s))"
  by (simp_all add: keepsI)

lemma keeps_on_port: "triple I m (\<lambda>_. True) \<Longrightarrow> keeps I (on_port m)"
  unfolding keeps_def on_port_def by (erule triple_zoom) simp_all

lemmas keeps_rules = keeps_ret keeps_throw keeps_panic keeps_asks keeps_bnd keeps_seq keeps_attempt
  keeps_if keeps_fail

lemma length_safe_payload: "length (safe_payload w) = 16"
  by (cases w) (simp add: safe_payload_def)

subsection \<open>Lemmas: the padded length\<close>

lemma div_ceil_le: "0 < d \<Longrightarrow> m \<le> k * d \<Longrightarrow> div_ceil m d \<le> k"
proof -
  assume d: "0 < d" and "m \<le> k * d"
  then have "m + d - 1 < (k + 1) * d" by (simp add: algebra_simps)
  then have "(m + d - 1) div d < k + 1" using d by (simp add: div_less_iff_less_mult)
  then show ?thesis by (simp add: div_ceil_def)
qed

lemma div_ceil_exact: "0 < d \<Longrightarrow> div_ceil (k * d) d = k"
proof -
  assume d: "0 < d"
  have "k * d \<le> div_ceil (k * d) d * d" by (rule div_ceil_mult [OF d])
  then have "k \<le> div_ceil (k * d) d" using d by simp
  with div_ceil_le [OF d, of "k * d" k] show ?thesis by simp
qed

lemma padded_len_eq:
  "padded_len stub n =
     (if stub \<and> 0x4000 < div_ceil n 0x1000 * 0x1000
      then div_ceil (div_ceil n 0x1000 * 0x1000) 0x4000 * 0x4000 else div_ceil n 0x1000 * 0x1000)"
proof -
  let ?S = "div_ceil n 0x1000 * 0x1000 :: nat"
  have quarter: "div_ceil ?S 0x400 * 0x400 = ?S"
    using div_ceil_exact [of "0x400" "div_ceil n 0x1000 * 4"] by (simp add: mult.commute)
  have one: "div_ceil ?S ?S * ?S = ?S"
    using div_ceil_exact [of ?S 1] by (cases "?S = 0") simp_all
  show ?thesis
    unfolding padded_len_def Let_def SECTOR_def STUB_BLOCK_def
    using quarter one by (simp add: min_def) (simp add: div_ceil_def)
qed

lemma padded_len_sectors: "padded_len stub n mod 0x1000 = 0"
proof -
  have "k * 0x4000 mod 0x1000 = 0" for k :: nat
    using mod_mult_self1_is_0 [of "0x1000" "k * 4"] by (simp add: mult.commute)
  then show ?thesis unfolding padded_len_eq by simp
qed

lemma padded_len_le: "padded_len stub n \<le> div_ceil n 0x4000 * 0x4000"
proof -
  let ?K = "div_ceil n 0x4000"
  have "n \<le> ?K * 0x4000" by (rule div_ceil_mult) simp
  then have "n \<le> ?K * 4 * 0x1000" by simp
  then have "div_ceil n 0x1000 \<le> ?K * 4" by (rule div_ceil_le [rotated]) simp
  then have S: "div_ceil n 0x1000 * 0x1000 \<le> ?K * 0x4000" by simp
  then have "div_ceil (div_ceil n 0x1000 * 0x1000) 0x4000 \<le> ?K" by (rule div_ceil_le [rotated]) simp
  with S show ?thesis unfolding padded_len_eq by simp
qed

subsection \<open>Lemmas: every flasher operation keeps the port's invariant\<close>

context port_contract
begin

lemma send_keeps: "allowed (request op data chk) \<Longrightarrow> keeps I (fl_send P op data chk)"
  unfolding fl_send_def by (intro keeps_on_port port_write)

lemma ack_keeps: "length frame = 4 \<Longrightarrow> keeps I (fl_send_raw P frame)"
  unfolding fl_send_raw_def by (intro keeps_on_port port_write allowed_ack)

lemma sleep_keeps: "keeps I (fl_sleep P ms)"
  by (simp add: keeps_def fl_sleep_def triple_rules port_sleep)

lemmas line_keeps = keeps_on_port [OF port_dtr] keeps_on_port [OF port_rts]
  keeps_on_port [OF port_read] sleep_keeps

lemma next_frame_loop_keeps: "keeps I (next_frame_loop P fuel t w)"
proof (induction fuel arbitrary: w)
  case 0
  then show ?case by (simp add: keeps_def tripleI)
next
  case (Suc fuel)
  let ?go = "\<lambda>bs. if bs = [] then next_frame_loop P fuel t (w + 50)
      else seq (modify (\<lambda>f. case feed (fl_dec f) bs [] of (d, out) \<Rightarrow>
             f\<lparr>fl_dec := d, fl_frames := fl_frames f @ out\<rparr>)) (next_frame_loop P fuel t w)"
  have "keeps I (bnd (on_port (p_read P 1024 50)) ?go)"
    by (intro keeps_rules line_keeps Suc.IH keeps_modify) (simp split: prod.split)
  from keepsD [OF this] show ?case
    by (intro keepsI) (simp split: list.split)
qed

lemma next_frame_keeps: "keeps I (next_frame P fuel t)"
  unfolding next_frame_def by (rule next_frame_loop_keeps)

lemma command_loop_keeps: "keeps I (command_loop P ff fuel op expect what t w)"
proof (induction fuel arbitrary: w)
  case 0
  then show ?case by (simp add: keeps_def tripleI)
next
  case (Suc fuel)
  have "command_loop P ff (Suc fuel) op expect what t w = bnd (next_frame P ff (max (t - w) 50)) (\<lambda>f.
       case parse_response f of
         Some r \<Rightarrow>
           if rsp_op r \<noteq> op_code op then command_loop P ff fuel op expect what t (w + 50)
           else (case rsp_status r expect of
                Some (a, b) \<Rightarrow> if a = 0 then ret r else throw (FRefused what a b)
              | None \<Rightarrow> throw (FRefused what 0xFF 0xFF))
       | None \<Rightarrow> if t < w + 50 then throw (FTimeout what)
           else command_loop P ff fuel op expect what t (w + 50))"
    by (rule ext) simp
  then show ?case
    by (auto intro!: keeps_rules next_frame_keeps Suc.IH split: option.split prod.split)
qed

lemma command_keeps: "allowed (request op data chk) \<Longrightarrow> keeps I (command P fuel op data chk e what t)"
  unfolding command_def by (intro keeps_seq send_keeps command_loop_keeps)

lemma plain_keeps:
  "op \<noteq> FlashBegin \<Longrightarrow> op \<noteq> WriteReg \<Longrightarrow> length data < 65536 \<Longrightarrow>
   keeps I (command P fuel op data chk e what t)"
  by (intro command_keeps allowed_plain)

lemma drain_keeps: "keeps I (drain P ff fuel)"
proof (induction fuel)
  case 0
  then show ?case by (simp add: keeps_def tripleI)
next
  case (Suc fuel)
  have "drain P ff (Suc fuel) = bnd (attempt (next_frame P ff 100)) (\<lambda>r.
       case r of Inr _ \<Rightarrow> drain P ff fuel | Inl _ \<Rightarrow> ret ())"
    by (rule ext) simp
  then show ?case
    by (auto intro!: keeps_rules next_frame_keeps Suc.IH split: sum.split)
qed

lemma sync_tries_keeps: "keeps I (sync_tries P fuel n)"
proof (induction n)
  case 0
  then show ?case by (simp add: keeps_def tripleI)
next
  case (Suc n)
  have "sync_tries P fuel (Suc n) = bnd (attempt (command P fuel Sync sync_data 0 0 ''sync'' 200)) (\<lambda>r.
       case r of Inr _ \<Rightarrow> drain P fuel fuel | Inl _ \<Rightarrow> sync_tries P fuel n)"
    by (rule ext) simp
  moreover have "keeps I (command P fuel Sync sync_data 0 0 ''sync'' 200)"
    by (rule plain_keeps) (simp_all add: sync_data_def)
  ultimately show ?case
    by (auto intro!: keeps_rules drain_keeps Suc.IH split: sum.split)
qed

lemma sync_keeps: "keeps I (sync P fuel)"
  unfolding sync_def by (rule sync_tries_keeps)

lemma enter_bootloader_keeps: "keeps I (enter_bootloader P)"
  unfolding enter_bootloader_def by (intro keeps_rules line_keeps keeps_modify) simp

lemma hard_reset_keeps: "keeps I (hard_reset P)"
  unfolding hard_reset_def Let_def by (intro keeps_rules line_keeps keeps_modify) simp

lemma attach_to_loader_keeps: "keeps I attach_to_loader"
  unfolding attach_to_loader_def by (intro keeps_modify) simp

lemma safe_write_keeps: "keeps I (fl_safe_write P fuel w)"
  unfolding fl_safe_write_def by (intro keeps_rules command_keeps allowed_reg)

lemma leave_forced_download_keeps: "keeps I (leave_forced_download P fuel)"
  unfolding leave_forced_download_def by (intro keeps_rules safe_write_keeps hard_reset_keeps)

lemma chip_id_keeps: "keeps I (chip_id P fuel)"
  unfolding chip_id_def by (intro keeps_rules plain_keeps) simp_all

lemma mac_keeps: "keeps I (fl_mac P fuel)"
  unfolding fl_mac_def read_reg_def by (intro keeps_rules plain_keeps) simp_all

lemma mem_data_keeps: "\<forall>c \<in> set cs. length c \<le> 0x1800 \<Longrightarrow> keeps I (mem_data P fuel n cs)"
proof (induction cs arbitrary: n)
  case Nil
  then show ?case by (simp add: keeps_def tripleI)
next
  case (Cons c cs)
  have "mem_data P fuel n (c # cs) = bnd (command P fuel MemData (le [of_nat (length c), of_nat n, 0, 0] @ c)
      (checksum c) 0 ''load the stub'' 1000) (\<lambda>_. mem_data P fuel (Suc n) cs)"
    by (rule ext) simp
  with Cons show ?case by (auto intro!: keeps_rules plain_keeps)
qed

lemma load_part_keeps: "keeps I (load_part P fuel addr bs)"
proof -
  have small: "length c \<le> 0x1800" if "c \<in> set (chunks (if u then USB_RAM_BLOCK else RAM_BLOCK) bs)" for u c
    using chunks_bound [OF that] by (auto simp: RAM_BLOCK_def USB_RAM_BLOCK_def split: if_splits)
  then show ?thesis
    unfolding load_part_def Let_def by (intro keeps_rules plain_keeps mem_data_keeps) auto
qed

lemma wait_ohai_keeps: "keeps I (wait_ohai P fuel n)"
proof (induction n)
  case 0
  then show ?case by (simp add: keeps_def tripleI)
next
  case (Suc n)
  have "wait_ohai P fuel (Suc n) = bnd (attempt (next_frame P fuel 200)) (\<lambda>r.
       if r = Inr (bytes ''OHAI'') then modify (\<lambda>f. f\<lparr>fl_stub := True\<rparr>) else wait_ohai P fuel n)"
    by (rule ext) simp
  then show ?case
    by (simp only:) (intro keeps_rules next_frame_keeps Suc.IH keeps_modify, simp)
qed

lemma load_stub_keeps: "keeps I (load_stub P fuel stub)"
  unfolding load_stub_def
  by (intro keeps_rules load_part_keeps send_keeps allowed_plain wait_ohai_keeps) simp_all

lemma attach_flash_keeps: "keeps I (attach_flash P fuel n)"
  unfolding attach_flash_def by (intro keeps_rules plain_keeps) simp_all

lemma md5_keeps: "keeps I (fl_md5 P fuel offset len)"
proof -
  have "keeps I (case hex_pairs d of Ok x \<Rightarrow> ret x | Err _ \<Rightarrow> throw e | _ \<Rightarrow> panic)" for d e
    by (auto intro: keeps_rules split: outcome.split)
  then show ?thesis
    unfolding fl_md5_def by (intro keeps_rules plain_keeps) simp_all
qed

lemma read_blocks_keeps: "keeps I (read_blocks P ff fuel len data)"
proof (induction fuel arbitrary: data)
  case 0
  then show ?case by (simp add: keeps_def tripleI)
next
  case (Suc fuel)
  have "read_blocks P ff (Suc fuel) len data = (if length data < len then
        bnd (next_frame P ff 3000) (\<lambda>f.
          let data' = data @ f in
          if length data' < len \<and> length f < unat SECTOR then
            throw (FCheck ''short block while reading flash'')
          else seq (fl_send_raw P (u32_to_le (of_nat (length data')))) (read_blocks P ff fuel len data'))
      else ret data)"
    by (rule ext) (simp add: ret_def)
  then show ?case
    by (simp only: Let_def) (intro keeps_rules next_frame_keeps ack_keeps Suc.IH, simp)
qed

lemma read_flash_keeps: "keeps I (read_flash P md5 fuel offset len)"
  unfolding read_flash_def by (intro keeps_rules plain_keeps read_blocks_keeps next_frame_keeps) simp_all

lemma write_blocks_keeps:
  "\<forall>c \<in> set cs. length c \<le> 0x4000 \<Longrightarrow> keeps I (write_blocks P fuel block tot progress n cs)"
proof (induction cs arbitrary: n)
  case Nil
  then show ?case by (simp add: keeps_def tripleI)
next
  case (Cons c cs)
  have "write_blocks P fuel block tot progress n (c # cs) =
     bnd (command P fuel FlashData (le [of_nat (length c), of_nat n, 0, 0] @ c)
            (checksum c) 0 ''write'' 10000) (\<lambda>_.
       if \<not> progress (min (Suc n * block) tot) then throw FCancelled
       else write_blocks P fuel block tot progress (Suc n) cs)"
    by (rule ext) simp
  with Cons show ?case by (auto intro!: keeps_rules plain_keeps)
qed

lemma write_keeps:
  assumes "\<And>stub. offset mod SECTOR = 0 \<Longrightarrow> region offset (of_nat (padded_len stub (length data)))"
  shows "keeps I (fl_write P md5 fuel offset data progress)"
proof (cases "offset mod SECTOR = 0")
  case False
  then show ?thesis by (simp add: fl_write_def keeps_throw)
next
  case aligned: True
  have small: "length c \<le> 0x4000" if "c \<in> set (chunks (if u then min STUB_BLOCK n else 0x400) bs)" for u n c bs
    using chunks_bound [OF that] by (auto simp: STUB_BLOCK_def split: if_splits)
  have start: "keeps I (command P fuel FlashBegin
      (le [of_nat (padded_len stub (length data)), b1, b2, offset] @ tail) 0 0 w t)"
    if "length tail < 1000" for stub b1 b2 tail w t
    using that assms [OF aligned] by (intro command_keeps allowed_begin)
  show ?thesis
    unfolding fl_write_def Let_def length_resize padded_len_def [unfolded Let_def, symmetric]
    by (intro keeps_rules start write_blocks_keeps md5_keeps ballI) (auto dest: small)
qed

end

end
