(* ===== verification/Sim.thy ===== *)
theory Sim
  imports Flasher
begin

unbundle bit_operations_syntax

section \<open>The simulated ESP32-S3 (crates/hidfi-flash/src/sim.rs)\<close>

text \<open>
  The chip on the other end of the cable: NOR flash, the ROM loader and the stub as far as the
  flasher uses them, the boot chain and the injected faults.  It is the model's provider of the
  \<open>Port\<close> interface: \<open>port_contract\<close> is interpreted on it below.  An index or slice out of range is a
  \<open>Panic\<close>; \<open>u32\<close> additions wrap (the release build).  The hashes are arguments.
\<close>

subsection \<open>Definitions: state\<close>

definition FLASH :: nat where "FLASH = 16 * 1024 * 1024"

record hashes =
  md5 :: "u8 list \<Rightarrow> u8 list"
  sha256 :: "u8 list \<Rightarrow> u8 list"

record faults =
  power_cut_after_bytes :: "nat option"
  unplug_after_frames :: "nat option"
  flip_bit_in_block :: "nat option"
  f_chip_id :: "u32 option"
  f_mac :: "u8 list option"

definition faults_default :: faults where
  "faults_default = \<lparr>power_cut_after_bytes = None, unplug_after_frames = None,
     flip_bit_in_block = None, f_chip_id = None, f_mac = None\<rparr>"

datatype boot = App nat "string option" bool | Brick string

record sim =
  flash :: "u8 list"
  sim_faults :: faults
  sim_mac :: "u8 list"
  seen :: "u8 list"
  boots :: "boot list"
  valid_at_boot :: "string list"
  reg_writes :: "(u32 \<times> u32 \<times> u32) list"
  force_download :: bool
  corrupt_nvs_on_next_md5 :: bool
  sdec :: decoder
  sout :: "u8 list"
  sstub :: bool
  in_download :: bool
  dead :: bool
  written_total :: nat
  sframes :: nat
  flash_blocks :: nat
  write_at :: u32
  write_end :: u32
  mem :: "u8 list"
  dtr :: bool
  rts :: bool
  pending_read :: "(u32 \<times> u32) option"
  read_origin :: nat

type_synonym 'a sprog = "(sim, string, 'a) prog"

definition sim_new :: "u8 list \<Rightarrow> u8 list \<Rightarrow> sim" where
  "sim_new fl mac = \<lparr>flash = fl, sim_faults = faults_default, sim_mac = mac, seen = [], boots = [],
     valid_at_boot = [], reg_writes = [], force_download = False, corrupt_nvs_on_next_md5 = False,
     sdec = decoder_default, sout = [], sstub = False, in_download = False, dead = False,
     written_total = 0, sframes = 0, flash_blocks = 0, write_at = 0, write_end = 0, mem = [],
     dtr = False, rts = False, pending_read = None, read_origin = 0\<rparr>"

definition enter_forced_download :: "sim \<Rightarrow> sim" where
  "enter_forced_download s = s\<lparr>force_download := True, in_download := True, sstub := False, sout := []\<rparr>"

subsection \<open>Definitions: the boot chain\<close>

definition sim_table :: "hashes \<Rightarrow> sim \<Rightarrow> partition list option" where
  "sim_table H s =
     parse_table (md5 H) (slice (flash s) (unat TABLE_OFFSET) (unat TABLE_OFFSET + TABLE_LEN))"

text \<open>\<open>image_len\<close>: the loop over the segment headers of \<open>h\<close>, then the checksum and the hash.\<close>

fun image_len_loop :: "u8 list \<Rightarrow> nat \<Rightarrow> nat \<Rightarrow> nat \<Rightarrow> nat option" where
  "image_len_loop h 0 limit pos = Some pos"
| "image_len_loop h (Suc k) limit pos =
     (if length h < pos + 8 then None
      else let pos' = pos + 8 + unat (u32_at h (pos + 4)) in
           if limit < pos' then None else image_len_loop h k limit pos')"

definition image_len :: "nat \<Rightarrow> nat \<Rightarrow> nat option sprog" where
  "image_len off limit s =
     (let h = drop off (flash s) in
      if length (flash s) \<le> off then (Panic, s)
      else if h ! 0 \<noteq> 0xE9 then (Ok None, s)
      else if length h < 2 then (Panic, s)
      else case image_len_loop h (unat (h ! 1)) limit 24 of
             None \<Rightarrow> (Ok None, s)
           | Some p \<Rightarrow>
               if length h < 24 then (Panic, s)
               else let pos = pad16 p + (if h ! 23 = 1 then 32 else 0) in
                    (Ok (if pos \<le> limit then Some pos else None), s))"

definition write_state :: "u8 list \<Rightarrow> nat \<Rightarrow> u32 \<Rightarrow> u8 list" where
  "write_state od sector state = splice od (sector * OTADATA_SECTOR + 24) (u32_to_le state)"

definition ota_partition :: "partition list \<Rightarrow> partition option" where
  "ota_partition table = find (\<lambda>p. pt_ptype p = 1 \<and> pt_subtype p = 0) table"

definition mark_valid :: "hashes \<Rightarrow> unit sprog" where
  "mark_valid H s =
     (case sim_table H s of
        None \<Rightarrow> (Ok (), s)
      | Some table \<Rightarrow>
          (case ota_partition table of
             None \<Rightarrow> (Ok (), s)
           | Some o' \<Rightarrow>
               let at = unat (pt_offset o') in
               if length (flash s) < at + 2 * OTADATA_SECTOR then (Panic, s)
               else
                 let od = slice (flash s) at (at + 2 * OTADATA_SECTOR) in
                 (case otadata_choice od (length (app_slots table)) of
                    None \<Rightarrow> (Ok (), s)
                  | Some c \<Rightarrow>
                      (Ok (), s\<lparr>flash := splice (flash s) at (write_state od (ch_sector c) OTA_VALID)\<rparr>))))"

text \<open>What the bootloader does with otadata: the choice it follows, and otadata rewritten.  A
  choice still on probation (\<open>PENDING_VERIFY\<close>) is given up; an untried one goes on probation.\<close>

definition boot_otadata :: "u8 list \<Rightarrow> nat \<Rightarrow> (nat \<times> u32) option \<times> u8 list" where
  "boot_otadata od slots =
     (case otadata_choice od slots of
        None \<Rightarrow> (None, od)
      | Some c \<Rightarrow>
          let (choice, od1) =
            (if ch_state c = PENDING_VERIFY then
               let od' = write_state od (ch_sector c) ABORTED in
               ((case otadata_choice od' slots of
                   None \<Rightarrow> (0, UNDEFINED) | Some c' \<Rightarrow> (ch_slot c', ch_state c')), od')
             else ((ch_slot c, ch_state c), od))
          in if snd choice = OTA_NEW then
               (case otadata_choice od1 slots of
                  None \<Rightarrow> (Some choice, od1)
                | Some c2 \<Rightarrow>
                    (Some (ch_slot c2, PENDING_VERIFY), write_state od1 (ch_sector c2) PENDING_VERIFY))
             else (Some choice, od1))"

text \<open>One slot: nothing when its image is not valid.  The slots are tried in order, and the first
  with a valid image runs.\<close>

definition boot_image :: "hashes \<Rightarrow> nat \<Rightarrow> nat \<Rightarrow> nat \<Rightarrow> bool \<Rightarrow> boot option sprog" where
  "boot_image H off len i pending s =
     (if length (flash s) < off + len then (Panic, s)
      else if \<not> image_is_valid (sha256 H) (slice (flash s) off (off + len)) then (Ok None, s)
      else
        let version = Option.bind (identify (slice (flash s) off (off + min ID_WINDOW len))) id_version
        in if pending \<and> (case version of None \<Rightarrow> False | Some v \<Rightarrow> v \<in> set (valid_at_boot s)) then
             bnd (mark_valid H) (\<lambda>_. ret (Some (App i version False))) s
           else (Ok (Some (App i version pending)), s))"

definition boot_slot :: "hashes \<Rightarrow> partition \<Rightarrow> nat \<Rightarrow> bool \<Rightarrow> boot option sprog" where
  "boot_slot H p i pending =
     bnd (image_len (unat (pt_offset p)) (unat (pt_size p))) (\<lambda>r.
       case r of None \<Rightarrow> ret None | Some len \<Rightarrow> boot_image H (unat (pt_offset p)) len i pending)"

fun boot_slots :: "hashes \<Rightarrow> partition list \<Rightarrow> nat \<Rightarrow> u32 \<Rightarrow> nat list \<Rightarrow> boot sprog" where
  "boot_slots H slots want state [] = ret (Brick ''no valid app'')"
| "boot_slots H slots want state (i # rest) =
     bnd (boot_slot H (slots ! i) i (i = want \<and> state = PENDING_VERIFY)) (\<lambda>r.
       case r of Some b \<Rightarrow> ret b | None \<Rightarrow> boot_slots H slots want state rest)"

definition boot_from :: "hashes \<Rightarrow> partition list \<Rightarrow> (nat \<times> u32) option \<Rightarrow> boot sprog" where
  "boot_from H slots choice =
     (let (want, state) = (case choice of Some c \<Rightarrow> c | None \<Rightarrow> (0, UNDEFINED))
      in boot_slots H slots want state (want # filter (\<lambda>i. i \<noteq> want) [0..<length slots]))"

definition sim_boot :: "hashes \<Rightarrow> boot sprog" where
  "sim_boot H s =
     (if length (flash s) = 0 then (Panic, s)
      else if flash s ! 0 \<noteq> 0xE9 then (Ok (Brick ''no bootloader''), s)
      else case sim_table H s of
        None \<Rightarrow> (Ok (Brick ''no partition table''), s)
      | Some table \<Rightarrow>
          let slots = app_slots table in
          if slots = [] then (Ok (Brick ''no app partition''), s)
          else (case ota_partition table of
                  None \<Rightarrow> boot_from H slots None s
                | Some o' \<Rightarrow>
                    let at = unat (pt_offset o') in
                    if length (flash s) < at + 2 * OTADATA_SECTOR then (Panic, s)
                    else
                      let (choice, od) =
                        boot_otadata (slice (flash s) at (at + 2 * OTADATA_SECTOR)) (length slots)
                      in boot_from H slots choice (s\<lparr>flash := splice (flash s) at od\<rparr>)))"

definition reconnect :: "hashes \<Rightarrow> unit sprog" where
  "reconnect H s =
     bnd (sim_boot H) (\<lambda>b. modify (\<lambda>s. s\<lparr>boots := boots s @ [b]\<rparr>))
       (s\<lparr>dead := False, in_download := False, sstub := False,
          sim_faults := (sim_faults s)\<lparr>power_cut_after_bytes := None, unplug_after_frames := None\<rparr>\<rparr>)"

subsection \<open>Definitions: the wire\<close>

definition reply_frame :: "bool \<Rightarrow> u8 \<Rightarrow> u32 \<Rightarrow> u8 list \<Rightarrow> bool \<Rightarrow> u8 list" where
  "reply_frame stub op value data ok =
     (let d = data @ (if ok then [0, 0] else [1, 5]) @ (if stub then [] else [0, 0])
      in [0x01, op] @ u16_to_le (of_nat (length d)) @ u32_to_le value @ d)"

definition reply :: "u8 \<Rightarrow> u32 \<Rightarrow> u8 list \<Rightarrow> bool \<Rightarrow> sim \<Rightarrow> sim" where
  "reply op value data ok s = s\<lparr>sout := sout s @ encode (reply_frame (sstub s) op value data ok)\<rparr>"

text \<open>NOR flash: a write only clears bits, and bytes past the end of the chip go nowhere.\<close>

fun nor_write :: "u8 list \<Rightarrow> nat \<Rightarrow> u8 list \<Rightarrow> u8 list" where
  "nor_write fl a [] = fl"
| "nor_write fl a (b # bs) =
     nor_write (if a < FLASH then fl[a := fl ! a AND b] else fl) (Suc a) bs"

definition write_flash :: "u32 \<Rightarrow> u8 list \<Rightarrow> unit sprog" where
  "write_flash at data0 s =
     (let hit = (flip_bit_in_block (sim_faults s) = Some (flash_blocks s)) in
      if hit \<and> data0 = [] then (Panic, s)
      else
        let data = (if hit then data0[length data0 div 2 := data0 ! (length data0 div 2) XOR 0x10] else data0);
            cut = power_cut_after_bytes (sim_faults s);
            short = (case cut of None \<Rightarrow> False | Some c \<Rightarrow> c < written_total s + length data);
            n = (if short then (case cut of None \<Rightarrow> 0 | Some c \<Rightarrow> c - written_total s) else length data)
        in (Ok (), s\<lparr>flash_blocks := flash_blocks s + 1, dead := dead s \<or> short,
              flash := nor_write (flash s) (unat at) (take n data),
              written_total := written_total s + n\<rparr>))"

fun erase_sectors :: "nat \<Rightarrow> nat \<Rightarrow> sim \<Rightarrow> sim" where
  "erase_sectors 0 a s = s"
| "erase_sectors (Suc n) a s =
     (if dead s then s
      else erase_sectors n (a + 0x1000)
        (s\<lparr>flash := splice (flash s) a (replicate 0x1000 0xFF),
           dead := (case power_cut_after_bytes (sim_faults s) of
                      None \<Rightarrow> dead s | Some c \<Rightarrow> dead s \<or> c \<le> written_total s)\<rparr>))"

definition erase :: "u32 \<Rightarrow> u32 \<Rightarrow> sim \<Rightarrow> sim" where
  "erase from len s =
     (let start = unat from div 0x1000 * 0x1000;
          stop = (unat (from + len) + 0xFFF) div 0x1000 * 0x1000
      in erase_sectors ((min stop FLASH - start + 0xFFF) div 0x1000) start s)"

definition stream_read :: "hashes \<Rightarrow> u32 \<Rightarrow> u32 \<Rightarrow> unit sprog" where
  "stream_read H at left s =
     (if left = 0 then (Ok (), s)
      else
        let n = min left 0x1000; nat_end = at + n in
        if unat nat_end < unat at \<or> length (flash s) < unat nat_end then (Panic, s)
        else
          let s1 = s\<lparr>sout := sout s @ encode (slice (flash s) (unat at) (unat nat_end))\<rparr>;
              nleft = left - n
          in if nleft = 0 then
               (if unat nat_end < read_origin s1 then (Panic, s1)
                else (Ok (), s1\<lparr>sout := sout s1 @ encode (md5 H (slice (flash s1) (read_origin s1) (unat nat_end))),
                        pending_read := None\<rparr>))
             else (Ok (), s1\<lparr>pending_read := Some (nat_end, nleft)\<rparr>))"

definition word_arg :: "u8 list \<Rightarrow> nat \<Rightarrow> u32" where
  "word_arg d i = (if i * 4 + 4 \<le> length d then u32_at d (i * 4) else 0)"

text \<open>A data block: written when it passed the checks; answered unless power went.\<close>

definition flash_data :: "u32 \<Rightarrow> u8 list \<Rightarrow> bool \<Rightarrow> unit sprog" where
  "flash_data at data ok =
     seq (if ok then seq (write_flash at data)
                      (modify (\<lambda>s. s\<lparr>write_at := write_at s + of_nat (length data)\<rparr>))
          else ret ())
       (modify (\<lambda>s. if dead s then s else reply (op_code FlashData) 0 [] ok s))"

text \<open>One operation of the loader.\<close>

fun handle_op :: "hashes \<Rightarrow> op \<Rightarrow> loader_request \<Rightarrow> unit sprog" where
  "handle_op H Sync req s =
     (Ok (), (reply (op_code Sync) 0x20100707 [] True ^^ 3) s)"
| "handle_op H GetSecurityInfo req s =
     (Ok (), reply (op_code GetSecurityInfo) 0
        (splice (replicate 20 0) 12
          (u32_to_le (case f_chip_id (sim_faults s) of Some c \<Rightarrow> c | None \<Rightarrow> 9))) True s)"
| "handle_op H ReadReg req s =
     (let m = (case f_mac (sim_faults s) of Some m \<Rightarrow> m | None \<Rightarrow> sim_mac s);
          a = word_arg (req_data req) 0;
          v = (if a = 0x60007044 then u32_be (m ! 2) (m ! 3) (m ! 4) (m ! 5)
               else if a = 0x60007048 then u32_be 0 0 (m ! 0) (m ! 1) else 0)
      in (Ok (), reply (op_code ReadReg) v [] True s))"
| "handle_op H MemBegin req s = (Ok (), reply (op_code MemBegin) 0 [] True (s\<lparr>mem := []\<rparr>))"
| "handle_op H MemData req s =
     (if length (req_data req) < 16 then (Panic, s)
      else
        let d = drop 16 (req_data req) in
        (Ok (), reply (op_code MemData) 0 [] (checksum d = req_chk req) (s\<lparr>mem := mem s @ d\<rparr>)))"
| "handle_op H MemEnd req s =
     (let s1 = reply (op_code MemEnd) 0 [] True s
      in (Ok (), s1\<lparr>sstub := True, sout := sout s1 @ encode (bytes ''OHAI'')\<rparr>))"
| "handle_op H SpiAttach req s = (Ok (), reply (op_code SpiAttach) 0 [] True s)"
| "handle_op H SpiSetParams req s = (Ok (), reply (op_code SpiSetParams) 0 [] True s)"
| "handle_op H ChangeBaudrate req s = (Ok (), reply (op_code ChangeBaudrate) 0 [] True s)"
| "handle_op H FlashEnd req s = (Ok (), reply (op_code FlashEnd) 0 [] True s)"
| "handle_op H WriteReg req s =
     (let a = word_arg (req_data req) 0; v = word_arg (req_data req) 1; m = word_arg (req_data req) 2;
          s1 = s\<lparr>reg_writes := reg_writes s @ [(a, v, m)]\<rparr>;
          s2 = (if a = RTC_CNTL_OPTION1_REG \<and> m AND 1 \<noteq> 0
                then s1\<lparr>force_download := (v AND 1 \<noteq> 0)\<rparr> else s1)
      in (Ok (), reply (op_code WriteReg) 0 [] True s2))"
| "handle_op H FlashBegin req s =
     (let len = word_arg (req_data req) 0; at = word_arg (req_data req) 3;
          s1 = (erase at len s)\<lparr>write_at := at, write_end := at + len\<rparr>
      in (Ok (), if dead s1 then s1 else reply (op_code FlashBegin) 0 [] True s1))"
| "handle_op H FlashData req s =
     (let len = unat (word_arg (req_data req) 0) in
      if length (req_data req) < 16 + len then (Panic, s)
      else
        let data = slice (req_data req) 16 (16 + len);
            ok = (checksum data = req_chk req \<and> write_at s + of_nat len \<le> write_end s)
        in flash_data (write_at s) data ok s)"
| "handle_op H SpiFlashMd5 req s =
     (let s1 = (if corrupt_nvs_on_next_md5 s
                then s\<lparr>corrupt_nvs_on_next_md5 := False,
                       flash := (flash s)[0x9100 := flash s ! 0x9100 XOR 1]\<rparr> else s);
          at = unat (word_arg (req_data req) 0); len = unat (word_arg (req_data req) 1)
      in if length (flash s1) < at + len then (Panic, s1)
         else
           let d = md5 H (slice (flash s1) at (at + len)) in
           (Ok (), reply (op_code SpiFlashMd5) 0
              (if sstub s1 then d else bytes (concat (map hex2 d))) True s1))"
| "handle_op H ReadFlash req s =
     (if \<not> sstub s then (Ok (), reply (op_code ReadFlash) 0 [] False s)
      else
        let at = word_arg (req_data req) 0; len = word_arg (req_data req) 1 in
        stream_read H at len
          ((reply (op_code ReadFlash) 0 [] True s)\<lparr>read_origin := unat at, pending_read := Some (at, len)\<rparr>))"

definition handle_request :: "hashes \<Rightarrow> u8 list \<Rightarrow> unit sprog" where
  "handle_request H frame s =
     (case parse_request frame of
        None \<Rightarrow> (Ok (), s)
      | Some req \<Rightarrow>
          let s1 = s\<lparr>sframes := sframes s + 1, seen := seen s @ [req_op req]\<rparr> in
          if (case unplug_after_frames (sim_faults s1) of None \<Rightarrow> False | Some n \<Rightarrow> n < sframes s1) then
            (Ok (), s1\<lparr>dead := True\<rparr>)
          else if \<not> in_download s1 then (Ok (), s1)
          else (case op_from_u8 (req_op req) of
                  None \<Rightarrow> (Ok (), reply (req_op req) 0 [] False s1)
                | Some op \<Rightarrow> handle_op H op req s1))"

definition handle :: "hashes \<Rightarrow> u8 list \<Rightarrow> unit sprog" where
  "handle H frame s =
     (case pending_read s of
        Some (at, left) \<Rightarrow> if length frame = 4 then stream_read H at left s else handle_request H frame s
      | None \<Rightarrow> handle_request H frame s)"

subsection \<open>Definitions: the port\<close>

fun handle_all :: "hashes \<Rightarrow> u8 list list \<Rightarrow> unit sprog" where
  "handle_all H [] s = (Ok (), s)"
| "handle_all H (f # fs) s = seq (handle H f) (handle_all H fs) s"

definition sim_write_all :: "hashes \<Rightarrow> u8 list \<Rightarrow> unit sprog" where
  "sim_write_all H data s =
     (if dead s then (Err ''the board is unplugged'', s)
      else case feed (sdec s) data [] of (d, frames) \<Rightarrow> handle_all H frames (s\<lparr>sdec := d\<rparr>))"

definition sim_read :: "nat \<Rightarrow> nat \<Rightarrow> u8 list sprog" where
  "sim_read buf timeout_ms s =
     (if dead s then (Err ''the board is unplugged'', s)
      else (Ok (take buf (sout s)), s\<lparr>sout := drop buf (sout s)\<rparr>))"

definition sim_set_dtr :: "bool \<Rightarrow> unit sprog" where
  "sim_set_dtr on s = (Ok (), s\<lparr>dtr := on\<rparr>)"

definition sim_set_rts :: "hashes \<Rightarrow> bool \<Rightarrow> unit sprog" where
  "sim_set_rts H on s =
     seq (if rts s \<and> \<not> on then
            seq (modify (\<lambda>s. s\<lparr>sstub := False, sout := [], pending_read := None\<rparr>))
              (if dtr s \<or> force_download s then modify (\<lambda>s. s\<lparr>in_download := True\<rparr>)
               else seq (modify (\<lambda>s. s\<lparr>in_download := False\<rparr>))
                      (bnd (sim_boot H) (\<lambda>b. modify (\<lambda>s. s\<lparr>boots := boots s @ [b]\<rparr>))))
          else ret ())
       (modify (\<lambda>s. s\<lparr>rts := on\<rparr>)) s"

definition sim_set_baud :: "u32 \<Rightarrow> unit sprog" where
  "sim_set_baud baud = ret ()"

definition sim_port :: "hashes \<Rightarrow> sim port_ops" where
  "sim_port H = \<lparr>p_write_all = sim_write_all H, p_read = sim_read, p_set_dtr = sim_set_dtr,
     p_set_rts = sim_set_rts H, p_set_baud = sim_set_baud, p_sleep_ms = (\<lambda>_ s. s)\<rparr>"

text \<open>The frame invariant: outside \<open>R\<close> the flash is \<open>f0\<close>, the loader's open write window lies in \<open>R\<close>,
  and what the boot chain itself rewrites (the otadata of \<open>f0\<close>'s table) lies in \<open>R\<close> too.\<close>

definition same_outside :: "nat set \<Rightarrow> u8 list \<Rightarrow> u8 list \<Rightarrow> bool" where
  "same_outside R f0 fl \<longleftrightarrow>
     length f0 = FLASH \<and> length fl = FLASH \<and> (\<forall>i < FLASH. i \<in> R \<or> fl ! i = f0 ! i)"

definition flash_table :: "hashes \<Rightarrow> u8 list \<Rightarrow> partition list option" where
  "flash_table H f = parse_table (md5 H) (slice f 0x8000 0x8C00)"

definition boot_guard :: "hashes \<Rightarrow> nat set \<Rightarrow> u8 list \<Rightarrow> bool" where
  "boot_guard H R f0 \<longleftrightarrow> {0x8000..<0x8C00} \<inter> R = {} \<and>
     (case Option.bind (flash_table H f0) ota_partition of
        None \<Rightarrow> True
      | Some o' \<Rightarrow> {unat (pt_offset o')..<unat (pt_offset o') + 2 * OTADATA_SECTOR} \<subseteq> R)"

definition window_ok :: "nat set \<Rightarrow> sim \<Rightarrow> bool" where
  "window_ok R s \<longleftrightarrow> unat (write_at s) \<le> unat (write_end s) \<and> unat (write_end s) \<le> FLASH \<and>
     {unat (write_at s)..<unat (write_end s)} \<subseteq> R"

definition confined :: "hashes \<Rightarrow> nat set \<Rightarrow> u8 list \<Rightarrow> sim \<Rightarrow> bool" where
  "confined H R f0 s \<longleftrightarrow> boot_guard H R f0 \<and> same_outside R f0 (flash s) \<and> window_ok R s \<and>
     \<not> corrupt_nvs_on_next_md5 s \<and> (sdec s = decoder_default \<or> sdec s = dec_clean)"

definition in_region :: "nat set \<Rightarrow> u32 \<Rightarrow> u32 \<Rightarrow> bool" where
  "in_region R at len \<longleftrightarrow> unat at mod 0x1000 = 0 \<and> unat len mod 0x1000 = 0 \<and>
     unat at + unat len \<le> FLASH \<and> {unat at..<unat at + unat len} \<subseteq> R"

definition frame_in :: "nat set \<Rightarrow> u8 list \<Rightarrow> bool" where
  "frame_in R frame =
     (case parse_request frame of
        None \<Rightarrow> True
      | Some req \<Rightarrow> req_op req = op_code FlashBegin \<longrightarrow>
          in_region R (word_arg (req_data req) 3) (word_arg (req_data req) 0))"

text \<open>The opcode invariant: nothing forbidden was ever seen, and every register write that arrived
  is the target of a named \<open>SafeWrite\<close>.\<close>

definition only_safe :: "sim \<Rightarrow> bool" where
  "only_safe s \<longleftrightarrow> (\<forall>b \<in> set (seen s). b \<notin> fst ` set forbidden) \<and>
     (\<forall>t \<in> set (reg_writes s). t \<in> safe_target ` set safe_write_all) \<and>
     (sdec s = decoder_default \<or> sdec s = dec_clean)"

definition frame_safe :: "u8 list \<Rightarrow> bool" where
  "frame_safe frame =
     (case parse_request frame of
        None \<Rightarrow> True
      | Some req \<Rightarrow> req_op req \<notin> fst ` set forbidden \<and>
          (req_op req = op_code WriteReg \<longrightarrow> req_data req = safe_payload ClearForceDownload))"

text \<open>A board whose flash \<open>f\<close> starts slot \<open>i\<close>: a bootloader, a table whose slots and otadata lie inside
  the flash, and a valid image in the slot.\<close>

definition slot_fits :: "partition \<Rightarrow> bool" where
  "slot_fits p \<longleftrightarrow> 24 \<le> unat (pt_size p) \<and> unat (pt_offset p) + unat (pt_size p) \<le> FLASH"

definition table_fits :: "partition list \<Rightarrow> bool" where
  "table_fits table \<longleftrightarrow> list_all slot_fits (app_slots table) \<and>
     (case ota_partition table of
        None \<Rightarrow> True | Some o' \<Rightarrow> unat (pt_offset o') + 2 * OTADATA_SECTOR \<le> FLASH)"

definition slot_len :: "partition \<Rightarrow> u8 list \<Rightarrow> nat option" where
  "slot_len p f =
     (let h = drop (unat (pt_offset p)) f; limit = unat (pt_size p) in
      if h ! 0 \<noteq> 0xE9 then None
      else case image_len_loop h (unat (h ! 1)) limit 24 of
             None \<Rightarrow> None
           | Some q \<Rightarrow> let pos = pad16 q + (if h ! 23 = 1 then 32 else 0) in
                        if pos \<le> limit then Some pos else None)"

definition slot_valid :: "hashes \<Rightarrow> partition \<Rightarrow> u8 list \<Rightarrow> bool" where
  "slot_valid H p f =
     (case slot_len p f of
        None \<Rightarrow> False
      | Some len \<Rightarrow> image_is_valid (sha256 H) (slice f (unat (pt_offset p)) (unat (pt_offset p) + len)))"

definition slot_range :: "partition \<Rightarrow> nat set" where
  "slot_range p = {unat (pt_offset p)..<unat (pt_offset p) + unat (pt_size p)}"

definition bootable :: "hashes \<Rightarrow> partition list \<Rightarrow> nat \<Rightarrow> u8 list \<Rightarrow> bool" where
  "bootable H table i f \<longleftrightarrow> f ! 0 = 0xE9 \<and> flash_table H f = Some table \<and> table_fits table \<and>
     i < length (app_slots table) \<and> slot_valid H (app_slots table ! i) f"

fun is_app :: "boot \<Rightarrow> bool" where
  "is_app (App _ _ _) = True"
| "is_app (Brick _) = False"

text \<open>What the boot chain, the reads and the writes of the loader leave alone.\<close>

definition quiet :: "sim \<Rightarrow> sim \<Rightarrow> bool" where
  "quiet s s' \<longleftrightarrow> seen s' = seen s \<and> reg_writes s' = reg_writes s \<and> sdec s' = sdec s"

subsection \<open>Lemmas: flash outside a region\<close>

lemma same_outside_len: "same_outside R f0 fl \<Longrightarrow> length fl = FLASH"
  by (simp add: same_outside_def)

lemma same_outside_splice:
  assumes "same_outside R f0 fl" and "a + length ys \<le> FLASH" and "{a..<a + length ys} \<subseteq> R"
  shows "same_outside R f0 (splice fl a ys)"
  using assms by (auto simp: same_outside_def nth_splice subset_iff)

lemma same_outside_nor_write:
  "same_outside R f0 fl \<Longrightarrow> {a..<a + length ys} \<subseteq> R \<Longrightarrow> same_outside R f0 (nor_write fl a ys)"
proof (induction ys arbitrary: fl a)
  case (Cons b ys)
  have "a \<in> R" and rest: "{Suc a..<Suc a + length ys} \<subseteq> R"
    using Cons.prems(2) by auto
  then have "same_outside R f0 (if a < FLASH then fl[a := fl ! a AND b] else fl)"
    using Cons.prems(1) by (auto simp: same_outside_def nth_list_update)
  from Cons.IH [OF this rest] show ?case by simp
qed simp

lemma same_outside_slice:
  assumes "same_outside R f0 fl" and "{a..<b} \<inter> R = {}" and "b \<le> FLASH"
  shows "slice fl a b = slice f0 a b"
proof -
  have "fl ! (a + i) = f0 ! (a + i)" if "i < b - a" for i
  proof -
    have "a + i \<in> {a..<b}" using that by auto
    then have "a + i \<notin> R" and "a + i < FLASH" using assms(2,3) by (blast, simp)
    then show ?thesis using assms(1) unfolding same_outside_def by blast
  qed
  then show ?thesis
    using assms(1,3) by (intro nth_equalityI) (auto simp: same_outside_def)
qed

lemma erase_sectors_flash:
  assumes "same_outside R f0 (flash s)" and "a + n * 0x1000 \<le> FLASH" and "{a..<a + n * 0x1000} \<subseteq> R"
  shows "same_outside R f0 (flash (erase_sectors n a s))"
  using assms
proof (induction n arbitrary: a s)
  case (Suc n)
  have "same_outside R f0 (splice (flash s) a (replicate 0x1000 0xFF))"
    using Suc.prems by (intro same_outside_splice) (auto simp: subset_iff)
  with Suc.prems Suc.IH show ?case by (auto simp: subset_iff)
qed simp

lemma erase_sectors_frame:
  "write_at (erase_sectors n a s) = write_at s \<and> write_end (erase_sectors n a s) = write_end s \<and>
   corrupt_nvs_on_next_md5 (erase_sectors n a s) = corrupt_nvs_on_next_md5 s \<and>
   sdec (erase_sectors n a s) = sdec s \<and> seen (erase_sectors n a s) = seen s \<and>
   reg_writes (erase_sectors n a s) = reg_writes s"
  by (induction n arbitrary: a s) (simp_all add: Let_def)

lemma erase_sectors_sout: "sout (erase_sectors n a s) = sout s"
  by (induction n arbitrary: a s) simp_all

lemma erase_count:
  assumes "in_region R at len"
  shows "erase at len s = erase_sectors (unat len div 0x1000) (unat at) s"
proof -
  obtain p q where at: "unat at = 0x1000 * p" and len: "unat len = 0x1000 * q"
    using assms by (auto simp: in_region_def mod_eq_0_iff_dvd elim!: dvdE)
  have fit: "unat at + unat len \<le> FLASH" using assms by (simp add: in_region_def)
  then have "unat (at + len) = unat at + unat len"
    by (intro unat_add_lem [THEN iffD1]) (simp add: FLASH_def)
  then have sum: "unat (at + len) = 0x1000 * (p + q)"
    unfolding at len by simp
  have up: "(0x1000 * k + 0xFFF) div 0x1000 = k" for k :: nat
    by (simp add: div_plus_div_distrib_dvd_left)
  have stop: "(unat (at + len) + 0xFFF) div 0x1000 * 0x1000 = 0x1000 * (p + q)"
    and start: "unat at div 0x1000 * 0x1000 = 0x1000 * p"
    unfolding sum up at by simp_all
  have "(min (0x1000 * (p + q)) FLASH - 0x1000 * p + 0xFFF) div 0x1000 = q"
    using fit up [of q] unfolding at len by (simp add: add_mult_distrib2)
  then show ?thesis
    unfolding erase_def Let_def stop start by (simp add: at len)
qed

lemma erase_same_outside:
  assumes "in_region R at len" and "same_outside R f0 (flash s)"
  shows "same_outside R f0 (flash (erase at len s))"
proof -
  have "unat len div 0x1000 * 0x1000 = unat len" using assms(1) by (auto simp: in_region_def)
  with assms show ?thesis
    unfolding erase_count [OF assms(1)] by (intro erase_sectors_flash) (auto simp: in_region_def)
qed

subsection \<open>Lemmas: the boot chain writes only otadata\<close>

lemma confined_frame [simp]:
  "confined H R f0 (s\<lparr>seen := a\<rparr>) = confined H R f0 s"
  "confined H R f0 (s\<lparr>boots := b\<rparr>) = confined H R f0 s"
  "confined H R f0 (s\<lparr>reg_writes := c\<rparr>) = confined H R f0 s"
  "confined H R f0 (s\<lparr>force_download := d\<rparr>) = confined H R f0 s"
  "confined H R f0 (s\<lparr>sout := e\<rparr>) = confined H R f0 s"
  "confined H R f0 (s\<lparr>sstub := f\<rparr>) = confined H R f0 s"
  "confined H R f0 (s\<lparr>in_download := g\<rparr>) = confined H R f0 s"
  "confined H R f0 (s\<lparr>dead := h\<rparr>) = confined H R f0 s"
  "confined H R f0 (s\<lparr>written_total := i\<rparr>) = confined H R f0 s"
  "confined H R f0 (s\<lparr>sframes := i\<rparr>) = confined H R f0 s"
  "confined H R f0 (s\<lparr>flash_blocks := i\<rparr>) = confined H R f0 s"
  "confined H R f0 (s\<lparr>mem := k\<rparr>) = confined H R f0 s"
  "confined H R f0 (s\<lparr>dtr := l\<rparr>) = confined H R f0 s"
  "confined H R f0 (s\<lparr>rts := m\<rparr>) = confined H R f0 s"
  "confined H R f0 (s\<lparr>pending_read := n\<rparr>) = confined H R f0 s"
  "confined H R f0 (s\<lparr>read_origin := j\<rparr>) = confined H R f0 s"
  "confined H R f0 (s\<lparr>sim_faults := q\<rparr>) = confined H R f0 s"
  by (simp_all add: confined_def window_ok_def)

lemma confined_flash:
  "confined H R f0 s \<Longrightarrow> same_outside R f0 fl \<Longrightarrow> confined H R f0 (s\<lparr>flash := fl\<rparr>)"
  by (simp add: confined_def window_ok_def)

lemma confined_same: "confined H R f0 s \<Longrightarrow> same_outside R f0 (flash s)"
  by (simp add: confined_def)

lemma sim_table_eq: "sim_table H s = flash_table H (flash s)"
  by (simp add: sim_table_def flash_table_def TABLE_OFFSET_def TABLE_LEN_def)

lemma confined_table:
  assumes "confined H R f0 s" shows "flash_table H (flash s) = flash_table H f0"
proof -
  have "slice (flash s) 0x8000 0x8C00 = slice f0 0x8000 0x8C00"
    using assms by (intro same_outside_slice) (auto simp: confined_def boot_guard_def FLASH_def)
  then show ?thesis by (simp add: flash_table_def)
qed

lemma confined_otadata:
  assumes "confined H R f0 s" and "flash_table H f0 = Some table" and "ota_partition table = Some o'"
    and "unat (pt_offset o') + 2 * OTADATA_SECTOR \<le> length (flash s)" and "length od = 2 * OTADATA_SECTOR"
  shows "confined H R f0 (s\<lparr>flash := splice (flash s) (unat (pt_offset o')) od\<rparr>)"
  using assms by (intro confined_flash same_outside_splice)
    (auto simp: confined_def boot_guard_def dest: same_outside_len)

lemma length_write_state:
  "length od = 2 * OTADATA_SECTOR \<Longrightarrow> sector < 2 \<Longrightarrow> length (write_state od sector st) = 2 * OTADATA_SECTOR"
  by (cases sector) (simp_all add: write_state_def OTADATA_SECTOR_def)

lemma length_boot_otadata:
  assumes "length od = 2 * OTADATA_SECTOR"
  shows "length (snd (boot_otadata od slots)) = 2 * OTADATA_SECTOR"
  using assms by (auto simp: boot_otadata_def Let_def length_write_state otadata_choice_sector
      split: option.split)

lemma mark_valid_confined: "triple (confined H R f0) (mark_valid H) (\<lambda>_. True)"
  by (rule tripleI)
    (auto simp: mark_valid_def sim_table_eq confined_table Let_def length_write_state
       otadata_choice_sector split: option.split intro!: confined_otadata)

lemma image_len_state: "snd (image_len off limit s) = s"
  by (simp add: image_len_def Let_def split: option.split)

lemma boot_image_confined: "triple (confined H R f0) (boot_image H off len i pending) (\<lambda>_. True)"
proof (rule tripleI)
  fix s assume I: "confined H R f0 s"
  have "triple (confined H R f0) (bnd (mark_valid H) (\<lambda>_. ret b)) (\<lambda>_. True)" for b :: "boot option"
    by (rule triple_bnd [OF mark_valid_confined]) (simp add: triple_ret)
  from tripleD [OF this I] I show "confined H R f0 (snd (boot_image H off len i pending s))"
    by (simp add: boot_image_def Let_def)
qed simp

lemma boot_slot_confined: "triple (confined H R f0) (boot_slot H p i pending) (\<lambda>_. True)"
  unfolding boot_slot_def
proof (rule triple_bnd)
  show "triple (confined H R f0) (image_len (unat (pt_offset p)) (unat (pt_size p))) (\<lambda>_. True)"
    by (rule tripleI) (simp_all add: image_len_state)
qed (simp add: boot_image_confined triple_ret split: option.split)

lemma boot_slots_confined: "triple (confined H R f0) (boot_slots H slots want st order) (\<lambda>_. True)"
proof (induction order)
  case (Cons i order)
  then show ?case
    by (auto intro!: triple_bnd [OF boot_slot_confined] triple_ret split: option.split)
qed (simp add: triple_ret)

lemma boot_from_confined: "triple (confined H R f0) (boot_from H slots choice) (\<lambda>_. True)"
  by (simp add: boot_from_def boot_slots_confined Let_def del: boot_slots.simps split: prod.split)

lemma sim_boot_confined: "triple (confined H R f0) (sim_boot H) (\<lambda>_. True)"
proof (rule tripleI)
  fix s assume I: "confined H R f0 s"
  note boot = tripleD [OF boot_from_confined]
  show "confined H R f0 (snd (sim_boot H s))"
    unfolding sim_boot_def sim_table_eq confined_table [OF I] Let_def
    using I length_boot_otadata
    by (auto split: option.splits prod.splits intro!: boot confined_otadata)
       (metis add_diff_cancel_left' leI length_slice snd_conv)
qed simp

subsection \<open>Lemmas: the loader writes only its window\<close>

lemma reply_confined [simp]: "confined H R f0 (reply op v d ok s) = confined H R f0 s"
  by (simp add: reply_def)

lemma funpow_reply_confined [simp]:
  "confined H R f0 ((reply op v d ok ^^ n) s) = confined H R f0 s"
  by (induction n) simp_all

lemma stream_read_confined:
  "confined H R f0 s \<Longrightarrow> confined H R f0 (snd (stream_read H at left s))"
  by (simp add: stream_read_def Let_def)

lemma write_flash_confined:
  assumes "confined H R f0 s" and "{unat at..<unat at + length d} \<subseteq> R"
  shows "confined H R f0 (snd (write_flash at d s))"
proof -
  have "same_outside R f0 (nor_write (flash s) (unat at) (take n e))" if "length e = length d" for n e
    using that assms by (intro same_outside_nor_write confined_same) (auto simp: subset_iff)
  from this [of "d[length d div 2 := d ! (length d div 2) XOR 0x10]"] this [of d]
    this [of "d[length d div 2 := d ! (length d div 2) XOR 0x10]" "length d"] this [of d "length d"]
  show ?thesis
    using assms(1) by (auto simp: write_flash_def Let_def intro!: confined_flash)
qed

lemma write_flash_window:
  "write_at (snd (write_flash at d s)) = write_at s \<and> write_end (snd (write_flash at d s)) = write_end s"
  by (simp add: write_flash_def Let_def)

lemma erase_confined:
  assumes "confined H R f0 s" and "in_region R at len"
  shows "confined H R f0 ((erase at len s)\<lparr>write_at := at, write_end := at + len\<rparr>)"
proof -
  have fit: "unat at + unat len \<le> FLASH" using assms(2) by (simp add: in_region_def)
  then have "unat (at + len) = unat at + unat len"
    by (intro unat_add_lem [THEN iffD1]) (simp add: FLASH_def)
  with fit assms show ?thesis
    using erase_same_outside [OF assms(2) confined_same [OF assms(1)]] erase_count [OF assms(2)]
    by (simp add: confined_def window_ok_def erase_sectors_frame in_region_def)
qed

text \<open>A data block is accepted only inside the window: no wrap-around, since a block is shorter than
  64 KiB and the window ends inside the flash.\<close>

lemma window_block:
  assumes "window_ok R s" and "n < 65536" and "write_at s + of_nat n \<le> write_end s"
  shows "{unat (write_at s)..<unat (write_at s) + n} \<subseteq> R"
    and "unat (write_at s + of_nat n) = unat (write_at s) + n"
    and "unat (write_at s) + n \<le> unat (write_end s)"
proof -
  have n: "unat (of_nat n :: u32) = n" using assms(2) by (simp add: unat_of_nat)
  have "unat (write_at s) + n < 2 ^ 32"
    using assms by (simp add: window_ok_def FLASH_def)
  then show sum: "unat (write_at s + of_nat n) = unat (write_at s) + n"
    using unat_add_lem [of "write_at s" "of_nat n"] by (simp add: n)
  show "unat (write_at s) + n \<le> unat (write_end s)"
    using assms(3) sum by (simp add: word_le_nat_alt)
  with assms(1) show "{unat (write_at s)..<unat (write_at s) + n} \<subseteq> R"
    by (auto simp: window_ok_def subset_iff)
qed

lemma flash_data_confined:
  assumes I: "confined H R f0 s" and small: "length d < 65536"
    and ok: "ok \<Longrightarrow> write_at s + of_nat (length d) \<le> write_end s"
  shows "confined H R f0 (snd (flash_data (write_at s) d ok s))"
proof (cases ok)
  case False
  with I show ?thesis by (auto simp: flash_data_def seq_def bnd_def modify_def ret_def)
next
  case True
  have win: "window_ok R s" using I by (simp add: confined_def)
  note w = window_block [OF win small ok [OF True]]
  define s1 where "s1 = snd (write_flash (write_at s) d s)"
  have I1: "confined H R f0 s1"
    unfolding s1_def by (rule write_flash_confined [OF I w(1)])
  have "write_at s1 = write_at s" "write_end s1 = write_end s"
    using write_flash_window [of "write_at s" d s] by (simp_all add: s1_def)
  then have "confined H R f0 (s1\<lparr>write_at := write_at s1 + of_nat (length d)\<rparr>)"
    using I1 w(2,3) win unfolding confined_def window_ok_def by (auto simp: subset_iff)
  with I1 True show ?thesis
    by (auto simp: flash_data_def seq_def bnd_def modify_def s1_def split: outcome.split prod.split)
qed

lemma FlashData_confined:
  assumes I: "confined H R f0 s" and small: "length (req_data req) < 65536"
  shows "confined H R f0 (snd (handle_op H FlashData req s))"
proof (cases "length (req_data req) < 16 + unat (word_arg (req_data req) 0)")
  case True
  with I show ?thesis by (simp add: Let_def)
next
  case False
  define d where "d = slice (req_data req) 16 (16 + unat (word_arg (req_data req) 0))"
  define ok where "ok = (checksum d = req_chk req \<and> write_at s + word_arg (req_data req) 0 \<le> write_end s)"
  have len: "length d = unat (word_arg (req_data req) 0)" using False by (simp add: d_def)
  have "handle_op H FlashData req s = flash_data (write_at s) d ok s"
    using False by (simp add: d_def ok_def Let_def)
  moreover have "confined H R f0 (snd (flash_data (write_at s) d ok s))"
    using False small len by (intro flash_data_confined [OF I]) (simp_all add: ok_def)
  ultimately show ?thesis by simp
qed

lemma handle_op_confined:
  assumes I: "confined H R f0 s" and small: "length (req_data req) < 65536"
    and region: "op = FlashBegin \<Longrightarrow> in_region R (word_arg (req_data req) 3) (word_arg (req_data req) 0)"
  shows "confined H R f0 (snd (handle_op H op req s))"
proof (cases op)
  case FlashBegin
  with erase_confined [OF I region] I show ?thesis by (simp add: Let_def)
next
  case FlashData
  with FlashData_confined [OF I small] show ?thesis by simp
next
  case SpiFlashMd5
  have "\<not> corrupt_nvs_on_next_md5 s" using I by (simp add: confined_def)
  with SpiFlashMd5 I show ?thesis by (simp add: Let_def)
next
  case ReadFlash
  with I show ?thesis by (simp add: Let_def stream_read_confined)
qed (use I in \<open>simp_all add: Let_def\<close>)

lemma parse_request_small: "parse_request frame = Some req \<Longrightarrow> length (req_data req) < 65536"
proof -
  assume "parse_request frame = Some req"
  then have "length (req_data req) = unat (u16_le (frame ! 2) (frame ! 3))"
    by (auto simp: parse_request_def Let_def slice_opt_def split: if_splits)
  moreover have "unat (u16_le (frame ! 2) (frame ! 3)) < 2 ^ LENGTH(16)" by (rule unsigned_less)
  ultimately show ?thesis by simp
qed

lemma handle_confined:
  assumes "confined H R f0 s" and "frame_in R frame"
  shows "confined H R f0 (snd (handle H frame s))"
proof -
  have "confined H R f0 (snd (handle_request H frame s))"
  proof (cases "parse_request frame")
    case (Some req)
    let ?s = "s\<lparr>sframes := sframes s + 1, seen := seen s @ [req_op req]\<rparr>"
    have "confined H R f0 (snd (handle_op H op req ?s))" if "op_from_u8 (req_op req) = Some op" for op
      using that assms Some by (intro handle_op_confined parse_request_small [OF Some])
        (auto simp: frame_in_def dest: op_from_u8_Some)
    with Some assms(1) show ?thesis
      by (auto simp: handle_request_def Let_def split: option.split)
  qed (use assms(1) in \<open>simp add: handle_request_def\<close>)
  then show ?thesis
    using stream_read_confined [OF assms(1)] by (auto simp: handle_def split: option.split)
qed

subsection \<open>Lemmas: the port\<close>

lemma sim_write_all_encode:
  assumes "sdec s = decoder_default \<or> sdec s = dec_clean"
  shows "snd (sim_write_all H (encode frame) s) =
    (if dead s then s else if frame = [] then s\<lparr>sdec := dec_clean\<rparr> else snd (handle H frame (s\<lparr>sdec := dec_clean\<rparr>)))"
  using assms
  by (auto simp: sim_write_all_def feed_encode_clean feed_encode_default seq_def bnd_def
      split: outcome.split prod.split)

lemma confined_dec: "confined H R f0 s \<Longrightarrow> confined H R f0 (s\<lparr>sdec := dec_clean\<rparr>)"
  by (simp add: confined_def window_ok_def)

lemma write_all_confined:
  assumes "frame_in R frame"
  shows "triple (confined H R f0) (sim_write_all H (encode frame)) (\<lambda>_. True)"
proof (rule tripleI)
  fix s assume I: "confined H R f0 s"
  then have "sdec s = decoder_default \<or> sdec s = dec_clean" by (simp add: confined_def)
  with handle_confined [OF confined_dec [OF I] assms] I confined_dec [OF I]
  show "confined H R f0 (snd (sim_write_all H (encode frame) s))"
    by (simp add: sim_write_all_encode)
qed simp

lemma set_rts_confined: "triple (confined H R f0) (sim_set_rts H on) (\<lambda>_. True)"
proof (rule tripleI)
  fix s assume I: "confined H R f0 s"
  have "triple (confined H R f0)
      (seq (if rts s \<and> \<not> on then
            seq (modify (\<lambda>s. s\<lparr>sstub := False, sout := [], pending_read := None\<rparr>))
              (if dtr s \<or> force_download s then modify (\<lambda>s. s\<lparr>in_download := True\<rparr>)
               else seq (modify (\<lambda>s. s\<lparr>in_download := False\<rparr>))
                      (bnd (sim_boot H) (\<lambda>b. modify (\<lambda>s. s\<lparr>boots := boots s @ [b]\<rparr>))))
          else ret ())
       (modify (\<lambda>s. s\<lparr>rts := on\<rparr>))) (\<lambda>_. True)"
    by (intro triple_seq triple_if triple_modify triple_bnd [OF sim_boot_confined] triple_ret) simp_all
  from tripleD [OF this I] show "confined H R f0 (snd (sim_set_rts H on s))"
    by (simp add: sim_set_rts_def)
qed simp

lemma word_arg_le:
  "i < length ws \<Longrightarrow> word_arg (le ws @ tail) i = ws ! i"
proof (induction ws arbitrary: i)
  case (Cons w ws)
  show ?case
  proof (cases i)
    case 0
    then show ?thesis
      using u32_at_append_to_le [of "[]" 0 w "le ws @ tail"] by (simp add: word_arg_def le_Cons)
  next
    case (Suc j)
    then have "word_arg (le (w # ws) @ tail) i = word_arg (le ws @ tail) j"
      by (simp add: word_arg_def le_Cons u32_at_def u32_to_le_def add.commute)
    with Suc Cons show ?thesis by simp
  qed
qed simp

lemma frame_in_begin:
  "in_region R at len \<Longrightarrow> length tail < 1000 \<Longrightarrow>
   frame_in R (request FlashBegin (le [len, blocks, block, at] @ tail) chk)"
  by (simp add: frame_in_def parse_request_request word_arg_le)

interpretation confine: port_contract "sim_port H" "confined H R f0" "frame_in R" "in_region R"
  for H R f0
proof unfold_locales
  show "frame_in R frame \<Longrightarrow> triple (confined H R f0) (p_write_all (sim_port H) (encode frame)) (\<lambda>_. True)" for frame
    by (simp add: sim_port_def write_all_confined)
  show "triple (confined H R f0) (p_read (sim_port H) n t) (\<lambda>_. True)" for n t
    by (rule tripleI) (simp_all add: sim_port_def sim_read_def)
  show "triple (confined H R f0) (p_set_dtr (sim_port H) on) (\<lambda>_. True)" for on
    by (rule tripleI) (simp_all add: sim_port_def sim_set_dtr_def)
  show "triple (confined H R f0) (p_set_rts (sim_port H) on) (\<lambda>_. True)" for on
    by (simp add: sim_port_def set_rts_confined)
  show "op \<noteq> FlashBegin \<Longrightarrow> frame_in R (request op data chk)" for op data chk
    by (auto simp: frame_in_def op_code_inj simp del: op_code.simps dest!: parse_request_op split: option.split)
  show "frame_in R (request WriteReg (safe_payload w) chk)" for w chk
    by (auto simp: frame_in_def dest!: parse_request_op split: option.split)
  show "length frame = 4 \<Longrightarrow> frame_in R frame" for frame
    by (simp add: frame_in_def parse_request_def)
qed (simp_all add: sim_port_def frame_in_begin)

subsection \<open>Lemmas: no forbidden opcode and no free register write arrives\<close>

lemma quiet_refl [simp]: "quiet s s"
  by (simp add: quiet_def)

lemma quiet_safe: "quiet s s' \<Longrightarrow> only_safe s \<Longrightarrow> only_safe s'"
  by (simp add: quiet_def only_safe_def)

lemma triple_quiet: "triple (quiet s0) m (\<lambda>_. True) \<Longrightarrow> quiet s0 s0 \<Longrightarrow> quiet s0 (snd (m s0))"
  by (drule tripleD) simp_all

lemma mark_valid_quiet: "triple (quiet s0) (mark_valid H) (\<lambda>_. True)"
  by (rule tripleI) (auto simp: mark_valid_def quiet_def Let_def split: option.split)

lemma boot_image_quiet: "triple (quiet s0) (boot_image H off len i pending) (\<lambda>_. True)"
proof (rule tripleI)
  fix s assume I: "quiet s0 s"
  have "triple (quiet s0) (bnd (mark_valid H) (\<lambda>_. ret b)) (\<lambda>_. True)" for b :: "boot option"
    by (rule triple_bnd [OF mark_valid_quiet]) (simp add: triple_ret)
  from tripleD [OF this I] I show "quiet s0 (snd (boot_image H off len i pending s))"
    by (simp add: boot_image_def Let_def)
qed simp

lemma boot_slot_quiet: "triple (quiet s0) (boot_slot H p i pending) (\<lambda>_. True)"
  unfolding boot_slot_def
proof (rule triple_bnd)
  show "triple (quiet s0) (image_len (unat (pt_offset p)) (unat (pt_size p))) (\<lambda>_. True)"
    by (rule tripleI) (simp_all add: image_len_state)
qed (simp add: boot_image_quiet triple_ret split: option.split)

lemma boot_slots_quiet: "triple (quiet s0) (boot_slots H slots want st order) (\<lambda>_. True)"
proof (induction order)
  case (Cons i order)
  then show ?case
    by (auto intro!: triple_bnd [OF boot_slot_quiet] triple_ret split: option.split)
qed (simp add: triple_ret)

lemma sim_boot_quiet: "triple (quiet s0) (sim_boot H) (\<lambda>_. True)"
proof (rule tripleI)
  have "triple (quiet s0) (boot_from H slots choice) (\<lambda>_. True)" for slots choice
    by (simp add: boot_from_def boot_slots_quiet Let_def del: boot_slots.simps split: prod.split)
  note boot = tripleD [OF this]
  fix s assume "quiet s0 s"
  then show "quiet s0 (snd (sim_boot H s))"
    unfolding sim_boot_def Let_def
    by (auto split: option.splits prod.splits intro!: boot) (simp add: quiet_def)
qed simp

lemma sim_boot_safe: "triple only_safe (sim_boot H) (\<lambda>_. True)"
  by (rule tripleI) (simp_all add: quiet_safe [OF triple_quiet [OF sim_boot_quiet quiet_refl]])

lemma only_safe_frame [simp]:
  "only_safe (s\<lparr>boots := b\<rparr>) = only_safe s"
  "only_safe (s\<lparr>sout := e\<rparr>) = only_safe s"
  "only_safe (s\<lparr>sstub := f\<rparr>) = only_safe s"
  "only_safe (s\<lparr>in_download := g\<rparr>) = only_safe s"
  "only_safe (s\<lparr>dead := h\<rparr>) = only_safe s"
  "only_safe (s\<lparr>dtr := l\<rparr>) = only_safe s"
  "only_safe (s\<lparr>rts := m\<rparr>) = only_safe s"
  "only_safe (s\<lparr>pending_read := n\<rparr>) = only_safe s"
  "only_safe (s\<lparr>read_origin := j\<rparr>) = only_safe s"
  "only_safe (s\<lparr>sframes := i\<rparr>) = only_safe s"
  by (simp_all add: only_safe_def)

lemma set_rts_safe: "triple only_safe (sim_set_rts H on) (\<lambda>_. True)"
proof (rule tripleI)
  fix s assume I: "only_safe s"
  have "triple only_safe
      (seq (if rts s \<and> \<not> on then
            seq (modify (\<lambda>s. s\<lparr>sstub := False, sout := [], pending_read := None\<rparr>))
              (if dtr s \<or> force_download s then modify (\<lambda>s. s\<lparr>in_download := True\<rparr>)
               else seq (modify (\<lambda>s. s\<lparr>in_download := False\<rparr>))
                      (bnd (sim_boot H) (\<lambda>b. modify (\<lambda>s. s\<lparr>boots := boots s @ [b]\<rparr>))))
          else ret ())
       (modify (\<lambda>s. s\<lparr>rts := on\<rparr>))) (\<lambda>_. True)"
    by (intro triple_seq triple_if triple_modify triple_bnd [OF sim_boot_safe] triple_ret) simp_all
  from tripleD [OF this I] show "only_safe (snd (sim_set_rts H on s))"
    by (simp add: sim_set_rts_def)
qed simp

lemma stream_read_quiet: "quiet s (snd (stream_read H at left s))"
  by (simp add: stream_read_def Let_def quiet_def)

lemma reply_quiet: "quiet s (reply op v d ok s)" and funpow_reply_quiet: "quiet s ((reply op v d ok ^^ n) s)"
  by (simp add: reply_def quiet_def) (induction n, simp_all add: reply_def quiet_def)

lemma handle_op_quiet:
  assumes "op \<noteq> WriteReg" shows "quiet s (snd (handle_op H op req s))"
proof (cases op)
  case FlashBegin
  then show ?thesis
    by (auto simp: Let_def erase_def erase_sectors_frame quiet_def reply_def)
next
  case FlashData
  then show ?thesis
    by (auto simp: Let_def flash_data_def seq_def bnd_def modify_def ret_def write_flash_def reply_def quiet_def)
next
  case ReadFlash
  then show ?thesis
    using stream_read_quiet [of "s\<lparr>sout := x, read_origin := y, pending_read := z\<rparr>" H for x y z]
    by (auto simp: Let_def quiet_def reply_def)
qed (use assms in \<open>auto simp: Let_def quiet_def reply_def funpow_reply_quiet [unfolded quiet_def]\<close>)

lemma word_args_payload:
  "(word_arg (safe_payload w) 0, word_arg (safe_payload w) 1, word_arg (safe_payload w) 2) = safe_target w"
proof (cases w)
  case ClearForceDownload
  have "safe_payload w = le [RTC_CNTL_OPTION1_REG, 0, 1, 0] @ []"
    using ClearForceDownload by (simp add: safe_payload_def le_def)
  then have "word_arg (safe_payload w) i = [RTC_CNTL_OPTION1_REG, 0, 1, 0] ! i" if "i < 4" for i
    using that word_arg_le [of i "[RTC_CNTL_OPTION1_REG, 0, 1, 0]" "[]"] by simp
  from this [of 0] this [of 1] this [of 2] ClearForceDownload show ?thesis by simp
qed

lemma handle_safe:
  assumes I: "only_safe s" and ok: "frame_safe frame"
  shows "only_safe (snd (handle H frame s))"
proof -
  have "only_safe (snd (handle_request H frame s))"
  proof (cases "parse_request frame")
    case (Some req)
    let ?s = "s\<lparr>sframes := sframes s + 1, seen := seen s @ [req_op req]\<rparr>"
    have fine: "req_op req \<notin> fst ` set forbidden"
      and reg: "req_op req = op_code WriteReg \<Longrightarrow> req_data req = safe_payload ClearForceDownload"
      using ok Some by (simp_all add: frame_safe_def)
    have s1: "only_safe ?s" using I fine by (auto simp: only_safe_def)
    have "only_safe (snd (handle_op H op req ?s))" if "op_from_u8 (req_op req) = Some op" for op
    proof (cases "op = WriteReg")
      case False
      from quiet_safe [OF handle_op_quiet [OF this] s1] show ?thesis .
    next
      case True
      with that reg have "req_data req = safe_payload ClearForceDownload"
        by (metis op_from_u8_Some)
      with True s1 show ?thesis
        using word_args_payload [of ClearForceDownload]
        by (auto simp: Let_def reply_def only_safe_def safe_write_all_def)
    qed
    moreover have "only_safe (reply (req_op req) 0 [] False ?s)"
      using quiet_safe [OF reply_quiet s1] .
    ultimately show ?thesis
      using Some s1 by (auto simp: handle_request_def Let_def split: option.split)
  qed (use I in \<open>simp add: handle_request_def\<close>)
  then show ?thesis
    using quiet_safe [OF stream_read_quiet I] by (auto simp: handle_def split: option.split)
qed

lemma write_all_safe:
  assumes "frame_safe frame"
  shows "triple only_safe (sim_write_all H (encode frame)) (\<lambda>_. True)"
proof (rule tripleI)
  fix s assume I: "only_safe s"
  then have "only_safe (s\<lparr>sdec := dec_clean\<rparr>)" and "sdec s = decoder_default \<or> sdec s = dec_clean"
    by (auto simp: only_safe_def)
  with handle_safe [OF this(1) assms] I show "only_safe (snd (sim_write_all H (encode frame) s))"
    by (simp add: sim_write_all_encode)
qed simp

lemma frame_safe_request:
  assumes "op = WriteReg \<Longrightarrow> data = safe_payload ClearForceDownload" and "length data < 65536"
  shows "frame_safe (request op data chk)"
  using assms op_code_not_forbidden [of op]
  by (simp add: frame_safe_def parse_request_request op_code_inj del: op_code.simps)

interpretation opcodes: port_contract "sim_port H" only_safe frame_safe "\<lambda>_ _. True"
  for H
proof unfold_locales
  show "frame_safe frame \<Longrightarrow> triple only_safe (p_write_all (sim_port H) (encode frame)) (\<lambda>_. True)" for frame
    by (simp add: sim_port_def write_all_safe)
  show "triple only_safe (p_read (sim_port H) n t) (\<lambda>_. True)" for n t
    by (rule tripleI) (simp_all add: sim_port_def sim_read_def)
  show "triple only_safe (p_set_dtr (sim_port H) on) (\<lambda>_. True)" for on
    by (rule tripleI) (simp_all add: sim_port_def sim_set_dtr_def)
  show "triple only_safe (p_set_rts (sim_port H) on) (\<lambda>_. True)" for on
    by (simp add: sim_port_def set_rts_safe)
  show "frame_safe (request WriteReg (safe_payload w) chk)" for w chk
    by (cases w) (simp add: frame_safe_request length_safe_payload)
  show "length frame = 4 \<Longrightarrow> frame_safe frame" for frame
    by (simp add: frame_safe_def parse_request_def)
qed (auto simp: sim_port_def intro!: frame_safe_request)

subsection \<open>Lemmas: a board with an untouched valid slot starts\<close>

lemma image_len_slot:
  assumes "slot_fits p" and "length (flash s) = FLASH"
  shows "image_len (unat (pt_offset p)) (unat (pt_size p)) s = (Ok (slot_len p (flash s)), s)"
proof -
  have "unat (pt_offset p) < FLASH" and "24 \<le> FLASH - unat (pt_offset p)"
    using assms(1) by (auto simp: slot_fits_def)
  then show ?thesis
    using assms(2) by (simp add: image_len_def slot_len_def Let_def split: option.split)
qed

lemma image_len_loop_cong:
  assumes "length h = length h'" and "\<And>i. i < limit \<Longrightarrow> h ! i = h' ! i"
  shows "image_len_loop h k limit pos = image_len_loop h' k limit pos"
proof (induction k arbitrary: pos)
  case (Suc k)
  show ?case
  proof (cases "pos + 8 \<le> limit")
    case True
    then have "u32_at h (pos + 4) = u32_at h' (pos + 4)"
      using assms(2) by (simp add: u32_at_def)
    with Suc assms(1) show ?thesis by (simp add: Let_def)
  qed (simp add: Let_def)
qed simp

lemma slot_len_bound: "slot_len p f = Some len \<Longrightarrow> len \<le> unat (pt_size p)"
  by (auto simp: slot_len_def Let_def split: if_splits option.splits)

lemma slot_same:
  assumes "same_outside R f0 fl" and "slot_fits p" and "slot_range p \<inter> R = {}"
  shows "slot_len p fl = slot_len p f0" and "slot_valid H p fl = slot_valid H p f0"
proof -
  let ?o = "unat (pt_offset p)" and ?n = "unat (pt_size p)"
  have fit: "?o + ?n \<le> FLASH" "24 \<le> ?n" using assms(2) by (simp_all add: slot_fits_def)
  have len: "length fl = FLASH" "length f0 = FLASH" using assms(1) by (simp_all add: same_outside_def)
  have same: "drop ?o fl ! i = drop ?o f0 ! i" if "i < ?n" for i
  proof -
    have "?o + i \<in> slot_range p" using that by (simp add: slot_range_def)
    then have "?o + i \<notin> R" using assms(3) by blast
    moreover have "?o + i < FLASH" using that fit by simp
    ultimately show ?thesis using assms(1) by (auto simp: same_outside_def)
  qed
  then have "image_len_loop (drop ?o fl) k ?n 24 = image_len_loop (drop ?o f0) k ?n 24" for k
    using len by (intro image_len_loop_cong) simp_all
  with same [of 0] same [of 1] same [of 23] fit show eq: "slot_len p fl = slot_len p f0"
    by (simp add: slot_len_def Let_def)
  have "slice fl ?o (?o + n) = slice f0 ?o (?o + n)" if "n \<le> ?n" for n
  proof (rule same_outside_slice [OF assms(1)])
    have "{?o..<?o + n} \<subseteq> slot_range p" using that by (auto simp: slot_range_def)
    then show "{?o..<?o + n} \<inter> R = {}" using assms(3) by blast
    show "?o + n \<le> FLASH" using that fit by simp
  qed
  then show "slot_valid H p fl = slot_valid H p f0"
    unfolding slot_valid_def eq by (auto split: option.split dest: slot_len_bound)
qed

lemma mark_valid_achieves:
  assumes "flash_table H f0 = Some table" and "table_fits table"
  shows "achieves (confined H R f0) (mark_valid H) (\<lambda>_. True)"
  unfolding achieves_def
proof (intro allI impI conjI)
  fix s assume I: "confined H R f0 s"
  then show "confined H R f0 (snd (mark_valid H s))" by (rule tripleD [OF mark_valid_confined])
  have "length (flash s) = FLASH" using I by (auto simp: confined_def dest: same_outside_len)
  then show "\<exists>x. fst (mark_valid H s) = Ok x \<and> True"
    using assms I by (auto simp: mark_valid_def sim_table_eq confined_table table_fits_def Let_def
        split: option.splits)
qed

lemma boot_slot_achieves:
  assumes table: "flash_table H f0 = Some table" "table_fits table"
    and fits: "slot_fits p" and "valid \<Longrightarrow> slot_range p \<inter> R = {} \<and> slot_valid H p f0"
  shows "achieves (confined H R f0) (boot_slot H p i pending)
    (\<lambda>r. case r of None \<Rightarrow> \<not> valid | Some b \<Rightarrow> is_app b)"
  unfolding achieves_def
proof (intro allI impI conjI)
  fix s assume I: "confined H R f0 s"
  then show "confined H R f0 (snd (boot_slot H p i pending s))" by (rule tripleD [OF boot_slot_confined])
  have len: "length (flash s) = FLASH" using I by (auto simp: confined_def dest: same_outside_len)
  obtain s' where mark: "mark_valid H s = (Ok (), s')"
    using mark_valid_achieves [OF table, of R] I unfolding achieves_def
    by (metis (full_types) old.unit.exhaust prod.collapse)
  have "\<not> valid" if "\<not> slot_valid H p (flash s)"
    using that slot_same [OF confined_same [OF I] fits] assms(4) by auto
  moreover have "unat (pt_offset p) + n \<le> FLASH" if "slot_len p (flash s) = Some n" for n
    using slot_len_bound [OF that] fits by (simp add: slot_fits_def)
  ultimately show "\<exists>r. fst (boot_slot H p i pending s) = Ok r \<and>
      (case r of None \<Rightarrow> \<not> valid | Some b \<Rightarrow> is_app b)"
    using len mark
    by (auto simp: boot_slot_def image_len_slot [OF fits] boot_image_def slot_valid_def Let_def ret_def
        split: option.splits)
qed

lemma boot_slots_achieves:
  assumes table: "flash_table H f0 = Some table" "table_fits table"
    and run: "slot_range (app_slots table ! r) \<inter> R = {}" "slot_valid H (app_slots table ! r) f0"
    and order: "r \<in> set order" "\<forall>i \<in> set order. i < length (app_slots table)"
  shows "achieves (confined H R f0) (boot_slots H (app_slots table) want st order) is_app"
  using order
proof (induction order)
  case (Cons i order)
  have "slot_fits (app_slots table ! i)"
    using table(2) Cons.prems by (auto simp: table_fits_def list_all_length)
  from boot_slot_achieves [OF table this, of "i = r"] run
  have "achieves (confined H R f0) (boot_slot H (app_slots table ! i) i (i = want \<and> st = PENDING_VERIFY))
    (\<lambda>x. case x of None \<Rightarrow> i \<noteq> r | Some b \<Rightarrow> is_app b)" by auto
  then show ?case
    by (auto intro!: achieves_bnd achieves_ret Cons.IH split: option.splits) (use Cons.prems in auto)
qed simp

lemma boot_otadata_slot:
  assumes "slots \<noteq> 0" and "fst (boot_otadata od slots) = Some (w, st)"
  shows "w < slots"
  using assms otadata_choice_slot [of _ slots]
  by (auto simp: boot_otadata_def Let_def split: option.splits if_splits)

lemma boot_from_achieves:
  assumes table: "flash_table H f0 = Some table" "table_fits table"
    and run: "r < length (app_slots table)" "slot_range (app_slots table ! r) \<inter> R = {}"
      "slot_valid H (app_slots table ! r) f0"
    and choice: "\<And>w st. choice = Some (w, st) \<Longrightarrow> w < length (app_slots table)"
  shows "achieves (confined H R f0) (boot_from H (app_slots table) choice) is_app"
proof -
  obtain w st where c: "(case choice of Some c \<Rightarrow> c | None \<Rightarrow> (0, UNDEFINED)) = (w, st)"
    by fastforce
  then have "w < length (app_slots table)"
    using choice run(1) by (auto split: option.splits)
  then show ?thesis
    unfolding boot_from_def c Let_def prod.case
    by (intro boot_slots_achieves [OF table run(2,3)]) (use run(1) in auto)
qed

lemma sim_boot_achieves:
  assumes boot: "bootable H table r f0" and zero: "0 \<notin> R"
    and clear: "slot_range (app_slots table ! r) \<inter> R = {}"
  shows "achieves (confined H R f0) (sim_boot H) is_app"
  unfolding achieves_def
proof (intro allI impI conjI)
  fix s assume I: "confined H R f0 s"
  then show "confined H R f0 (snd (sim_boot H s))" by (rule tripleD [OF sim_boot_confined])
  have tab: "flash_table H f0 = Some table" "table_fits table" and r: "r < length (app_slots table)"
    and val: "slot_valid H (app_slots table ! r) f0" and e9: "f0 ! 0 = 0xE9"
    using boot by (simp_all add: bootable_def)
  have len: "length (flash s) = FLASH" using I by (auto simp: confined_def dest: same_outside_len)
  have "0 < FLASH" by (simp add: FLASH_def)
  then have "flash s ! 0 = 0xE9"
    using confined_same [OF I] zero e9 unfolding same_outside_def by metis
  moreover note start = boot_from_achieves [OF tab r clear val, unfolded achieves_def, rule_format]
  have none: "\<exists>x. fst (boot_from H (app_slots table) None s) = Ok x \<and> is_app x"
    using start [of None s] I by simp
  have some: "\<exists>x. fst (boot_from H (app_slots table) ch (s\<lparr>flash := splice (flash s) (unat (pt_offset o')) od\<rparr>)) = Ok x \<and> is_app x"
    if "ota_partition table = Some o'"
      "boot_otadata (slice (flash s) (unat (pt_offset o')) (unat (pt_offset o') + 2 * OTADATA_SECTOR))
        (length (app_slots table)) = (ch, od)" for o' ch od
  proof -
    have fit: "unat (pt_offset o') + 2 * OTADATA_SECTOR \<le> length (flash s)"
      using tab(2) that(1) len by (simp add: table_fits_def)
    then have "length od = 2 * OTADATA_SECTOR"
      using length_boot_otadata that(2) by (metis add_diff_cancel_left' length_slice snd_conv)
    with confined_otadata [OF I tab(1) that(1) fit]
    have "confined H R f0 (s\<lparr>flash := splice (flash s) (unat (pt_offset o')) od\<rparr>)" by simp
    moreover have "w < length (app_slots table)" if "ch = Some (w, st)" for w st
    proof (rule boot_otadata_slot)
      show "length (app_slots table) \<noteq> 0" using r by auto
      show "fst (boot_otadata (slice (flash s) (unat (pt_offset o'))
          (unat (pt_offset o') + 2 * OTADATA_SECTOR)) (length (app_slots table))) = Some (w, st)"
        unfolding \<open>boot_otadata _ _ = (ch, od)\<close> using that by simp
    qed
    ultimately show ?thesis using start [of ch] by blast
  qed
  ultimately show "\<exists>x. fst (sim_boot H s) = Ok x \<and> is_app x"
    using len tab none some I r
    by (auto simp: sim_boot_def sim_table_eq confined_table table_fits_def FLASH_def Let_def
        split: option.splits prod.splits)
qed

end
