(* ===== verification/Link.thy ===== *)
theory Link
  imports Sim
begin

section \<open>The flasher on the simulated chip: what it reads is what the flash holds\<close>

text \<open>
  The functional side of the link (flasher.rs against sim.rs).  The bytes the chip has queued, fed to
  the flasher's decoder, give the \<open>inbox\<close>: the frames still to come.  Reading from the port does
  not change the inbox, taking a frame pops its head, and a request appends the chip's replies; so
  between two commands the inbox is empty, and what \<open>read_flash\<close> returns is the flash itself,
  whatever faults are injected: a fault can end the call, never change its answer.
\<close>

subsection \<open>Definitions\<close>

definition inbox :: "sim flasher \<Rightarrow> u8 list list" where
  "inbox f = fl_frames f @ snd (feed (fl_dec f) (sout (fl_port f)) [])"

definition dec_ready :: "decoder \<Rightarrow> bool" where
  "dec_ready d \<longleftrightarrow> d = decoder_default \<or> d = dec_clean"

text \<open>The link with flash \<open>F\<close>: both decoders end between frames, and the test-only settings fault is off.\<close>

definition linked :: "u8 list \<Rightarrow> sim flasher \<Rightarrow> bool" where
  "linked F f \<longleftrightarrow> flash (fl_port f) = F \<and> \<not> corrupt_nvs_on_next_md5 (fl_port f) \<and>
     dec_ready (sdec (fl_port f)) \<and> (sout (fl_port f) = [] \<or> last (sout (fl_port f)) = END) \<and>
     dec_ready (fst (feed (fl_dec f) (sout (fl_port f)) []))"

definition idle :: "u8 list \<Rightarrow> sim flasher \<Rightarrow> bool" where
  "idle F f \<longleftrightarrow> linked F f \<and> (dead (fl_port f) \<or> inbox f = [])"

text \<open>\<open>answered s s' rs\<close>: the chip queued the frames \<open>rs\<close>, and its decoder is where it was.\<close>

definition answered :: "sim \<Rightarrow> sim \<Rightarrow> u8 list list \<Rightarrow> bool" where
  "answered s s' rs \<longleftrightarrow> sout s' = sout s @ concat (map encode rs) \<and> sdec s' = sdec s \<and>
     (corrupt_nvs_on_next_md5 s' \<longrightarrow> corrupt_nvs_on_next_md5 s)"

definition once :: "sim \<Rightarrow> sim \<Rightarrow> bool" where
  "once s s' \<longleftrightarrow> (\<exists>rs. length rs \<le> 1 \<and> answered s s' rs)"

text \<open>A flash read in progress, after \<open>k\<close> of \<open>len\<close> bytes: the next block is to come, with the MD5
  behind it when it is the last one.\<close>

definition closing :: "hashes \<Rightarrow> u8 list \<Rightarrow> nat \<Rightarrow> nat \<Rightarrow> u8 list list" where
  "closing H F at len = filter (\<lambda>r. r \<noteq> []) [md5 H (slice F at (at + len))]"

definition streaming :: "hashes \<Rightarrow> u8 list \<Rightarrow> nat \<Rightarrow> nat \<Rightarrow> nat \<Rightarrow> sim flasher \<Rightarrow> bool" where
  "streaming H F at len k f \<longleftrightarrow> linked F f \<and> read_origin (fl_port f) = at \<and>
     (if k < len then
        (let n = min (len - k) 0x1000 in
         inbox f = slice F (at + k) (at + k + n) # (if k + n = len then closing H F at len else []) \<and>
         pending_read (fl_port f) = (if k + n = len then None else Some (of_nat (at + k + n), of_nat (len - k - n))))
      else k = len \<and> inbox f = closing H F at len)"

subsection \<open>Lemmas: the inbox\<close>

lemma feed_take_drop:
  "feed d bs [] = (case feed d (take n bs) [] of (d', a) \<Rightarrow>
     (case feed d' (drop n bs) [] of (d'', b) \<Rightarrow> (d'', a @ b)))"
proof -
  obtain d' a where a: "feed d (take n bs) [] = (d', a)" by fastforce
  then have "feed d bs [] = feed d' (drop n bs) a"
    using feed_append [of d "take n bs" "drop n bs" "[]"] by simp
  also have "\<dots> = (fst (feed d' (drop n bs) []), a @ snd (feed d' (drop n bs) []))"
    by (rule feed_acc_Nil)
  finally show ?thesis by (simp add: a split_beta)
qed

lemma feed_ends_END:
  assumes "bs \<noteq> []" and "last bs = END" shows "fst (feed d bs out) = dec_clean"
proof -
  have "bs = butlast bs @ [END]" using assms by (metis append_butlast_last_id)
  then have "feed d bs out = feed d (butlast bs @ [END]) out" by simp
  then show ?thesis by (simp add: feed_append push_END split: prod.split)
qed

lemma last_drop_END: "bs = [] \<or> last bs = END \<Longrightarrow> drop n bs = [] \<or> last (drop n bs) = END"
  by (cases "n < length bs") auto

lemma linked_read:
  assumes "linked F f" and "dead (fl_port f) = False"
    and "f' = f\<lparr>fl_port := (fl_port f)\<lparr>sout := drop n (sout (fl_port f))\<rparr>,
      fl_dec := fst (feed (fl_dec f) (take n (sout (fl_port f))) []),
      fl_frames := fl_frames f @ snd (feed (fl_dec f) (take n (sout (fl_port f))) [])\<rparr>"
  shows "linked F f'" and "inbox f' = inbox f"
  using assms feed_take_drop [of "fl_dec f" "sout (fl_port f)" n]
    last_drop_END [of "sout (fl_port f)" n]
  by (auto simp: linked_def inbox_def split: prod.splits)

lemma p_read_sim: "on_port (p_read (sim_port H) n t) f =
  (if dead (fl_port f) then (Err (FPort ''the board is unplugged''), f)
   else (Ok (take n (sout (fl_port f))), f\<lparr>fl_port := (fl_port f)\<lparr>sout := drop n (sout (fl_port f))\<rparr>\<rparr>))"
  by (simp add: on_port_def zoom_def sim_port_def sim_read_def)

text \<open>Waiting for a frame: a frame is the head of the inbox; an error means that the board is dead or
  that there was nothing to come.\<close>

lemma next_frame_loop_link:
  assumes "linked F f" and "next_frame_loop (sim_port H) fuel t w f = (r, f')"
    and "w = 0 \<and> 0 < t \<or> sout (fl_port f) = []"
  shows "linked F f' \<and> (\<exists>v. fl_port f' = (fl_port f)\<lparr>sout := v\<rparr>) \<and> fl_stub f' = fl_stub f \<and> fl_usb f' = fl_usb f \<and>
    (case r of Ok x \<Rightarrow> inbox f = x # inbox f'
     | Err _ \<Rightarrow> inbox f' = inbox f \<and> (dead (fl_port f') \<or> inbox f' = []) | _ \<Rightarrow> True)"
  using assms
proof (induction fuel arbitrary: w f)
  case 0
  then show ?case by (auto intro: exI [of _ "sout (fl_port f)"])
next
  case (Suc fuel)
  show ?case
  proof (cases "fl_frames f")
    case (Cons x xs)
    then show ?thesis
      using Suc.prems by (auto simp: inbox_def linked_def intro: exI [of _ "sout (fl_port f)"])
  next
    case Nil
    show ?thesis
    proof (cases "t \<le> w \<or> dead (fl_port f)")
      case True
      then show ?thesis
        using Suc.prems Nil by (auto simp: p_read_sim bnd_def inbox_def intro: exI [of _ "sout (fl_port f)"] split: if_splits)
    next
      case False
      let ?bs = "take 1024 (sout (fl_port f))"
      let ?f1 = "f\<lparr>fl_port := (fl_port f)\<lparr>sout := drop 1024 (sout (fl_port f))\<rparr>\<rparr>"
      let ?f2 = "?f1\<lparr>fl_dec := fst (feed (fl_dec f) ?bs []), fl_frames := fl_frames f @ snd (feed (fl_dec f) ?bs [])\<rparr>"
      show ?thesis
      proof (cases "?bs = []")
        case True
        then have "(fl_port f)\<lparr>sout := []\<rparr> = fl_port f" by (intro sim.equality) simp_all
        then have same: "f\<lparr>fl_port := (fl_port f)\<lparr>sout := []\<rparr>\<rparr> = f" by (intro flasher.equality) simp_all
        have "next_frame_loop (sim_port H) fuel t (w + 50) (f\<lparr>fl_port := (fl_port f)\<lparr>sout := []\<rparr>\<rparr>) = (r, f')"
          using Suc.prems(2) Nil False True by (simp add: p_read_sim)
        then have "next_frame_loop (sim_port H) fuel t (w + 50) f = (r, f')"
          by (simp only: same)
        with Suc.IH [OF Suc.prems(1) this] True show ?thesis by simp
      next
        case bs: False
        define f2 where "f2 = ?f2"
        have run: "next_frame_loop (sim_port H) fuel t w f2 = (r, f')"
          using Suc.prems(2) Nil False bs unfolding f2_def
          by (simp add: p_read_sim seq_def modify_def bnd_def split: prod.splits)
        have link: "linked F f2" and box: "inbox f2 = inbox f"
          using linked_read [OF Suc.prems(1), of f2 1024] False unfolding f2_def by simp_all
        have same: "fl_port f2 = (fl_port f)\<lparr>sout := drop 1024 (sout (fl_port f))\<rparr>"
          "fl_stub f2 = fl_stub f" "fl_usb f2 = fl_usb f" by (simp_all add: f2_def)
        have "w = 0 \<and> 0 < t \<or> sout (fl_port f2) = []" using Suc.prems(3) bs same(1) by auto
        from Suc.IH [OF link run this] show ?thesis unfolding box same by simp
      qed
    qed
  qed
qed

lemma next_frame_link:
  assumes "linked F f" and "next_frame (sim_port H) fuel t f = (r, f')" and "0 < t"
  shows "linked F f'" and "\<exists>v. fl_port f' = (fl_port f)\<lparr>sout := v\<rparr>"
    and "fl_stub f' = fl_stub f" and "fl_usb f' = fl_usb f"
    and "r = Ok x \<Longrightarrow> inbox f = x # inbox f'"
    and "r = Err e \<Longrightarrow> inbox f' = inbox f \<and> (dead (fl_port f') \<or> inbox f' = [])"
  using next_frame_loop_link [OF assms(1) assms(2) [unfolded next_frame_def]] assms(3)
  by (auto split: outcome.splits)

subsection \<open>Lemmas: replies\<close>

lemma answered_refl: "answered s s []"
  by (simp add: answered_def)

lemma answered_trans: "answered s s' rs \<Longrightarrow> answered s' s'' rs' \<Longrightarrow> answered s s'' (rs @ rs')"
  by (simp add: answered_def)

lemma last_encodes: "rs \<noteq> [] \<Longrightarrow> concat (map encode rs) \<noteq> [] \<and> last (concat (map encode rs)) = END"
proof (induction rs rule: rev_induct)
  case (snoc r rs)
  have "encode r \<noteq> []" "last (encode r) = END" by (simp_all add: encode_def)
  then show ?case by simp
qed simp

lemma linked_answered:
  assumes "linked F f" and "answered (fl_port f) p rs"
  shows "linked (flash p) (f\<lparr>fl_port := p\<rparr>)"
    and "inbox (f\<lparr>fl_port := p\<rparr>) = inbox f @ filter (\<lambda>r. r \<noteq> []) rs"
proof -
  let ?d = "fst (feed (fl_dec f) (sout (fl_port f)) [])" and ?o = "snd (feed (fl_dec f) (sout (fl_port f)) [])"
  have out: "sout p = sout (fl_port f) @ concat (map encode rs)" using assms(2) by (simp add: answered_def)
  have "feed ?d (concat (map encode rs)) ?o =
      (if rs = [] then ?d else dec_clean, ?o @ filter (\<lambda>r. r \<noteq> []) rs)"
    using assms(1) feed_frames [of rs ?o] feed_frames_default [of rs ?o]
    by (auto simp: linked_def dec_ready_def)
  then have fed: "feed (fl_dec f) (sout p) [] = (if rs = [] then ?d else dec_clean, ?o @ filter (\<lambda>r. r \<noteq> []) rs)"
    unfolding out feed_append by (simp add: split_beta)
  show "inbox (f\<lparr>fl_port := p\<rparr>) = inbox f @ filter (\<lambda>r. r \<noteq> []) rs"
    by (simp add: inbox_def fed)
  have "sout p = [] \<or> last (sout p) = END"
    using assms(1) last_encodes [of rs] unfolding out by (cases "rs = []") (auto simp: linked_def)
  moreover have "dec_ready (fst (feed (fl_dec f) (sout p) []))"
    using assms(1) by (simp add: fed linked_def dec_ready_def)
  moreover have "\<not> corrupt_nvs_on_next_md5 p" "dec_ready (sdec p)"
    using assms by (auto simp: linked_def answered_def)
  ultimately show "linked (flash p) (f\<lparr>fl_port := p\<rparr>)"
    by (simp add: linked_def)
qed

lemma reply_answered: "answered s (reply op v d ok s) [reply_frame (sstub s) op v d ok]"
  by (simp add: answered_def reply_def)

lemma reply_flash [simp]: "flash (reply op v d ok s) = flash s"
  by (simp add: reply_def)

text \<open>Most operations answer once, or not at all when power was lost on the way.\<close>

lemma once_none:
  "sout s' = sout s \<Longrightarrow> sdec s' = sdec s \<Longrightarrow> corrupt_nvs_on_next_md5 s' = corrupt_nvs_on_next_md5 s \<Longrightarrow> once s s'"
  unfolding once_def by (intro exI [of _ "[]"]) (simp add: answered_def)

lemma once_reply:
  "sout s1 = sout s \<Longrightarrow> sdec s1 = sdec s \<Longrightarrow> corrupt_nvs_on_next_md5 s1 = corrupt_nvs_on_next_md5 s \<Longrightarrow>
   once s (reply op v d ok s1)"
  unfolding once_def by (intro exI [of _ "[reply_frame (sstub s1) op v d ok]"]) (simp add: answered_def reply_def)

lemma write_flash_quietly:
  "write_flash a d s = (Ok (), s2) \<Longrightarrow>
   sout s2 = sout s \<and> sdec s2 = sdec s \<and> corrupt_nvs_on_next_md5 s2 = corrupt_nvs_on_next_md5 s"
  unfolding write_flash_def Let_def by (auto split: if_splits)

lemma flash_data_once:
  assumes "flash_data a d ok s = (Ok (), s')" shows "once s s'"
proof -
  obtain s2 where m: "(if ok then seq (write_flash a d)
      (modify (\<lambda>s. s\<lparr>write_at := write_at s + of_nat (length d)\<rparr>)) else ret ()) s = (Ok (), s2)"
    and s': "s' = (if dead s2 then s2 else reply (op_code FlashData) 0 [] ok s2)"
    using assms by (auto simp only: flash_data_def seq_eq_Ok modify_eq_Ok)
  have "sout s2 = sout s \<and> sdec s2 = sdec s \<and> corrupt_nvs_on_next_md5 s2 = corrupt_nvs_on_next_md5 s"
    using m by (cases ok) (auto simp: seq_eq_Ok modify_eq_Ok ret_def dest: write_flash_quietly)
  with s' show ?thesis by (cases "dead s2") (simp_all add: once_none once_reply)
qed

lemma handle_op_once:
  assumes "op \<noteq> Sync" and "op \<noteq> MemEnd" and "op \<noteq> ReadFlash" and "handle_op H op req s = (Ok (), s')"
    and "\<not> corrupt_nvs_on_next_md5 s"
  shows "once s s'"
proof (cases op)
  case FlashBegin
  let ?s = "erase (word_arg (req_data req) 3) (word_arg (req_data req) 0) s"
  have "sout ?s = sout s" "sdec ?s = sdec s" "corrupt_nvs_on_next_md5 ?s = corrupt_nvs_on_next_md5 s"
    by (simp_all add: erase_def Let_def erase_sectors_frame erase_sectors_sout)
  with FlashBegin assms(4) show ?thesis
    by (cases "dead ?s") (auto simp: Let_def intro!: once_none once_reply)
next
  case FlashData
  have "flash_data (write_at s) (slice (req_data req) 16 (16 + unat (word_arg (req_data req) 0)))
      (checksum (slice (req_data req) 16 (16 + unat (word_arg (req_data req) 0))) = req_chk req \<and>
       write_at s + word_arg (req_data req) 0 \<le> write_end s) s = (Ok (), s')"
    using assms(4) unfolding FlashData by (simp add: Let_def split: if_splits)
  then show ?thesis by (rule flash_data_once)
qed (use assms in \<open>auto simp: Let_def intro!: once_reply split: if_splits\<close>)

lemma handle_op_flash:
  assumes "op \<noteq> FlashBegin" and "op \<noteq> FlashData" and "op \<noteq> Sync" and "op \<noteq> ReadFlash"
    and "handle_op H op req s = (Ok (), s')" and "\<not> corrupt_nvs_on_next_md5 s"
  shows "flash s' = flash s"
  using assms by (cases op) (auto simp: Let_def split: if_splits)

subsection \<open>Lemmas: commands\<close>

lemma send_link:
  assumes "linked F f" and "frame \<noteq> []" and "on_port (p_write_all (sim_port H) (encode frame)) f = (Ok (), f')"
  obtains p where "\<not> dead (fl_port f)" and "handle H frame ((fl_port f)\<lparr>sdec := dec_clean\<rparr>) = (Ok (), p)"
    and "f' = f\<lparr>fl_port := p\<rparr>"
proof -
  have "sdec (fl_port f) = decoder_default \<or> sdec (fl_port f) = dec_clean"
    using assms(1) by (simp add: linked_def dec_ready_def)
  with assms(2) have "feed (sdec (fl_port f)) (encode frame) [] = (dec_clean, [frame])"
    by (auto simp: feed_encode_clean feed_encode_default)
  moreover obtain p where p: "sim_write_all H (encode frame) (fl_port f) = (Ok (), p)" "f' = f\<lparr>fl_port := p\<rparr>"
    using assms(3) by (auto simp: on_port_def zoom_eq_Ok sim_port_def)
  ultimately have "\<not> dead (fl_port f)" and "handle H frame ((fl_port f)\<lparr>sdec := dec_clean\<rparr>) = (Ok (), p)"
    by (auto simp: sim_write_all_def seq_eq_Ok split: if_splits)
  with p that show thesis by blast
qed

lemma handle_request_cases:
  assumes "handle H (request op data chk) s = (Ok (), p)" and "length data < 65536"
  obtains (dead) "dead p" and "sout p = sout s" and "sdec p = sdec s" and "flash p = flash s"
      and "corrupt_nvs_on_next_md5 p = corrupt_nvs_on_next_md5 s"
  | (deaf) "answered s p []" and "flash p = flash s"
  | (op) s1 where "s1 = s\<lparr>sframes := sframes s + 1, seen := seen s @ [op_code op]\<rparr>"
      and "handle_op H op \<lparr>req_op = op_code op, req_chk = chk, req_data = data\<rparr> s1 = (Ok (), p)"
proof -
  have "handle H (request op data chk) s = handle_request H (request op data chk) s"
    by (simp add: handle_def split: option.split)
  with assms have run: "handle_request H (request op data chk) s = (Ok (), p)" by simp
  let ?s1 = "s\<lparr>sframes := sframes s + 1, seen := seen s @ [op_code op]\<rparr>"
  have "p = ?s1\<lparr>dead := True\<rparr> \<or> p = ?s1 \<or>
      handle_op H op \<lparr>req_op = op_code op, req_chk = chk, req_data = data\<rparr> ?s1 = (Ok (), p)"
    using run by (simp add: handle_request_def parse_request_request [OF assms(2)] Let_def
        del: op_code.simps split: if_splits)
  then show thesis
  proof (elim disjE)
    assume "p = ?s1\<lparr>dead := True\<rparr>"
    then show thesis by (intro dead) simp_all
  next
    assume "p = ?s1"
    then show thesis by (intro deaf) (simp_all add: answered_def)
  next
    assume "handle_op H op \<lparr>req_op = op_code op, req_chk = chk, req_data = data\<rparr> ?s1 = (Ok (), p)"
    then show thesis by (rule op [OF refl])
  qed
qed

text \<open>A request to an idle link: the board is dead, or at most one frame is to come.\<close>

lemma send_once:
  assumes idle: "idle F f" and op: "op \<noteq> Sync" "op \<noteq> MemEnd" "op \<noteq> ReadFlash"
    and small: "length data < 65536" and run: "fl_send (sim_port H) op data chk f = (Ok (), f')"
  shows "\<exists>F'. linked F' f' \<and> (dead (fl_port f') \<or> length (inbox f') \<le> 1) \<and>
    (op \<noteq> FlashBegin \<and> op \<noteq> FlashData \<longrightarrow> F' = F)"
proof -
  have link: "linked F f" using idle by (simp add: idle_def)
  obtain p where alive: "\<not> dead (fl_port f)" and f': "f' = f\<lparr>fl_port := p\<rparr>"
    and h: "handle H (request op data chk) ((fl_port f)\<lparr>sdec := dec_clean\<rparr>) = (Ok (), p)"
    by (rule send_link [OF link _ run [unfolded fl_send_def]]) simp_all
  let ?s = "(fl_port f)\<lparr>sdec := dec_clean\<rparr>"
  have box: "inbox f = []" using idle alive by (simp add: idle_def)
  have link': "linked F (f\<lparr>fl_port := ?s\<rparr>)" and box': "inbox (f\<lparr>fl_port := ?s\<rparr>) = []"
    using link box by (simp_all add: linked_def inbox_def dec_ready_def)
  have ans: ?thesis if a: "answered ?s p rs" and "length rs \<le> 1"
    and fl: "op \<noteq> FlashBegin \<and> op \<noteq> FlashData \<longrightarrow> flash p = flash ?s" for rs
  proof -
    have "answered (fl_port (f\<lparr>fl_port := ?s\<rparr>)) p rs" using a by simp
    from linked_answered [OF link' this] have "linked (flash p) f'" "inbox f' = filter (\<lambda>r. r \<noteq> []) rs"
      using box' by (simp_all add: f')
    moreover have "length (filter (\<lambda>r. r \<noteq> []) rs) \<le> 1"
      by (rule le_trans [OF length_filter_le \<open>length rs \<le> 1\<close>])
    moreover have "op \<noteq> FlashBegin \<and> op \<noteq> FlashData \<longrightarrow> flash p = F" using fl link by (simp add: linked_def)
    ultimately show ?thesis by auto
  qed
  show ?thesis
    using h small
  proof (cases rule: handle_request_cases)
    case dead
    with link box show ?thesis by (intro exI [of _ F]) (simp add: f' linked_def dec_ready_def)
  next
    case deaf
    then show ?thesis by (intro ans [of "[]"]) simp_all
  next
    case (op s1)
    have ok: "\<not> corrupt_nvs_on_next_md5 s1" using link op(1) by (simp add: linked_def)
    have "once s1 p" using handle_op_once [OF assms(2-4) op(2) ok] .
    then obtain rs where "length rs \<le> 1" "answered s1 p rs" by (auto simp: once_def)
    moreover from this have "answered ?s p rs" by (simp add: answered_def op(1))
    moreover have "op \<noteq> FlashBegin \<and> op \<noteq> FlashData \<longrightarrow> flash p = flash ?s"
      using handle_op_flash [OF _ _ assms(2,4) op(2) ok] by (simp add: op(1))
    ultimately show ?thesis by (intro ans [of rs]) simp_all
  qed
qed

text \<open>The answer a command returns is the first frame of the inbox that answers it.\<close>

lemma command_loop_link:
  assumes "linked F f" and "command_loop (sim_port H) ff fuel op expect what t w f = (Ok r, f')"
  shows "linked F f' \<and> (\<exists>v. fl_port f' = (fl_port f)\<lparr>sout := v\<rparr>) \<and> fl_stub f' = fl_stub f \<and> fl_usb f' = fl_usb f \<and>
    (\<exists>skipped x. inbox f = skipped @ x # inbox f' \<and> parse_response x = Some r \<and>
       (\<forall>y \<in> set skipped. \<forall>r'. parse_response y = Some r' \<longrightarrow> rsp_op r' \<noteq> op_code op) \<and>
       (\<exists>b. rsp_status r expect = Some (0, b)))"
  using assms
proof (induction fuel arbitrary: w f)
  case (Suc fuel)
  obtain y f1 where nf: "next_frame (sim_port H) ff (max (t - w) 50) f = (Ok y, f1)"
    and rest: "(case parse_response y of
         Some r \<Rightarrow>
           if rsp_op r \<noteq> op_code op then command_loop (sim_port H) ff fuel op expect what t (w + 50)
           else (case rsp_status r expect of
                Some (a, b) \<Rightarrow> if a = 0 then ret r else throw (FRefused what a b)
              | None \<Rightarrow> throw (FRefused what 0xFF 0xFF))
       | None \<Rightarrow>
           if t < w + 50 then throw (FTimeout what)
           else command_loop (sim_port H) ff fuel op expect what t (w + 50)) f1 = (Ok r, f')"
    using Suc.prems(2) unfolding command_loop.simps bnd_eq_Ok by blast
  have "0 < max (t - w) 50" by simp
  note f1 = next_frame_link [OF Suc.prems(1) nf this]
  have link: "linked F f1" and box: "inbox f = y # inbox f1" using f1 by auto
  obtain v where port: "fl_port f1 = (fl_port f)\<lparr>sout := v\<rparr>" and flags: "fl_stub f1 = fl_stub f" "fl_usb f1 = fl_usb f"
    using f1 by auto
  have again: ?case if "command_loop (sim_port H) ff fuel op expect what t (w + 50) f1 = (Ok r, f')"
    "\<forall>r'. parse_response y = Some r' \<longrightarrow> rsp_op r' \<noteq> op_code op"
  proof -
    from Suc.IH [OF link that(1)] obtain skipped x where
      "linked F f'" "\<exists>v. fl_port f' = (fl_port f1)\<lparr>sout := v\<rparr>" "fl_stub f' = fl_stub f1" "fl_usb f' = fl_usb f1"
      "inbox f1 = skipped @ x # inbox f'" "parse_response x = Some r" "\<exists>b. rsp_status r expect = Some (0, b)"
      "\<forall>y \<in> set skipped. \<forall>r'. parse_response y = Some r' \<longrightarrow> rsp_op r' \<noteq> op_code op" by blast
    then show ?thesis
      using that(2) box flags by (auto simp: port intro!: exI [of _ "y # skipped"])
  qed
  show ?case
  proof (cases "parse_response y")
    case None
    with rest have "command_loop (sim_port H) ff fuel op expect what t (w + 50) f1 = (Ok r, f')"
      by (auto simp: throw_def split: if_splits)
    then show ?thesis by (rule again) (simp add: None)
  next
    case (Some r0)
    show ?thesis
    proof (cases "rsp_op r0 = op_code op")
      case False
      with rest Some have "command_loop (sim_port H) ff fuel op expect what t (w + 50) f1 = (Ok r, f')" by simp
      then show ?thesis by (rule again) (simp add: Some False)
    next
      case True
      with rest Some have "r = r0" "f' = f1" "\<exists>b. rsp_status r expect = Some (0, b)"
        by (auto simp: throw_def ret_def split: option.splits if_splits)
      moreover have "inbox f = [] @ y # inbox f1" using box by simp
      ultimately show ?thesis using Some link flags port by (metis empty_iff list.set(1))
    qed
  qed
qed simp

lemma command_idle:
  assumes "op \<noteq> Sync" and "op \<noteq> MemEnd" and "op \<noteq> ReadFlash" and "length data < 65536"
  shows "okay (idle F) (command (sim_port H) fuel op data chk e what t)
    (\<lambda>r f. \<exists>F'. idle F' f \<and> (op \<noteq> FlashBegin \<and> op \<noteq> FlashData \<longrightarrow> F' = F))"
proof (rule okayI)
  fix f r f' assume idle: "idle F f" and "command (sim_port H) fuel op data chk e what t f = (Ok r, f')"
  then obtain f1 where send: "fl_send (sim_port H) op data chk f = (Ok (), f1)"
    and loop: "command_loop (sim_port H) fuel fuel op e what t 0 f1 = (Ok r, f')"
    by (auto simp: command_def seq_eq_Ok)
  from send_once [OF idle assms send] obtain F' where F': "linked F' f1" "dead (fl_port f1) \<or> length (inbox f1) \<le> 1"
    "op \<noteq> FlashBegin \<and> op \<noteq> FlashData \<longrightarrow> F' = F" by blast
  from command_loop_link [OF F'(1) loop] F'(2) have "idle F' f'"
    by (auto simp: idle_def)
  with F'(3) show "\<exists>F'. idle F' f' \<and> (op \<noteq> FlashBegin \<and> op \<noteq> FlashData \<longrightarrow> F' = F)" by blast
qed

lemma command_keeps_idle:
  assumes "op \<noteq> Sync" and "op \<noteq> MemEnd" and "op \<noteq> ReadFlash" and "op \<noteq> FlashBegin" and "op \<noteq> FlashData"
    and "length data < 65536"
  shows "okay (idle F) (command (sim_port H) fuel op data chk e what t) (\<lambda>r. idle F)"
  by (rule okay_weaken [OF command_idle [OF assms(1-3,6)]]) (use assms(4,5) in auto)

subsection \<open>Lemmas: synchronising\<close>

lemma next_frame_linked: "0 < t \<Longrightarrow> triple (linked F) (next_frame (sim_port H) fuel t) (\<lambda>_. True)"
  by (rule tripleI) (auto intro: next_frame_link(1) [OF _ surjective_pairing])

lemma command_loop_linked: "triple (linked F) (command_loop (sim_port H) ff fuel op e what t w) (\<lambda>_. True)"
proof (induction fuel arbitrary: w)
  case 0
  then show ?case by (simp add: tripleI)
next
  case (Suc fuel)
  have "command_loop (sim_port H) ff (Suc fuel) op e what t w = bnd (next_frame (sim_port H) ff (max (t - w) 50)) (\<lambda>f.
       case parse_response f of
         Some r \<Rightarrow>
           if rsp_op r \<noteq> op_code op then command_loop (sim_port H) ff fuel op e what t (w + 50)
           else (case rsp_status r e of
                Some (a, b) \<Rightarrow> if a = 0 then ret r else throw (FRefused what a b)
              | None \<Rightarrow> throw (FRefused what 0xFF 0xFF))
       | None \<Rightarrow> if t < w + 50 then throw (FTimeout what)
           else command_loop (sim_port H) ff fuel op e what t (w + 50))"
    by (rule ext) simp
  then show ?case
    by (auto intro!: triple_bnd [OF next_frame_linked] triple_ret triple_throw Suc.IH
        split: option.split prod.split)
qed

lemma sync_replies: "answered s ((reply op v d ok ^^ n) s) (replicate n (reply_frame (sstub s) op v d ok))"
proof (induction n)
  case (Suc n)
  have "sstub ((reply op v d ok ^^ n) s) = sstub s" by (induction n) (simp_all add: reply_def)
  then have "answered ((reply op v d ok ^^ n) s) ((reply op v d ok ^^ Suc n) s) [reply_frame (sstub s) op v d ok]"
    using reply_answered [of "(reply op v d ok ^^ n) s" op v d ok] by simp
  from answered_trans [OF Suc.IH this] show ?case by (simp add: replicate_append_same)
qed (simp add: answered_refl)

lemma linked_dec: "linked F f \<Longrightarrow> linked F (f\<lparr>fl_port := (fl_port f)\<lparr>sdec := dec_clean\<rparr>\<rparr>)"
  by (simp add: linked_def dec_ready_def)

lemma sync_send_linked:
  assumes "length data < 65536"
  shows "triple (linked F) (fl_send (sim_port H) Sync data chk) (\<lambda>_. True)"
proof (rule tripleI)
  fix f assume link: "linked F f"
  let ?s = "(fl_port f)\<lparr>sdec := dec_clean\<rparr>"
  let ?s1 = "?s\<lparr>sframes := sframes ?s + 1, seen := seen ?s @ [op_code Sync]\<rparr>"
  have three: "linked F (f\<lparr>fl_port := (reply (op_code Sync) 0x20100707 [] True ^^ 3) ?s1\<rparr>)"
  proof -
    have "linked F (f\<lparr>fl_port := ?s1\<rparr>)" using link by (simp add: linked_def dec_ready_def)
    moreover have "flash ((reply (op_code Sync) 0x20100707 [] True ^^ 3) ?s1) = F"
      using link by (simp add: linked_def numeral_eq_Suc)
    ultimately show ?thesis
      using linked_answered(1) [of F "f\<lparr>fl_port := ?s1\<rparr>", OF _
        sync_replies [where s = "fl_port (f\<lparr>fl_port := ?s1\<rparr>)" and op = "op_code Sync"
          and v = "0x20100707" and d = "[]" and ok = True and n = 3]] by simp
  qed
  have "snd (sim_write_all H (encode (request Sync data chk)) (fl_port f)) =
      (if dead (fl_port f) then fl_port f else snd (handle H (request Sync data chk) ?s))"
    using link by (subst sim_write_all_encode) (auto simp: linked_def dec_ready_def)
  moreover have "snd (handle H (request Sync data chk) ?s) \<in>
      {?s1\<lparr>dead := True\<rparr>, ?s1, (reply (op_code Sync) 0x20100707 [] True ^^ 3) ?s1}"
    by (auto simp: handle_def handle_request_def parse_request_request [OF assms] Let_def
        op_from_u8_code [of Sync, unfolded op_code.simps] split: option.split)
  moreover have "linked F (f\<lparr>fl_port := ?s1\<lparr>dead := True\<rparr>\<rparr>)" "linked F (f\<lparr>fl_port := ?s1\<rparr>)" "linked F (f\<lparr>fl_port := fl_port f\<rparr>)"
    using link by (simp_all add: linked_def dec_ready_def)
  ultimately have "linked F (f\<lparr>fl_port := snd (sim_write_all H (encode (request Sync data chk)) (fl_port f))\<rparr>)"
    using three by (auto split: if_splits)
  then show "linked F (snd (fl_send (sim_port H) Sync data chk f))"
    by (simp add: fl_send_def on_port_def zoom_def sim_port_def split: outcome.split prod.split)
       (auto)
qed simp

lemma drain_idle: "okay (linked F) (drain (sim_port H) ff fuel) (\<lambda>_. idle F)"
proof (induction fuel)
  case (Suc fuel)
  show ?case
  proof (rule okayI)
    fix f x f' assume link: "linked F f" and "drain (sim_port H) ff (Suc fuel) f = (Ok x, f')"
    then obtain r f1 where nf: "next_frame (sim_port H) ff 100 f = (r, f1)"
      and "(\<exists>y. r = Ok y) \<and> drain (sim_port H) ff fuel f1 = (Ok x, f') \<or> (\<exists>e. r = Err e) \<and> f' = f1"
      by (auto simp: bnd_eq_Ok attempt_eq_Ok ret_def)
    moreover have "linked F f1" by (rule next_frame_link(1) [OF link nf]) simp
    moreover have "dead (fl_port f1) \<or> inbox f1 = []" if "r = Err e" for e
      using next_frame_link(6) [OF link nf _ that] by auto
    ultimately show "idle F f'" using okayD [OF Suc.IH] by (auto simp: idle_def)
  qed
qed (simp add: okay_def)

lemma sync_tries_idle: "okay (linked F) (sync_tries (sim_port H) fuel n) (\<lambda>_. idle F)"
proof (induction n)
  case (Suc n)
  have "triple (linked F) (command (sim_port H) fuel Sync sync_data 0 0 ''sync'' 200) (\<lambda>_. True)"
    unfolding command_def
    by (intro triple_seq sync_send_linked command_loop_linked) (simp add: sync_data_def)
  note cmd = tripleD [OF this]
  show ?case
  proof (rule okayI)
    fix f x f' assume link: "linked F f" and "sync_tries (sim_port H) fuel (Suc n) f = (Ok x, f')"
    then obtain f1 where "linked F f1"
      and "drain (sim_port H) fuel fuel f1 = (Ok x, f') \<or> sync_tries (sim_port H) fuel n f1 = (Ok x, f')"
      using cmd [OF link] by (fastforce simp: bnd_eq_Ok attempt_eq_Ok)
    then show "idle F f'" using okayD [OF Suc.IH] okayD [OF drain_idle] by blast
  qed
qed (simp add: okay_def)

lemma sync_idle: "okay (linked F) (sync (sim_port H) fuel) (\<lambda>_. idle F)"
  unfolding sync_def by (rule sync_tries_idle)

subsection \<open>Lemmas: the other operations leave the link idle\<close>

lemma idle_flag [simp]:
  "idle F (f\<lparr>fl_stub := b\<rparr>) = idle F f" "idle F (f\<lparr>fl_usb := b\<rparr>) = idle F f"
  by (simp_all add: idle_def linked_def inbox_def)

lemma chip_id_idle: "okay (idle F) (chip_id (sim_port H) fuel) (\<lambda>_. idle F)"
  unfolding chip_id_def by (rule okay_bnd [OF command_keeps_idle]) (simp_all add: okay_ret)

lemma mac_idle: "okay (idle F) (fl_mac (sim_port H) fuel) (\<lambda>_. idle F)"
proof -
  have "okay (idle F) (read_reg (sim_port H) fuel a) (\<lambda>_. idle F)" for a
    unfolding read_reg_def by (rule okay_bnd [OF command_keeps_idle]) (simp_all add: okay_ret)
  then show ?thesis
    unfolding fl_mac_def by (intro okay_bnd [where R = "\<lambda>_. idle F"] okay_ret)
qed

lemma attach_flash_idle: "okay (idle F) (attach_flash (sim_port H) fuel n) (\<lambda>_. idle F)"
  unfolding attach_flash_def
  by (rule okay_bnd [OF command_keeps_idle], simp_all)
     (rule okay_bnd [OF command_keeps_idle], simp_all add: okay_ret)

lemma mem_data_idle:
  "\<forall>c \<in> set cs. length c \<le> 0x1800 \<Longrightarrow> okay (idle F) (mem_data (sim_port H) fuel n cs) (\<lambda>_. idle F)"
proof (induction cs arbitrary: n)
  case (Cons c cs)
  have eq: "mem_data (sim_port H) fuel n (c # cs) =
      bnd (command (sim_port H) fuel MemData (le [of_nat (length c), of_nat n, 0, 0] @ c)
        (checksum c) 0 ''load the stub'' 1000) (\<lambda>_. mem_data (sim_port H) fuel (Suc n) cs)"
    by (rule ext) simp
  show ?case
    unfolding eq by (rule okay_bnd [OF command_keeps_idle]) (use Cons in auto)
qed (simp add: okay_def)

lemma load_part_idle: "okay (idle F) (load_part (sim_port H) fuel addr bs) (\<lambda>_. idle F)"
proof -
  have small: "length c \<le> 0x1800" if "c \<in> set (chunks (if u then USB_RAM_BLOCK else RAM_BLOCK) bs)" for u c
    using chunks_bound [OF that] by (auto simp: RAM_BLOCK_def USB_RAM_BLOCK_def split: if_splits)
  show ?thesis
    unfolding load_part_def Let_def
    by (rule okay_bnd [OF okay_asks [where Q = "\<lambda>_. idle F"]], assumption)
       (rule okay_bnd [OF command_keeps_idle], simp_all add: small mem_data_idle)
qed

lemma wait_ohai_link:
  assumes "linked F f" and "wait_ohai (sim_port H) fuel n f = (Ok x, f')"
  shows "linked F f' \<and> (\<exists>v. fl_port f' = (fl_port f)\<lparr>sout := v\<rparr>) \<and>
    (\<exists>skipped. inbox f = skipped @ bytes ''OHAI'' # inbox f')"
  using assms
proof (induction n arbitrary: f)
  case (Suc n)
  let ?step = "\<lambda>r. if r = Inr (bytes ''OHAI'') then modify (\<lambda>f. f\<lparr>fl_stub := True\<rparr>) else wait_ohai (sim_port H) fuel n"
  obtain r f1 where r: "attempt (next_frame (sim_port H) fuel 200) f = (Ok r, f1)" "?step r f1 = (Ok x, f')"
    using Suc.prems(2) unfolding wait_ohai.simps bnd_eq_Ok by blast
  then obtain q where nf: "next_frame (sim_port H) fuel 200 f = (q, f1)"
    and q: "(\<exists>y. r = Inr y \<and> q = Ok y) \<or> (\<exists>e. r = Inl e \<and> q = Err e)"
    by (auto simp: attempt_eq_Ok)
  have "linked F f1" and port: "\<exists>v. fl_port f1 = (fl_port f)\<lparr>sout := v\<rparr>"
    using next_frame_link(1,2) [OF Suc.prems(1) nf] by simp_all
  have pop: "inbox f = y # inbox f1" if "q = Ok y" for y
    using next_frame_link(5) [OF Suc.prems(1) nf _ that] by simp
  have keep: "inbox f = inbox f1" if "q = Err e" for e
    using next_frame_link(6) [OF Suc.prems(1) nf _ that] by simp
  show ?case
  proof (cases "r = Inr (bytes ''OHAI'')")
    case True
    then have "f' = f1\<lparr>fl_stub := True\<rparr>" "q = Ok (bytes ''OHAI'')" using r(2) q by (auto simp: modify_eq_Ok)
    with \<open>linked F f1\<close> port pop show ?thesis
      by (auto simp: linked_def inbox_def intro!: exI [of _ "[]"])
  next
    case False
    with r(2) have "wait_ohai (sim_port H) fuel n f1 = (Ok x, f')" by simp
    from Suc.IH [OF \<open>linked F f1\<close> this] obtain skipped where
      "linked F f'" "\<exists>v. fl_port f' = (fl_port f1)\<lparr>sout := v\<rparr>" and box: "inbox f1 = skipped @ bytes ''OHAI'' # inbox f'"
      by blast
    moreover have "\<exists>skipped. inbox f = skipped @ bytes ''OHAI'' # inbox f'"
      using q pop keep box by (metis append_Cons)
    ultimately show ?thesis using port by auto
  qed
qed simp

lemma send_cases:
  assumes idle: "idle F f" and small: "length data < 65536"
    and run: "fl_send (sim_port H) op data chk f = (Ok (), f')"
  obtains (deaf) "linked F f'" and "inbox f' = []"
  | (op) s1 where "flash s1 = F" and "\<not> corrupt_nvs_on_next_md5 s1"
      and "handle_op H op \<lparr>req_op = op_code op, req_chk = chk, req_data = data\<rparr> s1 = (Ok (), fl_port f')"
      and "\<And>rs. answered s1 (fl_port f') rs \<Longrightarrow>
        linked (flash (fl_port f')) f' \<and> inbox f' = filter (\<lambda>r. r \<noteq> []) rs"
proof -
  have link: "linked F f" using idle by (simp add: idle_def)
  obtain p where alive: "\<not> dead (fl_port f)" and f': "f' = f\<lparr>fl_port := p\<rparr>"
    and h: "handle H (request op data chk) ((fl_port f)\<lparr>sdec := dec_clean\<rparr>) = (Ok (), p)"
    by (rule send_link [OF link _ run [unfolded fl_send_def]]) simp_all
  let ?s = "(fl_port f)\<lparr>sdec := dec_clean\<rparr>"
  have box: "inbox f = []" using idle alive by (simp add: idle_def)
  have link': "linked F (f\<lparr>fl_port := ?s\<rparr>)" and box': "inbox (f\<lparr>fl_port := ?s\<rparr>) = []"
    using link box by (simp_all add: linked_def inbox_def dec_ready_def)
  have ans: "linked (flash p) f' \<and> inbox f' = filter (\<lambda>r. r \<noteq> []) rs" if "answered ?s p rs" for rs
  proof -
    have "answered (fl_port (f\<lparr>fl_port := ?s\<rparr>)) p rs" using that by simp
    from linked_answered [OF link' this] box' show ?thesis by (simp add: f')
  qed
  show thesis
    using h small
  proof (cases rule: handle_request_cases)
    case d: dead
    with link box show thesis by (intro deaf) (simp_all add: f' linked_def dec_ready_def inbox_def)
  next
    case d: deaf
    with ans [of "[]"] link show thesis by (intro deaf) (simp_all add: linked_def)
  next
    case o: (op s1)
    show thesis
    proof (rule op)
      show "flash s1 = F" "\<not> corrupt_nvs_on_next_md5 s1" using link by (simp_all add: o linked_def)
      show "handle_op H op \<lparr>req_op = op_code op, req_chk = chk, req_data = data\<rparr> s1 = (Ok (), fl_port f')"
        using o(2) by (simp add: f')
      show "linked (flash (fl_port f')) f' \<and> inbox f' = filter (\<lambda>r. r \<noteq> []) rs"
        if "answered s1 (fl_port f') rs" for rs
        using that ans [of rs] by (simp add: answered_def f' o(1))
    qed
  qed
qed

lemma load_stub_idle: "okay (idle F) (load_stub (sim_port H) fuel stub) (\<lambda>_. idle F)"
proof -
  have "okay (idle F) (seq (fl_send (sim_port H) MemEnd (le [0, st_entry stub]) 0) (wait_ohai (sim_port H) fuel 20)) (\<lambda>_. idle F)"
  proof (rule okayI)
    fix f x f'
    assume idle: "idle F f"
      and "seq (fl_send (sim_port H) MemEnd (le [0, st_entry stub]) 0) (wait_ohai (sim_port H) fuel 20) f = (Ok x, f')"
    then obtain f1 where send: "fl_send (sim_port H) MemEnd (le [0, st_entry stub]) 0 f = (Ok (), f1)"
      and wait: "wait_ohai (sim_port H) fuel 20 f1 = (Ok x, f')"
      by (auto simp: seq_eq_Ok)
    have small: "length (le [0, st_entry stub]) < 65536" by simp
    show "idle F f'"
      using idle small send
    proof (cases rule: send_cases)
      case deaf
      with wait_ohai_link [OF deaf(1) wait] show ?thesis by simp
    next
      case (op s1)
      let ?r = "reply_frame (sstub s1) (op_code MemEnd) 0 [] True"
      have "fl_port f1 = s1\<lparr>sstub := True, sout := sout s1 @ encode ?r @ encode (bytes ''OHAI'')\<rparr>"
        using op(3) by (simp add: Let_def reply_def)
      then have a: "answered s1 (fl_port f1) [?r, bytes ''OHAI'']" and "flash (fl_port f1) = F"
        using op(1) by (simp_all add: answered_def)
      with op(4) [OF a] have link: "linked F f1" and box: "inbox f1 = [?r, bytes ''OHAI'']"
        by (simp_all add: reply_frame_def Let_def bytes_def)
      obtain skipped where "linked F f'" and sk: "[?r, bytes ''OHAI''] = skipped @ bytes ''OHAI'' # inbox f'"
        using wait_ohai_link [OF link wait] unfolding box by blast
      moreover have "?r \<noteq> bytes ''OHAI''" by (simp add: reply_frame_def Let_def bytes_def)
      then have "inbox f' = []"
        using sk by (auto simp: Cons_eq_append_conv)
      ultimately show ?thesis by (simp add: idle_def)
    qed
  qed
  then show ?thesis
    unfolding load_stub_def by (intro okay_seq [OF load_part_idle])
qed

lemma command_some_idle:
  assumes "op \<noteq> Sync" and "op \<noteq> MemEnd" and "op \<noteq> ReadFlash" and "length data < 65536"
  shows "okay (\<lambda>f. \<exists>F. idle F f) (command (sim_port H) fuel op data chk e what t) (\<lambda>_ f. \<exists>F. idle F f)"
proof (rule okayI)
  fix f r f' assume "\<exists>F. idle F f" and run: "command (sim_port H) fuel op data chk e what t f = (Ok r, f')"
  then obtain F where "idle F f" by blast
  from okayD [OF command_idle [OF assms] this run] show "\<exists>F. idle F f'" by blast
qed

lemma write_blocks_idle:
  "\<forall>c \<in> set cs. length c \<le> 0x4000 \<Longrightarrow>
   okay (\<lambda>f. \<exists>F. idle F f) (write_blocks (sim_port H) fuel block tot progress n cs) (\<lambda>_ f. \<exists>F. idle F f)"
proof (induction cs arbitrary: n)
  case (Cons c cs)
  have eq: "write_blocks (sim_port H) fuel block tot progress n (c # cs) =
     bnd (command (sim_port H) fuel FlashData (le [of_nat (length c), of_nat n, 0, 0] @ c)
            (checksum c) 0 ''write'' 10000) (\<lambda>_.
       if \<not> progress (min (Suc n * block) tot) then throw FCancelled
       else write_blocks (sim_port H) fuel block tot progress (Suc n) cs)"
    by (rule ext) simp
  have "okay (\<lambda>f. \<exists>F. idle F f) (command (sim_port H) fuel FlashData (le [of_nat (length c), of_nat n, 0, 0] @ c)
      (checksum c) 0 ''write'' 10000) (\<lambda>_ f. \<exists>F. idle F f)"
    using Cons.prems by (intro command_some_idle) auto
  then show ?case
    unfolding eq using Cons by (intro okay_bnd okay_if okay_throw) auto
qed (auto simp: okay_def)

lemma md5_idle: "okay (idle F) (fl_md5 (sim_port H) fuel offset len) (\<lambda>_. idle F)"
proof -
  have cmd: "okay (idle F) (command (sim_port H) fuel SpiFlashMd5 (le [offset, len, 0, 0]) 0 e w t) (\<lambda>_. idle F)" for e w t
    by (rule command_keeps_idle) simp_all
  have "okay (idle F) (case hex_pairs d of Ok x \<Rightarrow> ret x | Err _ \<Rightarrow> throw e | _ \<Rightarrow> panic) (\<lambda>_. idle F)" for d and e :: flash_error
    by (auto intro: okay_ret okay_throw okay_panic split: outcome.split)
  then show ?thesis
    unfolding fl_md5_def
    by (intro okay_bnd [OF okay_asks [where Q = "\<lambda>_. idle F"]] okay_bnd [OF cmd] okay_if okay_throw okay_ret)
qed

lemma write_idle: "okay (\<lambda>f. \<exists>F. idle F f) (fl_write (sim_port H) hash fuel offset data progress) (\<lambda>_ f. \<exists>F. idle F f)"
proof -
  let ?J = "\<lambda>f. \<exists>F. idle F f"
  have small: "length c \<le> 0x4000" if "c \<in> set (chunks (if u then min STUB_BLOCK n else 0x400) bs)" for u n c bs
    using chunks_bound [OF that] by (auto simp: STUB_BLOCK_def split: if_splits)
  have cmd: "okay ?J (command (sim_port H) fuel FlashBegin (le [a, b, c, d] @ (if u then [] else u32_to_le 0)) 0 0 w t) (\<lambda>_. ?J)"
    for a b c d u w t
    by (rule command_some_idle) simp_all
  have md: "okay ?J (fl_md5 (sim_port H) fuel offset len) (\<lambda>_. ?J)" for len
    using md5_idle unfolding okay_def by blast
  show ?thesis
    unfolding fl_write_def Let_def
    by (intro okay_if okay_throw okay_panic okay_ret okay_bnd [OF okay_asks [where Q = "\<lambda>_. ?J"]]
        okay_bnd [OF cmd] okay_seq [OF write_blocks_idle] okay_bnd [OF md] ballI)
       (auto dest: small)
qed

subsection \<open>Lemmas: reading flash\<close>

lemma unat_of_nat_u32: "n < 2 ^ 32 \<Longrightarrow> unat (of_nat n :: u32) = n"
  by (simp add: unat_of_nat)

lemma stream_read_answer:
  assumes "stream_read H (of_nat (at + k)) (of_nat (len - k)) s = (Ok (), s')"
    and "k < len" and "at + len \<le> FLASH" and "read_origin s = at"
  defines "n \<equiv> min (len - k) 0x1000"
  shows "answered s s' (slice (flash s) (at + k) (at + k + n) #
      (if k + n = len then [md5 H (slice (flash s) at (at + len))] else []))"
    and "flash s' = flash s" and "read_origin s' = at"
    and "pending_read s' = (if k + n = len then None else Some (of_nat (at + k + n), of_nat (len - k - n)))"
proof -
  have big: "at + len < 2 ^ 32" using assms(3) by (simp add: FLASH_def)
  have n: "n \<le> len - k" "n \<le> 0x1000" "0 < n" using assms(2) by (auto simp: n_def)
  have left: "unat (of_nat (len - k) :: u32) = len - k" using big by (intro unat_of_nat_u32) simp
  have mn: "min (of_nat (len - k) :: u32) 0x1000 = of_nat n"
  proof (cases "len - k \<le> 0x1000")
    case True
    then have "(of_nat (len - k) :: u32) \<le> 0x1000" using left by (simp add: word_le_nat_alt)
    with True show ?thesis by (simp add: n_def min_def)
  next
    case False
    then have "\<not> (of_nat (len - k) :: u32) \<le> 0x1000" using left by (simp add: word_le_nat_alt)
    with False show ?thesis by (simp add: n_def min_def)
  qed
  have zero: "(of_nat m :: u32) = 0 \<longleftrightarrow> m = 0" if "m < 2 ^ 32" for m
    using unat_of_nat_u32 [OF that] unat_eq_zero [of "of_nat m :: u32"] by simp
  have nz: "(of_nat (len - k) :: u32) \<noteq> 0" using zero [of "len - k"] big assms(2) by simp
  have at: "unat (of_nat (at + k) :: u32) = at + k" using big assms(2) by (intro unat_of_nat_u32) simp
  have ende: "(of_nat (at + k) :: u32) + of_nat n = of_nat (at + k + n)" by simp
  have uend: "unat (of_nat (at + k + n) :: u32) = at + k + n" using big n assms(2) by (intro unat_of_nat_u32) simp
  have nleft: "(of_nat (len - k) :: u32) - of_nat n = of_nat (len - k - n)" using n by (simp add: of_nat_diff)
  have nl0: "(of_nat (len - k - n) :: u32) = 0 \<longleftrightarrow> k + n = len"
    using zero [of "len - k - n"] big n(1) assms(2) by auto
  note ev = assms(1) [unfolded stream_read_def Let_def mn ende nleft at uend nl0]
  show "answered s s' (slice (flash s) (at + k) (at + k + n) #
      (if k + n = len then [md5 H (slice (flash s) at (at + len))] else []))"
    and "flash s' = flash s" and "read_origin s' = at"
    and "pending_read s' = (if k + n = len then None else Some (of_nat (at + k + n), of_nat (len - k - n)))"
    using ev nz assms(4) by (auto simp: answered_def add.assoc split: if_splits)
qed

text \<open>The first block follows the reply; every acknowledgement brings the next one.\<close>

lemma streaming_answered:
  assumes "linked F f" and "flash s = F" and "length F = FLASH" and "k < len" and "at + len \<le> FLASH"
    and run: "stream_read H (of_nat (at + k)) (of_nat (len - k)) s = (Ok (), p)" and "read_origin s = at"
    and box: "inbox f = []" and same: "answered (fl_port f) s []"
  shows "streaming H F at len k (f\<lparr>fl_port := p\<rparr>)"
proof -
  define n where "n = min (len - k) 0x1000"
  note st = stream_read_answer [OF run assms(4,5,7), folded n_def]
  have "answered (fl_port f) p (slice F (at + k) (at + k + n) #
      (if k + n = len then [md5 H (slice F at (at + len))] else []))"
    using answered_trans [OF same st(1)] unfolding assms(2) by simp
  note la = linked_answered [OF assms(1) this]
  have "0 < n" "at + k + n \<le> FLASH" using assms(4,5) by (auto simp: n_def)
  then have "length (slice F (at + k) (at + k + n)) = n" using assms(3) by simp
  then have "slice F (at + k) (at + k + n) \<noteq> []" using \<open>0 < n\<close> by auto
  with la box st(2-4) assms(2,4) show ?thesis
    by (simp add: streaming_def n_def [symmetric] closing_def Let_def)
qed

lemma ack_streaming:
  assumes link: "linked F f" and len: "length F = FLASH" and le: "at + len \<le> FLASH"
    and "read_origin (fl_port f) = at" and k: "k \<le> len" and ack: "length frame = 4"
    and pend: "k < len \<Longrightarrow> inbox f = [] \<and> pending_read (fl_port f) = Some (of_nat (at + k), of_nat (len - k))"
    and last: "k = len \<Longrightarrow> inbox f = closing H F at len \<and> pending_read (fl_port f) = None"
    and run: "fl_send_raw (sim_port H) frame f = (Ok (), f')"
  shows "streaming H F at len k f'"
proof -
  let ?s = "(fl_port f)\<lparr>sdec := dec_clean\<rparr>"
  obtain p where h: "handle H frame ?s = (Ok (), p)" and f': "f' = f\<lparr>fl_port := p\<rparr>"
  proof (rule send_link [OF link _ run [unfolded fl_send_raw_def]])
    show "frame \<noteq> []" using ack by auto
  qed
  have link': "linked F (f\<lparr>fl_port := ?s\<rparr>)" and box': "inbox (f\<lparr>fl_port := ?s\<rparr>) = inbox f"
    using link by (simp_all add: linked_def inbox_def dec_ready_def)
  have F: "flash (fl_port f) = F" using link by (simp add: linked_def)
  show ?thesis
  proof (cases "k = len")
    case True
    then have "p = ?s" using h last ack by (simp add: handle_def handle_request_def parse_request_def)
    then show ?thesis
      using True link' box' last [OF True] assms(4) by (simp add: streaming_def f')
  next
    case False
    then have "k < len" using k by simp
    then have st: "stream_read H (of_nat (at + k)) (of_nat (len - k)) ?s = (Ok (), p)"
      using h pend ack by (simp add: handle_def)
    have "streaming H F at len k ((f\<lparr>fl_port := ?s\<rparr>)\<lparr>fl_port := p\<rparr>)"
      by (rule streaming_answered [OF link' _ len \<open>k < len\<close> le st])
        (use pend [OF \<open>k < len\<close>] box' F assms(4) in \<open>simp_all add: answered_def\<close>)
    then show ?thesis by (simp add: f')
  qed
qed

lemma slice_append: "a \<le> b \<Longrightarrow> b \<le> c \<Longrightarrow> slice xs a b @ slice xs b c = slice xs a c"
proof -
  assume "a \<le> b" "b \<le> c"
  then have "take (b - a) (drop a xs) @ take (c - b) (drop b xs) = take ((b - a) + (c - b)) (drop a xs)"
    by (subst take_add) simp
  with \<open>a \<le> b\<close> \<open>b \<le> c\<close> show ?thesis by (simp add: slice_def)
qed

lemma read_blocks_streaming:
  assumes "streaming H F at len k f" and "length F = FLASH" and "at + len \<le> FLASH" and "k \<le> len"
    and "read_blocks (sim_port H) ff fuel len (slice F at (at + k)) f = (Ok d, f')"
  shows "d = slice F at (at + len) \<and> linked F f' \<and> inbox f' = closing H F at len"
  using assms(1,4,5)
proof (induction fuel arbitrary: k f)
  case (Suc fuel)
  have lk: "length (slice F at (at + k)) = k" using assms(2,3) Suc.prems(2) by simp
  show ?case
  proof (cases "k < len")
    case False
    with Suc.prems lk show ?thesis by (auto simp: streaming_def)
  next
    case True
    define n where "n = min (len - k) 0x1000"
    have n: "0 < n" "k + n \<le> len" using True by (auto simp: n_def)
    have link: "linked F f" and org: "read_origin (fl_port f) = at"
      and box: "inbox f = slice F (at + k) (at + k + n) # (if k + n = len then closing H F at len else [])"
      and pend: "pending_read (fl_port f) = (if k + n = len then None else Some (of_nat (at + k + n), of_nat (len - k - n)))"
      using Suc.prems(1) True by (auto simp: streaming_def n_def Let_def)
    obtain y f1 where nf: "next_frame (sim_port H) ff 3000 f = (Ok y, f1)"
      and rest: "(let data' = slice F at (at + k) @ y in
          if length data' < len \<and> length y < unat SECTOR then
            throw (FCheck ''short block while reading flash'')
          else seq (fl_send_raw (sim_port H) (u32_to_le (of_nat (length data'))))
                 (read_blocks (sim_port H) ff fuel len data')) f1 = (Ok d, f')"
      using Suc.prems(3) True lk by (auto simp: bnd_eq_Ok)
    have link1: "linked F f1" and port: "\<exists>v. fl_port f1 = (fl_port f)\<lparr>sout := v\<rparr>"
      and "inbox f = y # inbox f1"
      using next_frame_link(1,2,5) [OF link nf] by simp_all
    with box have y: "y = slice F (at + k) (at + (k + n))"
      and box1: "inbox f1 = (if k + n = len then closing H F at len else [])" by (simp_all add: add.assoc)
    have data': "slice F at (at + k) @ y = slice F at (at + (k + n))"
      unfolding y by (rule slice_append) simp_all
    obtain f2 where ack: "fl_send_raw (sim_port H) (u32_to_le (of_nat (length (slice F at (at + (k + n)))))) f1 = (Ok (), f2)"
      and go: "read_blocks (sim_port H) ff fuel len (slice F at (at + (k + n))) f2 = (Ok d, f')"
      using rest unfolding Let_def data' by (auto simp: throw_def seq_eq_Ok split: if_splits)
    have "streaming H F at len (k + n) f2"
      by (rule ack_streaming [OF link1 assms(2,3) _ n(2) _ _ _ ack])
        (use port org pend box1 n in \<open>auto simp: add.assoc\<close>)
    from Suc.IH [OF this n(2) go] show ?thesis .
  qed
qed simp

lemma reply_response:
  assumes "length d < 60000"
  shows "parse_response (reply_frame st op v d ok) = Some \<lparr>rsp_op = op, rsp_value = v,
    rsp_data = d @ (if ok then [0, 0] else [1, 5]) @ (if st then [] else [0, 0])\<rparr>"
  unfolding reply_frame_def Let_def by (rule parse_response_reply) (use assms in simp)

lemma command_loop_head:
  assumes "linked F f" and "command_loop (sim_port H) ff fuel op e what t w f = (Ok r, f')"
    and "inbox f = x # rest" and "parse_response x = Some r0" and "rsp_op r0 = op_code op"
  shows "inbox f' = rest \<and> r = r0"
proof -
  obtain skipped y where y: "x # rest = skipped @ y # inbox f'" "parse_response y = Some r"
    and sk: "\<forall>z \<in> set skipped. \<forall>r'. parse_response z = Some r' \<longrightarrow> rsp_op r' \<noteq> op_code op"
    using command_loop_link [OF assms(1,2)] assms(3) by auto
  show ?thesis
  proof (cases skipped)
    case Nil
    with y assms(4) show ?thesis by simp
  next
    case (Cons z zs)
    with y(1) sk assms(4,5) show ?thesis by simp
  qed
qed

lemma read_begin:
  assumes len: "length F = FLASH" "0 < unat len" "unat off + unat len \<le> FLASH" and "flash s1 = F"
    and run: "handle_op H ReadFlash \<lparr>req_op = op_code ReadFlash, req_chk = chk,
        req_data = le [off, len, SECTOR, 64]\<rparr> s1 = (Ok (), fl_port f0)"
    and ans: "\<And>rs. answered s1 (fl_port f0) rs \<Longrightarrow>
        linked (flash (fl_port f0)) f0 \<and> inbox f0 = filter (\<lambda>r. r \<noteq> []) rs"
    and loop: "command_loop (sim_port H) fuel fuel ReadFlash 0 what t 0 f0 = (Ok r, f1)"
  shows "streaming H F (unat off) (unat len) 0 f1"
proof (cases "sstub s1")
  case False
  let ?x = "reply_frame False (op_code ReadFlash) 0 [] False"
  have p: "fl_port f0 = reply (op_code ReadFlash) 0 [] False s1" using run False by simp
  with ans [of "[?x]"] False have "linked (flash (fl_port f0)) f0" "inbox f0 = [?x]"
    using reply_answered [of s1 "op_code ReadFlash" 0 "[]" False]
    by (simp_all add: reply_frame_def Let_def)
  with command_loop_head [OF this(1) loop this(2) reply_response]
  have "r = \<lparr>rsp_op = op_code ReadFlash, rsp_value = 0, rsp_data = [1, 5, 0, 0]\<rparr>" by simp
  moreover have "\<exists>b. rsp_status r 0 = Some (0, b)"
    using command_loop_link [OF \<open>linked (flash (fl_port f0)) f0\<close> loop] by blast
  ultimately show ?thesis by (simp add: rsp_status_def slice_opt_def slice_def)
next
  case True
  let ?x = "reply_frame True (op_code ReadFlash) 0 [] True"
  define n where "n = min (unat len) 0x1000"
  define s2 where "s2 = (reply (op_code ReadFlash) 0 [] True s1)\<lparr>read_origin := unat off, pending_read := Some (off, len)\<rparr>"
  have args: "word_arg (le [off, len, SECTOR, 64]) 0 = off" "word_arg (le [off, len, SECTOR, 64]) 1 = len"
    using word_arg_le [of 0 "[off, len, SECTOR, 64]" "[]"] word_arg_le [of 1 "[off, len, SECTOR, 64]" "[]"] by simp_all
  have "stream_read H off len s2 = (Ok (), fl_port f0)"
    using run True by (simp add: args [simplified] Let_def s2_def)
  then have st: "stream_read H (of_nat (unat off + 0)) (of_nat (unat len - 0)) s2 = (Ok (), fl_port f0)" by simp
  have "read_origin s2 = unat off" "flash s2 = F" using assms(4) by (simp_all add: s2_def)
  note sr = stream_read_answer [OF st len(2,3) this(1), folded n_def, simplified, folded n_def]
  have "answered s1 s2 [?x]" using reply_answered [of s1 "op_code ReadFlash" 0 "[]" True] True
    by (simp add: s2_def answered_def)
  from answered_trans [OF this sr(1)]
  have a: "answered s1 (fl_port f0) (?x # slice F (unat off) (unat off + n) #
      (if n = unat len then [md5 H (slice F (unat off) (unat off + unat len))] else []))"
    unfolding \<open>flash s2 = F\<close> by simp
  have "0 < n" "unat off + n \<le> FLASH" using len by (auto simp: n_def)
  then have "length (slice F (unat off) (unat off + n)) = n" using len(1) by simp
  then have "slice F (unat off) (unat off + n) \<noteq> []" using \<open>0 < n\<close> by auto
  with ans [OF a] sr(2) \<open>flash s2 = F\<close>
  have link: "linked F f0" and box: "inbox f0 = ?x # slice F (unat off) (unat off + n) #
      (if n = unat len then closing H F (unat off) (unat len) else [])"
    by (simp_all add: reply_frame_def Let_def closing_def)
  have "inbox f1 = slice F (unat off) (unat off + n) #
      (if n = unat len then closing H F (unat off) (unat len) else [])"
    using command_loop_head [OF link loop box reply_response] by simp
  moreover have "linked F f1" "\<exists>v. fl_port f1 = (fl_port f0)\<lparr>sout := v\<rparr>"
    using command_loop_link [OF link loop] by blast+
  ultimately show ?thesis
    using sr(3,4) len(2) by (auto simp: streaming_def n_def [symmetric] Let_def)
qed

lemma read_flash_link:
  assumes "length F = FLASH" and "0 < len" and "unat off + unat len \<le> FLASH"
  shows "okay (idle F) (read_flash (sim_port H) hash fuel off len)
    (\<lambda>d f. idle F f \<and> d = slice F (unat off) (unat off + unat len))"
proof (rule okayI)
  fix f d f' assume idle: "idle F f" and "read_flash (sim_port H) hash fuel off len f = (Ok d, f')"
  then obtain r f1 data f2 digest where
    cmd: "command (sim_port H) fuel ReadFlash (le [off, len, SECTOR, 64]) 0 0 ''read flash'' 2000 f = (Ok r, f1)"
    and blocks: "read_blocks (sim_port H) fuel fuel (unat len) [] f1 = (Ok data, f2)"
    and dig: "next_frame (sim_port H) fuel 3000 f2 = (Ok digest, f')" and d: "d = take (unat len) data"
    by (auto simp: read_flash_def bnd_eq_Ok asks_def throw_def ret_def split: if_splits)
  from cmd obtain f0 where send: "fl_send (sim_port H) ReadFlash (le [off, len, SECTOR, 64]) 0 f = (Ok (), f0)"
    and loop: "command_loop (sim_port H) fuel fuel ReadFlash 0 ''read flash'' 2000 0 f0 = (Ok r, f1)"
    by (auto simp: command_def seq_eq_Ok)
  have small: "length (le [off, len, SECTOR, 64]) < 65536" by simp
  have pos: "0 < unat len" using assms(2) by (simp add: word_less_nat_alt)
  have "streaming H F (unat off) (unat len) 0 f1"
    using idle small send
  proof (cases rule: send_cases)
    case deaf
    with command_loop_link [OF deaf(1) loop] show ?thesis by simp
  next
    case (op s1)
    from read_begin [OF assms(1) pos assms(3) op(1) op(3) op(4) loop] show ?thesis .
  qed
  moreover have "slice F (unat off) (unat off + 0) = []" by (simp add: slice_def)
  ultimately have "data = slice F (unat off) (unat off + unat len)" and link: "linked F f2"
    and box: "inbox f2 = closing H F (unat off) (unat len)"
    using read_blocks_streaming [of H F "unat off" "unat len" 0 f1] assms(1,3) blocks by simp_all
  moreover have "linked F f'" and "inbox f2 = digest # inbox f'"
    using next_frame_link(1,5) [OF link dig] by simp_all
  moreover from this box have "inbox f' = []" by (simp add: closing_def split: if_splits)
  ultimately show "idle F f' \<and> d = slice F (unat off) (unat off + unat len)"
    using assms(1,3) d by (simp add: idle_def)
qed

end
