(* ===== verification/Json.thy ===== *)
theory Json
  imports Hidfi_Prelude
begin

section \<open>JSON values as serde reads and writes them\<close>

text \<open>
  The JSON text parser and printer (\<open>serde_json\<close>) are outside the repository: components take them
  as arguments (\<open>codec\<close>).  What the repository's own types make of a parsed value is modelled: the
  derived \<open>Deserialize\<close> of a struct (every field once, an \<open>Option\<close> or defaulted field may be absent,
  unknown fields are ignored, a wrong type or a number out of range is an error) and the indexing of
  an untyped \<open>Value\<close>.  An object keeps its members in the order of the text.
\<close>

subsection \<open>Definitions\<close>

datatype json =
    JNull
  | JBool bool
  | JInt int
  | JFloat string
  | JStr string
  | JArr "json list"
  | JObj "(string \<times> json) list"

record codec =
  js_print :: "json \<Rightarrow> string"
  js_parse :: "string \<Rightarrow> json option"

text \<open>The documented round trip of the codec at a value, a hypothesis where a component relies on it.\<close>

definition codec_ok :: "codec \<Rightarrow> json \<Rightarrow> bool" where
  "codec_ok J v \<longleftrightarrow> js_parse J (js_print J v) = Some v"

text \<open>\<open>v[k]\<close> of an untyped value: the last member of that name, \<open>Null\<close> when there is none.\<close>

fun jget :: "json \<Rightarrow> string \<Rightarrow> json option" where
  "jget (JObj ms) k = map_of (rev ms) k"
| "jget _ k = None"

fun as_str :: "json \<Rightarrow> string option" where
  "as_str (JStr s) = Some s"
| "as_str _ = None"

fun as_bool :: "json \<Rightarrow> bool option" where
  "as_bool (JBool b) = Some b"
| "as_bool _ = None"

fun as_u64 :: "json \<Rightarrow> u64 option" where
  "as_u64 (JInt i) = (if 0 \<le> i \<and> i < 2 ^ 64 then Some (word_of_int i) else None)"
| "as_u64 _ = None"

fun as_array :: "json \<Rightarrow> json list option" where
  "as_array (JArr xs) = Some xs"
| "as_array _ = None"

text \<open>Typed fields: \<open>field ms k\<close> is the one member of that name; a repeated one is an error.\<close>

definition field :: "(string \<times> json) list \<Rightarrow> string \<Rightarrow> json option" where
  "field ms k = (case filter (\<lambda>m. fst m = k) ms of [m] \<Rightarrow> Some (snd m) | _ \<Rightarrow> None)"

text \<open>An optional field: absent or \<open>null\<close> is \<open>None\<close>; present, it must have the type.\<close>

definition opt_field :: "(string \<times> json) list \<Rightarrow> string \<Rightarrow> (json \<Rightarrow> 'a option) \<Rightarrow> 'a option option" where
  "opt_field ms k conv =
     (case filter (\<lambda>m. fst m = k) ms of
        [] \<Rightarrow> Some None
      | [m] \<Rightarrow> (if snd m = JNull then Some None else map_option Some (conv (snd m)))
      | _ \<Rightarrow> None)"

text \<open>A defaulted field (\<open>#[serde(default)]\<close>): absent is the default.\<close>

definition default_field :: "(string \<times> json) list \<Rightarrow> string \<Rightarrow> (json \<Rightarrow> 'a option) \<Rightarrow> 'a \<Rightarrow> 'a option" where
  "default_field ms k conv d =
     (case filter (\<lambda>m. fst m = k) ms of
        [] \<Rightarrow> Some d | [m] \<Rightarrow> conv (snd m) | _ \<Rightarrow> None)"

definition as_u32 :: "json \<Rightarrow> u32 option" where
  "as_u32 v = (case v of JInt i \<Rightarrow> if 0 \<le> i \<and> i < 2 ^ 32 then Some (word_of_int i) else None | _ \<Rightarrow> None)"

definition as_usize :: "json \<Rightarrow> nat option" where
  "as_usize v = (case v of JInt i \<Rightarrow> if 0 \<le> i \<and> i < 2 ^ 64 then Some (nat i) else None | _ \<Rightarrow> None)"

text \<open>\<open>Vec<String>\<close>.\<close>

fun as_strs :: "json \<Rightarrow> string list option" where
  "as_strs (JArr xs) = (if list_all (\<lambda>x. as_str x \<noteq> None) xs then Some (map (the \<circ> as_str) xs) else None)"
| "as_strs _ = None"

subsection \<open>Lemmas\<close>

lemma as_strs_JStr [simp]: "as_strs (JArr (map JStr xs)) = Some xs"
  by (induction xs) (auto split: if_splits)

lemma as_u32_uint [simp]: "as_u32 (JInt (uint w)) = Some w"
  using uint_lt2p [of w] by (simp add: as_u32_def)

lemma as_usize_int [simp]: "n < 2 ^ 64 \<Longrightarrow> as_usize (JInt (int n)) = Some n"
  by (simp add: as_usize_def)

end
