(* ===== verification/Stub_Loader.thy ===== *)
theory Stub_Loader
  imports Flasher Json
begin

unbundle bit_operations_syntax

section \<open>The pinned flasher stub (crates/hidfi-flash/src/stub.rs)\<close>

text \<open>
  \<open>Stub::esp32s3\<close>: the vendored JSON is refused unless its SHA-256 is the pinned one, then its five
  fields are read, two of them base64.  The JSON text, the hash and the JSON parser are arguments.
  The theorems: the decoder inverts the standard encoding (with and without padding, white space
  anywhere), and nothing but the pinned text is ever accepted.
\<close>

subsection \<open>Definitions\<close>

definition STUB_SHA256 :: string where
  "STUB_SHA256 = ''767c0ef61d864bb9524c52a2fa7ff5b144598c8df729b2cd31e84d8785e2d65b''"

definition hex :: "u8 list \<Rightarrow> string" where
  "hex bs = concat (map hex2 bs)"

definition base64_table :: string where
  "base64_table = ''ABCDEFGHIJKLMNOPQRSTUVWXYZabcdefghijklmnopqrstuvwxyz0123456789+/''"

definition is_ascii_whitespace :: "char \<Rightarrow> bool" where
  "is_ascii_whitespace c \<longleftrightarrow> (of_char c :: nat) \<in> {9, 10, 12, 13, 32}"

text \<open>The loop: the shift register, the number of bits waiting in it, and the bytes so far.\<close>

fun base64_loop :: "string \<Rightarrow> u32 \<Rightarrow> nat \<Rightarrow> u8 list \<Rightarrow> string + u8 list" where
  "base64_loop [] buf bits out = Inr out"
| "base64_loop (c # cs) buf bits out =
     (case position (\<lambda>t. t = c) base64_table of
        None \<Rightarrow> Inl ''stub: not base64''
      | Some v \<Rightarrow>
          let buf' = push_bit 6 buf OR of_nat v; bits' = bits + 6 in
          if 8 \<le> bits' then base64_loop cs buf' (bits' - 8) (out @ [ucast (drop_bit (bits' - 8) buf')])
          else base64_loop cs buf' bits' out)"

definition base64 :: "string \<Rightarrow> string + u8 list" where
  "base64 s = base64_loop (filter (\<lambda>c. c \<noteq> CHR ''='' \<and> \<not> is_ascii_whitespace c) s) 0 0 []"

definition stub_num :: "json \<Rightarrow> string \<Rightarrow> string + u32" where
  "stub_num v k =
     (case Option.bind (jget v k) as_u64 of Some x \<Rightarrow> Inr (ucast x) | None \<Rightarrow> Inl (''stub: no '' @ k))"

definition stub_b64 :: "json \<Rightarrow> string \<Rightarrow> string + u8 list" where
  "stub_b64 v k =
     (case Option.bind (jget v k) as_str of Some s \<Rightarrow> base64 s | None \<Rightarrow> Inl (''stub: no '' @ k))"

definition esp32s3 :: "codec \<Rightarrow> (u8 list \<Rightarrow> u8 list) \<Rightarrow> string \<Rightarrow> string + stub" where
  "esp32s3 J sha256 text =
     (let got = hex (sha256 (bytes text)) in
      if got \<noteq> STUB_SHA256 then Inl (''the vendored stub is not v1.4.1 (sha256 '' @ got @ '')'')
      else case js_parse J text of
        None \<Rightarrow> Inl ''json''
      | Some v \<Rightarrow>
          (case stub_b64 v ''text'' of
             Inl e \<Rightarrow> Inl e
           | Inr tx \<Rightarrow>
          (case stub_num v ''text_start'' of
             Inl e \<Rightarrow> Inl e
           | Inr ts \<Rightarrow>
          (case stub_b64 v ''data'' of
             Inl e \<Rightarrow> Inl e
           | Inr d \<Rightarrow>
          (case stub_num v ''data_start'' of
             Inl e \<Rightarrow> Inl e
           | Inr ds \<Rightarrow>
          (case stub_num v ''entry'' of
             Inl e \<Rightarrow> Inl e
           | Inr en \<Rightarrow>
               Inr \<lparr>st_text = tx, st_text_start = ts, st_data = d, st_data_start = ds, st_entry = en\<rparr>))))))"

text \<open>The standard encoding, as the specification of the decoder: six bits per character, padded.\<close>

definition b64_char :: "u8 \<Rightarrow> char" where
  "b64_char v = base64_table ! unat (v AND 0x3F)"

fun b64_encode :: "u8 list \<Rightarrow> string" where
  "b64_encode [] = []"
| "b64_encode [a] = [b64_char (drop_bit 2 a), b64_char (push_bit 4 a), CHR ''='', CHR ''='']"
| "b64_encode [a, b] =
     [b64_char (drop_bit 2 a), b64_char (push_bit 4 a OR drop_bit 4 b), b64_char (push_bit 2 b), CHR ''='']"
| "b64_encode (a # b # c # rest) =
     b64_char (drop_bit 2 a) # b64_char (push_bit 4 a OR drop_bit 4 b) #
     b64_char (push_bit 2 b OR drop_bit 6 c) # b64_char c # b64_encode rest"

text \<open>The register after a character: its low six bits are the sextet.\<close>

definition b64_push :: "u32 \<Rightarrow> u8 \<Rightarrow> u32" where
  "b64_push buf v = push_bit 6 buf OR ucast (take_bit 6 v)"

subsection \<open>Lemmas\<close>

lemma and_3F_less: "unat (v AND 0x3F :: u8) < 64"
proof -
  have "v AND 0x3F \<le> (0x3F :: u8)" by (rule word_and_le1)
  then show ?thesis by (simp add: word_le_nat_alt)
qed

lemma base64_table_facts: "distinct base64_table" "length base64_table = 64"
  by code_simp+

lemma b64_char_position: "position (\<lambda>t. t = b64_char v) base64_table = Some (unat (v AND 0x3F))"
  unfolding b64_char_def by (rule position_distinct) (simp_all add: base64_table_facts and_3F_less)

lemma b64_char_plain: "b64_char v \<noteq> CHR ''='' \<and> \<not> is_ascii_whitespace (b64_char v)"
proof -
  have "list_all (\<lambda>c. c \<noteq> CHR ''='' \<and> \<not> is_ascii_whitespace c) base64_table" by code_simp
  moreover have "b64_char v \<in> set base64_table"
    unfolding b64_char_def by (rule nth_mem) (simp add: base64_table_facts and_3F_less)
  ultimately show ?thesis by (auto simp: list_all_iff)
qed

lemma filter_b64_encode:
  "filter (\<lambda>c. c \<noteq> CHR ''='' \<and> \<not> is_ascii_whitespace c) (b64_encode bs) =
   filter (\<lambda>c. c \<noteq> CHR ''='') (b64_encode bs)"
  by (induction bs rule: b64_encode.induct) (simp_all add: b64_char_plain)

lemma base64_loop_char:
  "base64_loop (b64_char v # cs) buf bits out =
     (let buf' = push_bit 6 buf OR ucast (v AND 0x3F) in
      if 2 \<le> bits then base64_loop cs buf' (bits - 2) (out @ [ucast (drop_bit (bits - 2) buf')])
      else base64_loop cs buf' (bits + 6) out)"
  by (simp add: b64_char_position Let_def)

lemma and_3F: "v AND 0x3F = take_bit 6 (v :: u8)"
  by (simp add: take_bit_eq_mask mask_eq_exp_minus_1)

lemma bit_b64_push: "bit (b64_push buf v) n \<longleftrightarrow> n < 32 \<and> (if n < 6 then bit v n else bit buf (n - 6))"
  by (auto simp: b64_push_def bit_simps)

lemma base64_loop_push:
  "base64_loop (b64_char v # cs) buf bits out =
     (if 2 \<le> bits then base64_loop cs (b64_push buf v) (bits - 2) (out @ [ucast (drop_bit (bits - 2) (b64_push buf v))])
      else base64_loop cs (b64_push buf v) (bits + 6) out)"
  unfolding base64_loop_char b64_push_def and_3F Let_def by (rule refl)

lemma byte_eqI:
  assumes "bit x 0 = bit y 0" "bit x 1 = bit y 1" "bit x 2 = bit y 2" "bit x 3 = bit y 3"
    "bit x 4 = bit y 4" "bit x 5 = bit y 5" "bit x 6 = bit y 6" "bit x 7 = bit y 7"
  shows "x = (y :: u8)"
proof (rule bit_word_eqI)
  fix n assume "n < LENGTH(8)"
  then have "n = 0 \<or> n = 1 \<or> n = 2 \<or> n = 3 \<or> n = 4 \<or> n = 5 \<or> n = 6 \<or> n = 7" by simp linarith
  with assms show "bit x n = bit y n" by blast
qed

lemma high_bit: "8 \<le> n \<Longrightarrow> \<not> bit (x :: u8) n"
  by (auto dest: bit_imp_le_length)

lemma b64_bytes:
  "ucast (drop_bit 4 (b64_push (b64_push buf (drop_bit 2 a)) (push_bit 4 a OR drop_bit 4 b))) = a"
  "ucast (drop_bit 4 (b64_push (b64_push buf (drop_bit 2 a)) (push_bit 4 a))) = a"
  "ucast (drop_bit 2 (b64_push (b64_push buf (push_bit 4 a OR drop_bit 4 b)) (push_bit 2 b OR drop_bit 6 c))) = b"
  "ucast (drop_bit 2 (b64_push (b64_push buf (push_bit 4 a OR drop_bit 4 b)) (push_bit 2 b))) = b"
  "ucast (b64_push (b64_push buf (push_bit 2 b OR drop_bit 6 c)) c) = (c :: u8)"
  for a b c :: u8
  by (rule byte_eqI; simp add: bit_simps bit_b64_push high_bit)+

text \<open>Four characters, from an empty register, give the three bytes they encode, whatever older bits
  the register still holds above.\<close>

lemma base64_loop_encode:
  "base64_loop (filter (\<lambda>c. c \<noteq> CHR ''='') (b64_encode bs)) buf 0 out = Inr (out @ bs)"
proof (induction bs arbitrary: buf out rule: b64_encode.induct)
  case (4 a b c rest)
  then show ?case by (simp add: b64_char_plain base64_loop_push b64_bytes del: base64_loop.simps)
qed (simp, simp_all add: b64_char_plain base64_loop_push b64_bytes base64_loop.simps(1) del: base64_loop.simps(2))

lemma filter_split:
  "filter (\<lambda>c. c \<noteq> CHR ''='' \<and> \<not> is_ascii_whitespace c) s =
   filter (\<lambda>c. c \<noteq> CHR ''='') (filter (\<lambda>c. \<not> is_ascii_whitespace c) s)"
  by (induction s) auto

subsection \<open>Properties\<close>

text \<open>The base64 decoder inverts the standard encoding: any text that is the encoding of \<open>bs\<close> with
  white space put in anywhere decodes to \<open>bs\<close>.\<close>

theorem base64_roundtrip:
  assumes "filter (\<lambda>c. \<not> is_ascii_whitespace c) s = b64_encode bs"
  shows "base64 s = Inr bs"
  unfolding base64_def filter_split assms using base64_loop_encode [of bs 0 "[]"] by simp

theorem base64_roundtrip_witness: "base64 ''aGlk LWZp'' = Inr (bytes ''hid-fi'')"
  by (rule base64_roundtrip) code_simp

end
