(* ===== verification/Update.thy ===== *)
theory Update
  imports Link Stub_Loader
begin

unbundle bit_operations_syntax

section \<open>Updating a board over the cable, with a journal (crates/hidfi-flash/src/update.rs)\<close>

text \<open>
  The steps of a cable update over any port, and the journal on disk.  The state is the flasher and
  the disk; the disk's operations fail as its script says, a failing write leaving a part of the
  data, so a failure at a point shows what a crash there leaves behind.  The user's cancel button
  answers as the \<open>cancels\<close> argument says at each point where the source asks.  The report of progress
  to the window is left out.  JSON, MD5, SHA-256 and the stub's text are arguments.
\<close>

subsection \<open>Definitions: data\<close>

definition FLASH_SIZE :: u32 where "FLASH_SIZE = 16 * 1024 * 1024"
definition NVS :: "u32 \<times> u32" where "NVS = (0x9000, 0x5000)"
definition OTADATA_AT :: u32 where "OTADATA_AT = 0xE000"

datatype update_error =
    UFlash flash_error
  | UWrongChip u32
  | UWrongBoard string
  | UForeignFirmware
  | UUnknownLayout
  | UTooBig
  | UBadRelease
  | UCancelled
  | USettingsRestored

datatype connect = Reset | InLoader

datatype path2 = TwoSlot | SwitchLayout

datatype step = Planned | Preflighted | ImageWritten | Switched | TableWritten | Restarted | Cancelled

text \<open>The derived \<open>PartialOrd\<close>, \<open>Ord\<close>: the order of the variants.\<close>

fun step_index :: "step \<Rightarrow> nat" where
  "step_index Planned = 0"
| "step_index Preflighted = 1"
| "step_index ImageWritten = 2"
| "step_index Switched = 3"
| "step_index TableWritten = 4"
| "step_index Restarted = 5"
| "step_index Cancelled = 6"

lemma step_index_inj: "step_index a = step_index b \<longleftrightarrow> a = b"
  by (cases a; cases b) simp_all

instantiation step :: linorder
begin

definition less_eq_step :: "step \<Rightarrow> step \<Rightarrow> bool" where
  "less_eq_step a b \<longleftrightarrow> step_index a \<le> step_index b"

definition less_step :: "step \<Rightarrow> step \<Rightarrow> bool" where
  "less_step a b \<longleftrightarrow> step_index a < step_index b"

instance
  by standard (auto simp: less_eq_step_def less_step_def step_index_inj [symmetric])

end

record journal =
  j_mac :: string
  j_to :: string
  j_path :: path2
  j_step :: step
  j_target_slot :: nat
  j_target_offset :: u32
  j_image_md5 :: string
  j_image_len :: u32
  j_original_otadata :: string
  j_original_table :: string
  j_history :: "string list"

record release =
  rel_image :: "u8 list"
  rel_table :: "u8 list"

record found =
  fd_backup :: "u8 list"
  fd_table :: "partition list option"
  fd_running_slot :: nat
  fd_running_version :: "string option"
  fd_layout :: "path2 option"

text \<open>What the cancel button answers at each point where it is asked.\<close>

record cancels =
  c_before_image :: bool
  c_writing :: "nat \<Rightarrow> bool"
  c_after_image :: bool
  c_after_switch :: bool
  c_after_table :: bool

subsection \<open>Definitions: the journal on disk\<close>

text \<open>The derived serde forms: unit variants as their names, every field required.\<close>

fun path2_name :: "path2 \<Rightarrow> string" where
  "path2_name TwoSlot = ''TwoSlot''"
| "path2_name SwitchLayout = ''SwitchLayout''"

definition path2_of :: "string \<Rightarrow> path2 option" where
  "path2_of s = find (\<lambda>p. path2_name p = s) [TwoSlot, SwitchLayout]"

fun step_name :: "step \<Rightarrow> string" where
  "step_name Planned = ''Planned''"
| "step_name Preflighted = ''Preflighted''"
| "step_name ImageWritten = ''ImageWritten''"
| "step_name Switched = ''Switched''"
| "step_name TableWritten = ''TableWritten''"
| "step_name Restarted = ''Restarted''"
| "step_name Cancelled = ''Cancelled''"

definition step_of :: "string \<Rightarrow> step option" where
  "step_of s = find (\<lambda>p. step_name p = s)
     [Planned, Preflighted, ImageWritten, Switched, TableWritten, Restarted, Cancelled]"

definition json_of_journal :: "journal \<Rightarrow> json" where
  "json_of_journal j = JObj
     [(''mac'', JStr (j_mac j)), (''to'', JStr (j_to j)), (''path'', JStr (path2_name (j_path j))),
      (''step'', JStr (step_name (j_step j))), (''target_slot'', JInt (int (j_target_slot j))),
      (''target_offset'', JInt (uint (j_target_offset j))), (''image_md5'', JStr (j_image_md5 j)),
      (''image_len'', JInt (uint (j_image_len j))), (''original_otadata'', JStr (j_original_otadata j)),
      (''original_table'', JStr (j_original_table j)), (''history'', JArr (map JStr (j_history j)))]"

definition typed :: "(string \<times> json) list \<Rightarrow> string \<Rightarrow> (json \<Rightarrow> 'a option) \<Rightarrow> 'a option" where
  "typed ms k conv = Option.bind (field ms k) conv"

definition journal_of_json :: "json \<Rightarrow> journal option" where
  "journal_of_json v =
     (case v of
        JObj ms \<Rightarrow>
          (case (typed ms ''mac'' as_str, typed ms ''to'' as_str,
                 typed ms ''path'' (\<lambda>v. Option.bind (as_str v) path2_of),
                 typed ms ''step'' (\<lambda>v. Option.bind (as_str v) step_of),
                 typed ms ''target_slot'' as_usize, typed ms ''target_offset'' as_u32,
                 typed ms ''image_md5'' as_str, typed ms ''image_len'' as_u32,
                 typed ms ''original_otadata'' as_str, typed ms ''original_table'' as_str,
                 typed ms ''history'' as_strs) of
             (Some m, Some t, Some p, Some s, Some sl, Some off, Some md, Some len, Some od, Some ot, Some h) \<Rightarrow>
               Some \<lparr>j_mac = m, j_to = t, j_path = p, j_step = s, j_target_slot = sl, j_target_offset = off,
                 j_image_md5 = md, j_image_len = len, j_original_otadata = od, j_original_table = ot, j_history = h\<rparr>
           | _ \<Rightarrow> None)
      | _ \<Rightarrow> None)"

text \<open>The file system: what each path holds, and which of the next operations fail (a failing write
  still leaves the given number of bytes).\<close>

record disk =
  files :: "string \<Rightarrow> string option"
  io_errors :: "nat option list"

type_synonym 'a fprog_disk = "(disk, string, 'a) prog"

definition io_next :: "disk \<Rightarrow> nat option \<times> disk" where
  "io_next d = (case io_errors d of [] \<Rightarrow> (None, d) | e # es \<Rightarrow> (e, d\<lparr>io_errors := es\<rparr>))"

definition fs_create :: "string \<Rightarrow> unit fprog_disk" where
  "fs_create p d =
     (case io_next d of
        (Some _, d') \<Rightarrow> (Err ''io'', d')
      | (None, d') \<Rightarrow> (Ok (), d'\<lparr>files := (files d')(p := Some [])\<rparr>))"

definition fs_append :: "string \<Rightarrow> string \<Rightarrow> unit fprog_disk" where
  "fs_append p text d =
     (case io_next d of
        (Some k, d') \<Rightarrow> (Err ''io'', d'\<lparr>files := (files d')(p := map_option (\<lambda>old. old @ take k text) (files d' p))\<rparr>)
      | (None, d') \<Rightarrow> (Ok (), d'\<lparr>files := (files d')(p := map_option (\<lambda>old. old @ text) (files d' p))\<rparr>))"

definition fs_sync :: "unit fprog_disk" where
  "fs_sync d = (case io_next d of (Some _, d') \<Rightarrow> (Err ''io'', d') | (None, d') \<Rightarrow> (Ok (), d'))"

definition fs_rename :: "string \<Rightarrow> string \<Rightarrow> unit fprog_disk" where
  "fs_rename a b d =
     (case io_next d of
        (Some _, d') \<Rightarrow> (Err ''io'', d')
      | (None, d') \<Rightarrow> (Ok (), d'\<lparr>files := (files d')(b := files d' a, a := None)\<rparr>))"

text \<open>\<open>path.with_extension("tmp")\<close>, for a path with a file name: what follows the last dot of the
  file name is replaced, a dot in front of the name apart.\<close>

definition file_part :: "string \<Rightarrow> string" where
  "file_part p = rev (takeWhile (\<lambda>c. c \<noteq> CHR ''/'') (rev p))"

definition stem_of :: "string \<Rightarrow> string" where
  "stem_of n =
     (let r = dropWhile (\<lambda>c. c \<noteq> CHR ''.'') (rev n)
      in if length r \<le> 1 then n else rev (tl r))"

definition with_extension_tmp :: "string \<Rightarrow> string" where
  "with_extension_tmp p =
     take (length p - length (file_part p)) p @ stem_of (file_part p) @ ''.tmp''"

definition journal_save :: "codec \<Rightarrow> journal \<Rightarrow> string \<Rightarrow> unit fprog_disk" where
  "journal_save J j path =
     (let tmp = with_extension_tmp path in
      seq (fs_create tmp)
      (seq (fs_append tmp (js_print J (json_of_journal j)))
      (seq fs_sync (fs_rename tmp path))))"

definition journal_load :: "codec \<Rightarrow> string \<Rightarrow> disk \<Rightarrow> journal option" where
  "journal_load J path d = Option.bind (Option.bind (files d path) (js_parse J)) journal_of_json"

subsection \<open>Definitions: text\<close>

text \<open>\<open>unhex\<close>: a pair that is not hex counts as zero; a slice inside a character panics.\<close>

fun unhex_bytes :: "u8 list \<Rightarrow> u8 list option" where
  "unhex_bytes (a # b # rest) =
     (if is_cont rest 0 then None
      else map_option (\<lambda>zs. (case hex_pair (chr a) (chr b) of None \<Rightarrow> 0 | Some x \<Rightarrow> x) # zs) (unhex_bytes rest))"
| "unhex_bytes _ = Some []"

definition unhex :: "string \<Rightarrow> u8 list option" where
  "unhex s = unhex_bytes (bytes s)"

fun mac_join :: "string list \<Rightarrow> string" where
  "mac_join [] = []"
| "mac_join [x] = x"
| "mac_join (x # xs) = x @ '':'' @ mac_join xs"

definition mac_str :: "u8 list \<Rightarrow> string" where
  "mac_str m = mac_join (map hex2_upper m)"

definition layout_of :: "partition list \<Rightarrow> path2 option" where
  "layout_of table =
     (case find (\<lambda>p. pt_name p = ''nvs'') table of
        None \<Rightarrow> None
      | Some nvs \<Rightarrow>
          if (pt_offset nvs, pt_size nvs) \<noteq> NVS then None
          else (case app_slots table of
                  [a] \<Rightarrow> if pt_offset a = 0x10000 then Some SwitchLayout else None
                | [a, b] \<Rightarrow> if pt_offset a = 0x10000 \<and> pt_size b = pt_size a then Some TwoSlot else None
                | _ \<Rightarrow> None))"

subsection \<open>Definitions: the steps\<close>

record 'p ustate =
  u_fl :: "'p flasher"
  u_disk :: disk

type_synonym ('p, 'a) uprog = "('p ustate, update_error, 'a) prog"

text \<open>What the update is given: the port, the hashes, the JSON codec, the stub (or why it did not load)
  and the fuel of the flasher's loops.\<close>

record 'p env =
  e_port :: "'p port_ops"
  e_hash :: hashes
  e_json :: codec
  e_stub :: "string + stub"
  e_fuel :: nat

definition onf :: "('p, 'a) fprog \<Rightarrow> ('p, 'a) uprog" where
  "onf m = zoom u_fl (\<lambda>f u. u\<lparr>u_fl := f\<rparr>) UFlash m"

definition e_write :: "'p env \<Rightarrow> u32 \<Rightarrow> u8 list \<Rightarrow> (nat \<Rightarrow> bool) \<Rightarrow> ('p, unit) fprog" where
  "e_write E = fl_write (e_port E) (md5 (e_hash E)) (e_fuel E)"

definition e_read :: "'p env \<Rightarrow> u32 \<Rightarrow> u32 \<Rightarrow> ('p, u8 list) fprog" where
  "e_read E = read_flash (e_port E) (md5 (e_hash E)) (e_fuel E)"

definition preflight_connect :: "'p env \<Rightarrow> connect \<Rightarrow> ('p, unit) fprog" where
  "preflight_connect E c = (case c of Reset \<Rightarrow> enter_bootloader (e_port E) | InLoader \<Rightarrow> attach_to_loader)"

definition running_version :: "u8 list \<Rightarrow> string option" where
  "running_version head = Option.bind (identify head) id_version"

text \<open>\<open>preflight\<close>: nothing is written.  The slot is read only when the table names it.\<close>

definition preflight_read :: "'p env \<Rightarrow> ('p, found) uprog" where
  "preflight_read E =
     bnd (onf (e_read E 0 0x10000)) (\<lambda>backup.
       let table = parse_table (md5 (e_hash E)) (slice backup 0x8000 0x8C00);
           layout = Option.bind table layout_of
       in case table of
            None \<Rightarrow> ret \<lparr>fd_backup = backup, fd_table = table, fd_running_slot = 0,
                     fd_running_version = None, fd_layout = layout\<rparr>
          | Some t \<Rightarrow>
              let slots = app_slots t;
                  slot = (case otadata_choice (drop (unat OTADATA_AT) backup) (length slots) of
                            None \<Rightarrow> 0 | Some c \<Rightarrow> ch_slot c)
              in if slot < length slots then
                   bnd (onf (e_read E (pt_offset (slots ! slot)) (of_nat ID_WINDOW))) (\<lambda>head.
                     ret \<lparr>fd_backup = backup, fd_table = table, fd_running_slot = slot,
                       fd_running_version = running_version head, fd_layout = layout\<rparr>)
                 else ret \<lparr>fd_backup = backup, fd_table = table, fd_running_slot = slot,
                        fd_running_version = None, fd_layout = layout\<rparr>)"

definition preflight :: "'p env \<Rightarrow> u8 list \<Rightarrow> connect \<Rightarrow> ('p, found) uprog" where
  "preflight E mac c =
     seq (onf (preflight_connect E c))
     (seq (onf (sync (e_port E) (e_fuel E)))
     (bnd (onf (chip_id (e_port E) (e_fuel E))) (\<lambda>chip.
        if chip \<noteq> ucast ESP32S3_CHIP_ID then throw (UWrongChip chip)
        else bnd (onf (fl_mac (e_port E) (e_fuel E))) (\<lambda>got.
          if got \<noteq> mac then throw (UWrongBoard (mac_str got))
          else (case e_stub E of
                  Inl e \<Rightarrow> throw (UFlash (FCheck e))
                | Inr stub \<Rightarrow>
                    seq (onf (load_stub (e_port E) (e_fuel E) stub))
                    (seq (onf (attach_flash (e_port E) (e_fuel E) FLASH_SIZE))
                      (preflight_read E)))))))"

definition leave :: "'p env \<Rightarrow> connect \<Rightarrow> ('p, unit) fprog" where
  "leave E c = (case c of Reset \<Rightarrow> hard_reset (e_port E) | InLoader \<Rightarrow> leave_forced_download (e_port E) (e_fuel E))"

text \<open>The checks of the release before anything is touched: its version and its table.\<close>

definition check_release :: "hashes \<Rightarrow> release \<Rightarrow> (string \<times> partition list) option" where
  "check_release H rel =
     (case identify (rel_image rel) of
        None \<Rightarrow> None
      | Some ident \<Rightarrow>
          (case id_version ident of
             None \<Rightarrow> None
           | Some to \<Rightarrow>
               if id_chip ident \<noteq> ESP32S3_CHIP_ID \<or> \<not> image_is_valid (sha256 H) (rel_image rel) then None
               else (case parse_table (md5 H) (rel_table rel) of
                       None \<Rightarrow> None
                     | Some t \<Rightarrow> if layout_of t \<noteq> Some TwoSlot then None else Some (to, t))))"

text \<open>The plan of a fresh update: where the image goes.\<close>

definition plan_target :: "found \<Rightarrow> path2 \<Rightarrow> partition list \<Rightarrow> nat \<times> partition" where
  "plan_target fd path new_table =
     (case path of
        TwoSlot \<Rightarrow>
          (let i = 1 - min (fd_running_slot fd) 1 in
           (i, app_slots (case fd_table fd of Some t \<Rightarrow> t | None \<Rightarrow> []) ! i))
      | SwitchLayout \<Rightarrow> (1, app_slots new_table ! 1))"

definition plan_journal ::
  "hashes \<Rightarrow> u8 list \<Rightarrow> release \<Rightarrow> string \<Rightarrow> partition list \<Rightarrow> found \<Rightarrow> update_error + journal" where
  "plan_journal H mac rel to new_table fd =
     (case fd_layout fd of
        None \<Rightarrow> Inl UUnknownLayout
      | Some path \<Rightarrow>
          if fd_running_version fd = None then Inl UForeignFirmware
          else
            let (slot, s) = plan_target fd path new_table in
            if unat (pt_size s) < div_ceil (length (rel_image rel)) 0x4000 * 0x4000 then Inl UTooBig
            else Inr \<lparr>j_mac = mac_str mac, j_to = to, j_path = path, j_step = Planned, j_target_slot = slot,
                   j_target_offset = pt_offset s, j_image_md5 = hex (md5 H (rel_image rel)),
                   j_image_len = of_nat (length (rel_image rel)),
                   j_original_otadata = hex (drop (unat OTADATA_AT) (fd_backup fd)),
                   j_original_table = hex (slice (fd_backup fd) 0x8000 0x9000), j_history = []\<rparr>)"

definition resume_journal :: "'p env \<Rightarrow> string \<Rightarrow> u8 list \<Rightarrow> string \<Rightarrow> disk \<Rightarrow> journal option" where
  "resume_journal E path mac to d =
     (case journal_load (e_json E) path d of
        None \<Rightarrow> None
      | Some j \<Rightarrow> if j_mac j = mac_str mac \<and> j_to j = to \<and> j_step j < Restarted then Some j else None)"

definition save :: "'p env \<Rightarrow> string \<Rightarrow> journal \<Rightarrow> step \<Rightarrow> string \<Rightarrow> ('p, journal) uprog" where
  "save E path j st note =
     (let j' = j\<lparr>j_step := st, j_history := j_history j @ [step_name st @ '': '' @ note]\<rparr> in
      seq (zoom u_disk (\<lambda>d u. u\<lparr>u_disk := d\<rparr>) (\<lambda>e. UFlash (FPort e)) (journal_save (e_json E) j' path))
        (ret j'))"

definition write_unhex :: "'p env \<Rightarrow> u32 \<Rightarrow> string \<Rightarrow> ('p, unit) uprog" where
  "write_unhex E at text =
     (case unhex text of
        None \<Rightarrow> panic
      | Some d \<Rightarrow> bnd (attempt (onf (e_write E at d (\<lambda>_. True)))) (\<lambda>_. ret ()))"

text \<open>\<open>cancel\<close>: what was changed is put back, newest change first; it always ends in an error.\<close>

definition cancel :: "'p env \<Rightarrow> connect \<Rightarrow> string \<Rightarrow> journal \<Rightarrow> ('p, 'a) uprog" where
  "cancel E c path j =
     seq (if TableWritten \<le> j_step j then write_unhex E 0x8000 (j_original_table j) else ret ())
     (seq (if Switched \<le> j_step j then write_unhex E OTADATA_AT (j_original_otadata j) else ret ())
     (bnd (attempt (onf (leave E c))) (\<lambda>_.
      bnd (attempt (save E path j Cancelled ''everything put back as found'')) (\<lambda>_.
        throw UCancelled))))"

text \<open>C2: the image, into a slot that is not running.\<close>

definition stage_image :: "'p env \<Rightarrow> connect \<Rightarrow> release \<Rightarrow> string \<Rightarrow> cancels \<Rightarrow> journal \<Rightarrow> ('p, journal) uprog" where
  "stage_image E c rel path cs j =
     (if j_step j < ImageWritten then
        bnd (onf (fl_md5 (e_port E) (e_fuel E) (j_target_offset j) (j_image_len j))) (\<lambda>already.
        seq (if hex already \<noteq> j_image_md5 j then
               (if c_before_image cs then cancel E c path j
                else bnd (attempt (onf (e_write E (j_target_offset j) (rel_image rel) (\<lambda>n. \<not> c_writing cs n)))) (\<lambda>r.
                       case r of
                         Inl e \<Rightarrow> if e = UFlash FCancelled then cancel E c path j else throw e
                       | Inr _ \<Rightarrow> ret ()))
             else ret ())
          (save E path j ImageWritten ''image written and read back''))
      else ret j)"

text \<open>The first otadata sector that differs from what is wanted is written; a slice out of range
  panics.\<close>

fun first_diff :: "u8 list \<Rightarrow> u8 list \<Rightarrow> nat list \<Rightarrow> nat option option" where
  "first_diff now want [] = Some None"
| "first_diff now want (s # ss) =
     (if length now < (s + 1) * 0x1000 \<or> length want < (s + 1) * 0x1000 then None
      else if slice now (s * 0x1000) ((s + 1) * 0x1000) \<noteq> slice want (s * 0x1000) ((s + 1) * 0x1000) then Some (Some s)
      else first_diff now want ss)"

definition write_diff :: "'p env \<Rightarrow> u8 list \<Rightarrow> u8 list \<Rightarrow> ('p, unit) uprog" where
  "write_diff E now want =
     (case first_diff now want [0, 1] of
        None \<Rightarrow> panic
      | Some None \<Rightarrow> ret ()
      | Some (Some s) \<Rightarrow>
          onf (e_write E (OTADATA_AT + of_nat s * SECTOR) (slice want (s * 0x1000) ((s + 1) * 0x1000)) (\<lambda>_. True)))"

definition switched :: "u8 list \<Rightarrow> nat \<Rightarrow> ('p, u8 list) uprog" where
  "switched od slot =
     (case otadata_switch od slot OTA_NEW 2 of
        Ok w \<Rightarrow> ret w | OutOfFuel \<Rightarrow> (\<lambda>s. (OutOfFuel, s)) | _ \<Rightarrow> panic)"

text \<open>C3: choose it, one otadata sector.\<close>

definition stage_switch :: "'p env \<Rightarrow> string \<Rightarrow> journal \<Rightarrow> ('p, journal) uprog" where
  "stage_switch E path j =
     (if j_step j < Switched then
        bnd (onf (e_read E OTADATA_AT 0x2000)) (\<lambda>now.
        (case unhex (j_original_otadata j) of
           None \<Rightarrow> panic
         | Some od \<Rightarrow>
        bnd (switched od (j_target_slot j)) (\<lambda>want.
        seq (if map_option ch_slot (otadata_choice now 2) \<noteq> Some (j_target_slot j) \<or> now \<noteq> want
             then write_diff E now want else ret ())
          (save E path j Switched ''otadata chooses the new slot''))))
      else ret j)"

definition choose_again :: "'p env \<Rightarrow> u8 list \<Rightarrow> nat \<Rightarrow> ('p, unit) uprog" where
  "choose_again E od slot = bnd (switched od slot) (\<lambda>again. write_diff E od again)"

text \<open>S4, on the one-time switch of the layout only: the table, the last write.\<close>

definition stage_table :: "'p env \<Rightarrow> release \<Rightarrow> string \<Rightarrow> journal \<Rightarrow> ('p, journal) uprog" where
  "stage_table E rel path j =
     (if j_path j = SwitchLayout \<and> j_step j < TableWritten then
        bnd (onf (e_read E OTADATA_AT 0x2000)) (\<lambda>od.
        seq (if map_option ch_state (otadata_choice od 2) \<noteq> Some OTA_NEW
             then choose_again E od (j_target_slot j) else ret ())
        (bnd (onf (e_read E 0x8000 (of_nat TABLE_LEN))) (\<lambda>now.
        seq (if now \<noteq> take TABLE_LEN (rel_table rel)
             then onf (e_write E 0x8000 (rel_table rel) (\<lambda>_. True)) else ret ())
          (save E path j TableWritten ''the two-slot table is in''))))
      else ret j)"

text \<open>The choice must still be the new slot, untried.\<close>

definition stage_rechoose :: "'p env \<Rightarrow> journal \<Rightarrow> ('p, unit) uprog" where
  "stage_rechoose E j =
     bnd (onf (e_read E OTADATA_AT 0x2000)) (\<lambda>od.
       if map_option (\<lambda>c. (ch_slot c, ch_state c)) (otadata_choice od 2) \<noteq> Some (j_target_slot j, OTA_NEW)
       then choose_again E od (j_target_slot j) else ret ())"

text \<open>The settings must be exactly as read in preflight; then the board is started.\<close>

definition stage_finish :: "'p env \<Rightarrow> connect \<Rightarrow> string \<Rightarrow> found \<Rightarrow> journal \<Rightarrow> ('p, journal) uprog" where
  "stage_finish E c path fd j =
     bnd (onf (e_read E (fst NVS) (snd NVS))) (\<lambda>nvs_now.
       let nvs_was = slice (fd_backup fd) (unat (fst NVS)) (unat (fst NVS) + unat (snd NVS)) in
       if nvs_now \<noteq> nvs_was then
         seq (onf (e_write E (fst NVS) nvs_was (\<lambda>_. True)))
         (bnd (attempt (onf (leave E c))) (\<lambda>_. throw USettingsRestored))
       else
         seq (onf (leave E c))
           (save E path j Restarted ''restarted into the new firmware''))"

definition run_steps ::
  "'p env \<Rightarrow> connect \<Rightarrow> release \<Rightarrow> string \<Rightarrow> cancels \<Rightarrow> found \<Rightarrow> journal \<Rightarrow> ('p, journal) uprog" where
  "run_steps E c rel path cs fd j0 =
     bnd (if j_step j0 = Planned
          then save E path j0 Preflighted ''the chosen board, an ESP32-S3 running HID-Fi; backup read''
          else ret j0) (\<lambda>j1.
     bnd (stage_image E c rel path cs j1) (\<lambda>j2.
       if c_after_image cs then cancel E c path j2
       else bnd (stage_switch E path j2) (\<lambda>j3.
         if c_after_switch cs then cancel E c path j3
         else bnd (stage_table E rel path j3) (\<lambda>j4.
           if c_after_table cs then cancel E c path j4
           else seq (stage_rechoose E j4) (stage_finish E c path fd j4)))))"

definition run ::
  "'p env \<Rightarrow> u8 list \<Rightarrow> connect \<Rightarrow> release \<Rightarrow> string \<Rightarrow> cancels \<Rightarrow> ('p, journal) uprog" where
  "run E mac c rel path cs =
     (case check_release (e_hash E) rel of
        None \<Rightarrow> throw UBadRelease
      | Some (to, new_table) \<Rightarrow>
          bnd (preflight E mac c) (\<lambda>fd.
          bnd (asks (\<lambda>u. resume_journal E path mac to (u_disk u))) (\<lambda>resume.
            case resume of
              Some j \<Rightarrow> run_steps E c rel path cs fd j
            | None \<Rightarrow>
                (case plan_journal (e_hash E) mac rel to new_table fd of
                   Inl e \<Rightarrow> throw e
                 | Inr j \<Rightarrow> run_steps E c rel path cs fd j))))"

text \<open>Programs that keep an invariant of the port.\<close>

definition ukeeps :: "('p \<Rightarrow> bool) \<Rightarrow> ('p, 'a) uprog \<Rightarrow> bool" where
  "ukeeps I m \<longleftrightarrow> triple (\<lambda>u. I (fl_port (u_fl u))) m (\<lambda>_. True)"

definition writable :: "(u32 \<Rightarrow> u32 \<Rightarrow> bool) \<Rightarrow> u32 \<Rightarrow> nat \<Rightarrow> bool" where
  "writable region at n \<longleftrightarrow> (\<forall>stub. region at (of_nat (padded_len stub n)))"

subsection \<open>Lemmas: hex text\<close>

lemma of_char_hex_digit: "n < 16 \<Longrightarrow> (of_char (hex_digit n) :: nat) = (if n < 10 then 48 + n else 87 + n)"
  by (simp add: hex_digit_def)

lemma hex_digit_facts:
  assumes "n < 16"
  shows "hex_val (hex_digit n) = Some n \<and> hex_digit n \<noteq> CHR ''+'' \<and> (of_char (hex_digit n) :: nat) < 128"
proof -
  note c = of_char_hex_digit [OF assms]
  have "hex_digit n \<noteq> CHR ''+''"
  proof
    assume "hex_digit n = CHR ''+''"
    then have "(of_char (hex_digit n) :: nat) = 43" by simp
    with c show False by (simp split: if_splits)
  qed
  with c assms show ?thesis by (simp add: hex_val_def Let_def)
qed

lemma hex_pair_hex2: "hex_pair (hex_digit (unat b div 16)) (hex_digit (unat b mod 16)) = Some b"
proof -
  have "unat b div 16 < 16" using unat_u8_less [of b] by simp
  then show ?thesis
    using hex_digit_facts [of "unat b div 16"] hex_digit_facts [of "unat b mod 16"]
    by (simp add: hex_pair_def mult.commute [of 16])
qed

lemma hex_Cons: "hex (b # bs) = hex_digit (unat b div 16) # hex_digit (unat b mod 16) # hex bs"
  by (simp add: hex_def hex2_def)

lemma not_cont_hex: "\<not> is_cont (bytes (hex bs)) 0"
proof (cases bs)
  case (Cons b bs')
  have "unat b div 16 < 16" using unat_u8_less [of b] by simp
  with hex_digit_facts [of "unat b div 16"] have "(of_char (hex_digit (unat b div 16)) :: nat) < 128" by blast
  with Cons show ?thesis
    by (simp add: hex_Cons is_cont_def bytes_def word_le_nat_alt)
qed (simp add: hex_def is_cont_def bytes_def)

lemma unhex_hex [simp]: "unhex (hex bs) = Some bs"
proof (induction bs)
  case (Cons b bs)
  then show ?case
    using not_cont_hex [of bs] by (simp add: unhex_def hex_Cons bytes_def [of "_ # _"] bytes_def [symmetric] hex_pair_hex2)
qed (simp add: unhex_def hex_def bytes_def)

subsection \<open>Lemmas: the journal\<close>

lemma path2_of_name [simp]: "path2_of (path2_name p) = Some p"
  by (cases p) (simp_all add: path2_of_def)

lemma step_of_name [simp]: "step_of (step_name s) = Some s"
  by (cases s) (simp_all add: step_of_def)

lemma journal_of_json_of: "j_target_slot j < 2 ^ 64 \<Longrightarrow> journal_of_json (json_of_journal j) = Some j"
  by (simp add: journal_of_json_def json_of_journal_def typed_def field_def del: as_strs.simps)

lemma tmp_neq: "with_extension_tmp path \<noteq> path \<Longrightarrow> path \<noteq> with_extension_tmp path"
  by simp

text \<open>Whatever fails on the way, the file is the old journal or the whole new one.\<close>

lemma journal_save_files:
  assumes "with_extension_tmp path \<noteq> path"
  shows "files (snd (journal_save J j path d)) path = files d path \<or>
    files (snd (journal_save J j path d)) path = Some (js_print J (json_of_journal j))"
    and "fst (journal_save J j path d) = Ok () \<Longrightarrow>
      files (snd (journal_save J j path d)) path = Some (js_print J (json_of_journal j))"
  using assms
  by (auto simp: journal_save_def Let_def seq_def bnd_def fs_create_def fs_append_def fs_sync_def fs_rename_def
      io_next_def split: list.splits option.splits)

lemma journal_save_load:
  assumes "codec_ok J (json_of_journal j)" and "with_extension_tmp path \<noteq> path" and "j_target_slot j < 2 ^ 64"
  shows "journal_load J path (snd (journal_save J j path d)) = journal_load J path d \<or>
    journal_load J path (snd (journal_save J j path d)) = Some j"
    and "fst (journal_save J j path d) = Ok () \<Longrightarrow> journal_load J path (snd (journal_save J j path d)) = Some j"
  using journal_save_files [OF assms(2), of J j d] assms(1) journal_of_json_of [OF assms(3)]
  by (auto simp: journal_load_def codec_ok_def)

subsection \<open>Lemmas: every step keeps the port's invariant\<close>

lemma ukeeps_ret: "ukeeps I (ret x)" and ukeeps_throw: "ukeeps I (throw e)"
  and ukeeps_panic: "ukeeps I panic" and ukeeps_asks: "ukeeps I (asks g)"
  by (simp_all add: ukeeps_def triple_rules)

lemma ukeeps_bnd: "ukeeps I m \<Longrightarrow> (\<And>x. ukeeps I (k x)) \<Longrightarrow> ukeeps I (bnd m k)"
  unfolding ukeeps_def by (erule triple_bnd) simp

lemma ukeeps_seq: "ukeeps I m \<Longrightarrow> ukeeps I n \<Longrightarrow> ukeeps I (seq m n)"
  unfolding ukeeps_def by (rule triple_seq)

lemma ukeeps_attempt: "ukeeps I m \<Longrightarrow> ukeeps I (attempt m)"
  unfolding ukeeps_def by (rule triple_attempt)

lemma ukeeps_if: "(c \<Longrightarrow> ukeeps I m) \<Longrightarrow> (\<not> c \<Longrightarrow> ukeeps I n) \<Longrightarrow> ukeeps I (if c then m else n)"
  by simp

lemma ukeeps_onf: "keeps I m \<Longrightarrow> ukeeps I (onf m)"
  unfolding ukeeps_def keeps_def onf_def by (erule triple_zoom) simp_all

lemma ukeeps_save: "ukeeps I (save E path j st note)"
proof -
  have "triple (\<lambda>_. True) (journal_save (e_json E) j' path) (\<lambda>_. True)" for j' by (simp add: tripleI)
  then have "ukeeps I (zoom u_disk (\<lambda>d u. u\<lparr>u_disk := d\<rparr>) conv (journal_save (e_json E) j' path))" for conv j'
    unfolding ukeeps_def by (rule triple_zoom) simp_all
  then show ?thesis
    unfolding save_def Let_def by (intro ukeeps_seq ukeeps_ret)
qed

lemmas ukeeps_rules = ukeeps_ret ukeeps_throw ukeeps_panic ukeeps_asks ukeeps_bnd ukeeps_seq ukeeps_attempt
  ukeeps_if ukeeps_save

lemma first_diff_Some: "first_diff now want ss = Some (Some s) \<Longrightarrow> s \<in> set ss \<and> (s + 1) * 0x1000 \<le> length want"
  by (induction ss) (auto split: if_splits)

lemma switched_keeps: "ukeeps I (switched od slot)"
proof -
  have "ukeeps I (\<lambda>s. (OutOfFuel, s))" by (simp add: ukeeps_def tripleI)
  then show ?thesis
    unfolding switched_def by (auto intro: ukeeps_ret ukeeps_panic split: outcome.split)
qed

context port_contract
begin

lemma preflight_keeps: "e_port E = P \<Longrightarrow> ukeeps I (preflight E mac c)"
proof -
  assume P: "e_port E = P"
  have read: "ukeeps I (onf (e_read E at len))" for at len
    unfolding e_read_def P by (intro ukeeps_onf read_flash_keeps)
  have "ukeeps I (preflight_read E)"
    unfolding preflight_read_def Let_def
    by (rule ukeeps_bnd [OF read]) (auto intro: ukeeps_ret ukeeps_bnd [OF read] split: option.split)
  moreover have "keeps I (preflight_connect E c)"
    by (cases c) (simp_all add: preflight_connect_def P enter_bootloader_keeps attach_to_loader_keeps)
  ultimately show ?thesis
    unfolding preflight_def P
    by (auto intro!: ukeeps_rules ukeeps_onf sync_keeps chip_id_keeps mac_keeps load_stub_keeps attach_flash_keeps
        split: sum.split)
qed

lemma leave_keeps: "e_port E = P \<Longrightarrow> keeps I (leave E c)"
  by (cases c) (simp_all add: leave_def hard_reset_keeps leave_forced_download_keeps)

lemma e_write_keeps: "e_port E = P \<Longrightarrow> writable region at (length d) \<Longrightarrow> ukeeps I (onf (e_write E at d pr))"
  unfolding e_write_def writable_def by (intro ukeeps_onf) (simp add: write_keeps)

lemma write_unhex_keeps:
  assumes "e_port E = P" and "\<And>d. unhex text = Some d \<Longrightarrow> writable region at (length d)"
  shows "ukeeps I (write_unhex E at text)"
  unfolding write_unhex_def
  using assms by (auto intro!: ukeeps_panic ukeeps_bnd ukeeps_attempt ukeeps_ret e_write_keeps split: option.split)

lemma cancel_keeps:
  assumes "e_port E = P"
    and "\<And>d. TableWritten \<le> j_step j \<Longrightarrow> unhex (j_original_table j) = Some d \<Longrightarrow> writable region 0x8000 (length d)"
    and "\<And>d. unhex (j_original_otadata j) = Some d \<Longrightarrow> writable region OTADATA_AT (length d)"
  shows "ukeeps I (cancel E c path j)"
  unfolding cancel_def
  by (intro ukeeps_rules ukeeps_onf leave_keeps [OF assms(1)] write_unhex_keeps [OF assms(1)]) (use assms in auto)

lemma write_diff_keeps:
  assumes "e_port E = P" and "writable region 0xE000 0x1000" and "writable region 0xF000 0x1000"
  shows "ukeeps I (write_diff E now want)"
proof -
  have "ukeeps I (onf (e_write E (OTADATA_AT + of_nat s * SECTOR) (slice want (s * 0x1000) ((s + 1) * 0x1000)) pr))"
    if "first_diff now want [0, 1] = Some (Some s)" for s pr
  proof (rule e_write_keeps [OF assms(1)])
    from first_diff_Some [OF that] have "s = 0 \<or> s = 1" and "(s + 1) * 0x1000 \<le> length want" by auto
    with assms(2,3) show "writable region (OTADATA_AT + of_nat s * SECTOR) (length (slice want (s * 0x1000) ((s + 1) * 0x1000)))"
      by (auto simp: OTADATA_AT_def SECTOR_def)
  qed
  then show ?thesis
    unfolding write_diff_def
    by (auto intro: ukeeps_panic ukeeps_ret simp del: first_diff.simps split: option.split)
qed

lemma choose_again_keeps:
  assumes "e_port E = P" and "writable region 0xE000 0x1000" and "writable region 0xF000 0x1000"
  shows "ukeeps I (choose_again E od slot)"
  unfolding choose_again_def by (intro ukeeps_bnd switched_keeps write_diff_keeps assms)

end

text \<open>With a port invariant that every write keeps, the whole update keeps it.\<close>

context port_contract
begin

lemma run_steps_keeps:
  assumes P: "e_port E = P" and free: "\<And>at len. region at len"
  shows "ukeeps I (run_steps E c rel path cs fd j)"
proof -
  have w: "writable region at n" for at n by (simp add: writable_def free)
  have read: "ukeeps I (onf (e_read E at len))" for at len
    unfolding e_read_def P by (intro ukeeps_onf read_flash_keeps)
  note cancel = cancel_keeps [OF P w w]
  note wr = e_write_keeps [OF P w]
  note diff = write_diff_keeps [OF P w w] choose_again_keeps [OF P w w]
  have image: "ukeeps I (stage_image E c rel path cs j)" for j
    unfolding stage_image_def P
    by (intro ukeeps_rules ukeeps_onf md5_keeps cancel wr) (auto intro: ukeeps_ret ukeeps_throw cancel split: sum.split)
  have switch: "ukeeps I (stage_switch E path j)" for j
    unfolding stage_switch_def
    by (intro ukeeps_if ukeeps_bnd [OF read] ukeeps_ret) (auto intro!: ukeeps_rules switched_keeps diff split: option.split)
  have table: "ukeeps I (stage_table E rel path j)" for j
    unfolding stage_table_def by (intro ukeeps_rules read diff wr)
  have again: "ukeeps I (stage_rechoose E j)" for j
    unfolding stage_rechoose_def by (intro ukeeps_rules read diff)
  have finish: "ukeeps I (stage_finish E c path fd j)" for j
    unfolding stage_finish_def Let_def by (intro ukeeps_rules read wr ukeeps_onf leave_keeps [OF P])
  show ?thesis
    unfolding run_steps_def by (intro ukeeps_rules image switch table again finish cancel)
qed

lemma run_keeps:
  assumes P: "e_port E = P" and free: "\<And>at len. region at len"
  shows "ukeeps I (run E mac c rel path cs)"
  unfolding run_def
  by (auto intro!: ukeeps_bnd [OF preflight_keeps [OF P]] ukeeps_rules run_steps_keeps [OF P free]
      split: option.split sum.split)

end

subsection \<open>Properties\<close>

text \<open>C9. The journal is saved atomically: whatever operation of the file system fails, and however much
  of a failing write reaches the disk, the journal read back is the one from before or exactly the
  new one, and the new one when the save reports success.\<close>

theorem journal_save_atomic:
  assumes "codec_ok J (json_of_journal j)" and "with_extension_tmp path \<noteq> path" and "j_target_slot j < 2 ^ 64"
  shows "journal_load J path (snd (journal_save J j path d)) \<in>
      (if fst (journal_save J j path d) = Ok () then {Some j} else {journal_load J path d, Some j})"
  using journal_save_load [OF assms] by auto

definition demo_journal :: journal where
  "demo_journal = \<lparr>j_mac = ''02:00'', j_to = ''hid_fi_v2'', j_path = TwoSlot, j_step = Planned, j_target_slot = 1,
     j_target_offset = 0x650000, j_image_md5 = ''00'', j_image_len = 24, j_original_otadata = ''ff'',
     j_original_table = ''ff'', j_history = [''a'']\<rparr>"

definition demo_codec :: codec where
  "demo_codec = \<lparr>js_print = \<lambda>v. if v = json_of_journal demo_journal then ''{j}'' else ''{}'',
     js_parse = \<lambda>s. if s = ''{j}'' then Some (json_of_journal demo_journal) else None\<rparr>"

theorem journal_save_atomic_witness:
  "journal_load demo_codec ''u/j.json''
      (snd (journal_save demo_codec demo_journal ''u/j.json'' \<lparr>files = \<lambda>_. None, io_errors = [None, Some 1]\<rparr>)) \<in>
    {None, Some demo_journal} \<and>
   journal_load demo_codec ''u/j.json''
      (snd (journal_save demo_codec demo_journal ''u/j.json'' \<lparr>files = \<lambda>_. None, io_errors = []\<rparr>)) =
    Some demo_journal"
proof -
  have rt: "codec_ok demo_codec (json_of_journal demo_journal)" by (simp add: codec_ok_def demo_codec_def)
  have p: "with_extension_tmp ''u/j.json'' \<noteq> ''u/j.json''"
    by (simp add: with_extension_tmp_def stem_of_def file_part_def)
  have s: "j_target_slot demo_journal < 2 ^ 64" by (simp add: demo_journal_def)
  have none: "journal_load demo_codec ''u/j.json'' \<lparr>files = \<lambda>_. None, io_errors = es\<rparr> = None" for es
    by (simp add: journal_load_def)
  have ok: "fst (journal_save demo_codec demo_journal ''u/j.json'' \<lparr>files = \<lambda>_. None, io_errors = []\<rparr>) = Ok ()"
    by (simp add: journal_save_def Let_def seq_def bnd_def fs_create_def fs_append_def fs_sync_def fs_rename_def io_next_def)
  show ?thesis
    using journal_save_atomic [OF rt p s, of "\<lparr>files = \<lambda>_. None, io_errors = [None, Some 1]\<rparr>"]
      journal_save_atomic [OF rt p s, of "\<lparr>files = \<lambda>_. None, io_errors = []\<rparr>"] ok
    by (auto simp: none split: if_splits)
qed

text \<open>Putting the settings back writes past them: with the stub running, the 0x5000 bytes of the
  settings at 0x9000 are padded to two whole 0x4000 blocks, so the loader is told to erase and write
  0x9000 to 0x11000, the last 0x3000 bytes (both otadata sectors and the first sector of the first
  app slot) as 0xFF.\<close>

theorem settings_restore_pads:
  assumes "fl_stub f" and "length settings = unat (snd NVS)"
  shows "e_write E (fst NVS) settings go f =
    bnd (command (e_port E) (e_fuel E) FlashBegin (le [0x8000, 2, 0x4000, 0x9000]) 0 0 ''start writing'' 30000) (\<lambda>_.
      seq (write_blocks (e_port E) (e_fuel E) 0x4000 0x8000 go 0
             (chunks 0x4000 (settings @ replicate 0x3000 0xFF)))
      (bnd (fl_md5 (e_port E) (e_fuel E) 0x9000 0x8000) (\<lambda>got.
         if got \<noteq> md5 (e_hash E) (settings @ replicate 0x3000 0xFF)
         then throw (FCheck ''what was written does not read back'') else ret ()))) f"
proof -
  have len: "length settings = 0x5000" using assms(2) by (simp add: NVS_def)
  have pad: "resize settings 0x8000 0xFF = settings @ replicate 0x3000 0xFF"
    by (simp add: resize_def len)
  show ?thesis
    unfolding e_write_def fl_write_def
    using assms(1) by (simp add: len pad div_ceil_def STUB_BLOCK_def SECTOR_def NVS_def Let_def bnd_def [of "asks fl_stub"] asks_def)
qed

definition pads_env :: "sim env" where
  "pads_env = (let H = \<lparr>md5 = \<lambda>_. [], sha256 = \<lambda>_. []\<rparr> in
     \<lparr>e_port = sim_port H, e_hash = H, e_json = demo_codec, e_stub = Inl [], e_fuel = 100\<rparr>)"

theorem settings_restore_pads_witness:
  "e_write pads_env (fst NVS) (replicate 0x5000 7) (\<lambda>_. True) ((flasher_new (sim_new [] []))\<lparr>fl_stub := True\<rparr>) =
    bnd (command (e_port pads_env) 100 FlashBegin (le [0x8000, 2, 0x4000, 0x9000]) 0 0 ''start writing'' 30000) (\<lambda>_.
      seq (write_blocks (e_port pads_env) 100 0x4000 0x8000 (\<lambda>_. True) 0
             (chunks 0x4000 (replicate 0x5000 7 @ replicate 0x3000 0xFF)))
      (bnd (fl_md5 (e_port pads_env) 100 0x9000 0x8000) (\<lambda>got.
         if got \<noteq> md5 (e_hash pads_env) (replicate 0x5000 7 @ replicate 0x3000 0xFF)
         then throw (FCheck ''what was written does not read back'') else ret ())))
      ((flasher_new (sim_new [] []))\<lparr>fl_stub := True\<rparr>)"
proof -
  have "e_fuel pads_env = 100" by (simp add: pads_env_def Let_def)
  then show ?thesis
    using settings_restore_pads [of "(flasher_new (sim_new [] []))\<lparr>fl_stub := True\<rparr>" "replicate 0x5000 7" pads_env "\<lambda>_. True"]
    by (simp add: NVS_def)
qed

end
