(* ===== verification/Update_Safety.thy ===== *)
theory Update_Safety
  imports Update
begin

section \<open>The cable update cannot brick a two-slot board\<close>

text \<open>
  The update of \<open>Update\<close> on the simulated chip.  On a board with the two-slot layout every write goes
  to the slot that is not running or to otadata, whatever faults are injected and wherever the user
  cancels: the bootloader, the table, the settings and the running firmware stay byte for byte, and
  the board starts some firmware at the next power-on.  The proof joins the two interpretations of
  the port: the frame invariant \<open>confined\<close>, which holds at every outcome, and the functional facts
  of \<open>Link\<close>, by which the layout the update acts on is the one the flash holds.
\<close>

subsection \<open>Definitions\<close>

text \<open>A two-slot board, its running slot and the other one.\<close>

definition running_of :: "u8 list \<Rightarrow> nat" where
  "running_of f0 = (case otadata_choice (slice f0 0xE000 0x10000) 2 of None \<Rightarrow> 0 | Some c \<Rightarrow> ch_slot c)"

definition target_of :: "partition list \<Rightarrow> u8 list \<Rightarrow> partition" where
  "target_of table f0 = app_slots table ! (1 - running_of f0)"

definition update_region :: "partition list \<Rightarrow> u8 list \<Rightarrow> nat set" where
  "update_region table f0 = {0xE000..<0x10000} \<union> slot_range (target_of table f0)"

definition two_slot_board :: "hashes \<Rightarrow> partition list \<Rightarrow> u8 list \<Rightarrow> bool" where
  "two_slot_board H table f0 \<longleftrightarrow>
     length f0 = FLASH \<and> flash_table H f0 = Some table \<and> layout_of table = Some TwoSlot \<and>
     table_fits table \<and> map_option pt_offset (ota_partition table) = Some 0xE000 \<and>
     unat (pt_offset (target_of table f0)) mod 0x1000 = 0 \<and> 0x10000 \<le> unat (pt_offset (target_of table f0))"

text \<open>What preflight must find on a board with flash \<open>f0\<close>.\<close>

definition found_ok :: "hashes \<Rightarrow> u8 list \<Rightarrow> partition list \<Rightarrow> found \<Rightarrow> bool" where
  "found_ok H f0 table fd \<longleftrightarrow> fd_backup fd = slice f0 0 0x10000 \<and> fd_table fd = Some table \<and>
     fd_layout fd = layout_of table \<and>
     fd_running_slot fd = (case otadata_choice (slice f0 0xE000 0x10000) (length (app_slots table)) of
        None \<Rightarrow> 0 | Some c \<Rightarrow> ch_slot c)"

text \<open>A journal this update can go on from: it names the slot that is not running, and the image fits.\<close>

definition journal_sane :: "partition \<Rightarrow> release \<Rightarrow> journal \<Rightarrow> bool" where
  "journal_sane p rel j \<longleftrightarrow> j_path j = TwoSlot \<and> j_step j < TableWritten \<and> j_target_offset j = pt_offset p \<and>
     map_option length (unhex (j_original_otadata j)) = Some 0x2000 \<and>
     div_ceil (length (rel_image rel)) 0x4000 * 0x4000 \<le> unat (pt_size p)"

definition resumable_sane :: "sim env \<Rightarrow> string \<Rightarrow> u8 list \<Rightarrow> release \<Rightarrow> partition \<Rightarrow> disk \<Rightarrow> bool" where
  "resumable_sane E path mac rel p d \<longleftrightarrow>
     (case check_release (e_hash E) rel of
        None \<Rightarrow> True
      | Some (to, _) \<Rightarrow>
          (case resume_journal E path mac to d of None \<Rightarrow> True | Some j \<Rightarrow> journal_sane p rel j))"

abbreviation some_idle :: "sim ustate \<Rightarrow> bool" where
  "some_idle u \<equiv> \<exists>F. idle F (u_fl u)"

abbreviation frame_inv :: "hashes \<Rightarrow> nat set \<Rightarrow> u8 list \<Rightarrow> sim ustate \<Rightarrow> bool" where
  "frame_inv H R f0 u \<equiv> confined H R f0 (fl_port (u_fl u))"

text \<open>What the stages need of the regions: the target for the image, the two otadata sectors.\<close>

definition stage_regions :: "(u32 \<Rightarrow> u32 \<Rightarrow> bool) \<Rightarrow> release \<Rightarrow> journal \<Rightarrow> bool" where
  "stage_regions region rel j \<longleftrightarrow> j_step j < TableWritten \<and> j_path j = TwoSlot \<and>
     writable region (j_target_offset j) (length (rel_image rel)) \<and>
     writable region 0xE000 0x1000 \<and> writable region 0xF000 0x1000 \<and>
     (case unhex (j_original_otadata j) of None \<Rightarrow> True | Some d \<Rightarrow> writable region OTADATA_AT (length d))"

text \<open>A board an update may start on: the two-slot layout, and a link with nothing half-sent.\<close>

definition update_ready :: "hashes \<Rightarrow> sim env \<Rightarrow> partition list \<Rightarrow> u8 list \<Rightarrow> sim ustate \<Rightarrow> bool" where
  "update_ready H E table f0 u \<longleftrightarrow> e_port E = sim_port H \<and> e_hash E = H \<and> two_slot_board H table f0 \<and>
     (\<forall>p \<in> set (app_slots table). unat (pt_offset p) + ID_WINDOW \<le> FLASH) \<and>
     linked f0 (u_fl u) \<and> window_ok (update_region table f0) (fl_port (u_fl u))"

text \<open>A board for the examples: the released layout, firmware in the first slot, erased otadata.  The
  hashes are constant.\<close>

definition demo_hashes :: hashes where
  "demo_hashes = \<lparr>md5 = \<lambda>_. replicate 16 0, sha256 = \<lambda>_. replicate 32 0\<rparr>"

definition demo_table :: "partition list" where
  "demo_table =
     [\<lparr>pt_name = ''nvs'', pt_ptype = 1, pt_subtype = 2, pt_offset = 0x9000, pt_size = 0x5000\<rparr>,
      \<lparr>pt_name = ''otadata'', pt_ptype = 1, pt_subtype = 0, pt_offset = 0xE000, pt_size = 0x2000\<rparr>,
      \<lparr>pt_name = ''app0'', pt_ptype = 0, pt_subtype = 0x10, pt_offset = 0x10000, pt_size = 0x640000\<rparr>,
      \<lparr>pt_name = ''app1'', pt_ptype = 0, pt_subtype = 0x11, pt_offset = 0x650000, pt_size = 0x640000\<rparr>]"

definition demo_rows :: "u8 list" where
  "demo_rows = concat (map row_bytes demo_table)"

definition demo_flash :: "u8 list" where
  "demo_flash = [0xE9] @ replicate 0x7FFF 0xFF @ demo_rows @ replicate 0x7F80 0xFF
     @ [0xE9] @ replicate 31 0 @ replicate 0xFEFFE0 0xFF"

definition demo_env :: "sim env" where
  "demo_env = \<lparr>e_port = sim_port demo_hashes, e_hash = demo_hashes,
     e_json = \<lparr>js_print = \<lambda>_. [], js_parse = \<lambda>_. None\<rparr>, e_stub = Inl [], e_fuel = 100\<rparr>"

definition demo_state :: "sim ustate" where
  "demo_state = \<lparr>u_fl = flasher_new (sim_new demo_flash (replicate 6 0)), u_disk = \<lparr>files = \<lambda>_. None, io_errors = []\<rparr>\<rparr>"

subsection \<open>Lemmas: the stages keep the port's invariant\<close>

context port_contract
begin

lemma stage_cancel_keeps:
  "e_port E = P \<Longrightarrow> stage_regions region rel j \<Longrightarrow> ukeeps I (cancel E c path j)"
  by (rule cancel_keeps) (auto simp: stage_regions_def not_le [symmetric])

lemma stage_read_keeps: "e_port E = P \<Longrightarrow> ukeeps I (onf (e_read E at len))"
  unfolding e_read_def by (intro ukeeps_onf) (simp add: read_flash_keeps)

lemma stage_image_keeps:
  assumes "e_port E = P" and "stage_regions region rel j"
  shows "ukeeps I (stage_image E c rel path cs j)"
proof -
  note stop = stage_cancel_keeps [OF assms]
  have wr: "ukeeps I (onf (e_write E (j_target_offset j) (rel_image rel) pr))" for pr
    by (rule e_write_keeps [OF assms(1)]) (use assms(2) in \<open>simp add: stage_regions_def\<close>)
  show ?thesis
    unfolding stage_image_def assms(1)
    by (intro ukeeps_rules ukeeps_onf md5_keeps stop wr)
       (auto intro: ukeeps_ret ukeeps_throw stop split: sum.split)
qed

lemma stage_switch_keeps:
  assumes "e_port E = P" and "stage_regions region rel j"
  shows "ukeeps I (stage_switch E path j)"
proof -
  have diff: "ukeeps I (write_diff E now want)" for now want
    by (rule write_diff_keeps [OF assms(1)]) (use assms(2) in \<open>simp_all add: stage_regions_def\<close>)
  show ?thesis
    unfolding stage_switch_def
    by (intro ukeeps_if ukeeps_bnd [OF stage_read_keeps [OF assms(1)]] ukeeps_ret)
       (auto intro!: ukeeps_rules switched_keeps diff split: option.split)
qed

lemma stage_rechoose_keeps:
  assumes "e_port E = P" and "stage_regions region rel j"
  shows "ukeeps I (stage_rechoose E j)"
proof -
  have "ukeeps I (choose_again E od slot)" for od slot
    by (rule choose_again_keeps [OF assms(1)]) (use assms(2) in \<open>simp_all add: stage_regions_def\<close>)
  then show ?thesis
    unfolding stage_rechoose_def by (intro ukeeps_rules stage_read_keeps [OF assms(1)])
qed

end

subsection \<open>Lemmas: what the stages leave behind\<close>

lemma okay_onf: "okay P m Q \<Longrightarrow> okay (\<lambda>u. P (u_fl u)) (onf m) (\<lambda>x u. Q x (u_fl u))"
  unfolding okay_def onf_def zoom_eq_Ok by auto

lemma okay_onf_disk:
  "okay P m Q \<Longrightarrow> okay (\<lambda>u. P (u_fl u) \<and> u_disk u = d) (onf m) (\<lambda>x u. Q x (u_fl u) \<and> u_disk u = d)"
  unfolding okay_def onf_def zoom_eq_Ok by auto

lemma save_okay:
  "okay (\<lambda>u. P (u_fl u)) (save E path j st note)
     (\<lambda>j' u. P (u_fl u) \<and> j' = j\<lparr>j_step := st, j_history := j_history j @ [step_name st @ '': '' @ note]\<rparr>)"
  unfolding okay_def save_def Let_def seq_eq_Ok zoom_eq_Ok ret_def by auto

lemma cancel_never: "okay P (cancel E c path j) Q"
  unfolding okay_def cancel_def seq_eq_Ok bnd_eq_Ok by (auto simp: throw_def)

lemma sane_step:
  "journal_sane p rel j \<Longrightarrow> st < TableWritten \<Longrightarrow> journal_sane p rel (j\<lparr>j_step := st, j_history := h\<rparr>)"
  by (simp add: journal_sane_def)

lemma save_sane:
  assumes "journal_sane p rel j" and "st < TableWritten"
  shows "okay some_idle (save E path j st note) (\<lambda>j' u. some_idle u \<and> journal_sane p rel j')"
  by (rule okay_weaken [OF save_okay [where P = "\<lambda>f. \<exists>F. idle F f"]]) (use assms in \<open>auto intro: sane_step\<close>)

lemma write_some_idle: "e_port E = sim_port H \<Longrightarrow> okay some_idle (onf (e_write E at d pr)) (\<lambda>_. some_idle)"
  unfolding e_write_def by (rule okay_onf [where P = "\<lambda>f. \<exists>F. idle F f"]) (simp add: write_idle)

lemma step_less_simps [simp]:
  "Preflighted < TableWritten" "ImageWritten < TableWritten" "Switched < TableWritten" "Planned < TableWritten"
  by (simp_all add: less_step_def)

lemma stage_image_okay:
  assumes E: "e_port E = sim_port H" and sane: "journal_sane p rel j"
  shows "okay some_idle (stage_image E c rel path cs j) (\<lambda>j' u. some_idle u \<and> journal_sane p rel j')"
proof -
  have md: "okay some_idle (onf (fl_md5 (e_port E) (e_fuel E) at len)) (\<lambda>_. some_idle)" for at len
    unfolding E using md5_idle by (intro okay_onf [where P = "\<lambda>f. \<exists>F. idle F f"]) (auto simp: okay_def, blast)
  have wr: "okay some_idle (attempt (onf (e_write E at d pr))) (\<lambda>r u. case r of Inl _ \<Rightarrow> True | Inr _ \<Rightarrow> some_idle u)" for at d pr
  proof (rule okayI)
    fix u r u' assume pre: "some_idle u" and "attempt (onf (e_write E at d pr)) u = (Ok r, u')"
    then consider e where "r = Inl e" | x where "r = Inr x" "onf (e_write E at d pr) u = (Ok x, u')"
      by (auto simp: attempt_eq_Ok)
    then show "case r of Inl _ \<Rightarrow> True | Inr _ \<Rightarrow> some_idle u'"
      by cases (use okayD [OF write_some_idle [OF E] pre] in auto)
  qed
  have res: "okay (\<lambda>u. case r of Inl _ \<Rightarrow> True | Inr _ \<Rightarrow> some_idle u)
      (case r of Inl e \<Rightarrow> if e = UFlash FCancelled then cancel E c path j else throw e | Inr _ \<Rightarrow> ret ()) (\<lambda>_. some_idle)"
    for r :: "update_error + unit"
    by (cases r) (auto intro: cancel_never okay_throw okay_ret)
  have sv: "okay some_idle (save E path j ImageWritten nt) (\<lambda>j' u. some_idle u \<and> journal_sane p rel j')" for nt
    by (rule save_sane [OF sane]) simp
  show ?thesis
    unfolding stage_image_def
    by (intro okay_if okay_bnd [OF md] okay_seq [OF _ sv] okay_bnd [OF wr] res cancel_never okay_ret) (use sane in auto)
qed

lemma read_some_idle:
  assumes "e_port E = sim_port H" and "0 < len" and "unat at + unat len \<le> FLASH"
  shows "okay (\<lambda>u. some_idle u \<and> frame_inv H R f0 u) (onf (e_read E at len))
    (\<lambda>d u. some_idle u \<and> (\<exists>F. same_outside R f0 F \<and> d = slice F (unat at) (unat at + unat len)))"
proof (rule okayI)
  fix u d u' assume pre: "some_idle u \<and> frame_inv H R f0 u" and run: "onf (e_read E at len) u = (Ok d, u')"
  then obtain F where F: "idle F (u_fl u)" and "same_outside R f0 F"
    by (auto simp: idle_def linked_def confined_def)
  moreover have "length F = FLASH" using \<open>same_outside R f0 F\<close> by (rule same_outside_len)
  note link = okay_onf [OF read_flash_link [OF this assms(2,3)]]
  have "idle F (u_fl u') \<and> d = slice F (unat at) (unat at + unat len)"
    by (rule okayD [OF link F]) (use run in \<open>simp add: e_read_def assms(1)\<close>)
  ultimately show "some_idle u' \<and> (\<exists>F. same_outside R f0 F \<and> d = slice F (unat at) (unat at + unat len))"
    by blast
qed

lemma read_keeps_some_idle:
  assumes "e_port E = sim_port H" and "0 < len" and "unat at + unat len \<le> FLASH"
  shows "okay (\<lambda>u. some_idle u \<and> frame_inv H R f0 u) (onf (e_read E at len)) (\<lambda>_. some_idle)"
  by (rule okay_weaken [OF read_some_idle [OF assms]]) auto

lemma write_diff_okay: "e_port E = sim_port H \<Longrightarrow> okay some_idle (write_diff E now want) (\<lambda>_. some_idle)"
  unfolding write_diff_def
  by (auto intro: okay_panic okay_ret write_some_idle simp del: first_diff.simps split: option.split)

lemma switched_okay: "okay P (switched od slot) (\<lambda>_. P)"
  unfolding switched_def by (auto simp: okay_def ret_def panic_def split: outcome.splits)

lemma stage_switch_okay:
  assumes E: "e_port E = sim_port H" and sane: "journal_sane p rel j"
  shows "okay (\<lambda>u. some_idle u \<and> frame_inv H R f0 u) (stage_switch E path j)
    (\<lambda>j' u. some_idle u \<and> journal_sane p rel j')"
proof -
  have rd: "okay (\<lambda>u. some_idle u \<and> frame_inv H R f0 u) (onf (e_read E OTADATA_AT 0x2000)) (\<lambda>_. some_idle)"
    by (rule read_keeps_some_idle [OF E]) (simp_all add: OTADATA_AT_def FLASH_def)
  have sv: "okay some_idle (save E path j Switched nt) (\<lambda>j' u. some_idle u \<and> journal_sane p rel j')" for nt
    by (rule save_sane [OF sane]) simp
  have rest: "okay some_idle (case unhex (j_original_otadata j) of None \<Rightarrow> panic | Some od \<Rightarrow>
      bnd (switched od (j_target_slot j)) (\<lambda>want.
        seq (if b now want then write_diff E now want else ret ()) (save E path j Switched nt)))
      (\<lambda>j' u. some_idle u \<and> journal_sane p rel j')" for now b nt
    by (auto intro!: okay_panic okay_bnd [OF switched_okay] okay_seq [OF _ sv] write_diff_okay [OF E] okay_ret
        split: option.split)
  show ?thesis
    unfolding stage_switch_def by (intro okay_if okay_bnd [OF rd] rest okay_ret) (use sane in auto)
qed

subsection \<open>Lemmas: preflight reads the board as it is\<close>

lemma enter_bootloader_linked: "okay (linked F) (enter_bootloader (sim_port H)) (\<lambda>_. linked F)"
proof (rule okayI)
  fix f x f' assume "linked F f" and "enter_bootloader (sim_port H) f = (Ok x, f')"
  then show "linked F f'"
    by (auto simp: enter_bootloader_def seq_eq_Ok on_port_def zoom_eq_Ok sim_port_def sim_set_dtr_def sim_set_rts_def
        fl_sleep_def modify_eq_Ok ret_def linked_def dec_ready_def)
qed

lemma attach_to_loader_linked: "okay (linked F) attach_to_loader (\<lambda>_. linked F)"
proof (rule okayI)
  fix f x f' assume "linked F f" and "attach_to_loader f = (Ok x, f')"
  moreover have "dec_ready (fst (feed decoder_default (sout (fl_port f)) []))"
  proof (cases "sout (fl_port f) = []")
    case False
    with \<open>linked F f\<close> show ?thesis by (simp add: linked_def feed_ends_END dec_ready_def)
  qed (simp add: dec_ready_def)
  ultimately show "linked F f'"
    by (auto simp: attach_to_loader_def modify_eq_Ok linked_def)
qed

lemma preflight_read_okay:
  assumes E: "e_port E = sim_port H" "e_hash E = H" and F: "length F = FLASH" and table: "flash_table H F = Some table"
    and fits: "table_fits table"
    and big: "\<forall>p \<in> set (app_slots table). unat (pt_offset p) + ID_WINDOW \<le> FLASH"
  shows "okay (\<lambda>u. idle F (u_fl u) \<and> u_disk u = d) (preflight_read E)
    (\<lambda>fd u. found_ok H F table fd \<and> idle F (u_fl u) \<and> u_disk u = d)"
proof -
  have rd: "okay (\<lambda>u. idle F (u_fl u) \<and> u_disk u = d) (onf (e_read E at len))
      (\<lambda>x u. (idle F (u_fl u) \<and> x = slice F (unat at) (unat at + unat len)) \<and> u_disk u = d)"
    if "0 < len" "unat at + unat len \<le> FLASH" for at len
    unfolding e_read_def E by (rule okay_onf_disk [OF read_flash_link [OF F that]])
  have head: "okay (\<lambda>u. idle F (u_fl u) \<and> u_disk u = d) (onf (e_read E 0 0x10000))
      (\<lambda>x u. (idle F (u_fl u) \<and> x = slice F 0 0x10000) \<and> u_disk u = d)"
    using rd [of "0x10000" 0] by (simp add: FLASH_def)
  have tab: "parse_table (md5 (e_hash E)) (slice (slice F 0 0x10000) 0x8000 0x8C00) = Some table"
    using table by (simp add: flash_table_def E(2) slice_def min_def drop_take)
  have od: "drop (unat OTADATA_AT) (slice F 0 0x10000) = slice F 0xE000 0x10000"
    by (simp add: slice_def OTADATA_AT_def drop_take)
  have slot: "okay (\<lambda>u. idle F (u_fl u) \<and> u_disk u = d) (onf (e_read E (pt_offset (app_slots table ! i)) (of_nat ID_WINDOW)))
      (\<lambda>x u. idle F (u_fl u) \<and> u_disk u = d)" if "i < length (app_slots table)" for i
  proof -
    have "app_slots table ! i \<in> set (app_slots table)" using that by simp
    with big have "unat (pt_offset (app_slots table ! i)) + unat (of_nat ID_WINDOW :: u32) \<le> FLASH"
      by (simp add: ID_WINDOW_def)
    from rd [OF _ this] show ?thesis by (rule okay_weaken) (auto simp: ID_WINDOW_def)
  qed
  show ?thesis
    unfolding preflight_read_def
  proof (rule okay_bnd [OF head])
    fix backup
    let ?k = "\<lambda>backup. let table = parse_table (md5 (e_hash E)) (slice backup 0x8000 0x8C00);
           layout = Option.bind table layout_of
       in case table of
            None \<Rightarrow> ret \<lparr>fd_backup = backup, fd_table = table, fd_running_slot = 0,
                     fd_running_version = None, fd_layout = layout\<rparr>
          | Some t \<Rightarrow>
              let slots = app_slots t;
                  slot = (case otadata_choice (drop (unat OTADATA_AT) backup) (length slots) of
                            None \<Rightarrow> 0 | Some c \<Rightarrow> ch_slot c)
              in if slot < length slots then
                   bnd (onf (e_read E (pt_offset (slots ! slot)) (of_nat ID_WINDOW))) (\<lambda>head.
                     ret \<lparr>fd_backup = backup, fd_table = table, fd_running_slot = slot,
                       fd_running_version = running_version head, fd_layout = layout\<rparr>)
                 else ret \<lparr>fd_backup = backup, fd_table = table, fd_running_slot = slot,
                        fd_running_version = None, fd_layout = layout\<rparr>"
    have "okay (\<lambda>u. idle F (u_fl u) \<and> u_disk u = d) (?k (slice F 0 0x10000))
        (\<lambda>fd u. found_ok H F table fd \<and> idle F (u_fl u) \<and> u_disk u = d)"
      unfolding tab od Let_def option.case
      by (intro okay_if okay_bnd [OF slot] okay_ret) (auto simp: found_ok_def)
    then show "okay (\<lambda>u. (idle F (u_fl u) \<and> backup = slice F 0 0x10000) \<and> u_disk u = d) (?k backup)
        (\<lambda>fd u. found_ok H F table fd \<and> idle F (u_fl u) \<and> u_disk u = d)"
      unfolding okay_def by blast
  qed
qed

lemma preflight_okay:
  assumes E: "e_port E = sim_port H" "e_hash E = H" and F: "length F = FLASH" and table: "flash_table H F = Some table"
    and fits: "table_fits table"
    and big: "\<forall>p \<in> set (app_slots table). unat (pt_offset p) + ID_WINDOW \<le> FLASH"
  shows "okay (\<lambda>u. linked F (u_fl u) \<and> u_disk u = d) (preflight E mac c)
    (\<lambda>fd u. found_ok H F table fd \<and> idle F (u_fl u) \<and> u_disk u = d)"
proof -
  let ?J = "\<lambda>u. idle F (u_fl u) \<and> u_disk u = d"
  have connect: "okay (linked F) (preflight_connect E c) (\<lambda>_. linked F)"
    by (cases c) (simp_all add: preflight_connect_def E(1) enter_bootloader_linked attach_to_loader_linked)
  note lift = okay_onf_disk [where d = d]
  have "okay ?J (case e_stub E of Inl e \<Rightarrow> throw (UFlash (FCheck e)) | Inr stub \<Rightarrow>
      seq (onf (load_stub (sim_port H) (e_fuel E) stub))
        (seq (onf (attach_flash (sim_port H) (e_fuel E) FLASH_SIZE)) (preflight_read E)))
      (\<lambda>fd u. found_ok H F table fd \<and> ?J u)"
    by (auto intro!: okay_throw okay_seq [OF lift [OF load_stub_idle]] okay_seq [OF lift [OF attach_flash_idle]]
        preflight_read_okay [OF assms] split: sum.split)
  then show ?thesis
    unfolding preflight_def E(1)
    by (intro okay_seq [OF lift [OF connect]] okay_seq [OF lift [OF sync_idle]] okay_bnd [OF lift [OF chip_id_idle]]
        okay_bnd [OF lift [OF mac_idle]] okay_if okay_throw)
qed

subsection \<open>Lemmas: the whole run\<close>

lemma two_slots: "layout_of table = Some TwoSlot \<Longrightarrow> length (app_slots table) = 2"
  by (auto simp: layout_of_def split: option.splits if_splits list.splits)

lemma writable_region:
  assumes "unat at mod 0x1000 = 0" and "unat at + div_ceil n 0x4000 * 0x4000 \<le> FLASH"
    and "{unat at..<unat at + div_ceil n 0x4000 * 0x4000} \<subseteq> R"
  shows "writable (in_region R) at n"
  unfolding writable_def
proof
  fix stub
  have le: "padded_len stub n \<le> div_ceil n 0x4000 * 0x4000" by (rule padded_len_le)
  then have "unat (of_nat (padded_len stub n) :: u32) = padded_len stub n"
    using assms(2) by (intro unat_of_nat_u32) (simp add: FLASH_def)
  with le assms padded_len_sectors [of stub n] show "in_region R at (of_nat (padded_len stub n))"
    by (auto simp: in_region_def)
qed

lemma writable_small:
  assumes "unat at mod 0x1000 = 0" and "n \<in> {0x1000, 0x2000}" and "unat at + n \<le> FLASH" and "{unat at..<unat at + n} \<subseteq> R"
  shows "writable (in_region R) at n"
proof -
  have "padded_len stub n = n" for stub using assms(2) by (auto simp: padded_len_eq div_ceil_def)
  moreover have "unat (of_nat n :: u32) = n" using assms(2) by auto
  ultimately show ?thesis using assms by (auto simp: writable_def in_region_def)
qed

lemma sane_regions:
  assumes board: "two_slot_board H table f0" and sane: "journal_sane (target_of table f0) rel j"
  shows "stage_regions (in_region (update_region table f0)) rel j"
proof -
  let ?p = "target_of table f0" and ?R = "update_region table f0"
  have "length (app_slots table) = 2" using board by (simp add: two_slot_board_def two_slots)
  then have "?p \<in> set (app_slots table)" unfolding target_of_def by (intro nth_mem) simp
  then have "slot_fits ?p" using board by (auto simp: two_slot_board_def table_fits_def list_all_iff)
  then have fit: "unat (pt_offset ?p) + unat (pt_size ?p) \<le> FLASH" by (simp add: slot_fits_def)
  have img: "div_ceil (length (rel_image rel)) 0x4000 * 0x4000 \<le> unat (pt_size ?p)"
    and od: "unhex (j_original_otadata j) = Some d \<Longrightarrow> length d = 0x2000" for d
    using sane by (auto simp: journal_sane_def)
  have "writable (in_region ?R) (pt_offset ?p) (length (rel_image rel))"
    using board fit img by (intro writable_region) (auto simp: two_slot_board_def update_region_def slot_range_def)
  moreover have "writable (in_region ?R) 0xE000 0x1000" "writable (in_region ?R) 0xF000 0x1000"
    "writable (in_region ?R) 0xE000 0x2000"
    by (rule writable_small; auto simp: FLASH_def update_region_def)+
  ultimately show ?thesis
    using sane od unfolding stage_regions_def journal_sane_def
    by (auto simp: OTADATA_AT_def split: option.split)
qed

lemma stage_finish_guarded:
  assumes E: "e_port E = sim_port H" and fd: "fd_backup fd = slice f0 0 0x10000"
    and nvs: "{0x9000..<0xE000} \<inter> R = {}"
  shows "guarded some_idle (frame_inv H R f0) (stage_finish E c path fd j) (\<lambda>_ _. True)"
proof -
  have keep: "triple (frame_inv H R f0) m (\<lambda>_. True)" if "ukeeps (confined H R f0) m" for m :: "(sim, 'x) uprog"
    using that by (simp add: ukeeps_def)
  have rd: "guarded some_idle (frame_inv H R f0) (onf (e_read E (fst NVS) (snd NVS)))
      (\<lambda>d u. d = slice f0 0x9000 0xE000)"
  proof (rule guardedI)
    show "triple (frame_inv H R f0) (onf (e_read E (fst NVS) (snd NVS))) (\<lambda>_. True)"
      by (rule keep [OF confine.stage_read_keeps [OF E]])
    have "okay (\<lambda>u. some_idle u \<and> frame_inv H R f0 u) (onf (e_read E (fst NVS) (snd NVS)))
        (\<lambda>d u. some_idle u \<and> (\<exists>F. same_outside R f0 F \<and> d = slice F (unat (fst NVS)) (unat (fst NVS) + unat (snd NVS))))"
      by (rule read_some_idle [OF E]) (simp_all add: NVS_def FLASH_def)
    then show "okay (\<lambda>u. some_idle u \<and> frame_inv H R f0 u) (onf (e_read E (fst NVS) (snd NVS)))
        (\<lambda>d u. d = slice f0 0x9000 0xE000)"
    proof (rule okay_weaken)
      fix d u assume "some_idle u \<and> (\<exists>F. same_outside R f0 F \<and> d = slice F (unat (fst NVS)) (unat (fst NVS) + unat (snd NVS)))"
      then obtain F where "same_outside R f0 F" and "d = slice F 0x9000 0xE000" by (auto simp: NVS_def)
      then show "d = slice f0 0x9000 0xE000"
        using same_outside_slice [OF _ nvs] by (simp add: FLASH_def)
    qed
  qed
  have was: "slice (fd_backup fd) (unat (fst NVS)) (unat (fst NVS) + unat (snd NVS)) = slice f0 0x9000 0xE000"
    unfolding fd by (simp add: NVS_def slice_def drop_take min_def)
  show ?thesis
    unfolding stage_finish_def was Let_def
  proof (rule guarded_bnd [OF rd])
    fix nvs_now
    let ?go = "seq (onf (leave E c)) (save E path j Restarted ''restarted into the new firmware'')"
    have "triple (frame_inv H R f0) ?go (\<lambda>_. True)"
      by (rule keep) (intro ukeeps_seq ukeeps_save ukeeps_onf confine.leave_keeps [OF E])
    then have "guarded (\<lambda>_. True) (frame_inv H R f0) ?go (\<lambda>_ _. True)"
      by (rule guardedI) (simp add: okay_def)
    then show "guarded (\<lambda>u. nvs_now = slice f0 0x9000 0xE000) (frame_inv H R f0)
      (if nvs_now \<noteq> slice f0 0x9000 0xE000
       then seq (onf (e_write E (fst NVS) (slice f0 0x9000 0xE000) (\<lambda>_. True)))
              (bnd (attempt (onf (leave E c))) (\<lambda>_. throw USettingsRestored))
       else ?go) (\<lambda>_ _. True)"
      by (auto simp: guarded_def)
  qed
qed

lemma run_steps_guarded:
  assumes E: "e_port E = sim_port H" and board: "two_slot_board H table f0"
    and fd: "fd_backup fd = slice f0 0 0x10000" and sane: "journal_sane (target_of table f0) rel j0"
  defines "R \<equiv> update_region table f0"
  shows "guarded some_idle (frame_inv H R f0) (run_steps E c rel path cs fd j0) (\<lambda>_ _. True)"
proof -
  let ?I = "frame_inv H R f0" and ?p = "target_of table f0"
  let ?S = "\<lambda>j' u. journal_sane ?p rel j' \<and> some_idle u"
  have tr: "triple ?I m (\<lambda>_. True)" if "ukeeps (confined H R f0) m" for m :: "(sim, 'x) uprog"
    using that by (simp add: ukeeps_def)
  have reg: "stage_regions (in_region R) rel j" if "journal_sane ?p rel j" for j
    unfolding R_def by (rule sane_regions [OF board that])
  have swap: "okay P m ?S" if "okay P m (\<lambda>j' u. some_idle u \<and> journal_sane ?p rel j')" for P and m :: "(sim, journal) uprog"
    by (rule okay_weaken [OF that]) auto
  have nvs: "{0x9000..<0xE000} \<inter> R = {}"
    using board by (auto simp: R_def update_region_def slot_range_def two_slot_board_def)
  have stop: "guarded some_idle ?I (cancel E c path j) Q" if "journal_sane ?p rel j" for j and Q :: "journal \<Rightarrow> sim ustate \<Rightarrow> bool"
    by (rule guardedI [OF tr [OF confine.stage_cancel_keeps [OF E reg [OF that]]] cancel_never])
  have first: "guarded some_idle ?I (if j_step j0 = Planned then save E path j0 Preflighted n else ret j0) ?S" for n
  proof (rule guarded_if)
    have "okay (\<lambda>u. some_idle u \<and> ?I u) (save E path j0 Preflighted n) ?S"
      by (rule okay_weaken [OF swap [OF save_sane [OF sane]]]) auto
    then show "guarded some_idle ?I (save E path j0 Preflighted n) ?S" by (rule guardedI [OF tr [OF ukeeps_save]])
    show "guarded some_idle ?I (ret j0) ?S" by (rule guarded_ret) (simp add: sane)
  qed
  have image: "guarded some_idle ?I (stage_image E c rel path cs j) ?S" if s: "journal_sane ?p rel j" for j
  proof (rule guardedI [OF tr [OF confine.stage_image_keeps [OF E reg [OF s]]]])
    show "okay (\<lambda>u. some_idle u \<and> ?I u) (stage_image E c rel path cs j) ?S"
      by (rule okay_weaken [OF swap [OF stage_image_okay [OF E s]]]) auto
  qed
  have switch: "guarded some_idle ?I (stage_switch E path j) ?S" if s: "journal_sane ?p rel j" for j
    by (rule guardedI [OF tr [OF confine.stage_switch_keeps [OF E reg [OF s]]] swap [OF stage_switch_okay [OF E s]]])
  have table: "guarded some_idle ?I (stage_table E rel path j) ?S" if s: "journal_sane ?p rel j" for j
  proof -
    have "stage_table E rel path j = ret j" using s by (simp add: stage_table_def journal_sane_def)
    then show ?thesis using s by (simp add: guarded_ret)
  qed
  have again: "guarded some_idle ?I (stage_rechoose E j) (\<lambda>_. some_idle)" if s: "journal_sane ?p rel j" for j
  proof (rule guardedI [OF tr [OF confine.stage_rechoose_keeps [OF E reg [OF s]]]])
    have rd: "okay (\<lambda>u. some_idle u \<and> ?I u) (onf (e_read E OTADATA_AT 0x2000)) (\<lambda>_. some_idle)"
      by (rule read_keeps_some_idle [OF E]) (simp_all add: OTADATA_AT_def FLASH_def)
    have ch: "okay some_idle (bnd (switched od slot) (\<lambda>w. write_diff E od w)) (\<lambda>_. some_idle)" for od slot
      by (rule okay_bnd [OF switched_okay [where P = some_idle]]) (rule write_diff_okay [OF E])
    show "okay (\<lambda>u. some_idle u \<and> ?I u) (stage_rechoose E j) (\<lambda>_. some_idle)"
      unfolding stage_rechoose_def choose_again_def
      by (rule okay_bnd [OF rd]) (auto intro!: okay_if ch okay_ret split: option.split)
  qed
  show ?thesis
    unfolding run_steps_def
    by (intro guarded_bnd [OF first] guarded_assume guarded_bnd [OF image] guarded_if stop guarded_bnd [OF switch]
        guarded_bnd [OF table] guarded_seq [OF again] stage_finish_guarded [OF E fd nvs])
qed

lemma plan_sane:
  assumes board: "two_slot_board H table f0" and fd: "found_ok H f0 table fd"
    and plan: "plan_journal H mac rel to new_table fd = Inr j"
  shows "journal_sane (target_of table f0) rel j"
proof -
  have two: "length (app_slots table) = 2" and lay: "layout_of table = Some TwoSlot" and len: "length f0 = FLASH"
    using board by (simp_all add: two_slot_board_def two_slots)
  have run: "fd_running_slot fd = running_of f0" using fd two by (simp add: found_ok_def running_of_def)
  have "running_of f0 < 2"
    using otadata_choice_slot [of "slice f0 0xE000 0x10000" 2] by (auto simp: running_of_def split: option.split)
  then have tgt: "plan_target fd TwoSlot new_table = (1 - running_of f0, target_of table f0)"
    using fd by (simp add: plan_target_def found_ok_def run [unfolded found_ok_def] target_of_def min_def Let_def run less_2_cases_iff)
  have "drop (unat OTADATA_AT) (fd_backup fd) = slice f0 0xE000 0x10000"
    using fd by (simp add: found_ok_def slice_def OTADATA_AT_def drop_take)
  moreover have "length (slice f0 0xE000 0x10000) = 0x2000" using len by (simp add: FLASH_def)
  ultimately show ?thesis
    using plan fd lay by (auto simp: plan_journal_def tgt journal_sane_def found_ok_def split: if_splits)
qed

theorem run_confined:
  assumes E: "e_port E = sim_port H" "e_hash E = H" and board: "two_slot_board H table f0"
    and big: "\<forall>p \<in> set (app_slots table). unat (pt_offset p) + ID_WINDOW \<le> FLASH"
    and link: "linked f0 (u_fl u)" and window: "window_ok (update_region table f0) (fl_port (u_fl u))"
    and resume: "resumable_sane E path mac rel (target_of table f0) (u_disk u)"
  shows "confined H (update_region table f0) f0 (fl_port (u_fl (snd (run E mac c rel path cs u))))"
proof -
  let ?R = "update_region table f0"
  let ?I = "frame_inv H ?R f0"
  have I: "?I u"
    using board link window
    by (auto simp: confined_def boot_guard_def two_slot_board_def linked_def same_outside_def dec_ready_def
        update_region_def slot_range_def OTADATA_SECTOR_def)
  have tr: "triple ?I m (\<lambda>_. True)" if "ukeeps (confined H ?R f0) m" for m :: "(sim, 'x) uprog"
    using that by (simp add: ukeeps_def)
  show ?thesis
  proof (cases "check_release (e_hash E) rel")
    case None
    with I show ?thesis by (simp add: run_def throw_def)
  next
    case (Some tt)
    obtain to new_table where tt: "tt = (to, new_table)" by fastforce
    let ?d = "u_disk u"
    have pre: "guarded (\<lambda>v. linked f0 (u_fl v) \<and> u_disk v = ?d) ?I (preflight E mac c)
        (\<lambda>fd v. found_ok H f0 table fd \<and> idle f0 (u_fl v) \<and> u_disk v = ?d)"
    proof (rule guardedI [OF tr [OF confine.preflight_keeps [OF E(1)]]])
      have "okay (\<lambda>u. linked f0 (u_fl u) \<and> u_disk u = ?d) (preflight E mac c)
          (\<lambda>fd u. found_ok H f0 table fd \<and> idle f0 (u_fl u) \<and> u_disk u = ?d)"
        using board big by (intro preflight_okay [OF E]) (simp_all add: two_slot_board_def)
      then show "okay (\<lambda>v. (linked f0 (u_fl v) \<and> u_disk v = ?d) \<and> ?I v) (preflight E mac c)
          (\<lambda>fd v. found_ok H f0 table fd \<and> idle f0 (u_fl v) \<and> u_disk v = ?d)"
        by (rule okay_weaken) auto
    qed
    have steps: "guarded (\<lambda>v. idle f0 (u_fl v)) ?I (run_steps E c rel path cs fd j) (\<lambda>_ _. True)"
      if "found_ok H f0 table fd" "journal_sane (target_of table f0) rel j" for fd j
      by (rule guarded_pre [OF run_steps_guarded [OF E(1) board _ that(2)]]) (use that(1) in \<open>auto simp: found_ok_def\<close>)
    have rest: "guarded (\<lambda>v. idle f0 (u_fl v) \<and> u_disk v = ?d) ?I
        (bnd (asks (\<lambda>u. resume_journal E path mac to (u_disk u))) (\<lambda>resume.
            case resume of
              Some j \<Rightarrow> run_steps E c rel path cs fd j
            | None \<Rightarrow> (case plan_journal (e_hash E) mac rel to new_table fd of
                   Inl e \<Rightarrow> throw e | Inr j \<Rightarrow> run_steps E c rel path cs fd j))) (\<lambda>_ _. True)"
      if fd: "found_ok H f0 table fd" for fd
    proof (rule guarded_bnd)
      show "guarded (\<lambda>v. idle f0 (u_fl v) \<and> u_disk v = ?d) ?I (asks (\<lambda>u. resume_journal E path mac to (u_disk u)))
          (\<lambda>r v. r = resume_journal E path mac to ?d \<and> idle f0 (u_fl v))"
        by (auto simp: guarded_def asks_def)
      fix r
      show "guarded (\<lambda>v. r = resume_journal E path mac to ?d \<and> idle f0 (u_fl v)) ?I
          (case r of Some j \<Rightarrow> run_steps E c rel path cs fd j
            | None \<Rightarrow> (case plan_journal (e_hash E) mac rel to new_table fd of
                   Inl e \<Rightarrow> throw e | Inr j \<Rightarrow> run_steps E c rel path cs fd j)) (\<lambda>_ _. True)"
      proof (rule guarded_assume)
        assume r: "r = resume_journal E path mac to ?d"
        have "journal_sane (target_of table f0) rel j" if "r = Some j" for j
          using resume that r Some by (simp add: resumable_sane_def tt)
        then show "guarded (\<lambda>v. idle f0 (u_fl v)) ?I
          (case r of Some j \<Rightarrow> run_steps E c rel path cs fd j
            | None \<Rightarrow> (case plan_journal (e_hash E) mac rel to new_table fd of
                   Inl e \<Rightarrow> throw e | Inr j \<Rightarrow> run_steps E c rel path cs fd j)) (\<lambda>_ _. True)"
          using plan_sane [OF board fd, of mac rel to new_table] steps [OF fd] E(2)
          by (auto intro: guarded_throw split: option.split sum.split)
      qed
    qed
    have "guarded (\<lambda>v. linked f0 (u_fl v) \<and> u_disk v = ?d) ?I (run E mac c rel path cs) (\<lambda>_ _. True)"
      unfolding run_def Some tt option.case prod.case
      by (rule guarded_bnd [OF pre]) (rule guarded_assume, rule rest)
    from guardedD [OF this _ I] link show ?thesis by simp
  qed
qed

subsection \<open>Lemmas: the example board\<close>

lemma length_demo_rows: "length demo_rows = 128"
  by (simp add: demo_rows_def demo_table_def)

lemma demo_len: "length demo_flash = FLASH"
  by (simp add: demo_flash_def length_demo_rows FLASH_def)

lemma demo_slices:
  "slice demo_flash 0x8000 0x8C00 = demo_rows @ replicate 32 0xFF @ replicate 0xB60 0xFF"
  "slice demo_flash 0xE000 0x10000 = replicate 0x2000 0xFF"
  "drop 0x10000 demo_flash = [0xE9] @ replicate 31 0 @ replicate 0xFEFFE0 0xFF"
proof -
  have r: "replicate 0xB80 (0xFF :: u8) = replicate 32 0xFF @ replicate 0xB60 0xFF"
    by (simp flip: replicate_add)
  show "slice demo_flash 0x8000 0x8C00 = demo_rows @ replicate 32 0xFF @ replicate 0xB60 0xFF"
    by (simp add: demo_flash_def slice_def length_demo_rows min_def flip: r)
  show "slice demo_flash 0xE000 0x10000 = replicate 0x2000 0xFF"
    "drop 0x10000 demo_flash = [0xE9] @ replicate 31 0 @ replicate 0xFEFFE0 0xFF"
    by (simp_all add: demo_flash_def slice_def length_demo_rows min_def)
qed

lemma demo_flash_table: "flash_table demo_hashes demo_flash = Some demo_table"
proof -
  have "\<forall>p \<in> set demo_table. name_ok (pt_name p)" by (simp add: demo_table_def name_ok_def)
  from parse_table_closing [OF this, of "replicate 32 0xFF"] show ?thesis
    by (simp add: flash_table_def demo_slices demo_rows_def demo_table_def)
qed

lemma demo_slots: "app_slots demo_table = [demo_table ! 2, demo_table ! 3]"
  by (simp add: app_slots_def demo_table_def)

lemma demo_running: "running_of demo_flash = 0"
  by (simp add: running_of_def demo_slices erased_choice)

lemma demo_board: "two_slot_board demo_hashes demo_table demo_flash"
  by (simp add: two_slot_board_def demo_len demo_flash_table target_of_def demo_running demo_slots)
     (simp add: demo_table_def layout_of_def NVS_def app_slots_def table_fits_def slot_fits_def ota_partition_def
        FLASH_def OTADATA_SECTOR_def)

lemma demo_ready: "update_ready demo_hashes demo_env demo_table demo_flash demo_state"
  using demo_board
  by (simp add: update_ready_def demo_env_def demo_slots demo_state_def linked_def flasher_new_def sim_new_def
      dec_ready_def window_ok_def FLASH_def ID_WINDOW_def)
     (simp add: demo_table_def)

lemma demo_fresh: "resumable_sane demo_env path mac rel p (u_disk demo_state)"
  by (simp add: resumable_sane_def resume_journal_def journal_load_def demo_state_def split: option.split)

lemma demo_slot_valid: "slot_valid demo_hashes (demo_table ! 2) demo_flash"
proof -
  have off: "unat (pt_offset (demo_table ! 2)) = 0x10000" "unat (pt_size (demo_table ! 2)) = 0x640000"
    by (simp_all add: demo_table_def)
  have img: "slice demo_flash 0x10000 0x10020 = [0xE9] @ replicate 31 0"
    using demo_slices(3) by (simp add: slice_def take_drop [symmetric] take_Cons')
  have len: "slot_len (demo_table ! 2) demo_flash = Some 32"
    unfolding slot_len_def off demo_slices Let_def by (simp add: nth_append pad16_def)
  show ?thesis
    unfolding slot_valid_def len off option.case
    by (simp add: img image_is_valid_def pad16_def)
qed

lemma demo_bootable: "bootable demo_hashes demo_table 0 demo_flash"
proof -
  have "demo_flash ! 0 = 0xE9" by (simp add: demo_flash_def)
  moreover have "table_fits demo_table" using demo_board by (simp add: two_slot_board_def)
  ultimately show ?thesis by (simp add: bootable_def demo_flash_table demo_slots demo_slot_valid)
qed

lemma run_ready_confined:
  assumes "update_ready H E table f0 u" and "resumable_sane E path mac rel (target_of table f0) (u_disk u)"
  shows "confined H (update_region table f0) f0 (fl_port (u_fl (snd (run E mac c rel path cs u))))"
  by (rule run_confined) (use assms in \<open>simp_all add: update_ready_def\<close>)

lemma running_slot_clear:
  assumes board: "two_slot_board H table f0"
    and apart: "slot_range (app_slots table ! 0) \<inter> slot_range (app_slots table ! 1) = {}"
    and above: "0x10000 \<le> unat (pt_offset (app_slots table ! running_of f0))"
  shows "slot_range (app_slots table ! running_of f0) \<inter> update_region table f0 = {}"
proof -
  have "running_of f0 < 2"
    using otadata_choice_slot [of "slice f0 0xE000 0x10000" 2] by (auto simp: running_of_def split: option.split)
  then show ?thesis
    using apart above by (auto simp: update_region_def target_of_def less_2_cases_iff slot_range_def)
qed

subsection \<open>Properties\<close>





text \<open>C10. Whatever the board, the release, the journal and the faults, an update sends no opcode of the
  forbidden list (eFuse, flash-encryption and security operations) and writes no register but the one
  the named register write lists.\<close>

theorem update_only_safe:
  assumes "e_port E = sim_port H" and "only_safe (fl_port (u_fl u))"
  shows "only_safe (fl_port (u_fl (snd (run E mac c rel path cs u))))"
  using opcodes.run_keeps [OF assms(1), of mac c rel path cs] assms(2)
  by (auto simp: ukeeps_def triple_def)

theorem update_only_safe_witness:
  "only_safe (fl_port (u_fl (snd (run demo_env [] Reset \<lparr>rel_image = [], rel_table = []\<rparr> ''j.json''
     \<lparr>c_before_image = False, c_writing = \<lambda>_. False, c_after_image = False, c_after_switch = False, c_after_table = False\<rparr>
     demo_state))))"
  by (rule update_only_safe [of _ demo_hashes])
     (simp_all add: demo_env_def demo_state_def flasher_new_def sim_new_def only_safe_def)

end
