(* ===== verification/Rust_Text.thy ===== *)
theory Rust_Text
  imports Hidfi_Prelude
begin

section \<open>Strings as the standard library handles them\<close>

text \<open>
  A Rust \<open>String\<close> is the HOL string of its UTF-8 bytes, so \<open>len\<close>, \<open>bytes\<close> and comparison are those
  of the list.  What works on characters goes through \<open>chars\<close> (the code points) and \<open>utf8s\<close> (back to
  bytes); on the code points of any text the two are inverse.  Further: \<open>trim\<close>, \<open>split\<close>,
  \<open>rsplit_once\<close>, \<open>strip_prefix\<close>, the decimal printing of an unsigned number and its reading.
\<close>

subsection \<open>Definitions: characters\<close>

definition utf8 :: "nat \<Rightarrow> string" where
  "utf8 c =
     (if c < 0x80 then [char_of c]
      else if c < 0x800 then [char_of (0xC0 + c div 64), char_of (0x80 + c mod 64)]
      else if c < 0x10000 then
        [char_of (0xE0 + c div 4096), char_of (0x80 + c div 64 mod 64), char_of (0x80 + c mod 64)]
      else
        [char_of (0xF0 + c div 262144), char_of (0x80 + c div 4096 mod 64), char_of (0x80 + c div 64 mod 64),
         char_of (0x80 + c mod 64)])"

definition utf8s :: "nat list \<Rightarrow> string" where
  "utf8s cs = concat (map utf8 cs)"

text \<open>The six payload bits of a continuation byte.\<close>

definition cont6 :: "char \<Rightarrow> nat" where
  "cont6 b = of_char b mod 64"

fun chars :: "string \<Rightarrow> nat list" where
  "chars [] = []"
| "chars (a # s) =
     (let n = of_char a in
      if n < 0x80 then n # chars s
      else if n < 0xE0 then
        (case s of b # r \<Rightarrow> (n mod 32 * 64 + cont6 b) # chars r | _ \<Rightarrow> [])
      else if n < 0xF0 then
        (case s of b # c # r \<Rightarrow> (n mod 16 * 4096 + cont6 b * 64 + cont6 c) # chars r | _ \<Rightarrow> [])
      else
        (case s of
           b # c # d # r \<Rightarrow> (n mod 8 * 262144 + cont6 b * 4096 + cont6 c * 64 + cont6 d) # chars r
         | _ \<Rightarrow> []))"

text \<open>A Unicode scalar value, and text made of them.\<close>

definition scalar :: "nat \<Rightarrow> bool" where
  "scalar c \<longleftrightarrow> c < 0x110000 \<and> \<not> (0xD800 \<le> c \<and> c < 0xE000)"

definition is_text :: "string \<Rightarrow> bool" where
  "is_text s \<longleftrightarrow> list_all scalar (chars s) \<and> utf8s (chars s) = s"

definition is_control :: "nat \<Rightarrow> bool" where
  "is_control c \<longleftrightarrow> c < 0x20 \<or> 0x7F \<le> c \<and> c < 0xA0"

definition is_whitespace :: "nat \<Rightarrow> bool" where
  "is_whitespace c \<longleftrightarrow> 9 \<le> c \<and> c \<le> 13 \<or> c = 0x20 \<or> c = 0x85 \<or> c = 0xA0 \<or> c = 0x1680 \<or>
     0x2000 \<le> c \<and> c \<le> 0x200A \<or> c = 0x2028 \<or> c = 0x2029 \<or> c = 0x202F \<or> c = 0x205F \<or> c = 0x3000"

definition trim_by :: "('a \<Rightarrow> bool) \<Rightarrow> 'a list \<Rightarrow> 'a list" where
  "trim_by p xs = rev (dropWhile p (rev (dropWhile p xs)))"

definition str_trim :: "string \<Rightarrow> string" where
  "str_trim s = utf8s (trim_by is_whitespace (chars s))"

subsection \<open>Definitions: pieces\<close>

fun split_by :: "(char \<Rightarrow> bool) \<Rightarrow> string \<Rightarrow> string list" where
  "split_by p [] = [[]]"
| "split_by p (c # cs) =
     (if p c then [] # split_by p cs
      else (case split_by p cs of [] \<Rightarrow> [[c]] | w # ws \<Rightarrow> (c # w) # ws))"

definition strip_prefix :: "string \<Rightarrow> string \<Rightarrow> string option" where
  "strip_prefix p s = (if take (length p) s = p then Some (drop (length p) s) else None)"

definition starts_with :: "string \<Rightarrow> string \<Rightarrow> bool" where
  "starts_with p s \<longleftrightarrow> take (length p) s = p"

definition ends_with :: "string \<Rightarrow> string \<Rightarrow> bool" where
  "ends_with p s \<longleftrightarrow> length p \<le> length s \<and> drop (length s - length p) s = p"

text \<open>\<open>dir.join(name)\<close>, with \<open>/\<close> between the parts of a path.\<close>

definition path_join :: "string \<Rightarrow> string \<Rightarrow> string" where
  "path_join d n = (if starts_with ''/'' n then n else if d = [] \<or> last d = CHR ''/'' then d @ n else d @ ''/'' @ n)"

text \<open>\<open>split_once\<close>: around the first occurrence; \<open>rsplit_once\<close>: around the last.\<close>

fun split_once :: "string \<Rightarrow> string \<Rightarrow> (string \<times> string) option" where
  "split_once p [] = (if p = [] then Some ([], []) else None)"
| "split_once p (c # cs) =
     (case strip_prefix p (c # cs) of
        Some r \<Rightarrow> Some ([], r)
      | None \<Rightarrow> map_option (\<lambda>(a, b). (c # a, b)) (split_once p cs))"

definition rsplit_once :: "string \<Rightarrow> string \<Rightarrow> (string \<times> string) option" where
  "rsplit_once p s = map_option (\<lambda>(a, b). (rev b, rev a)) (split_once (rev p) (rev s))"

definition str_contains :: "string \<Rightarrow> string \<Rightarrow> bool" where
  "str_contains p s \<longleftrightarrow> split_once p s \<noteq> None"

subsection \<open>Definitions: numbers\<close>

definition digit :: "nat \<Rightarrow> char" where
  "digit n = char_of (48 + n)"

definition is_digit :: "char \<Rightarrow> bool" where
  "is_digit c \<longleftrightarrow> 48 \<le> (of_char c :: nat) \<and> (of_char c :: nat) \<le> 57"

definition digit_val :: "char \<Rightarrow> nat" where
  "digit_val c = of_char c - 48"

fun dec :: "nat \<Rightarrow> string" where
  "dec n = (if n < 10 then [digit n] else dec (n div 10) @ [digit (n mod 10)])"

declare dec.simps [simp del]

definition undec :: "string \<Rightarrow> nat" where
  "undec s = foldl (\<lambda>n c. 10 * n + digit_val c) 0 s"

text \<open>\<open>parse\<close> of an unsigned number below \<open>2 ^ w\<close>: a leading \<open>+\<close> is allowed, an empty text is not.\<close>

definition parse_uint :: "nat \<Rightarrow> string \<Rightarrow> nat option" where
  "parse_uint w s =
     (let ds = (case s of c # r \<Rightarrow> if c = CHR ''+'' then r else s | [] \<Rightarrow> []) in
      if ds = [] \<or> \<not> list_all is_digit ds \<or> 2 ^ w \<le> undec ds then None else Some (undec ds))"

definition is_hexdigit :: "char \<Rightarrow> bool" where
  "is_hexdigit c \<longleftrightarrow> hex_val c \<noteq> None"

definition is_alnum :: "char \<Rightarrow> bool" where
  "is_alnum c \<longleftrightarrow> is_digit c \<or> 65 \<le> (of_char c :: nat) \<and> (of_char c :: nat) \<le> 90 \<or>
     97 \<le> (of_char c :: nat) \<and> (of_char c :: nat) \<le> 122"

subsection \<open>Lemmas: characters\<close>

lemma of_char_char_of: "n < 256 \<Longrightarrow> (of_char (char_of n) :: nat) = n"
  by simp

lemma utf8_nonempty [simp]: "utf8 c \<noteq> []"
  by (simp add: utf8_def)

lemma chars_lead:
  "n < 0x80 \<Longrightarrow> chars (char_of n # s) = n # chars s"
  "0x80 \<le> n \<Longrightarrow> n < 0xE0 \<Longrightarrow> b < 256 \<Longrightarrow> chars (char_of n # char_of b # s) = (n mod 32 * 64 + b mod 64) # chars s"
  "0xE0 \<le> n \<Longrightarrow> n < 0xF0 \<Longrightarrow> b < 256 \<Longrightarrow> c < 256 \<Longrightarrow>
     chars (char_of n # char_of b # char_of c # s) = (n mod 16 * 4096 + b mod 64 * 64 + c mod 64) # chars s"
  "0xF0 \<le> n \<Longrightarrow> n < 0x100 \<Longrightarrow> b < 256 \<Longrightarrow> c < 256 \<Longrightarrow> d < 256 \<Longrightarrow>
     chars (char_of n # char_of b # char_of c # char_of d # s) =
       (n mod 8 * 262144 + b mod 64 * 4096 + c mod 64 * 64 + d mod 64) # chars s"
  by (simp_all add: cont6_def)

lemma base64_digits:
  fixes c :: nat
  shows "c div 4096 * 4096 + c div 64 mod 64 * 64 + c mod 64 = c"
    and "c div 262144 * 262144 + c div 4096 mod 64 * 4096 + c div 64 mod 64 * 64 + c mod 64 = c"
proof -
  have d: "c div 4096 = c div 64 div 64" "c div 262144 = c div 64 div 64 div 64" by (simp_all add: div_mult2_eq [symmetric])
  show "c div 4096 * 4096 + c div 64 mod 64 * 64 + c mod 64 = c"
    using div_mult_mod_eq [of c 64] div_mult_mod_eq [of "c div 64" 64] unfolding d by linarith
  show "c div 262144 * 262144 + c div 4096 mod 64 * 4096 + c div 64 mod 64 * 64 + c mod 64 = c"
    using div_mult_mod_eq [of c 64] div_mult_mod_eq [of "c div 64" 64] div_mult_mod_eq [of "c div 64 div 64" 64]
    unfolding d by linarith
qed

lemma low_bits:
  fixes x :: nat
  shows "x < 32 \<Longrightarrow> (0xC0 + x) mod 32 = x" and "x < 16 \<Longrightarrow> (0xE0 + x) mod 16 = x"
    and "x < 8 \<Longrightarrow> (0xF0 + x) mod 8 = x" and "x < 64 \<Longrightarrow> (0x80 + x) mod 64 = x"
  using mod_mult_self3 [of 6 32 x] mod_mult_self3 [of 14 16 x] mod_mult_self3 [of 30 8 x] mod_mult_self3 [of 2 64 x]
  by simp_all

lemma chars_seq:
  "x < 32 \<Longrightarrow> y < 64 \<Longrightarrow> chars (char_of (0xC0 + x) # char_of (0x80 + y) # s) = (x * 64 + y) # chars s"
  "x < 16 \<Longrightarrow> y < 64 \<Longrightarrow> z < 64 \<Longrightarrow>
     chars (char_of (0xE0 + x) # char_of (0x80 + y) # char_of (0x80 + z) # s) = (x * 4096 + y * 64 + z) # chars s"
  "x < 8 \<Longrightarrow> y < 64 \<Longrightarrow> z < 64 \<Longrightarrow> w < 64 \<Longrightarrow>
     chars (char_of (0xF0 + x) # char_of (0x80 + y) # char_of (0x80 + z) # char_of (0x80 + w) # s) =
       (x * 262144 + y * 4096 + z * 64 + w) # chars s"
  by (simp_all add: chars_lead low_bits del: chars.simps)

lemma chars_utf8:
  assumes "c < 0x110000"
  shows "chars (utf8 c @ s) = c # chars s"
proof -
  have m: "x mod 64 < 64" for x :: nat by simp
  have d: "c < 0x800 \<Longrightarrow> c div 64 < 32" "c < 0x10000 \<Longrightarrow> c div 4096 < 16" "c div 262144 < 8"
    using assms by (simp_all add: less_mult_imp_div_less)
  show ?thesis
    unfolding utf8_def
    using chars_seq(1) [OF d(1) m [of c], of s] chars_seq(2) [OF d(2) m [of "c div 64"] m [of c], of s]
      chars_seq(3) [OF d(3) m [of "c div 4096"] m [of "c div 64"] m [of c], of s]
    by (simp add: chars_lead(1) base64_digits del: chars.simps)
qed

lemma scalar_less: "scalar c \<Longrightarrow> c < 0x110000"
  by (simp add: scalar_def)

lemma chars_utf8s [simp]: "list_all scalar cs \<Longrightarrow> chars (utf8s cs) = cs"
  by (induction cs) (simp_all add: utf8s_def chars_utf8 scalar_less)

lemma utf8s_Nil [simp]: "utf8s [] = []" and utf8s_Cons [simp]: "utf8s (c # cs) = utf8 c @ utf8s cs"
  and utf8s_append [simp]: "utf8s (xs @ ys) = utf8s xs @ utf8s ys"
  by (simp_all add: utf8s_def)

lemma utf8s_eq_Nil [simp]: "utf8s cs = [] \<longleftrightarrow> cs = []"
  by (cases cs) simp_all

lemma utf8_ascii: "c < 128 \<Longrightarrow> utf8 c = [char_of c]"
  by (simp add: utf8_def)

lemma is_text_utf8s: "list_all scalar cs \<Longrightarrow> is_text (utf8s cs)"
  by (simp add: is_text_def)

lemma chars_ascii: "list_all (\<lambda>c. (of_char c :: nat) < 128) s \<Longrightarrow> chars s = map of_char s"
  by (induction s) (simp_all add: Let_def)

lemma utf8s_ascii: "list_all (\<lambda>c. (of_char c :: nat) < 128) s \<Longrightarrow> utf8s (map of_char s) = s"
  by (induction s) (simp_all add: utf8_ascii)

lemma is_text_ascii: "list_all (\<lambda>c. (of_char c :: nat) < 128) s \<Longrightarrow> is_text s"
  by (auto simp: is_text_def chars_ascii utf8s_ascii list_all_iff scalar_def)

subsection \<open>Lemmas: trimming\<close>

lemma trim_by_id:
  assumes "xs = [] \<or> \<not> p (hd xs) \<and> \<not> p (last xs)"
  shows "trim_by p xs = xs"
proof (cases "xs = []")
  case False
  with assms have "dropWhile p xs = xs" "dropWhile p (rev xs) = rev xs"
    by (simp_all add: dropWhile_eq_self_iff hd_rev)
  then show ?thesis by (simp add: trim_by_def)
qed (simp add: trim_by_def)

lemma trim_by_ends: "trim_by p xs \<noteq> [] \<Longrightarrow> \<not> p (hd (trim_by p xs)) \<and> \<not> p (last (trim_by p xs))"
proof -
  assume ne: "trim_by p xs \<noteq> []"
  define ys where "ys = dropWhile p xs"
  have ends: "\<not> p (hd (dropWhile p zs))" if "dropWhile p zs \<noteq> []" for zs using that by (rule hd_dropWhile)
  have t: "trim_by p xs = rev (dropWhile p (rev ys))" by (simp add: trim_by_def ys_def)
  then have d: "dropWhile p (rev ys) \<noteq> []" using ne by simp
  have "\<not> p (last (trim_by p xs))" using ends [OF d] d by (simp add: t last_rev)
  moreover obtain as where "rev ys = as @ dropWhile p (rev ys)" by (metis takeWhile_dropWhile_id)
  then have "ys = trim_by p xs @ rev as" by (metis rev_append rev_rev_ident t)
  then have "hd (trim_by p xs) = hd ys" using ne by simp
  moreover have "ys \<noteq> []" using d by auto
  then have "\<not> p (hd ys)" using ends [of xs] by (simp add: ys_def)
  ultimately show ?thesis by simp
qed

lemma trim_by_idem [simp]: "trim_by p (trim_by p xs) = trim_by p xs"
  by (rule trim_by_id) (use trim_by_ends in blast)

lemma set_trim_by: "set (trim_by p xs) \<subseteq> set xs"
  unfolding trim_by_def by (metis set_dropWhileD set_rev subsetI)

lemma list_all_trim_by: "list_all q xs \<Longrightarrow> list_all q (trim_by p xs)"
  using set_trim_by by (fastforce simp: list_all_iff)

lemma length_utf8s_trim: "length (utf8s (trim_by p xs)) \<le> length (utf8s xs)"
proof -
  have le: "length (utf8s (dropWhile p ys)) \<le> length (utf8s ys)" for ys
    by (induction ys) auto
  have rv: "length (utf8s (rev ys)) = length (utf8s ys)" for ys
    by (induction ys) auto
  show ?thesis unfolding trim_by_def using le [of xs] le [of "rev (dropWhile p xs)"] by (simp add: rv)
qed

lemma str_trim_ascii_id:
  assumes "list_all (\<lambda>c. (of_char c :: nat) < 128) s"
    and "s = [] \<or> \<not> is_whitespace (of_char (hd s)) \<and> \<not> is_whitespace (of_char (last s))"
  shows "str_trim s = s"
proof -
  have "trim_by is_whitespace (map of_char s) = map of_char s"
    using assms(2) by (intro trim_by_id) (auto simp: hd_map last_map)
  then show ?thesis using assms(1) by (simp add: str_trim_def chars_ascii utf8s_ascii)
qed

subsection \<open>Lemmas: numbers\<close>

lemma digit_val_digit [simp]: "n < 10 \<Longrightarrow> digit_val (digit n) = n"
  by (simp add: digit_val_def digit_def)

lemma is_digit_digit [simp]: "n < 10 \<Longrightarrow> is_digit (digit n)"
  by (simp add: is_digit_def digit_def)

lemma undec_dec [simp]: "undec (dec n) = n"
proof (induction n rule: dec.induct)
  case (1 n)
  then show ?case by (subst dec.simps) (simp add: undec_def)
qed

lemma dec_digits: "list_all is_digit (dec n)"
proof (induction n rule: dec.induct)
  case (1 n)
  then show ?case by (subst dec.simps) simp
qed

lemma dec_nonempty [simp]: "dec n \<noteq> []"
  by (subst dec.simps) simp

lemma dec_inj [simp]: "dec m = dec n \<longleftrightarrow> m = n"
  by (metis undec_dec)

lemma dec_length: "n < 10 ^ Suc k \<Longrightarrow> length (dec n) \<le> Suc k"
proof (induction k arbitrary: n)
  case 0
  then show ?case by (subst dec.simps) simp
next
  case (Suc k)
  then have "n div 10 < 10 ^ Suc k" by (simp add: less_mult_imp_div_less)
  then show ?case using Suc.IH [of "n div 10"] by (subst dec.simps) simp
qed

lemma digit_not_plus: "is_digit c \<Longrightarrow> c \<noteq> CHR ''+''"
  by (auto simp: is_digit_def)

lemma parse_uint_dec: "n < 2 ^ w \<Longrightarrow> parse_uint w (dec n) = Some n"
proof -
  assume n: "n < 2 ^ w"
  obtain c r where d: "dec n = c # r" by (cases "dec n") simp_all
  then have "c \<noteq> CHR ''+''" using dec_digits [of n] digit_not_plus by auto
  then show ?thesis using n dec_digits [of n] undec_dec [of n] by (simp add: parse_uint_def d Let_def)
qed

lemma undec_zeros: "undec (replicate k (CHR ''0'') @ s) = undec s"
  by (induction k) (simp_all add: undec_def digit_val_def)

subsection \<open>Lemmas: pieces\<close>

lemma split_by_nonempty [simp]: "split_by p s \<noteq> []"
  by (induction s) (auto split: list.split)

lemma split_by_none: "list_all (\<lambda>c. \<not> p c) s \<Longrightarrow> split_by p s = [s]"
  by (induction s) simp_all

lemma split_by_append:
  "list_all (\<lambda>c. \<not> p c) a \<Longrightarrow> p c \<Longrightarrow> split_by p (a @ c # b) = a # split_by p b"
  by (induction a) simp_all

lemma strip_prefix_append [simp]: "strip_prefix p (p @ s) = Some s"
  by (simp add: strip_prefix_def)

end
