(* ===== verification/Core_Proto.thy ===== *)
theory Core_Proto
  imports Rust_Text Json
begin

section \<open>Messages of the companion endpoint (crates/hidfi-core/src/proto.rs)\<close>

text \<open>
  Requests as the JSON objects serde derives for them, replies as the board's JSON is read: the
  status, the refusals by name, the length-checked hex fields.  The JSON text and the hex crate are
  arguments.  The derived deserialisers are modelled on objects, the form the board sends.
\<close>

subsection \<open>Definitions\<close>

definition PROTOCOL :: u32 where "PROTOCOL = 1"
definition MAX_BODY :: nat where "MAX_BODY = 768"
definition MAX_NAME :: nat where "MAX_NAME = 32"

text \<open>The hex crate, and what the code relies on of it.\<close>

record hex_crate =
  hx_encode :: "u8 list \<Rightarrow> string"
  hx_encode_upper :: "u8 list \<Rightarrow> string"
  hx_decode :: "string \<Rightarrow> u8 list option"

definition hex_ok :: "hex_crate \<Rightarrow> bool" where
  "hex_ok X \<longleftrightarrow> (\<forall>bs. hx_decode X (hx_encode X bs) = Some bs \<and> length (hx_encode X bs) = 2 * length bs) \<and>
     (\<forall>bs. length (hx_encode_upper X bs) = 2 * length bs \<and>
        hx_encode_upper X bs = concat (map hex2_upper bs)) \<and>
     (\<forall>s bs. hx_decode X s = Some bs \<longrightarrow> length s = 2 * length bs)"

datatype api_request =
    Hello u32 string string string string
  | State string
  | Reveal string string
  | Chal string
  | Beat string u16 string string string string
  | Ota string string string string string
  | ResetReq string string string
  | ResetRequest string
  | ResetRequestStatus string

text \<open>The internally tagged form: the tag first, then the fields in order.\<close>

fun json_of_request :: "api_request \<Rightarrow> json" where
  "json_of_request (Hello v pid name a_pub commit) = JObj
     [(''op'', JStr ''hello''), (''v'', JInt (uint v)), (''id'', JStr pid), (''name'', JStr name),
      (''a_pub'', JStr a_pub), (''commit'', JStr commit)]"
| "json_of_request (State pid) = JObj [(''op'', JStr ''state''), (''id'', JStr pid)]"
| "json_of_request (Reveal pid n_a) = JObj [(''op'', JStr ''reveal''), (''id'', JStr pid), (''n_a'', JStr n_a)]"
| "json_of_request (Chal pid) = JObj [(''op'', JStr ''chal''), (''id'', JStr pid)]"
| "json_of_request (Beat pid port fp tn chal mac) = JObj
     [(''op'', JStr ''beat''), (''id'', JStr pid), (''port'', JInt (uint port)), (''fp'', JStr fp), (''tn'', JStr tn),
      (''chal'', JStr chal), (''mac'', JStr mac)]"
| "json_of_request (Ota pid act url chal mac) = JObj
     [(''op'', JStr ''ota''), (''id'', JStr pid), (''act'', JStr act), (''url'', JStr url),
      (''chal'', JStr chal), (''mac'', JStr mac)]"
| "json_of_request (ResetReq pid chal mac) = JObj
     [(''op'', JStr ''reset''), (''id'', JStr pid), (''chal'', JStr chal), (''mac'', JStr mac)]"
| "json_of_request (ResetRequest name) = JObj [(''op'', JStr ''reset_request''), (''name'', JStr name)]"
| "json_of_request (ResetRequestStatus req) = JObj
     [(''op'', JStr ''reset_request_status''), (''request'', JStr req)]"

text \<open>\<open>to_body\<close>, as a release build has it: the assertion on the length is a debug one.\<close>

definition to_body :: "codec \<Rightarrow> api_request \<Rightarrow> string" where
  "to_body J r = js_print J (json_of_request r)"

text \<open>The loop of \<open>clean_name\<close> over the characters; it stops at the first that would not fit.\<close>

fun clean_loop :: "string \<Rightarrow> nat list \<Rightarrow> string" where
  "clean_loop out [] = out"
| "clean_loop out (c # cs) =
     (let c' = (if is_control c then 0x20 else c) in
      if MAX_NAME < length out + length (utf8 c') then out
      else clean_loop (out @ utf8 c') cs)"

definition clean_name :: "string \<Rightarrow> string" where
  "clean_name raw =
     (let t = str_trim (clean_loop [] (chars raw)) in if t = [] then ''Computer'' else t)"

datatype pair_state = PsNone | Pending | Confirm | CodeShown | Paired | Aborted

definition pair_state_of :: "string \<Rightarrow> pair_state option" where
  "pair_state_of s = map_of
     [(''none'', PsNone), (''pending'', Pending), (''confirm'', Confirm), (''code_shown'', CodeShown),
      (''paired'', Paired), (''aborted'', Aborted)] s"

record raw_reply =
  rr_status :: string
  rr_reply :: "string option"
  rr_message :: "string option"
  rr_state :: "pair_state option"
  rr_b_pub :: "string option"
  rr_n_b :: "string option"
  rr_chal :: "string option"
  rr_retry_ms :: "u64 option"
  rr_done :: "string option"

datatype refusal =
    PinRequired | Full | RateLimited u64 | UnknownPc | BadProof | StaleChallenge | Unsupported | Other string

datatype reply_error = Refused refusal | Malformed

definition raw_reply_of_json :: "json \<Rightarrow> raw_reply option" where
  "raw_reply_of_json v =
     (case v of
        JObj ms \<Rightarrow>
          (case (Option.bind (field ms ''status'') as_str, opt_field ms ''reply'' as_str, opt_field ms ''message'' as_str,
                 opt_field ms ''state'' (\<lambda>v. Option.bind (as_str v) pair_state_of), opt_field ms ''b_pub'' as_str,
                 opt_field ms ''n_b'' as_str, opt_field ms ''chal'' as_str, opt_field ms ''retry_ms'' as_u64,
                 opt_field ms ''done'' as_str) of
             (Some s, Some r, Some m, Some st, Some b, Some n, Some c, Some t, Some d) \<Rightarrow>
               Some \<lparr>rr_status = s, rr_reply = r, rr_message = m, rr_state = st, rr_b_pub = b, rr_n_b = n,
                 rr_chal = c, rr_retry_ms = t, rr_done = d\<rparr>
           | _ \<Rightarrow> None)
      | _ \<Rightarrow> None)"

text \<open>\<open>hex_n::<N>\<close>.\<close>

definition hex_n :: "hex_crate \<Rightarrow> nat \<Rightarrow> string option \<Rightarrow> reply_error + u8 list" where
  "hex_n X n s =
     (case s of
        None \<Rightarrow> Inl Malformed
      | Some s \<Rightarrow>
          if length s \<noteq> n * 2 then Inl Malformed
          else (case hx_decode X s of None \<Rightarrow> Inl Malformed | Some bs \<Rightarrow> Inr bs))"

definition refusal_of :: "raw_reply \<Rightarrow> refusal" where
  "refusal_of r =
     (let other = Other (utf8s (take 80 (chars
            (case rr_reply r of Some s \<Rightarrow> s
             | None \<Rightarrow> (case rr_message r of Some s \<Rightarrow> s | None \<Rightarrow> []))))) in
      case rr_reply r of
        None \<Rightarrow> other
      | Some s \<Rightarrow>
          if s = ''pin_required'' then PinRequired
          else if s = ''full'' then Full
          else if s = ''rate_limited'' then
            RateLimited (min (case rr_retry_ms r of Some n \<Rightarrow> n | None \<Rightarrow> 5000) 60000)
          else if s = ''unknown_pc'' then UnknownPc
          else if s = ''bad_mac'' then BadProof
          else if s = ''stale_chal'' then StaleChallenge
          else other)"

definition reply_parse :: "codec \<Rightarrow> string \<Rightarrow> reply_error + raw_reply" where
  "reply_parse J body =
     (case Option.bind (js_parse J body) raw_reply_of_json of
        None \<Rightarrow> Inl Malformed
      | Some r \<Rightarrow> if rr_status r = ''ok'' then Inr r else Inl (Refused (refusal_of r)))"

definition parse_http :: "codec \<Rightarrow> u16 \<Rightarrow> string \<Rightarrow> reply_error + raw_reply" where
  "parse_http J code body =
     (let r = reply_parse J body in
      if code = 404 then
        (case r of
           Inl (Refused (Other _)) \<Rightarrow> Inl (Refused Unsupported)
         | Inl Malformed \<Rightarrow> Inl (Refused Unsupported)
         | _ \<Rightarrow> r)
      else r)"

definition reply_pair_state :: "raw_reply \<Rightarrow> reply_error + pair_state" where
  "reply_pair_state r = (case rr_state r of None \<Rightarrow> Inl Malformed | Some s \<Rightarrow> Inr s)"

definition board_key :: "hex_crate \<Rightarrow> raw_reply \<Rightarrow> reply_error + u8 list \<times> u8 list" where
  "board_key X r =
     (case hex_n X 32 (rr_b_pub r) of
        Inl e \<Rightarrow> Inl e
      | Inr b \<Rightarrow> (case hex_n X 16 (rr_n_b r) of Inl e \<Rightarrow> Inl e | Inr n \<Rightarrow> Inr (b, n)))"

definition challenge :: "hex_crate \<Rightarrow> raw_reply \<Rightarrow> reply_error + u8 list" where
  "challenge X r = hex_n X 16 (rr_chal r)"

subsection \<open>Lemmas\<close>

text \<open>A concrete hex codec, for the examples.\<close>

fun hex_pairs_opt :: "string \<Rightarrow> u8 list option" where
  "hex_pairs_opt [] = Some []"
| "hex_pairs_opt [_] = None"
| "hex_pairs_opt (a # b # r) =
     (case (hex_val a, hex_val b, hex_pairs_opt r) of
        (Some x, Some y, Some zs) \<Rightarrow> Some (of_nat (16 * x + y) # zs)
      | _ \<Rightarrow> None)"

definition hex_demo :: hex_crate where
  "hex_demo = \<lparr>hx_encode = \<lambda>bs. concat (map hex2 bs), hx_encode_upper = \<lambda>bs. concat (map hex2_upper bs),
     hx_decode = hex_pairs_opt\<rparr>"

lemma hex_val_digit: "n < 16 \<Longrightarrow> hex_val (hex_digit n) = Some n"
  by (simp add: hex_val_def hex_digit_def)

lemma u8_split: "of_nat (16 * (unat (b :: u8) div 16) + unat b mod 16) = b"
  by simp

lemma hex_pairs_opt_hex2: "hex_pairs_opt (concat (map hex2 bs)) = Some bs"
proof (induction bs)
  case (Cons b bs)
  have "unat b div 16 < 16" using unat_u8_less [of b] by (simp add: less_mult_imp_div_less)
  then show ?case using Cons by (simp add: hex2_def hex_val_digit u8_split del: of_nat_add of_nat_mult)
qed simp

lemma hex_pairs_opt_len: "hex_pairs_opt s = Some bs \<Longrightarrow> length s = 2 * length bs"
  by (induction s arbitrary: bs rule: hex_pairs_opt.induct) (auto split: option.splits)

lemma length_hexes [simp]:
  "length (concat (map hex2 bs)) = 2 * length bs" "length (concat (map hex2_upper bs)) = 2 * length bs"
  by (induction bs) (simp_all add: hex2_def hex2_upper_def)

lemma hex_demo_ok: "hex_ok hex_demo"
  by (simp add: hex_ok_def hex_demo_def hex_pairs_opt_hex2 hex_pairs_opt_len)

lemma clean_loop_prefix:
  assumes "list_all scalar cs" and "length out \<le> MAX_NAME"
  obtains ds where "clean_loop out cs = out @ utf8s ds" and "list_all (\<lambda>c. scalar c \<and> \<not> is_control c) ds"
    and "length (clean_loop out cs) \<le> MAX_NAME"
proof -
  have "\<exists>ds. clean_loop out cs = out @ utf8s ds \<and> list_all (\<lambda>c. scalar c \<and> \<not> is_control c) ds \<and>
      length (clean_loop out cs) \<le> MAX_NAME"
    using assms
  proof (induction cs arbitrary: out)
    case (Cons c cs)
    define c' where "c' = (if is_control c then 0x20 else c)"
    have c': "scalar c' \<and> \<not> is_control c'" using Cons.prems(1) by (simp add: c'_def is_control_def scalar_def)
    show ?case
    proof (cases "MAX_NAME < length out + length (utf8 c')")
      case True
      with Cons.prems show ?thesis by (intro exI [of _ "[]"]) (simp add: c'_def [symmetric])
    next
      case False
      then obtain ds where "clean_loop (out @ utf8 c') cs = (out @ utf8 c') @ utf8s ds"
        "list_all (\<lambda>c. scalar c \<and> \<not> is_control c) ds" "length (clean_loop (out @ utf8 c') cs) \<le> MAX_NAME"
        using Cons.IH [of "out @ utf8 c'"] Cons.prems by auto
      with False c' show ?thesis by (intro exI [of _ "c' # ds"]) (simp add: c'_def [symmetric])
    qed
  qed (simp add: exI [of _ "[]"])
  then show thesis using that by blast
qed

lemma clean_loop_id:
  "list_all (\<lambda>c. \<not> is_control c) cs \<Longrightarrow> length out + length (utf8s cs) \<le> MAX_NAME \<Longrightarrow>
    clean_loop out cs = out @ utf8s cs"
  by (induction cs arbitrary: out) auto

lemma clean_name_form:
  assumes "is_text raw"
  obtains ds where "clean_name raw = utf8s ds" and "list_all (\<lambda>c. scalar c \<and> \<not> is_control c) ds" and "ds \<noteq> []"
    and "length (utf8s ds) \<le> MAX_NAME" and "trim_by is_whitespace ds = ds"
proof -
  have "list_all scalar (chars raw)" using assms by (simp add: is_text_def)
  then obtain ds where ds: "clean_loop [] (chars raw) = utf8s ds" "list_all (\<lambda>c. scalar c \<and> \<not> is_control c) ds"
    "length (utf8s ds) \<le> MAX_NAME"
    using clean_loop_prefix [of "chars raw" "[]"] by (metis append_Nil list.size(3) zero_le)
  have sc: "list_all scalar ds" using ds(2) by (simp add: list_all_iff)
  let ?t = "trim_by is_whitespace ds"
  have t: "str_trim (clean_loop [] (chars raw)) = utf8s ?t" by (simp add: str_trim_def ds(1) sc)
  show thesis
  proof (cases "?t = []")
    case True
    have "clean_name raw = utf8s (map of_char ''Computer'')"
      unfolding clean_name_def t True by (subst utf8s_ascii) simp_all
    then show thesis
      by (rule that) (simp_all add: scalar_def is_control_def MAX_NAME_def utf8_ascii trim_by_def is_whitespace_def)
  next
    case False
    show thesis
    proof (rule that)
      show "clean_name raw = utf8s ?t" using False by (simp add: clean_name_def t)
      show "length (utf8s ?t) \<le> MAX_NAME" using ds(3) length_utf8s_trim [of is_whitespace ds] by linarith
    qed (use False ds(2) in \<open>simp_all add: list_all_trim_by\<close>)
  qed
qed

lemma refusal_other: "refusal_of r = Other s \<Longrightarrow>
    rr_reply r \<notin> Some ` {''pin_required'', ''full'', ''rate_limited'', ''unknown_pc'', ''bad_mac'', ''stale_chal''}"
  by (auto simp: refusal_of_def Let_def split: option.splits if_splits)

lemma rate_limit_bound:
  assumes "parse_http J code body = Inl (Refused (RateLimited ms))"
  shows "ms \<le> 60000"
proof -
  have "refusal_of r = RateLimited ms \<Longrightarrow> ms \<le> 60000" for r
    by (auto simp: refusal_of_def Let_def split: option.splits if_splits)
  with assms show ?thesis
    by (auto simp: parse_http_def reply_parse_def Let_def split: if_splits option.splits sum.splits reply_error.splits refusal.splits)
qed

lemma hex_n_length: "hex_ok X \<Longrightarrow> hex_n X n s = Inr bs \<Longrightarrow> length bs = n"
  unfolding hex_n_def hex_ok_def by (force split: option.splits if_splits)

subsection \<open>Properties\<close>

text \<open>C18. The name sent to the board: for any text it is at most 32 bytes of whole characters, never
  empty, without control characters and without white space at its ends, and cleaning it again
  changes nothing.\<close>

theorem clean_name_ok:
  assumes "is_text raw"
  shows "clean_name raw \<noteq> [] \<and> length (clean_name raw) \<le> MAX_NAME \<and> is_text (clean_name raw) \<and>
    list_all (\<lambda>c. \<not> is_control c) (chars (clean_name raw)) \<and> str_trim (clean_name raw) = clean_name raw \<and>
    clean_name (clean_name raw) = clean_name raw"
proof -
  obtain ds where ds: "clean_name raw = utf8s ds" "list_all (\<lambda>c. scalar c \<and> \<not> is_control c) ds" "ds \<noteq> []"
    "length (utf8s ds) \<le> MAX_NAME" "trim_by is_whitespace ds = ds"
    by (rule clean_name_form [OF assms])
  have sc: "list_all scalar ds" and ct: "list_all (\<lambda>c. \<not> is_control c) ds"
    using ds(2) by (simp_all add: list_all_iff)
  have tr: "str_trim (utf8s ds) = utf8s ds" by (simp add: str_trim_def sc ds(5))
  have "clean_loop [] (chars (utf8s ds)) = utf8s ds" using clean_loop_id [OF ct, of "[]"] ds(4) by (simp add: sc)
  then have "clean_name (utf8s ds) = utf8s ds" by (simp add: clean_name_def tr ds(3))
  with ds(3,4) sc ct tr show ?thesis by (simp add: ds(1) is_text_utf8s)
qed

theorem clean_name_ok_witness:
  "clean_name ''  My PC  '' \<noteq> [] \<and> length (clean_name ''  My PC  '') \<le> MAX_NAME \<and>
   clean_name (clean_name ''  My PC  '') = clean_name ''  My PC  ''"
  using clean_name_ok [of "''  My PC  ''"] is_text_ascii [of "''  My PC  ''"] by simp

text \<open>How a reply is read, on every branch: only a reply that says ok is accepted; a 404 that is
  not one of the named refusals means firmware without the endpoint; a wait is at most a minute.\<close>

theorem parse_http_outcomes:
  "case parse_http J code body of
     Inr r \<Rightarrow> Option.bind (js_parse J body) raw_reply_of_json = Some r \<and> rr_status r = ''ok''
   | Inl Malformed \<Rightarrow> code \<noteq> 404 \<and> Option.bind (js_parse J body) raw_reply_of_json = None
   | Inl (Refused (RateLimited ms)) \<Rightarrow> ms \<le> 60000
   | Inl (Refused (Other s)) \<Rightarrow> code \<noteq> 404
   | Inl (Refused Unsupported) \<Rightarrow> code = 404 \<and>
       (\<forall>r. Option.bind (js_parse J body) raw_reply_of_json = Some r \<longrightarrow>
          rr_reply r \<notin> Some ` {''pin_required'', ''full'', ''rate_limited'', ''unknown_pc'', ''bad_mac'', ''stale_chal''})
   | Inl (Refused _) \<Rightarrow> True"
proof -
  have un: "refusal_of r \<noteq> Unsupported" for r
    by (auto simp: refusal_of_def Let_def split: option.split)
  have ms: "refusal_of r = RateLimited t \<Longrightarrow> t \<le> 60000" for r t
    by (auto simp: refusal_of_def Let_def split: option.splits if_splits)
  show ?thesis
  proof (cases "Option.bind (js_parse J body) raw_reply_of_json")
    case None
    then show ?thesis by (simp add: parse_http_def reply_parse_def Let_def)
  next
    case (Some r)
    then show ?thesis
      using un [of r] ms [of r] refusal_other [of r]
      by (cases "refusal_of r") (auto simp: parse_http_def reply_parse_def Let_def)
  qed
qed

theorem parse_http_outcomes_witness:
  "let J = \<lparr>js_print = \<lambda>_. [], js_parse = \<lambda>_. Some (JObj [(''status'', JStr ''err''), (''reply'', JStr ''nope'')])\<rparr> in
   case parse_http J 404 ''x'' of Inl (Refused Unsupported) \<Rightarrow> True | _ \<Rightarrow> False"
  using parse_http_outcomes [where J = "\<lparr>js_print = \<lambda>_. [], js_parse = \<lambda>_. Some (JObj [(''status'', JStr ''err''), (''reply'', JStr ''nope'')])\<rparr>"
      and code = 404 and body = "''x''"]
  by (simp add: parse_http_def reply_parse_def raw_reply_of_json_def field_def opt_field_def refusal_of_def Let_def)

text \<open>The hex fields have exactly the length they must: a key and nonce, or a challenge, that is
  accepted has 32, 16 and 16 bytes, and what the board encoded is read back.\<close>

theorem reply_fields_sized:
  assumes "hex_ok X"
  shows "(\<forall>b n. board_key X r = Inr (b, n) \<longrightarrow> length b = 32 \<and> length n = 16) \<and>
    (\<forall>c. challenge X r = Inr c \<longrightarrow> length c = 16) \<and>
    (\<forall>b n. length b = 32 \<longrightarrow> length n = 16 \<longrightarrow>
       board_key X (r\<lparr>rr_b_pub := Some (hx_encode X b), rr_n_b := Some (hx_encode X n)\<rparr>) = Inr (b, n))"
proof (intro conjI allI impI)
  fix b n assume "board_key X r = Inr (b, n)"
  then show "length b = 32" "length n = 16"
    using hex_n_length [OF assms] by (auto simp: board_key_def split: sum.splits)
next
  fix c assume "challenge X r = Inr c"
  then show "length c = 16" using hex_n_length [OF assms] by (simp add: challenge_def)
next
  fix b n :: "u8 list" assume "length b = 32" "length n = 16"
  then show "board_key X (r\<lparr>rr_b_pub := Some (hx_encode X b), rr_n_b := Some (hx_encode X n)\<rparr>) = Inr (b, n)"
    using assms by (simp add: board_key_def hex_n_def hex_ok_def)
qed

theorem reply_fields_sized_witness:
  "board_key hex_demo \<lparr>rr_status = ''ok'', rr_reply = None, rr_message = None, rr_state = None,
      rr_b_pub = Some (hx_encode hex_demo (replicate 32 7)), rr_n_b = Some (hx_encode hex_demo (replicate 16 9)),
      rr_chal = None, rr_retry_ms = None, rr_done = None\<rparr> = Inr (replicate 32 7, replicate 16 9)"
  using reply_fields_sized [OF hex_demo_ok, of "\<lparr>rr_status = ''ok'', rr_reply = None, rr_message = None, rr_state = None,
      rr_b_pub = None, rr_n_b = None, rr_chal = None, rr_retry_ms = None, rr_done = None\<rparr>"]
  by simp

end
