(* ===== verification/Discovery.thy ===== *)
theory Discovery
  imports Core_Proto "HOL-Library.List_Lexorder" "HOL-Library.Multiset"
begin

section \<open>Which board is plugged into this computer (crates/hidfi-core/src/discovery.rs)\<close>

text \<open>
  MAC addresses as they are read from USB serial numbers and status pages, and the choice of the
  board: one that is on this computer's USB and answers on the network under the same address.
\<close>

subsection \<open>Definitions\<close>

definition ESPRESSIF_VID :: u16 where "ESPRESSIF_VID = 0x303A"

text \<open>Six bytes, with the derived order: byte by byte.\<close>

datatype mac = Mac (mac_bytes: "u8 list")

instantiation mac :: linorder
begin

definition less_eq_mac :: "mac \<Rightarrow> mac \<Rightarrow> bool" where
  "less_eq_mac a b \<longleftrightarrow> mac_bytes a \<le> mac_bytes b"

definition less_mac :: "mac \<Rightarrow> mac \<Rightarrow> bool" where
  "less_mac a b \<longleftrightarrow> mac_bytes a < mac_bytes b"

instance
  by standard (auto simp: less_eq_mac_def less_mac_def intro: mac.expand)

end

text \<open>The digits of the accepted spellings: bare, or with one separator after every second digit; the
  characters equal to it are then dropped (compared by their low byte, as the source does).\<close>

definition mac_digits :: "string \<Rightarrow> string option" where
  "mac_digits s =
     (if length s = 12 then Some s
      else if length s = 17 then
        (let sep = s ! 2 in
         if sep \<noteq> CHR '':'' \<and> sep \<noteq> CHR ''-'' then None
         else if \<not> list_all (\<lambda>i. i mod 3 = 2 \<longrightarrow> s ! i = sep) [0..<17] then None
         else Some (utf8s (filter (\<lambda>c. c mod 256 \<noteq> of_char sep) (chars s))))
      else None)"

definition mac_of_digits :: "string \<Rightarrow> mac option" where
  "mac_of_digits digits =
     (if length digits \<noteq> 12 \<or> \<not> list_all is_hexdigit digits then None
      else
        let out = map (\<lambda>i. hex_pair (digits ! (2 * i)) (digits ! (2 * i + 1))) [0..<6] in
        if None \<in> set out then None
        else if map the out = replicate 6 0 \<or> map the out = replicate 6 0xFF then None
        else Some (Mac (map the out)))"

definition mac_parse :: "string \<Rightarrow> mac option" where
  "mac_parse s = Option.bind (mac_digits (str_trim s)) mac_of_digits"

definition mac_hex :: "hex_crate \<Rightarrow> mac \<Rightarrow> string" where
  "mac_hex X m = hx_encode_upper X (mac_bytes m)"

record usb_device =
  ud_vid :: u16
  ud_pid :: u16
  ud_serial :: "string option"

record net_board =
  nb_url :: string
  nb_mac :: mac
  nb_firmware :: string

datatype selection =
    Board net_board
  | NotPluggedIn nat
  | NotOnNetwork mac
  | Choose "net_board list"

definition usb_macs :: "usb_device list \<Rightarrow> mac list" where
  "usb_macs devices =
     remdups_adj (sort (List.map_filter (\<lambda>d. Option.bind (ud_serial d) mac_parse)
       (filter (\<lambda>d. ud_vid d = ESPRESSIF_VID) devices)))"

fun here_loop :: "mac list \<Rightarrow> net_board list \<Rightarrow> net_board list \<Rightarrow> net_board list" where
  "here_loop local here [] = here"
| "here_loop local here (b # bs) =
     (if nb_mac b \<in> set local \<and> \<not> list_ex (\<lambda>h. nb_mac h = nb_mac b) here then here_loop local (here @ [b]) bs
      else here_loop local here bs)"

definition select :: "usb_device list \<Rightarrow> net_board list \<Rightarrow> mac option \<Rightarrow> selection" where
  "select usb net remembered =
     (let local = usb_macs usb;
          here = sort_key nb_mac (here_loop local [] net)
      in case here of
           [b] \<Rightarrow> Board b
         | [] \<Rightarrow>
             (let unmatched = filter (\<lambda>m. \<not> list_ex (\<lambda>b. nb_mac b = m) net) local in
              case unmatched of
                [m] \<Rightarrow> if net = [] then NotOnNetwork m else NotPluggedIn (length net)
              | _ \<Rightarrow> NotPluggedIn (length net))
         | _ \<Rightarrow>
             (case Option.bind remembered (\<lambda>m. find (\<lambda>b. nb_mac b = m) here) of
                Some b \<Rightarrow> Board b | None \<Rightarrow> Choose here))"

text \<open>The specification of the accepted spellings.\<close>

definition mac_ok :: "mac \<Rightarrow> bool" where
  "mac_ok m \<longleftrightarrow> length (mac_bytes m) = 6 \<and> mac_bytes m \<noteq> replicate 6 0 \<and> mac_bytes m \<noteq> replicate 6 0xFF"

definition upper :: "char \<Rightarrow> char" where
  "upper c = (let n = of_char c :: nat in if 97 \<le> n \<and> n \<le> 122 then char_of (n - 32) else c)"

fun dashed :: "char \<Rightarrow> string \<Rightarrow> string" where
  "dashed sep (a # b # c # r) = a # b # sep # dashed sep (c # r)"
| "dashed sep s = s"

definition mac_spelt :: "string \<Rightarrow> mac \<Rightarrow> bool" where
  "mac_spelt s m \<longleftrightarrow> (\<exists>ds. map upper ds = concat (map hex2_upper (mac_bytes m)) \<and>
     (s = ds \<or> s = dashed (CHR '':'') ds \<or> s = dashed (CHR ''-'') ds))"

definition on_usb :: "usb_device list \<Rightarrow> mac \<Rightarrow> bool" where
  "on_usb usb m \<longleftrightarrow> (\<exists>d \<in> set usb. ud_vid d = ESPRESSIF_VID \<and> Option.bind (ud_serial d) mac_parse = Some m)"

subsection \<open>Lemmas: spellings\<close>

lemma hex_upper_digit:
  assumes "hex_val c = Some x"
  shows "upper c = hex_digit_upper x" and "x < 16" and "(of_char c :: nat) < 128"
proof -
  define n where "n = (of_char c :: nat)"
  have c: "c = char_of n" by (simp add: n_def)
  have x: "48 \<le> n \<and> n \<le> 57 \<and> x = n - 48 \<or> 97 \<le> n \<and> n \<le> 102 \<and> x = n - 87 \<or> 65 \<le> n \<and> n \<le> 70 \<and> x = n - 55"
    using assms by (auto simp: hex_val_def n_def [symmetric] Let_def split: if_splits)
  then have eq: "(if 97 \<le> n \<and> n \<le> 122 then n - 32 else n) = (if x < 10 then 48 + x else 55 + x)" by auto
  have "upper c = char_of (if 97 \<le> n \<and> n \<le> 122 then n - 32 else n)"
    by (simp add: upper_def n_def [symmetric] Let_def c [symmetric])
  then show "upper c = hex_digit_upper x" by (simp only: eq hex_digit_upper_def)
  show "x < 16" "(of_char c :: nat) < 128" using x by (auto simp: n_def)
qed

lemma hex_val_not_plus: "hex_val c \<noteq> None \<Longrightarrow> c \<noteq> CHR ''+''"
  by (auto simp: hex_val_def)

lemma hex_pair_upper:
  assumes "is_hexdigit a" and "is_hexdigit b"
  shows "\<exists>x. hex_pair a b = Some x \<and> hex2_upper x = [upper a, upper b]"
proof -
  obtain p q where pq: "hex_val a = Some p" "hex_val b = Some q" using assms by (auto simp: is_hexdigit_def)
  note d = hex_upper_digit [OF pq(1)] hex_upper_digit [OF pq(2)]
  have "16 * p + q < 256" using d by linarith
  then have u: "unat (of_nat (16 * p + q) :: u8) = 16 * p + q" by (simp add: unat_of_nat take_bit_nat_eq_self del: of_nat_add of_nat_mult)
  have "hex_pair a b = Some (of_nat (16 * p + q))"
    using pq hex_val_not_plus [of a] by (simp add: hex_pair_def)
  moreover have "hex2_upper (of_nat (16 * p + q)) = [upper a, upper b]"
    using d unfolding hex2_upper_def u by simp
  ultimately show ?thesis by blast
qed

lemma upper_hexdigit: "upper c = hex_digit_upper x \<Longrightarrow> x < 16 \<Longrightarrow> is_hexdigit c"
proof -
  assume up: "upper c = hex_digit_upper x" and x: "x < 16"
  have "(of_char (upper c) :: nat) = (if x < 10 then 48 + x else 55 + x)"
    using x by (simp add: up hex_digit_upper_def)
  moreover have "(of_char (upper c) :: nat) =
      (let n = of_char c :: nat in if 97 \<le> n \<and> n \<le> 122 then n - 32 else n)"
    by (auto simp: upper_def Let_def)
  ultimately show ?thesis
    using x by (auto simp: is_hexdigit_def hex_val_def Let_def split: if_splits)
qed

lemma hex2_upper_inj: "hex2_upper a = hex2_upper b \<Longrightarrow> a = b"
proof -
  assume eq: "hex2_upper a = hex2_upper b"
  have inj: "hex_digit_upper m = hex_digit_upper n \<Longrightarrow> m < 16 \<Longrightarrow> n < 16 \<Longrightarrow> m = n" for m n
    by (drule arg_cong [where f = "of_char :: char \<Rightarrow> nat"]) (auto simp: hex_digit_upper_def split: if_splits)
  have lt: "unat (x :: u8) div 16 < 16" for x using unat_u8_less [of x] by (simp add: less_mult_imp_div_less)
  have "unat a div 16 = unat b div 16" "unat a mod 16 = unat b mod 16"
    using eq by (auto simp: hex2_upper_def intro!: inj lt)
  then have "unat a = unat b" by (metis div_mult_mod_eq)
  then show "a = b" by (rule unsigned_word_eqI)
qed

lemma digit_pairs:
  assumes "length ds = 2 * k" and "list_all is_hexdigit ds"
  shows "\<exists>bs. map (\<lambda>i. hex_pair (ds ! (2 * i)) (ds ! (2 * i + 1))) [0..<k] = map Some bs \<and>
    map upper ds = concat (map hex2_upper bs)"
  using assms
proof (induction k arbitrary: ds)
  case (Suc k)
  then obtain a b r where ds: "ds = a # b # r" "length r = 2 * k" by (auto simp: length_Suc_conv)
  then obtain bs where bs: "map (\<lambda>i. hex_pair (r ! (2 * i)) (r ! (2 * i + 1))) [0..<k] = map Some bs"
    "map upper r = concat (map hex2_upper bs)" using Suc by auto
  obtain x where x: "hex_pair a b = Some x" "hex2_upper x = [upper a, upper b]"
    using hex_pair_upper [of a b] Suc.prems ds by auto
  have "map (\<lambda>i. hex_pair (ds ! (2 * i)) (ds ! (2 * i + 1))) [0..<Suc k] = map Some (x # bs)"
    unfolding upt_conv_Cons [OF zero_less_Suc] using x(1) bs(1) by (simp add: ds map_Suc_upt [symmetric] comp_def del: upt_Suc)
  moreover have "map upper ds = concat (map hex2_upper (x # bs))" using x(2) bs(2) by (simp add: ds)
  ultimately show ?case by blast
qed simp

lemma upper_digits:
  assumes "map upper ds = concat (map hex2_upper bs)"
  shows "length ds = 2 * length bs" and "list_all is_hexdigit ds"
proof -
  have "length (map upper ds) = 2 * length bs" unfolding assms by simp
  then show len: "length ds = 2 * length bs" by simp
  show "list_all is_hexdigit ds"
    using assms
  proof (induction bs arbitrary: ds)
    case (Cons b bs)
    then obtain p q r where ds: "ds = p # q # r" "upper p = hex_digit_upper (unat b div 16)"
      "upper q = hex_digit_upper (unat b mod 16)" "map upper r = concat (map hex2_upper bs)"
      by (auto simp: hex2_upper_def [of b] map_eq_Cons_conv)
    have "unat b div 16 < 16" using unat_u8_less [of b] by (simp add: less_mult_imp_div_less)
    with ds Cons.IH show ?case by (auto intro: upper_hexdigit)
  qed simp
qed

lemma concat_hex2_upper_inj:
  "concat (map hex2_upper as) = concat (map hex2_upper bs) \<Longrightarrow> as = bs"
proof (induction as arbitrary: bs)
  case (Cons a as)
  then obtain b bs' where bs: "bs = b # bs'" by (cases bs) (simp_all add: hex2_upper_def)
  have "hex2_upper a = hex2_upper b" using Cons.prems by (simp add: bs hex2_upper_def [of a] hex2_upper_def [of b])
  then show ?case using Cons hex2_upper_inj [of a b] by (simp add: bs)
qed (auto simp: hex2_upper_def dest: arg_cong [where f = length])

lemma mac_of_digits_iff:
  "mac_of_digits ds = Some m \<longleftrightarrow> mac_ok m \<and> map upper ds = concat (map hex2_upper (mac_bytes m))"
proof (cases "length ds = 12 \<and> list_all is_hexdigit ds")
  case True
  then obtain bs where out: "map (\<lambda>i. hex_pair (ds ! (2 * i)) (ds ! (2 * i + 1))) [0..<6] = map Some bs"
    and up: "map upper ds = concat (map hex2_upper bs)" using digit_pairs [of ds 6] by auto
  have len: "length bs = 6" using arg_cong [OF out, of length] by simp
  have "mac_of_digits ds = (if bs = replicate 6 0 \<or> bs = replicate 6 0xFF then None else Some (Mac bs))"
    using True unfolding mac_of_digits_def Let_def out by (simp add: comp_def)
  moreover have "map upper ds = concat (map hex2_upper (mac_bytes m)) \<longleftrightarrow> mac_bytes m = bs"
    unfolding up using concat_hex2_upper_inj by metis
  ultimately show ?thesis using len by (cases m) (auto simp: mac_ok_def)
next
  case False
  have "\<not> (mac_ok m \<and> map upper ds = concat (map hex2_upper (mac_bytes m)))"
    using False upper_digits [of ds "mac_bytes m"] by (auto simp: mac_ok_def)
  with False show ?thesis by (auto simp: mac_of_digits_def)
qed

lemma length_dashed12:
  assumes "length ds = 12"
  obtains a b c d e f g h i j k l where "ds = [a, b, c, d, e, f, g, h, i, j, k, l]"
  using assms by (auto simp: numeral_eq_Suc length_Suc_conv)

lemma utf8_multi: "128 \<le> c \<Longrightarrow> c < 0x110000 \<Longrightarrow> x \<in> set (utf8 c) \<Longrightarrow> 128 \<le> (of_char x :: nat)"
proof -
  assume c: "128 \<le> c" "c < 0x110000" and x: "x \<in> set (utf8 c)"
  have b: "of_char (char_of (k + y) :: char) = k + y" if "k + y < 256" for k y :: nat using that by simp
  have m: "y mod 64 < 64" for y :: nat by simp
  have d: "c < 0x800 \<Longrightarrow> c div 64 < 32" "c < 0x10000 \<Longrightarrow> c div 4096 < 16" "c div 262144 < 8"
    using c by (simp_all add: less_mult_imp_div_less)
  show ?thesis
    using x c d m [of c] m [of "c div 64"] m [of "c div 4096"]
    unfolding utf8_def by (auto simp del: of_char_of split: if_splits) (simp_all add: b)
qed

text \<open>A separator byte of the text is a separator character; the others may not hide behind the
  low-byte comparison, as there are no bytes left for them.\<close>

lemma length_utf8s_ge: "length cs \<le> length (utf8s cs)"
proof (induction cs)
  case (Cons c cs)
  have "Suc 0 \<le> length (utf8 c)" by (simp add: Suc_le_eq)
  with Cons.IH show ?case unfolding utf8s_Cons length_append list.size by linarith
qed simp

lemma count_sep_utf8s:
  assumes "list_all scalar cs" and "(of_char sep :: nat) < 128"
  shows "count_list (utf8s cs) sep = count_list cs (of_char sep)"
  using assms(1)
proof (induction cs)
  case (Cons c cs)
  have "count_list (utf8 c) sep = (if c = of_char sep then 1 else 0)"
  proof (cases "c < 128")
    case True
    then show ?thesis by (auto simp: utf8_ascii)
  next
    case False
    then have "sep \<notin> set (utf8 c)" using utf8_multi [of c sep] assms(2) Cons.prems by (auto simp: scalar_def)
    then show ?thesis using False assms(2) by (auto simp: count_list_0_iff)
  qed
  with Cons show ?case by simp
qed simp

lemma length_utf8s_filter:
  "length (utf8s (filter p cs)) + length (utf8s (filter (\<lambda>c. \<not> p c) cs)) = length (utf8s cs)"
  by (induction cs) auto

lemma count_list_filter_le: "p x \<Longrightarrow> count_list cs x \<le> length (filter p cs)"
  by (induction cs) auto

lemma count_all: "count_list xs x = length xs \<Longrightarrow> \<forall>y \<in> set xs. y = x"
proof (induction xs)
  case (Cons y ys)
  have "count_list ys x \<le> length ys" by (rule count_le_length)
  with Cons show ?case by (auto split: if_splits)
qed simp

lemma filter_whole: "length (filter p xs) = length xs \<Longrightarrow> filter p xs = xs"
  by (metis filter_id_conv length_filter_less less_irrefl)

lemma count_list_filter: "p x \<Longrightarrow> count_list (filter p xs) x = count_list xs x"
  by (induction xs) auto

lemma dashed_shape:
  assumes len: "length s = 17" and sep: "list_all (\<lambda>i. i mod 3 = 2 \<longrightarrow> s ! i = sep) [0..<17]"
  obtains a b d e g h j k m n q r
    where "s = [a, b] @ [sep] @ [d, e] @ [sep] @ [g, h] @ [sep] @ [j, k] @ [sep] @ [m, n] @ [sep] @ [q, r]"
proof -
  have at: "s ! i = sep" if "i < 17" "i mod 3 = 2" for i using sep that by (simp add: list_all_iff)
  have five: "s ! 2 = sep" "s ! 5 = sep" "s ! 8 = sep" "s ! 11 = sep" "s ! 14 = sep" by (rule at; simp)+
  have "s = map ((!) s) [0..<17]" using len map_nth [of s] by simp
  also have "[0..<17] = [0, 1, 2, 3, 4, 5, 6, 7, 8, 9, 10, 11, 12, 13, 14, 15, 16]" by (simp add: upt_rec)
  finally have "s = [s ! 0, s ! 1] @ [sep] @ [s ! 3, s ! 4] @ [sep] @ [s ! 6, s ! 7] @ [sep] @ [s ! 9, s ! 10] @ [sep]
      @ [s ! 12, s ! 13] @ [sep] @ [s ! 15, s ! 16]"
    by (simp only: list.map append.simps five)
  then show thesis by (rule that)
qed

lemma filter_dashed:
  assumes len: "length s = 17" and sep: "list_all (\<lambda>i. i mod 3 = 2 \<longrightarrow> s ! i = sep) [0..<17]"
    and kept: "length (filter (\<lambda>x. x \<noteq> sep) s) = 12"
  shows "s = dashed sep (filter (\<lambda>x. x \<noteq> sep) s)"
proof -
  obtain a b d e g h j k m n q r
    where s: "s = [a, b] @ [sep] @ [d, e] @ [sep] @ [g, h] @ [sep] @ [j, k] @ [sep] @ [m, n] @ [sep] @ [q, r]"
    using assms(1,2) by (rule dashed_shape)
  let ?ys = "[a, b] @ [d, e] @ [g, h] @ [j, k] @ [m, n] @ [q, r]"
  have no: "filter (\<lambda>x. x \<noteq> sep) [sep] = []" by simp
  have "filter (\<lambda>x. x \<noteq> sep) s = filter (\<lambda>x. x \<noteq> sep) ?ys"
    unfolding s by (simp only: filter_append no append_Nil)
  moreover have "filter (\<lambda>x. x \<noteq> sep) ?ys = ?ys"
    using kept calculation by (intro filter_whole) simp
  ultimately have "filter (\<lambda>x. x \<noteq> sep) s = ?ys" by simp
  then show ?thesis by (simp only: s) simp
qed

lemma count_dashed:
  assumes len: "length s = 17" and sep: "list_all (\<lambda>i. i mod 3 = 2 \<longrightarrow> s ! i = sep) [0..<17]"
  shows "5 \<le> count_list s sep"
proof -
  obtain a b d e g h j k m n q r
    where s: "s = [a, b] @ [sep] @ [d, e] @ [sep] @ [g, h] @ [sep] @ [j, k] @ [sep] @ [m, n] @ [sep] @ [q, r]"
    using assms(1,2) by (rule dashed_shape)
  have one: "count_list [sep] sep = 1" by simp
  show ?thesis unfolding s count_list_append one by linarith
qed

lemma dashed_of_filter:
  assumes wf: "is_text s" and len: "length s = 17" and sep: "sep = CHR '':'' \<or> sep = CHR ''-''"
    and pos: "list_all (\<lambda>i. i mod 3 = 2 \<longrightarrow> s ! i = sep) [0..<17]"
    and ds: "ds = utf8s (filter (\<lambda>c. c mod 256 \<noteq> of_char sep) (chars s))"
    and d12: "length ds = 12" and hexs: "list_all is_hexdigit ds"
  shows "s = dashed sep ds"
proof -
  let ?cs = "chars s" and ?sep = "of_char sep :: nat"
  let ?out = "filter (\<lambda>c. \<not> c mod 256 \<noteq> ?sep) ?cs"
  have cs: "list_all scalar ?cs" "utf8s ?cs = s" using wf by (simp_all add: is_text_def)
  have small: "?sep < 128" using sep by auto
  have "length (utf8s ?out) = 5"
    using length_utf8s_filter [of "\<lambda>c. c mod 256 \<noteq> ?sep" ?cs] d12 len cs(2) by (simp add: ds)
  then have "length ?out \<le> 5" using length_utf8s_ge [of ?out] by simp
  moreover have c5: "5 \<le> count_list ?cs ?sep"
    using count_dashed [OF len pos] count_sep_utf8s [OF cs(1) small] cs(2) by simp
  moreover have "count_list ?out ?sep = count_list ?cs ?sep"
    using small by (intro count_list_filter) simp
  ultimately have "count_list ?out ?sep = length ?out" using count_le_length [of ?out ?sep] by linarith
  then have outs: "\<forall>c \<in> set ?out. c = ?sep" by (rule count_all)
  have "c < 128" if c: "c \<in> set ?cs" for c
  proof (cases "c mod 256 = ?sep")
    case True
    with c have "c \<in> set ?out" by simp
    with outs have "c = ?sep" by blast
    with small show ?thesis by simp
  next
    case False
    then have "set (utf8 c) \<subseteq> set ds" using c by (auto simp: ds utf8s_def)
    moreover obtain x where x: "x \<in> set (utf8 c)" using hd_in_set [OF utf8_nonempty] by blast
    ultimately have "is_hexdigit x" using hexs by (auto simp: list_all_iff)
    then obtain v where "hex_val x = Some v" unfolding is_hexdigit_def by blast
    then have lo: "(of_char x :: nat) < 128" by (rule hex_upper_digit(3))
    have "c < 0x110000" using c cs(1) by (simp add: list_all_iff scalar_def)
    then have "128 \<le> c \<Longrightarrow> 128 \<le> (of_char x :: nat)" using x by (intro utf8_multi)
    with lo show ?thesis by linarith
  qed
  then have ascii: "list_all (\<lambda>c. c < 128) ?cs" by (simp add: list_all_iff)
  have u: "list_all (\<lambda>c. c < 128) xs \<Longrightarrow> utf8s xs = map char_of xs" for xs
    by (induction xs) (simp_all add: utf8_ascii)
  have f: "list_all (\<lambda>c. c < 128) xs \<Longrightarrow>
      map char_of (filter (\<lambda>c. c mod 256 \<noteq> ?sep) xs) = filter (\<lambda>x. x \<noteq> sep) (map char_of xs)" for xs
    by (induction xs) auto
  have dsf: "ds = filter (\<lambda>x. x \<noteq> sep) s"
    using f [OF ascii] u [OF ascii] u [of "filter (\<lambda>c. c mod 256 \<noteq> ?sep) ?cs"] ascii cs(2)
    by (simp add: ds list_all_iff)
  show ?thesis unfolding dsf by (rule filter_dashed [OF len pos]) (use d12 dsf in simp)
qed

lemma hexdigit_char: "is_hexdigit c \<Longrightarrow> (of_char c :: nat) < 128 \<and> c \<noteq> CHR '':'' \<and> c \<noteq> CHR ''-'' \<and> \<not> is_whitespace (of_char c)"
  by (auto simp: is_hexdigit_def hex_val_def is_whitespace_def Let_def split: if_splits)

lemma filter_sep_dashed: "sep \<notin> set ds \<Longrightarrow> filter (\<lambda>x. x \<noteq> sep) (dashed sep ds) = ds"
  by (induction sep ds rule: dashed.induct) (auto simp: filter_id_conv)

lemma list_all_dashed: "list_all q ds \<Longrightarrow> q sep \<Longrightarrow> list_all q (dashed sep ds)"
  by (induction sep ds rule: dashed.induct) auto

lemma mac_digits_cases:
  assumes "mac_digits t = Some ds"
  obtains "t = ds" | sep where "length t = 17" and "sep = CHR '':'' \<or> sep = CHR ''-''"
    and "list_all (\<lambda>i. i mod 3 = 2 \<longrightarrow> t ! i = sep) [0..<17]"
    and "ds = utf8s (filter (\<lambda>c. c mod 256 \<noteq> of_char sep) (chars t))"
proof (cases "length t = 12")
  case True
  with assms show thesis by (intro that(1)) (simp add: mac_digits_def)
next
  case False
  have "length t = 17 \<and> (t ! 2 = CHR '':'' \<or> t ! 2 = CHR ''-'') \<and>
      list_all (\<lambda>i. i mod 3 = 2 \<longrightarrow> t ! i = t ! 2) [0..<17] \<and>
      ds = utf8s (filter (\<lambda>c. c mod 256 \<noteq> of_char (t ! 2)) (chars t))"
    using assms unfolding mac_digits_def Let_def if_not_P [OF False] by (simp split: if_split_asm)
  then show thesis by (intro that(2) [of "t ! 2"]) blast+
qed

lemma mac_digits_dashed:
  assumes "length ds = 12" and "list_all is_hexdigit ds" and sep: "sep = CHR '':'' \<or> sep = CHR ''-''"
  shows "mac_digits (dashed sep ds) = Some ds"
proof -
  obtain a b c d e f g h i j k l where ds: "ds = [a, b, c, d, e, f, g, h, i, j, k, l]"
    using assms(1) by (rule length_dashed12)
  have lo: "list_all (\<lambda>c. (of_char c :: nat) < 128) ds" and no: "sep \<notin> set ds"
    using assms(2) sep hexdigit_char by (auto simp: list_all_iff)
  let ?s = "dashed sep ds"
  have small: "of_char sep < (128 :: nat)" using sep by auto
  have asc: "list_all (\<lambda>c. (of_char c :: nat) < 128) ?s" using lo small by (simp add: list_all_dashed)
  have "filter (\<lambda>c. c mod 256 \<noteq> of_char sep) (map of_char ?s) = map (of_char :: char \<Rightarrow> nat) (filter (\<lambda>x. x \<noteq> sep) ?s)"
    by (simp add: filter_map comp_def)
  then have "utf8s (filter (\<lambda>c. c mod 256 \<noteq> of_char sep) (chars ?s)) = ds"
    using asc lo by (simp add: chars_ascii utf8s_ascii filter_sep_dashed [OF no])
  moreover have "?s ! 2 = sep" "length ?s = 17" by (simp_all add: ds)
  moreover have "list_all (\<lambda>i. i mod 3 = 2 \<longrightarrow> ?s ! i = sep) [0..<17]" by (simp add: ds upt_rec)
  ultimately show ?thesis using sep by (simp add: mac_digits_def Let_def)
qed

lemma is_text_trim: "is_text s \<Longrightarrow> is_text (str_trim s)"
  unfolding str_trim_def by (intro is_text_utf8s list_all_trim_by) (simp add: is_text_def)

lemma mac_parse_iff:
  assumes "is_text s"
  shows "mac_parse s = Some m \<longleftrightarrow> mac_ok m \<and> mac_spelt (str_trim s) m"
proof
  let ?t = "str_trim s"
  assume "mac_parse s = Some m"
  then obtain ds where d: "mac_digits ?t = Some ds" "mac_of_digits ds = Some m"
    by (auto simp: mac_parse_def bind_eq_Some_conv)
  then have m: "mac_ok m" "map upper ds = concat (map hex2_upper (mac_bytes m))" by (simp_all add: mac_of_digits_iff)
  have d12: "length ds = 12" "list_all is_hexdigit ds" using upper_digits [OF m(2)] m(1) by (simp_all add: mac_ok_def)
  from d(1) have "?t = ds \<or> ?t = dashed (CHR '':'') ds \<or> ?t = dashed (CHR ''-'') ds"
  proof (cases rule: mac_digits_cases)
    case (2 sep)
    then have "?t = dashed sep ds" by (rule dashed_of_filter [OF is_text_trim [OF assms] _ _ _ _ d12])
    with 2(2) show ?thesis by blast
  qed simp
  with m show "mac_ok m \<and> mac_spelt ?t m" unfolding mac_spelt_def by blast
next
  let ?t = "str_trim s"
  assume m: "mac_ok m \<and> mac_spelt ?t m"
  then obtain ds where up: "map upper ds = concat (map hex2_upper (mac_bytes m))"
    and t: "?t = ds \<or> ?t = dashed (CHR '':'') ds \<or> ?t = dashed (CHR ''-'') ds"
    by (auto simp: mac_spelt_def)
  have d12: "length ds = 12" "list_all is_hexdigit ds" using upper_digits [OF up] m by (simp_all add: mac_ok_def)
  have "mac_digits ds = Some ds" using d12(1) by (simp add: mac_digits_def)
  then have "mac_digits ?t = Some ds"
    using t mac_digits_dashed [OF d12] by metis
  then show "mac_parse s = Some m" using m up by (simp add: mac_parse_def mac_of_digits_iff)
qed

lemma upper_hex_upper: "map upper (concat (map hex2_upper bs)) = concat (map hex2_upper bs)"
proof (induction bs)
  case (Cons b bs)
  have d: "upper (hex_digit_upper n) = hex_digit_upper n" if "n < 16" for n
    using that by (auto simp: upper_def hex_digit_upper_def)
  have "unat b div 16 < 16" using unat_u8_less [of b] by (simp add: less_mult_imp_div_less)
  with Cons d show ?case by (simp add: hex2_upper_def [of b])
qed simp

subsection \<open>Lemmas: the choice of a board\<close>

lemma sorted_distinct_dedup: "sorted xs \<Longrightarrow> distinct (remdups_adj xs)"
proof (induction xs rule: remdups_adj.induct)
  case (3 x y xs)
  then show ?case by (cases "x = y") (auto dest: order.antisym)
qed simp_all

lemma usb_macs_spec: "sorted (usb_macs usb)" "distinct (usb_macs usb)" "set (usb_macs usb) = {m. on_usb usb m}"
proof -
  let ?ms = "List.map_filter (\<lambda>d. Option.bind (ud_serial d) mac_parse) (filter (\<lambda>d. ud_vid d = ESPRESSIF_VID) usb)"
  show "sorted (usb_macs usb)" unfolding usb_macs_def by (rule sorted_remdups_adj) simp
  show "distinct (usb_macs usb)" unfolding usb_macs_def by (rule sorted_distinct_dedup) simp
  have "set ?ms = {m. on_usb usb m}" unfolding on_usb_def by (force simp: map_filter_def image_iff)
  then show "set (usb_macs usb) = {m. on_usb usb m}" by (simp add: usb_macs_def)
qed

definition plugged :: "usb_device list \<Rightarrow> net_board list \<Rightarrow> net_board list" where
  "plugged usb net = sort_key nb_mac (here_loop (usb_macs usb) [] net)"

lemma here_loop_distinct: "distinct (map nb_mac here) \<Longrightarrow> distinct (map nb_mac (here_loop local here net))"
  by (induction local here net rule: here_loop.induct) (auto simp: list_ex_iff image_iff eq_commute)

lemma here_loop_subset: "set (here_loop local here net) \<subseteq> set here \<union> set net"
  by (induction local here net rule: here_loop.induct) auto

lemma here_loop_macs:
  "nb_mac ` set (here_loop local here net) = nb_mac ` set here \<union> (nb_mac ` set net \<inter> set local)"
proof (induction local here net rule: here_loop.induct)
  case (2 local here b bs)
  show ?case
  proof (cases "nb_mac b \<in> set local \<and> \<not> list_ex (\<lambda>h. nb_mac h = nb_mac b) here")
    case True
    then show ?thesis using 2(1) by auto
  next
    case False
    then have "nb_mac b \<in> set local \<Longrightarrow> nb_mac b \<in> nb_mac ` set here" by (auto simp: list_ex_iff image_iff eq_commute)
    then show ?thesis using 2(2) [OF False] False by (simp only: here_loop.simps if_False list.set image_insert) blast
  qed
qed simp

lemma plugged_spec:
  "distinct (map nb_mac (plugged usb net))" "sorted (map nb_mac (plugged usb net))"
  "set (plugged usb net) \<subseteq> set net" "nb_mac ` set (plugged usb net) = {m. on_usb usb m} \<inter> nb_mac ` set net"
proof -
  let ?h = "here_loop (usb_macs usb) [] net"
  have "mset (map nb_mac (plugged usb net)) = mset (map nb_mac ?h)" by (simp add: plugged_def)
  moreover have "distinct (map nb_mac ?h)" by (simp add: here_loop_distinct)
  ultimately show "distinct (map nb_mac (plugged usb net))" by (metis mset_eq_imp_distinct_iff)
  show "sorted (map nb_mac (plugged usb net))" by (simp add: plugged_def)
  show "set (plugged usb net) \<subseteq> set net" using here_loop_subset [of "usb_macs usb" "[]" net] by (auto simp: plugged_def)
  show "nb_mac ` set (plugged usb net) = {m. on_usb usb m} \<inter> nb_mac ` set net"
    using here_loop_macs [of "usb_macs usb" "[]" net] by (auto simp: plugged_def usb_macs_spec(3))
qed

lemma select_plugged:
  "select usb net remembered =
     (case plugged usb net of
        [b] \<Rightarrow> Board b
      | [] \<Rightarrow> (if net = [] \<and> length (usb_macs usb) = 1 then NotOnNetwork (hd (usb_macs usb)) else NotPluggedIn (length net))
      | _ \<Rightarrow> (case Option.bind remembered (\<lambda>m. find (\<lambda>b. nb_mac b = m) (plugged usb net)) of
                Some b \<Rightarrow> Board b | None \<Rightarrow> Choose (plugged usb net)))"
proof -
  have sel: "select usb net remembered = (case plugged usb net of
      [b] \<Rightarrow> Board b
    | [] \<Rightarrow> (case filter (\<lambda>m. \<not> list_ex (\<lambda>b. nb_mac b = m) net) (usb_macs usb) of
               [m] \<Rightarrow> if net = [] then NotOnNetwork m else NotPluggedIn (length net)
             | _ \<Rightarrow> NotPluggedIn (length net))
    | _ \<Rightarrow> (case Option.bind remembered (\<lambda>m. find (\<lambda>b. nb_mac b = m) (plugged usb net)) of
              Some b \<Rightarrow> Board b | None \<Rightarrow> Choose (plugged usb net)))"
    unfolding select_def Let_def plugged_def ..
  have "(case filter (\<lambda>m. \<not> list_ex (\<lambda>b. nb_mac b = m) net) (usb_macs usb) of
               [m] \<Rightarrow> if net = [] then NotOnNetwork m else NotPluggedIn (length net)
             | _ \<Rightarrow> NotPluggedIn (length net)) =
      (if net = [] \<and> length (usb_macs usb) = 1 then NotOnNetwork (hd (usb_macs usb)) else NotPluggedIn (length net))"
    by (cases "net = []") (auto split: list.split)
  then show ?thesis unfolding sel by (simp only:)
qed

lemma replicate6: "replicate 6 x = [x, x, x, x, x, x]"
  by (simp add: numeral_eq_Suc)

subsection \<open>Properties\<close>

text \<open>C14. The addresses \<open>Mac::parse\<close> accepts are exactly the three spellings (bare, with colons, with
  dashes; digits in either case, white space around) of a six-byte address that is not all zeros or
  all ones, and it returns that address.\<close>

theorem mac_parse_spec:
  assumes "is_text s"
  shows "mac_parse s = Some m \<longleftrightarrow> mac_ok m \<and> mac_spelt (str_trim s) m"
  by (rule mac_parse_iff [OF assms])

theorem mac_parse_spec_witness:
  "mac_parse ''dc:b4:d9:09:f7:c8'' = Some (Mac [0xDC, 0xB4, 0xD9, 0x09, 0xF7, 0xC8])"
proof -
  let ?s = "''dc:b4:d9:09:f7:c8''" and ?m = "Mac [0xDC, 0xB4, 0xD9, 0x09, 0xF7, 0xC8]"
  have tr: "str_trim ?s = ?s" by (rule str_trim_ascii_id) (simp_all add: is_whitespace_def)
  have up: "map upper ''dcb4d909f7c8'' = concat (map hex2_upper (mac_bytes ?m))"
    by code_simp
  have "mac_spelt ?s ?m"
    unfolding mac_spelt_def by (intro exI [of _ "''dcb4d909f7c8''"] conjI up) simp
  then show ?thesis
    using mac_parse_spec [of ?s ?m] is_text_ascii [of ?s] by (simp add: tr mac_ok_def replicate6)
qed

lemma mac_hex_parse:
  assumes "hex_ok X" and "mac_ok m"
  shows "mac_parse (mac_hex X m) = Some m"
proof -
  let ?s = "concat (map hex2_upper (mac_bytes m))"
  have hexs: "mac_hex X m = ?s" using assms(1) by (simp add: mac_hex_def hex_ok_def)
  have dig: "list_all is_hexdigit ?s" and len: "length ?s = 12"
    using upper_digits [OF upper_hex_upper [of "mac_bytes m"]] assms(2) by (simp_all add: mac_ok_def)
  then have asc: "list_all (\<lambda>c. (of_char c :: nat) < 128) ?s" by (auto simp: list_all_iff dest: hexdigit_char)
  have "?s \<noteq> []" using len by force
  then have "is_hexdigit (hd ?s)" "is_hexdigit (last ?s)"
    using dig hd_in_set [of ?s] last_in_set [of ?s] unfolding list_all_iff by blast+
  then have "str_trim ?s = ?s"
    by (intro str_trim_ascii_id [OF asc]) (blast dest: hexdigit_char)
  then show ?thesis
    unfolding hexs using assms(2) upper_hex_upper [of "mac_bytes m"]
    by (subst mac_parse_iff [OF is_text_ascii [OF asc]]) (auto simp: mac_spelt_def)
qed

text \<open>An address is printed as one of the spellings it is read from.\<close>

theorem mac_roundtrip:
  assumes "hex_ok X" and "mac_ok m"
  shows "mac_parse (mac_hex X m) = Some m"
  using assms by (rule mac_hex_parse)

theorem mac_roundtrip_witness:
  "mac_parse (mac_hex hex_demo (Mac [1, 2, 3, 4, 5, 6])) = Some (Mac [1, 2, 3, 4, 5, 6])"
  by (rule mac_roundtrip [OF hex_demo_ok]) (simp add: mac_ok_def replicate6)

text \<open>The board that is chosen is on this computer's USB and on the network under the same
  address: it is the only such one, or the one remembered.  A list to choose from holds each such
  address exactly once, in order.  "Not on the network" is said only when nothing answers there and
  exactly one address is on USB; "not plugged in" only when no address is in both places.\<close>

theorem select_sound:
  "case select usb net remembered of
     Board b \<Rightarrow> b \<in> set net \<and> on_usb usb (nb_mac b) \<and>
       (remembered = Some (nb_mac b) \<or> {m. on_usb usb m} \<inter> nb_mac ` set net = {nb_mac b})
   | Choose bs \<Rightarrow> 2 \<le> length bs \<and> set bs \<subseteq> set net \<and> distinct (map nb_mac bs) \<and> sorted (map nb_mac bs) \<and>
       nb_mac ` set bs = {m. on_usb usb m} \<inter> nb_mac ` set net \<and> remembered \<notin> Some ` nb_mac ` set bs
   | NotOnNetwork m \<Rightarrow> net = [] \<and> {m. on_usb usb m} = {m}
   | NotPluggedIn n \<Rightarrow> n = length net \<and> {m. on_usb usb m} \<inter> nb_mac ` set net = {}"
proof (cases "plugged usb net")
  case Nil
  then have none: "{m. on_usb usb m} \<inter> nb_mac ` set net = {}" using plugged_spec(4) [of usb net] by simp
  have "{m. on_usb usb m} = {hd (usb_macs usb)}" if "length (usb_macs usb) = 1"
    using that usb_macs_spec(3) [of usb] by (auto simp: length_Suc_conv)
  with none Nil show ?thesis by (simp add: select_plugged)
next
  case (Cons b bs)
  note p = plugged_spec [of usb net]
  show ?thesis
  proof (cases "bs = []")
    case True
    with Cons p show ?thesis by (auto simp: select_plugged)
  next
    case many: False
    show ?thesis
    proof (cases "Option.bind remembered (\<lambda>m. find (\<lambda>b. nb_mac b = m) (plugged usb net))")
      case None
      then have "select usb net remembered = Choose (plugged usb net)"
        using many Cons by (simp add: select_plugged split: list.split)
      moreover have "remembered \<notin> Some ` nb_mac ` set (plugged usb net)"
        using None by (auto simp: find_None_iff)
      moreover have "2 \<le> length (plugged usb net)" using many by (cases bs) (simp_all add: Cons)
      ultimately show ?thesis using p by simp
    next
      case (Some c)
      then have "select usb net remembered = Board c"
        using many Cons by (simp add: select_plugged split: list.split)
      moreover have "c \<in> set (plugged usb net)" "remembered = Some (nb_mac c)"
        using Some by (auto simp: bind_eq_Some_conv find_Some_iff)
      ultimately show ?thesis using p by auto
    qed
  qed
qed

end
