(* ===== verification/Pairing.thy ===== *)
theory Pairing
  imports Core_Proto
begin

section \<open>Pairing and the proofs that follow it (crates/hidfi-core/src/pairing.rs)\<close>

text \<open>
  The pairing exchange and the messages proofs are made over.  SHA-256, HMAC, HKDF, X25519 and the
  random source are arguments; what the code relies on of them (Diffie-Hellman commutes, digests have
  their length, no collision) is a named hypothesis where a theorem needs it.
\<close>

subsection \<open>Definitions\<close>

record crypto =
  cr_sha256 :: "u8 list \<Rightarrow> u8 list"
  cr_hmac :: "u8 list \<Rightarrow> u8 list \<Rightarrow> u8 list"
  cr_hkdf :: "u8 list \<Rightarrow> u8 list \<Rightarrow> u8 list \<Rightarrow> u8 list"
  cr_public :: "u8 list \<Rightarrow> u8 list"
  cr_dh :: "u8 list \<Rightarrow> u8 list \<Rightarrow> u8 list"
  cr_contributory :: "u8 list \<Rightarrow> bool"

definition NONCE_LEN :: nat where "NONCE_LEN = 16"
definition KEY_LEN :: nat where "KEY_LEN = 32"
definition HKDF_INFO :: "u8 list" where "HKDF_INFO = bytes ''hidfi-companion-v1''"

type_synonym nonce = "u8 list"

datatype pair_error = WeakPeerKey | CommitMismatch

datatype pair_key = PairKey (key_bytes: "u8 list")

definition commit :: "crypto \<Rightarrow> u8 list \<Rightarrow> nonce \<Rightarrow> u8 list" where
  "commit C a_pub n_a = cr_sha256 C (bytes ''hidfi-commit'' @ a_pub @ n_a)"

definition sas :: "crypto \<Rightarrow> u8 list \<Rightarrow> u8 list \<Rightarrow> nonce \<Rightarrow> nonce \<Rightarrow> u32" where
  "sas C a_pub b_pub n_a n_b =
     (let d = cr_sha256 C (bytes ''hidfi-sas'' @ a_pub @ b_pub @ n_a @ n_b) in
      u32_be (d ! 0) (d ! 1) (d ! 2) (d ! 3) mod 1000000)"

definition format_code :: "u32 \<Rightarrow> string" where
  "format_code code =
     (let d = dec (unat (code mod 1000000)) in replicate (6 - length d) (CHR ''0'') @ d)"

definition derive_key :: "crypto \<Rightarrow> u8 list \<Rightarrow> u8 list \<Rightarrow> u8 list \<Rightarrow> nonce \<Rightarrow> nonce \<Rightarrow> pair_key" where
  "derive_key C shared a_pub b_pub n_a n_b =
     PairKey (cr_hkdf C (cr_sha256 C (a_pub @ b_pub @ n_a @ n_b)) shared HKDF_INFO)"

definition hmac :: "crypto \<Rightarrow> pair_key \<Rightarrow> u8 list \<Rightarrow> u8 list" where
  "hmac C k msg = cr_hmac C (key_bytes k) msg"

definition beat_message :: "string \<Rightarrow> u16 \<Rightarrow> string \<Rightarrow> string \<Rightarrow> string \<Rightarrow> string" where
  "beat_message pid port fp tn chal =
     ''beat|'' @ pid @ ''|'' @ dec (unat port) @ ''|'' @ fp @ ''|'' @ tn @ ''|'' @ chal"

definition beat_mac :: "crypto \<Rightarrow> pair_key \<Rightarrow> string \<Rightarrow> u16 \<Rightarrow> string \<Rightarrow> string \<Rightarrow> string \<Rightarrow> u8 list" where
  "beat_mac C k pid port fp tn chal = hmac C k (bytes (beat_message pid port fp tn chal))"

definition ota_message :: "string \<Rightarrow> string \<Rightarrow> string \<Rightarrow> string \<Rightarrow> string" where
  "ota_message pid act url chal = ''ota|'' @ pid @ ''|'' @ act @ ''|'' @ url @ ''|'' @ chal"

definition ota_mac :: "crypto \<Rightarrow> pair_key \<Rightarrow> string \<Rightarrow> string \<Rightarrow> string \<Rightarrow> string \<Rightarrow> u8 list" where
  "ota_mac C k pid act url chal = hmac C k (bytes (ota_message pid act url chal))"

text \<open>The texts the next three proofs cover, named for the theorems below.\<close>

definition reset_message :: "string \<Rightarrow> string \<Rightarrow> string" where
  "reset_message pid chal = ''reset|'' @ pid @ ''|'' @ chal"

definition reset_mac :: "crypto \<Rightarrow> pair_key \<Rightarrow> string \<Rightarrow> string \<Rightarrow> u8 list" where
  "reset_mac C k pid chal = hmac C k (bytes (reset_message pid chal))"

definition factory_message :: "string \<Rightarrow> string \<Rightarrow> string" where
  "factory_message pid token = ''factory_reset|'' @ pid @ ''|'' @ token"

definition factory_proof :: "crypto \<Rightarrow> pair_key \<Rightarrow> string \<Rightarrow> string \<Rightarrow> u8 list" where
  "factory_proof C k pid token = hmac C k (bytes (factory_message pid token))"

definition ticket_message :: "string \<Rightarrow> string \<Rightarrow> string" where
  "ticket_message tn vn = ''tkt|'' @ tn @ ''|'' @ vn"

definition ticket :: "crypto \<Rightarrow> pair_key \<Rightarrow> string \<Rightarrow> string \<Rightarrow> u8 list" where
  "ticket C k tn vn = hmac C k (bytes (ticket_message tn vn))"

text \<open>\<open>ct_eq\<close> of two slices of the same length: every byte is looked at.\<close>

definition ct_eq :: "u8 list \<Rightarrow> u8 list \<Rightarrow> bool" where
  "ct_eq a b \<longleftrightarrow> length a = length b \<and> fold (\<lambda>(x, y) same. x = y \<and> same) (zip a b) True"

definition ticket_ok :: "crypto \<Rightarrow> pair_key \<Rightarrow> string \<Rightarrow> string \<Rightarrow> u8 list \<Rightarrow> bool" where
  "ticket_ok C k tn vn presented =
     (let want = ticket C k tn vn in length presented = length want \<and> ct_eq want presented)"

record initiator =
  in_secret :: "u8 list"
  in_a_pub :: "u8 list"
  in_n_a :: nonce

record confirmed =
  cf_code :: u32
  cf_key :: pair_key
  cf_n_a :: nonce

definition initiator_from_parts :: "crypto \<Rightarrow> u8 list \<Rightarrow> nonce \<Rightarrow> initiator" where
  "initiator_from_parts C secret n_a = \<lparr>in_secret = secret, in_a_pub = cr_public C secret, in_n_a = n_a\<rparr>"

text \<open>\<open>new\<close>: what the random source gives for the seed and the nonce, or its failure.\<close>

definition initiator_new :: "crypto \<Rightarrow> u8 list option \<Rightarrow> u8 list option \<Rightarrow> initiator option" where
  "initiator_new C r1 r2 =
     (case r1 of
        None \<Rightarrow> None
      | Some seed \<Rightarrow> (case r2 of None \<Rightarrow> None | Some n_a \<Rightarrow> Some (initiator_from_parts C seed n_a)))"

definition initiator_commit :: "crypto \<Rightarrow> initiator \<Rightarrow> u8 list" where
  "initiator_commit C i = commit C (in_a_pub i) (in_n_a i)"

definition complete :: "crypto \<Rightarrow> initiator \<Rightarrow> u8 list \<Rightarrow> nonce \<Rightarrow> pair_error + confirmed" where
  "complete C i b_pub n_b =
     (let shared = cr_dh C (in_secret i) b_pub in
      if \<not> cr_contributory C shared then Inl WeakPeerKey
      else Inr \<lparr>cf_code = sas C (in_a_pub i) b_pub (in_n_a i) n_b,
             cf_key = derive_key C shared (in_a_pub i) b_pub (in_n_a i) n_b, cf_n_a = in_n_a i\<rparr>)"

record responder =
  re_secret :: "u8 list"
  re_b_pub :: "u8 list"
  re_n_b :: nonce

definition responder_from_parts :: "crypto \<Rightarrow> u8 list \<Rightarrow> nonce \<Rightarrow> responder" where
  "responder_from_parts C secret n_b = \<lparr>re_secret = secret, re_b_pub = cr_public C secret, re_n_b = n_b\<rparr>"

definition finish :: "crypto \<Rightarrow> responder \<Rightarrow> u8 list \<Rightarrow> u8 list \<Rightarrow> nonce \<Rightarrow> pair_error + u32 \<times> pair_key" where
  "finish C r a_pub commitment n_a =
     (if \<not> ct_eq (commit C a_pub n_a) commitment then Inl CommitMismatch
      else
        let shared = cr_dh C (re_secret r) a_pub in
        if \<not> cr_contributory C shared then Inl WeakPeerKey
        else Inr (sas C a_pub (re_b_pub r) n_a (re_n_b r), derive_key C shared a_pub (re_b_pub r) n_a (re_n_b r)))"

text \<open>What the theorems rely on of the cryptography.\<close>

definition dh_commutes :: "crypto \<Rightarrow> bool" where
  "dh_commutes C \<longleftrightarrow> (\<forall>a b. cr_dh C a (cr_public C b) = cr_dh C b (cr_public C a))"

definition no_collision :: "crypto \<Rightarrow> u8 list \<Rightarrow> u8 list \<Rightarrow> bool" where
  "no_collision C m m' \<longleftrightarrow> (cr_sha256 C m = cr_sha256 C m' \<longrightarrow> m = m')"

definition no_bar :: "string \<Rightarrow> bool" where
  "no_bar s \<longleftrightarrow> CHR ''|'' \<notin> set s"

text \<open>A toy instance of the cryptography, for the examples: one-byte keys that add up.\<close>

definition toy_crypto :: crypto where
  "toy_crypto = \<lparr>cr_sha256 = \<lambda>m. m, cr_hmac = \<lambda>k m. k @ m, cr_hkdf = \<lambda>s i f. s @ i @ f, cr_public = \<lambda>a. [sum_list a],
     cr_dh = \<lambda>a p. [sum_list a + sum_list p], cr_contributory = \<lambda>s. s \<noteq> [0]\<rparr>"

subsection \<open>Lemmas\<close>

lemma ct_eq_iff: "ct_eq a b \<longleftrightarrow> a = b"
proof -
  have f: "fold (\<lambda>(x, y) same. x = y \<and> same) ps acc \<longleftrightarrow> acc \<and> (\<forall>(x, y) \<in> set ps. x = y)" for ps :: "(u8 \<times> u8) list" and acc
    by (induction ps arbitrary: acc) auto
  show ?thesis
    by (auto simp: ct_eq_def f list_eq_iff_zip_eq)
qed

lemma bar_inj:
  assumes "no_bar a" and "no_bar a'"
  shows "a @ CHR ''|'' # b = a' @ CHR ''|'' # b' \<longleftrightarrow> a = a' \<and> b = b'"
proof
  assume eq: "a @ CHR ''|'' # b = a' @ CHR ''|'' # b'"
  have t: "takeWhile (\<lambda>c. c \<noteq> CHR ''|'') (x @ CHR ''|'' # y) = x" if "no_bar x" for x y
    using that by (subst takeWhile_append2) (auto simp: no_bar_def)
  have "a = a'" using t [OF assms(1), of b] t [OF assms(2), of b'] eq by metis
  with eq show "a = a' \<and> b = b'" by simp
qed simp

lemma bar_inj_last:
  assumes "no_bar b" and "no_bar b'"
  shows "a @ CHR ''|'' # b = a' @ CHR ''|'' # b' \<longleftrightarrow> a = a' \<and> b = b'"
proof -
  have "a @ CHR ''|'' # b = a' @ CHR ''|'' # b' \<longleftrightarrow> rev (a @ CHR ''|'' # b) = rev (a' @ CHR ''|'' # b')"
    by (rule rev_is_rev_conv [symmetric])
  also have "\<dots> \<longleftrightarrow> rev b = rev b' \<and> rev a = rev a'"
    using bar_inj [of "rev b" "rev b'" "rev a" "rev a'"] assms by (simp add: no_bar_def)
  finally show ?thesis by auto
qed

lemma no_bar_dec [simp]: "no_bar (dec n)"
  using dec_digits [of n] by (auto simp: no_bar_def list_all_iff is_digit_def)

lemma bytes_inj [simp]: "bytes a = bytes b \<longleftrightarrow> a = b"
  by (metis map_chr_bytes)

lemma sas_small: "unat (sas C a b n m) < 1000000"
  unfolding sas_def Let_def by (simp add: unat_mod_distrib)

lemma ota_message_inj:
  assumes "no_bar pid" "no_bar pid'" "no_bar act" "no_bar act'" "no_bar chal" "no_bar chal'"
  shows "ota_message pid act url chal = ota_message pid' act' url' chal' \<longleftrightarrow>
    pid = pid' \<and> act = act' \<and> url = url' \<and> chal = chal'"
  using bar_inj [OF assms(1,2)] bar_inj [OF assms(3,4)] bar_inj_last [OF assms(5,6)]
  by (simp add: ota_message_def)

lemma beat_message_inj:
  assumes "no_bar pid" "no_bar pid'" "no_bar fp" "no_bar fp'" "no_bar tn" "no_bar tn'"
  shows "beat_message pid port fp tn chal = beat_message pid' port' fp' tn' chal' \<longleftrightarrow>
    pid = pid' \<and> port = port' \<and> fp = fp' \<and> tn = tn' \<and> chal = chal'"
  using bar_inj [OF assms(1,2)] bar_inj [OF no_bar_dec no_bar_dec] bar_inj [OF assms(3,4)] bar_inj [OF assms(5,6)]
  by (simp add: beat_message_def word_unat_eq_iff)

lemma pair_message_inj:
  assumes "no_bar a" "no_bar a'"
  shows "reset_message a b = reset_message a' b' \<longleftrightarrow> a = a' \<and> b = b'"
    and "factory_message a b = factory_message a' b' \<longleftrightarrow> a = a' \<and> b = b'"
    and "ticket_message a b = ticket_message a' b' \<longleftrightarrow> a = a' \<and> b = b'"
  using bar_inj [OF assms] by (simp_all add: reset_message_def factory_message_def ticket_message_def)

lemma toy_dh: "dh_commutes toy_crypto"
  by (simp add: dh_commutes_def toy_crypto_def add.commute)

subsection \<open>Properties\<close>

text \<open>C12. An honest exchange agrees: the board, given the app's key, the commitment from its hello and
  the revealed nonce, accepts, and both hold the same code and the same key; and when one side refuses
  the shared secret as weak, so does the other.\<close>

theorem pairing_agrees:
  fixes sa na sb nb :: "u8 list"
  assumes "dh_commutes C"
  defines "I \<equiv> initiator_from_parts C sa na" and "R \<equiv> responder_from_parts C sb nb"
  shows "finish C R (in_a_pub I) (initiator_commit C I) na =
    (case complete C I (re_b_pub R) (re_n_b R) of
       Inl e \<Rightarrow> Inl e | Inr c \<Rightarrow> Inr (cf_code c, cf_key c))"
  using assms(1)
  by (simp add: finish_def complete_def I_def R_def initiator_from_parts_def responder_from_parts_def
      initiator_commit_def ct_eq_iff dh_commutes_def Let_def)

theorem pairing_agrees_witness:
  "\<exists>c. complete toy_crypto (initiator_from_parts toy_crypto [1] [2]) (re_b_pub (responder_from_parts toy_crypto [3] [4])) [4] = Inr c \<and>
     finish toy_crypto (responder_from_parts toy_crypto [3] [4]) (in_a_pub (initiator_from_parts toy_crypto [1] [2]))
       (initiator_commit toy_crypto (initiator_from_parts toy_crypto [1] [2])) [2] = Inr (cf_code c, cf_key c)"
proof -
  let ?I = "initiator_from_parts toy_crypto [1] [2]" and ?R = "responder_from_parts toy_crypto [3] [4]"
  have n: "re_n_b ?R = [4]" by (simp add: responder_from_parts_def)
  obtain c where c: "complete toy_crypto ?I (re_b_pub ?R) [4] = Inr c"
    by (simp add: complete_def toy_crypto_def initiator_from_parts_def responder_from_parts_def Let_def)
  show ?thesis
    using pairing_agrees [OF toy_dh, of "[3]" "[4]" "[1]" "[2]"] c unfolding n by auto
qed

text \<open>The commitment binds: a board that was given the commitment to one nonce refuses every
  other nonce, unless the two make SHA-256 collide; no code and no key comes of it.\<close>

theorem commitment_binds:
  assumes "no_collision C (bytes ''hidfi-commit'' @ a_pub @ n_a) (bytes ''hidfi-commit'' @ a_pub @ n_a')"
    and "n_a' \<noteq> n_a"
  shows "finish C r a_pub (commit C a_pub n_a) n_a' = Inl CommitMismatch"
  using assms by (auto simp: finish_def ct_eq_iff commit_def no_collision_def)

theorem commitment_binds_witness:
  "finish toy_crypto (responder_from_parts toy_crypto [3] [4]) [1] (commit toy_crypto [1] [2]) [5] = Inl CommitMismatch"
  by (rule commitment_binds) (simp_all add: no_collision_def toy_crypto_def)

text \<open>The code is below a million and is always shown as exactly six decimal digits, which read
  back as the code.\<close>

theorem code_six_digits:
  "unat (sas C a_pub b_pub n_a n_b) < 1000000 \<and> length (format_code (sas C a_pub b_pub n_a n_b)) = 6 \<and>
   list_all is_digit (format_code (sas C a_pub b_pub n_a n_b)) \<and>
   undec (format_code (sas C a_pub b_pub n_a n_b)) = unat (sas C a_pub b_pub n_a n_b)"
proof -
  let ?s = "sas C a_pub b_pub n_a n_b"
  have small: "unat ?s < 1000000" by (rule sas_small)
  have "unat (?s mod 1000000) = unat ?s" using small by (simp add: unat_mod_distrib)
  then have f: "format_code ?s = replicate (6 - length (dec (unat ?s))) (CHR ''0'') @ dec (unat ?s)"
    by (simp add: format_code_def Let_def)
  have "length (dec (unat ?s)) \<le> 6" using dec_length [of "unat ?s" 5] small by simp
  then show ?thesis
    using small dec_digits [of "unat ?s"] unfolding f by (auto simp: undec_zeros list_all_iff is_digit_def)
qed

text \<open>C13. The texts that proofs are made over never coincide: two heartbeats, two update requests, two
  resets, two factory resets or two tickets with the same text have the same fields, whatever an update
  URL holds, as long as the other fields have no bar; and texts of different kinds always differ.\<close>

theorem proof_texts_unambiguous:
  assumes "no_bar pid" "no_bar pid'" "no_bar fp" "no_bar fp'" "no_bar tn" "no_bar tn'" "no_bar act" "no_bar act'"
    "no_bar chal" "no_bar chal'"
  shows "(beat_message pid port fp tn chal = beat_message pid' port' fp' tn' chal' \<longleftrightarrow>
      (pid, port, fp, tn, chal) = (pid', port', fp', tn', chal')) \<and>
    (ota_message pid act url chal = ota_message pid' act' url' chal' \<longleftrightarrow>
      (pid, act, url, chal) = (pid', act', url', chal')) \<and>
    (reset_message pid chal = reset_message pid' chal' \<longleftrightarrow> (pid, chal) = (pid', chal')) \<and>
    (factory_message pid chal = factory_message pid' chal' \<longleftrightarrow> (pid, chal) = (pid', chal')) \<and>
    (ticket_message tn chal = ticket_message tn' chal' \<longleftrightarrow> (tn, chal) = (tn', chal')) \<and>
    distinct [beat_message pid port fp tn chal, ota_message pid' act url chal', reset_message pid chal,
      factory_message pid' chal', ticket_message tn' chal]"
  using beat_message_inj [OF assms(1-6)] ota_message_inj [OF assms(1,2,7-10)] pair_message_inj [OF assms(1,2)]
    pair_message_inj [OF assms(5,6)]
  by (simp add: beat_message_def ota_message_def reset_message_def factory_message_def ticket_message_def)

theorem proof_texts_unambiguous_witness:
  "ota_message ''ab'' ''from'' ''http://x|y'' ''00'' \<noteq> ota_message ''ab'' ''from'' ''http://x'' ''00''"
  using proof_texts_unambiguous [of "''ab''" "''ab''" "[]" "[]" "[]" "[]" "''from''" "''from''" "''00''" "''00''" 0 0
      "''http://x|y''" "''http://x''"]
  by (simp add: no_bar_def)

text \<open>A presented ticket is accepted exactly when it is the one computed for its nonces: the
  constant-time comparison agrees with equality, lengths included.\<close>

theorem ticket_ok_iff:
  "ticket_ok C k tn vn presented \<longleftrightarrow> presented = hmac C k (bytes (''tkt|'' @ tn @ ''|'' @ vn))"
  by (auto simp: ticket_ok_def ct_eq_iff ticket_def ticket_message_def Let_def)

end
