(* ===== verification/Ota_Release.thy ===== *)
theory Ota_Release
  imports Core_Proto "HOL-Library.Product_Lexorder" "HOL-Library.AList"
begin

section \<open>Releases: what is ours, what is newer (crates/hidfi-core/src/ota.rs)\<close>

text \<open>
  The signed manifest of a release, how it is read, and what each board needs.  The JSON text, the
  hex crate, SHA-256 and the P-256 signature check are arguments.  A version is a triple with its
  lexicographic order.
\<close>

subsection \<open>Definitions: signatures\<close>

definition COMP_API_MIN :: u32 where "COMP_API_MIN = 1"
definition COMP_API_MAX :: u32 where "COMP_API_MAX = 1"

definition RELEASE_KEYS :: "u8 list list" where
  "RELEASE_KEYS =
     [[0x04, 0x49, 0x4d, 0xff, 0xb5, 0x37, 0x85, 0x0e, 0xc4, 0x15, 0x07, 0x0e, 0x75, 0x8b, 0x1a,
       0x62, 0x95, 0x97, 0x84, 0xdd, 0x22, 0xea, 0xb1, 0x75, 0x6c, 0xc6, 0x35, 0xd7, 0xed, 0xc6,
       0xe3, 0xa0, 0xaf, 0x76, 0xbb, 0x12, 0x4b, 0x6b, 0xe9, 0xe8, 0xff, 0x66, 0x4e, 0x82, 0xa2,
       0x15, 0x09, 0xbc, 0xe0, 0x35, 0xf7, 0x6b, 0x01, 0x24, 0x1c, 0xa5, 0x47, 0xd4, 0x3e, 0xcb,
       0x8b, 0x89, 0x5d, 0x7d, 0xa3],
      [0x04, 0xee, 0x56, 0xa3, 0x2e, 0xd7, 0x96, 0x65, 0xf6, 0xf4, 0x58, 0x0e, 0xc7, 0xcd, 0xf8,
       0x1b, 0x84, 0xbb, 0x5d, 0x28, 0xd3, 0x4b, 0x22, 0x94, 0xd2, 0x4a, 0xbd, 0x16, 0x93, 0x4d,
       0xb8, 0x1f, 0x2f, 0xed, 0xea, 0xa7, 0x7b, 0xfa, 0x9c, 0x89, 0x0f, 0xc5, 0x0c, 0xe4, 0xc4,
       0x67, 0xce, 0x14, 0x3d, 0xab, 0x88, 0xc4, 0x99, 0xec, 0x05, 0x39, 0x56, 0x97, 0xec, 0xcc,
       0x9f, 0x50, 0x57, 0xe2, 0x9a]]"

text \<open>The P-256 crate: which bytes are a signature, which are a public key, and the check.\<close>

record p256 =
  p_sig_ok :: "u8 list \<Rightarrow> bool"
  p_key_ok :: "u8 list \<Rightarrow> bool"
  p_verify :: "u8 list \<Rightarrow> u8 list \<Rightarrow> u8 list \<Rightarrow> bool"

record ota_env =
  oe_json :: codec
  oe_hex :: hex_crate
  oe_sha256 :: "u8 list \<Rightarrow> u8 list"
  oe_p256 :: p256

record manifest_sig =
  ms_key_id :: string
  ms_sig :: string

definition key_id :: "ota_env \<Rightarrow> u8 list \<Rightarrow> string" where
  "key_id V k = hx_encode (oe_hex V) (take 8 (oe_sha256 V k))"

fun verify_keys :: "ota_env \<Rightarrow> u8 list \<Rightarrow> string \<Rightarrow> u8 list \<Rightarrow> u8 list list \<Rightarrow> bool" where
  "verify_keys V manifest kid raw [] = False"
| "verify_keys V manifest kid raw (k # ks) =
     (if key_id V k \<noteq> kid then verify_keys V manifest kid raw ks
      else if \<not> p_key_ok (oe_p256 V) k then False
      else p_verify (oe_p256 V) k manifest raw)"

definition verify_manifest :: "ota_env \<Rightarrow> u8 list \<Rightarrow> manifest_sig \<Rightarrow> u8 list list \<Rightarrow> bool" where
  "verify_manifest V manifest sg trusted =
     (case hx_decode (oe_hex V) (ms_sig sg) of
        None \<Rightarrow> False
      | Some raw \<Rightarrow>
          if length raw \<noteq> 64 \<or> manifest = [] then False
          else if \<not> p_sig_ok (oe_p256 V) raw then False
          else verify_keys V manifest (ms_key_id sg) raw trusted)"

subsection \<open>Definitions: versions\<close>

type_synonym version = "nat \<times> nat \<times> nat"

definition version_part :: "string \<Rightarrow> nat option" where
  "version_part p =
     (if p = [] \<or> 6 < length p \<or> \<not> list_all is_digit p then None else parse_uint 32 p)"

definition version_core :: "string \<Rightarrow> string" where
  "version_core s =
     (let t0 = (case rsplit_once ''_v'' s of Some (_, r) \<Rightarrow> r | None \<Rightarrow> s);
          t = (case strip_prefix ''v'' t0 of
                 Some r \<Rightarrow> r
               | None \<Rightarrow> (case strip_prefix ''V'' t0 of Some r \<Rightarrow> r | None \<Rightarrow> t0))
      in hd (split_by (\<lambda>c. c = CHR ''-'' \<or> c = CHR ''+'') t))"

definition parse_version :: "string \<Rightarrow> version option" where
  "parse_version s =
     (let parts = split_by (\<lambda>c. c = CHR ''.'') (version_core s) in
      if length parts < 2 \<or> 3 < length parts then None
      else
        let n = map version_part parts in
        if None \<in> set n then None
        else Some (the (n ! 0), the (n ! 1), if length n = 3 then the (n ! 2) else 0))"

definition plain_version :: "string \<Rightarrow> version option" where
  "plain_version s =
     (if s = [] \<or> \<not> list_all (\<lambda>c. is_digit c \<or> c = CHR ''.'') s then None else parse_version s)"

subsection \<open>Definitions: what a board needs\<close>

record board_status =
  bs_firmware :: "string option"
  bs_comp_api :: "u32 option"
  bs_ota_layout :: "string option"
  bs_ota_state :: "string option"
  bs_ota_result :: "string option"

record latest =
  lt_firmware :: string
  lt_board_comp_api :: "u32 \<times> u32"
  lt_companion :: "string option"

datatype verdict =
    UpToDate
  | Verifying
  | BoardUpdate string bool
  | CompanionUpdate string
  | UpdateBoardFirst
  | UpdateCompanionFirst
  | Unknown

text \<open>The three parts of \<open>verdicts\<close>, in the order they are pushed.\<close>

definition api_verdict :: "board_status \<Rightarrow> verdict list" where
  "api_verdict board =
     (let api = (case bs_comp_api board of Some a \<Rightarrow> a | None \<Rightarrow> 1) in
      if api < COMP_API_MIN then [UpdateBoardFirst]
      else if COMP_API_MAX < api then [UpdateCompanionFirst] else [])"

definition board_verdict :: "board_status \<Rightarrow> version \<Rightarrow> latest \<Rightarrow> verdict list" where
  "board_verdict board fw l =
     (case parse_version (lt_firmware l) of
        Some to \<Rightarrow> if fw < to
          then [BoardUpdate (lt_firmware l) (bs_ota_layout board \<noteq> Some ''two_slot'')] else []
      | None \<Rightarrow> [])"

definition companion_verdict :: "string \<Rightarrow> latest \<Rightarrow> verdict list" where
  "companion_verdict this_companion l =
     (case (lt_companion l, parse_version this_companion) of
        (Some c, Some me) \<Rightarrow>
          (case parse_version c of
             Some v \<Rightarrow> if me < v then [CompanionUpdate c] else []
           | None \<Rightarrow> [])
      | _ \<Rightarrow> [])"

definition verdicts :: "board_status \<Rightarrow> string \<Rightarrow> latest option \<Rightarrow> verdict list" where
  "verdicts board this_companion latest =
     (case Option.bind (bs_firmware board) parse_version of
        None \<Rightarrow> [Unknown]
      | Some fw \<Rightarrow>
          if bs_ota_state board = Some ''pending_verify'' then [Verifying]
          else
            let out = api_verdict board @
                  (case latest of
                     None \<Rightarrow> []
                   | Some l \<Rightarrow> board_verdict board fw l @ companion_verdict this_companion l)
            in if out = [] then [UpToDate] else out)"

subsection \<open>Definitions: the manifest\<close>

record asset =
  as_name :: string
  as_size :: u64
  as_sha256 :: string

record changelog_section =
  cl_version :: string
  cl_text :: string

record companion_release =
  cr_version :: string
  cr_assets :: "(string \<times> asset) list"

record api_range =
  ar_min :: u32
  ar_max :: u32

record ota_release =
  or_format :: u32
  or_product :: string
  or_chip :: string
  or_version :: string
  or_firmware :: string
  or_released :: string
  or_support_until :: string
  or_image :: asset
  or_min_from :: string
  or_security :: bool
  or_risk :: string
  or_comp_api :: api_range
  or_changelog :: "changelog_section list"
  or_companion :: "companion_release option"
  or_table :: "asset option"

datatype release_error = BadSignature | NotForUs string | ImageMismatch

definition MANIFEST_FORMAT :: u32 where "MANIFEST_FORMAT = 1"
definition MANIFEST_CAP :: nat where "MANIFEST_CAP = 24 * 1024"

text \<open>The derived deserialisers.  The members of the installers' map are kept once each, the last of a
  name winning.\<close>

definition str_field :: "(string \<times> json) list \<Rightarrow> string \<Rightarrow> string option" where
  "str_field ms k = Option.bind (field ms k) as_str"

definition sig_of_json :: "json \<Rightarrow> manifest_sig option" where
  "sig_of_json v =
     (case v of
        JObj ms \<Rightarrow>
          (case (str_field ms ''key_id'', str_field ms ''sig'') of
             (Some k, Some s) \<Rightarrow> Some \<lparr>ms_key_id = k, ms_sig = s\<rparr> | _ \<Rightarrow> None)
      | _ \<Rightarrow> None)"

definition asset_of_json :: "json \<Rightarrow> asset option" where
  "asset_of_json v =
     (case v of
        JObj ms \<Rightarrow>
          (case (str_field ms ''name'', Option.bind (field ms ''size'') as_u64, str_field ms ''sha256'') of
             (Some n, Some s, Some h) \<Rightarrow> Some \<lparr>as_name = n, as_size = s, as_sha256 = h\<rparr> | _ \<Rightarrow> None)
      | _ \<Rightarrow> None)"

definition all_some :: "('a \<Rightarrow> 'b option) \<Rightarrow> 'a list \<Rightarrow> 'b list option" where
  "all_some f xs = (if None \<in> set (map f xs) then None else Some (map (the \<circ> f) xs))"

definition assets_of_json :: "json \<Rightarrow> (string \<times> asset) list option" where
  "assets_of_json v =
     (case v of
        JObj ms \<Rightarrow>
          map_option (\<lambda>kas. fold (\<lambda>(k, a). AList.update k a) kas [])
            (all_some (\<lambda>(k, v). map_option (Pair k) (asset_of_json v)) ms)
      | _ \<Rightarrow> None)"

definition section_of_json :: "json \<Rightarrow> changelog_section option" where
  "section_of_json v =
     (case v of
        JObj ms \<Rightarrow>
          (case (str_field ms ''version'', str_field ms ''text'') of
             (Some a, Some t) \<Rightarrow> Some \<lparr>cl_version = a, cl_text = t\<rparr> | _ \<Rightarrow> None)
      | _ \<Rightarrow> None)"

definition range_of_json :: "json \<Rightarrow> api_range option" where
  "range_of_json v =
     (case v of
        JObj ms \<Rightarrow>
          (case (Option.bind (field ms ''min'') as_u32, Option.bind (field ms ''max'') as_u32) of
             (Some a, Some b) \<Rightarrow> Some \<lparr>ar_min = a, ar_max = b\<rparr> | _ \<Rightarrow> None)
      | _ \<Rightarrow> None)"

definition companion_of_json :: "json \<Rightarrow> companion_release option" where
  "companion_of_json v =
     (case v of
        JObj ms \<Rightarrow>
          (case (str_field ms ''version'', default_field ms ''assets'' assets_of_json []) of
             (Some a, Some t) \<Rightarrow> Some \<lparr>cr_version = a, cr_assets = t\<rparr> | _ \<Rightarrow> None)
      | _ \<Rightarrow> None)"

definition release_of_json :: "json \<Rightarrow> ota_release option" where
  "release_of_json v =
     (case v of
        JObj ms \<Rightarrow>
          (case (Option.bind (field ms ''format'') as_u32, str_field ms ''product'', str_field ms ''chip'',
                 str_field ms ''version'', str_field ms ''firmware'', str_field ms ''released'',
                 str_field ms ''support_until'', Option.bind (field ms ''image'') asset_of_json,
                 str_field ms ''min_from'') of
             (Some f, Some p, Some c, Some v, Some fw, Some d, Some u, Some i, Some m) \<Rightarrow>
               (case (default_field ms ''security'' as_bool False, default_field ms ''risk'' as_str [],
                      Option.bind (field ms ''comp_api'') range_of_json,
                      default_field ms ''changelog'' (\<lambda>v. Option.bind (as_array v) (all_some section_of_json)) [],
                      opt_field ms ''companion'' companion_of_json, opt_field ms ''table'' asset_of_json) of
                  (Some s, Some r, Some a, Some l, Some co, Some t) \<Rightarrow>
                    Some \<lparr>or_format = f, or_product = p, or_chip = c, or_version = v, or_firmware = fw, or_released = d,
                      or_support_until = u, or_image = i, or_min_from = m, or_security = s, or_risk = r,
                      or_comp_api = a, or_changelog = l, or_companion = co, or_table = t\<rparr>
                | _ \<Rightarrow> None)
           | _ \<Rightarrow> None)
      | _ \<Rightarrow> None)"

definition is_sha256_hex :: "string \<Rightarrow> bool" where
  "is_sha256_hex s \<longleftrightarrow> length s = 64 \<and>
     list_all (\<lambda>c. is_digit c \<or> 97 \<le> (of_char c :: nat) \<and> (of_char c :: nat) \<le> 102) s"

definition safe_name :: "string \<Rightarrow> bool" where
  "safe_name s \<longleftrightarrow> s \<noteq> [] \<and> length s \<le> 96 \<and> s \<noteq> ''.'' \<and> s \<noteq> ''..'' \<and>
     list_all (\<lambda>c. is_alnum c \<or> c = CHR ''.'' \<or> c = CHR ''-'' \<or> c = CHR ''_'') s"

definition asset_usable :: "asset \<Rightarrow> bool" where
  "asset_usable a \<longleftrightarrow> is_sha256_hex (as_sha256 a) \<and> as_size a \<noteq> 0 \<and> safe_name (as_name a)"

text \<open>The checks of \<open>read_release\<close> on a parsed manifest, in their order.\<close>

definition check_manifest :: "ota_release \<Rightarrow> release_error + ota_release" where
  "check_manifest r =
     (if or_format r \<noteq> MANIFEST_FORMAT then Inl (NotForUs ''unknown manifest format'')
      else if or_product r \<noteq> ''hid-fi'' \<or> or_chip r \<noteq> ''esp32s3'' then Inl (NotForUs ''not a HID-Fi ESP32-S3 release'')
      else
        case (plain_version (or_version r), plain_version (or_min_from r)) of
          (Some v, Some frm) \<Rightarrow>
            if or_firmware r \<noteq> ''hid_fi_v'' @ or_version r \<or> v \<le> frm then Inl (NotForUs ''inconsistent versions'')
            else if \<not> asset_usable (or_image r) then Inl (NotForUs ''unusable image entry'')
            else if (case or_table r of
                       Some tb \<Rightarrow> \<not> is_sha256_hex (as_sha256 tb) \<or> as_size tb \<noteq> 0xC00 \<or> \<not> safe_name (as_name tb)
                     | None \<Rightarrow> False) then Inl (NotForUs ''unusable table entry'')
            else if (case or_companion r of
                       Some c \<Rightarrow> plain_version (cr_version c) = None \<or>
                         list_ex (\<lambda>(_, a). \<not> asset_usable a) (cr_assets c)
                     | None \<Rightarrow> False) then Inl (NotForUs ''unusable companion entry'')
            else Inr r
        | _ \<Rightarrow> Inl (NotForUs ''unreadable version''))"

definition read_release :: "ota_env \<Rightarrow> u8 list \<Rightarrow> u8 list \<Rightarrow> u8 list list \<Rightarrow> release_error + ota_release" where
  "read_release V manifest sig_file trusted =
     (if MANIFEST_CAP < length manifest then Inl (NotForUs ''manifest too large'')
      else
        case Option.bind (js_parse (oe_json V) (map chr sig_file)) sig_of_json of
          None \<Rightarrow> Inl BadSignature
        | Some sg \<Rightarrow>
            if \<not> verify_manifest V manifest sg trusted then Inl BadSignature
            else
              case Option.bind (js_parse (oe_json V) (map chr manifest)) release_of_json of
                None \<Rightarrow> Inl (NotForUs ''missing field'')
              | Some r \<Rightarrow> check_manifest r)"

definition asset_matches :: "ota_env \<Rightarrow> asset \<Rightarrow> u8 list \<Rightarrow> bool" where
  "asset_matches V a bs \<longleftrightarrow> of_nat (length bs) = as_size a \<and> hx_encode (oe_hex V) (oe_sha256 V bs) = as_sha256 a"

definition release_latest :: "ota_release \<Rightarrow> latest" where
  "release_latest r = \<lparr>lt_firmware = or_version r,
     lt_board_comp_api = (ar_min (or_comp_api r), ar_max (or_comp_api r)),
     lt_companion = map_option cr_version (or_companion r)\<rparr>"

definition reachable_from :: "ota_release \<Rightarrow> string \<Rightarrow> bool" where
  "reachable_from r running =
     (case (parse_version running, parse_version (or_min_from r)) of
        (Some v, Some m) \<Rightarrow> m \<le> v | _ \<Rightarrow> False)"

definition changes_since :: "ota_release \<Rightarrow> string \<Rightarrow> changelog_section list" where
  "changes_since r running =
     (case parse_version running of
        None \<Rightarrow> []
      | Some v \<Rightarrow> filter (\<lambda>s. case parse_version (cl_version s) of Some w \<Rightarrow> v < w | None \<Rightarrow> False) (or_changelog r))"

definition companion_asset :: "ota_release \<Rightarrow> string \<Rightarrow> asset option" where
  "companion_asset r os = Option.bind (or_companion r) (\<lambda>c. map_of (cr_assets c) os)"

subsection \<open>Lemmas: versions\<close>

lemma split_once_first: "p \<noteq> [] \<Longrightarrow> hd p \<notin> set y \<Longrightarrow> split_once p (y @ p @ x) = Some (y, x)"
proof (induction y)
  case Nil
  then show ?case by (cases p) (simp_all add: strip_prefix_def)
next
  case (Cons c y)
  then have "strip_prefix p (c # y @ p @ x) = None" by (cases p) (auto simp: strip_prefix_def)
  with Cons show ?case by simp
qed

lemma split_once_none: "p \<noteq> [] \<Longrightarrow> hd p \<notin> set (butlast y) \<Longrightarrow> length p \<noteq> 1 \<Longrightarrow> split_once p y = None"
proof (induction y)
  case (Cons c y)
  have "strip_prefix p (c # y) = None"
  proof (rule ccontr)
    assume "strip_prefix p (c # y) \<noteq> None"
    then have t: "take (length p) (c # y) = p" by (auto simp: strip_prefix_def split: if_splits)
    obtain d q where p: "p = d # q" "q \<noteq> []" using Cons.prems by (cases p) auto
    then have "c = d" "y \<noteq> []" using t by auto
    then show False using Cons.prems(2) p by simp
  qed
  moreover have "hd p \<notin> set (butlast y)" using Cons.prems(2) by (cases y) auto
  ultimately show ?case using Cons by simp
qed simp

lemma undec_append: "undec (a @ [c]) = 10 * undec a + digit_val c"
  by (simp add: undec_def)

lemma undec_less: "list_all is_digit p \<Longrightarrow> undec p < 10 ^ length p"
proof (induction p rule: rev_induct)
  case (snoc c p)
  then have "digit_val c < 10" "undec p < 10 ^ length p" by (auto simp: is_digit_def digit_val_def)
  then show ?case by (simp add: undec_append)
qed (simp add: undec_def)

lemma version_part_dec: "n < 10 ^ 6 \<Longrightarrow> version_part (dec n) = Some n"
  using dec_length [of n 5] dec_digits [of n] parse_uint_dec [of n 32] by (simp add: version_part_def)

lemma version_part_less: "version_part p = Some n \<Longrightarrow> n < 10 ^ 6"
proof -
  assume v: "version_part p = Some n"
  then have p: "list_all is_digit p" "p \<noteq> []" "length p \<le> 6" and n: "parse_uint 32 p = Some n"
    by (auto simp: version_part_def split: if_splits)
  obtain c r where "p = c # r" using p(2) by (cases p) simp_all
  then have "n = undec p" using n p(1) digit_not_plus by (auto simp: parse_uint_def Let_def split: if_splits)
  also have "\<dots> < 10 ^ length p" using p(1) by (rule undec_less)
  also have "\<dots> \<le> (10 :: nat) ^ 6" using p(3) by (intro power_increasing) simp_all
  finally show ?thesis .
qed

definition dots :: "nat list \<Rightarrow> string" where
  "dots ns = (case ns of [a, b] \<Rightarrow> dec a @ ''.'' @ dec b | [a, b, c] \<Rightarrow> dec a @ ''.'' @ dec b @ ''.'' @ dec c | _ \<Rightarrow> [])"

lemma dec_free: "list_all (\<lambda>c. c \<noteq> CHR ''.'') (dec n)" "list_all (\<lambda>c. c \<noteq> CHR ''-'' \<and> c \<noteq> CHR ''+'') (dec n)"
  "CHR ''v'' \<notin> set (dec n)" "CHR ''V'' \<notin> set (dec n)"
  using dec_digits [of n] by (auto simp: list_all_iff is_digit_def)

lemma split_dots:
  "split_by (\<lambda>c. c = CHR ''.'') (dots [a, b]) = [dec a, dec b]"
  "split_by (\<lambda>c. c = CHR ''.'') (dots [a, b, c]) = [dec a, dec b, dec c]"
  by (simp_all add: dots_def dec_free split_by_append split_by_none)

lemma parse_core:
  assumes "ns = [a, b] \<or> ns = [a, b, c]" and "a < 10 ^ 6" "b < 10 ^ 6" "c < 10 ^ 6"
    and pre: "pre \<in> {[], ''v'', ''V'', ''hid_fi_v''}"
  shows "parse_version (pre @ dots ns) = Some (a, b, if length ns = 3 then c else 0)"
proof -
  let ?t = "dots ns"
  have v: "CHR ''v'' \<notin> set ?t" "CHR ''V'' \<notin> set ?t" and ne: "?t \<noteq> []"
    and ex: "list_all (\<lambda>c. c \<noteq> CHR ''-'' \<and> c \<noteq> CHR ''+'') ?t"
    using assms(1) dec_free by (auto simp: dots_def)
  have strip: "strip_prefix ''v'' ?t = None" "strip_prefix ''V'' ?t = None"
    using v ne by (cases ?t; auto simp: strip_prefix_def)+
  have none: "rsplit_once ''_v'' (q @ ?t) = None" if "q \<in> {[], ''v'', ''V''}" for q
    using v that by (auto simp: rsplit_once_def butlast_append intro!: split_once_none dest: in_set_butlastD)
  have some: "rsplit_once ''_v'' (''hid_fi_v'' @ ?t) = Some (''hid_fi'', ?t)"
    using split_once_first [of "''v_''" "rev ?t" "rev ''hid_fi''"] v by (simp add: rsplit_once_def)
  have core: "hd (split_by (\<lambda>c. c = CHR ''-'' \<or> c = CHR ''+'') ?t) = ?t"
    using ex by (subst split_by_none) (simp_all add: list_all_iff)
  have "version_core (pre @ ?t) = ?t"
    using pre none [of pre] some strip core unfolding version_core_def
    by (elim insertE emptyE) (simp_all add: Let_def strip_prefix_def)
  then show ?thesis
    unfolding parse_version_def Let_def using assms(1-4) by (auto simp: split_dots version_part_dec)
qed

lemma parse_version_less:
  assumes "parse_version s = Some (a, b, c)"
  shows "a < 10 ^ 6 \<and> b < 10 ^ 6 \<and> c < 10 ^ 6"
proof -
  define parts where "parts = split_by (\<lambda>c. c = CHR ''.'') (version_core s)"
  have n: "\<not> length parts < 2" "None \<notin> set (map version_part parts)"
    "a = the (version_part (parts ! 0))" "b = the (version_part (parts ! 1))"
    "c = (if length parts = 3 then the (version_part (parts ! 2)) else 0)"
    using assms unfolding parse_version_def parts_def [symmetric] Let_def
    by (cases "parts = []"; auto split: if_splits)+
  have le: "the (version_part (parts ! i)) < 10 ^ 6" if "i < length parts" for i
  proof -
    have "version_part (parts ! i) \<noteq> None" using n(2) that by (metis image_eqI nth_mem set_map)
    then show ?thesis using version_part_less by auto
  qed
  have "0 < length parts" "1 < length parts" using n(1) by linarith+
  then show ?thesis using le [of 0] le [of 1] le [of 2] n(3-) by simp
qed

subsection \<open>Lemmas: signatures and manifests\<close>

lemma verify_keys_sound:
  "verify_keys V m kid raw ks \<Longrightarrow> \<exists>k \<in> set ks. key_id V k = kid \<and> p_key_ok (oe_p256 V) k \<and> p_verify (oe_p256 V) k m raw"
  by (induction ks) (auto split: if_splits)

lemma verify_manifest_sound:
  "verify_manifest V m sg ks \<Longrightarrow> \<exists>k \<in> set ks. \<exists>raw. hx_decode (oe_hex V) (ms_sig sg) = Some raw \<and> length raw = 64 \<and>
     key_id V k = ms_key_id sg \<and> p_verify (oe_p256 V) k m raw"
  by (auto simp: verify_manifest_def dest!: verify_keys_sound split: option.splits if_splits)

lemma check_manifest_Inr:
  assumes "check_manifest r = Inr r'"
  obtains v m where "r' = r" and "or_format r = MANIFEST_FORMAT" and "or_product r = ''hid-fi''" and "or_chip r = ''esp32s3''"
    and "plain_version (or_version r) = Some v" and "plain_version (or_min_from r) = Some m" and "m < v"
    and "or_firmware r = ''hid_fi_v'' @ or_version r" and "asset_usable (or_image r)"
    and "\<And>tb. or_table r = Some tb \<Longrightarrow> is_sha256_hex (as_sha256 tb) \<and> as_size tb = 0xC00 \<and> safe_name (as_name tb)"
    and "\<And>c. or_companion r = Some c \<Longrightarrow> \<not> list_ex (\<lambda>(_, a). \<not> asset_usable a) (cr_assets c)"
proof -
  obtain v m where vm: "plain_version (or_version r) = Some v" "plain_version (or_min_from r) = Some m"
    using assms unfolding check_manifest_def by (simp split: if_split_asm option.split_asm)
  show thesis
    using assms unfolding check_manifest_def vm prod.case option.case
    by (intro that [OF _ _ _ _ vm]) (simp_all split: if_split_asm option.split_asm add: not_le)
qed

lemma safe_name_chars: "safe_name s \<Longrightarrow> c \<in> set s \<Longrightarrow> c \<noteq> CHR ''/'' \<and> (of_char c :: nat) \<noteq> 92 \<and> (of_char c :: nat) < 128"
  by (auto simp: safe_name_def list_all_iff is_alnum_def is_digit_def)

lemma api_verdict_set: "set (api_verdict b) \<subseteq> {UpdateBoardFirst, UpdateCompanionFirst}"
  by (auto simp: api_verdict_def Let_def)

lemma board_verdict_set:
  "set (board_verdict b fw l) = {v. \<exists>w. parse_version (lt_firmware l) = Some w \<and> fw < w \<and>
     v = BoardUpdate (lt_firmware l) (bs_ota_layout b \<noteq> Some ''two_slot'')}"
  unfolding board_verdict_def by (cases "parse_version (lt_firmware l)") (simp_all split: if_split)

lemma companion_verdict_set: "set (companion_verdict me l) \<subseteq> range CompanionUpdate"
  by (auto simp: companion_verdict_def split: option.splits)

lemma verdicts_known:
  assumes "Option.bind (bs_firmware b) parse_version = Some fw" and "bs_ota_state b \<noteq> Some ''pending_verify''"
  obtains "verdicts b me latest = [UpToDate]" and "\<And>l. latest = Some l \<Longrightarrow> board_verdict b fw l = []"
  | "verdicts b me latest \<noteq> []" and "set (verdicts b me latest) =
      set (api_verdict b) \<union> (case latest of None \<Rightarrow> {} | Some l \<Rightarrow> set (board_verdict b fw l) \<union> set (companion_verdict me l))"
proof -
  let ?out = "api_verdict b @ (case latest of None \<Rightarrow> [] | Some l \<Rightarrow> board_verdict b fw l @ companion_verdict me l)"
  have v: "verdicts b me latest = (if ?out = [] then [UpToDate] else ?out)"
    using assms by (simp add: verdicts_def Let_def)
  show thesis
  proof (cases "?out = []")
    case True
    then show thesis using v by (intro that(1)) auto
  next
    case False
    then show thesis using v by (intro that(2)) (auto split: option.splits)
  qed
qed

lemma verdicts_facts:
  shows BoardUpdate_in_verdicts: "BoardUpdate to once \<in> set (verdicts b me latest) \<longleftrightarrow>
      (\<exists>fw l v w. bs_firmware b = Some fw \<and> parse_version fw = Some v \<and> bs_ota_state b \<noteq> Some ''pending_verify'' \<and>
         latest = Some l \<and> parse_version (lt_firmware l) = Some w \<and> v < w \<and> to = lt_firmware l \<and>
         once = (bs_ota_layout b \<noteq> Some ''two_slot''))" (is ?update)
    and verdicts_nonempty: "verdicts b me latest \<noteq> []" (is ?ne)
    and alone_in_verdicts: "v0 \<in> {UpToDate, Verifying, Unknown} \<Longrightarrow>
      v0 \<in> set (verdicts b me latest) \<longleftrightarrow> verdicts b me latest = [v0]" (is "_ \<Longrightarrow> ?alone")
proof -
  have "?update \<and> ?ne \<and> (v0 \<in> {UpToDate, Verifying, Unknown} \<longrightarrow> ?alone)"
  proof (cases "Option.bind (bs_firmware b) parse_version")
    case None
    then have v: "verdicts b me latest = [Unknown]" by (simp add: verdicts_def)
    have "parse_version x \<noteq> Some y" if "bs_firmware b = Some x" for x y using None that by simp
    then have ?update unfolding v by simp
    then show ?thesis by (auto simp: v)
  next
    case fw: (Some fw)
    show ?thesis
    proof (cases "bs_ota_state b = Some ''pending_verify''")
      case True
      with fw have v: "verdicts b me latest = [Verifying]" by (simp add: verdicts_def)
      then show ?thesis using True by auto
    next
      case False
      obtain x where x: "bs_firmware b = Some x" "parse_version x = Some fw"
        using fw by (auto simp: bind_eq_Some_conv)
      have rhs: "(\<exists>fw l v w. bs_firmware b = Some fw \<and> parse_version fw = Some v \<and> bs_ota_state b \<noteq> Some ''pending_verify'' \<and>
         latest = Some l \<and> parse_version (lt_firmware l) = Some w \<and> v < w \<and> to = lt_firmware l \<and>
         once = (bs_ota_layout b \<noteq> Some ''two_slot'')) \<longleftrightarrow>
        (\<exists>l. latest = Some l \<and> BoardUpdate to once \<in> set (board_verdict b fw l))"
        using x False unfolding board_verdict_set mem_Collect_eq by (simp del: split_paired_Ex)
      show ?thesis
      proof (rule verdicts_known [OF fw False, of me latest])
        assume v: "verdicts b me latest = [UpToDate]" and none: "\<And>l. latest = Some l \<Longrightarrow> board_verdict b fw l = []"
        have "\<not> (\<exists>l. latest = Some l \<and> BoardUpdate to once \<in> set (board_verdict b fw l))"
          using none by force
        then have "?update" unfolding rhs v by simp
        with v show ?thesis by auto
      next
        assume ne: "verdicts b me latest \<noteq> []" and v: "set (verdicts b me latest) =
          set (api_verdict b) \<union> (case latest of None \<Rightarrow> {} | Some l \<Rightarrow> set (board_verdict b fw l) \<union> set (companion_verdict me l))"
        have bv: "v0 \<notin> set (board_verdict b fw l)" if "v0 \<in> {UpToDate, Verifying, Unknown}" for l
          using that by (auto simp: board_verdict_def split: option.splits if_splits)
        have "v0 \<notin> set (verdicts b me latest)" if "v0 \<in> {UpToDate, Verifying, Unknown}"
          using that api_verdict_set [of b] companion_verdict_set [of me] bv unfolding v
          by (cases latest) auto
        moreover have "?update"
          using api_verdict_set [of b] companion_verdict_set [of me] unfolding rhs v
          by (auto split: option.split)
        ultimately show ?thesis using ne by auto
      qed
    qed
  qed
  then show ?update ?ne "v0 \<in> {UpToDate, Verifying, Unknown} \<Longrightarrow> ?alone" by blast+
qed

subsection \<open>Properties\<close>

text \<open>C11. A manifest is believed only when a trusted key signed exactly its bytes, and only when it is
  one this build understands: the right format, product and chip, a firmware named by its version, a
  lower version it can be installed from, and files with safe names pinned by size and SHA-256 (the
  table of exactly 0xC00 bytes).\<close>

theorem read_release_sound:
  assumes "read_release V manifest sig_file trusted = Inr r"
  shows "(\<exists>sg. Option.bind (js_parse (oe_json V) (map chr sig_file)) sig_of_json = Some sg \<and>
      (\<exists>k \<in> set trusted. \<exists>raw. hx_decode (oe_hex V) (ms_sig sg) = Some raw \<and> length raw = 64 \<and>
         key_id V k = ms_key_id sg \<and> p_verify (oe_p256 V) k manifest raw)) \<and>
    Option.bind (js_parse (oe_json V) (map chr manifest)) release_of_json = Some r \<and>
    length manifest \<le> MANIFEST_CAP \<and> or_format r = MANIFEST_FORMAT \<and> or_product r = ''hid-fi'' \<and> or_chip r = ''esp32s3'' \<and>
    or_firmware r = ''hid_fi_v'' @ or_version r \<and>
    (\<exists>v m. plain_version (or_version r) = Some v \<and> plain_version (or_min_from r) = Some m \<and> m < v) \<and>
    asset_usable (or_image r) \<and>
    (\<forall>tb. or_table r = Some tb \<longrightarrow> asset_usable tb \<and> as_size tb = 0xC00) \<and>
    (\<forall>c. or_companion r = Some c \<longrightarrow> list_all (\<lambda>(_, a). asset_usable a) (cr_assets c))"
proof -
  obtain sg where sg: "Option.bind (js_parse (oe_json V) (map chr sig_file)) sig_of_json = Some sg"
    and ver: "verify_manifest V manifest sg trusted" and cap: "length manifest \<le> MANIFEST_CAP"
    and chk: "check_manifest r = Inr r"
    and parsed: "Option.bind (js_parse (oe_json V) (map chr manifest)) release_of_json = Some r"
    using assms unfolding read_release_def
    by (auto split: if_split_asm option.split_asm elim: check_manifest_Inr)
  from chk have "or_format r = MANIFEST_FORMAT \<and> or_product r = ''hid-fi'' \<and> or_chip r = ''esp32s3'' \<and>
    or_firmware r = ''hid_fi_v'' @ or_version r \<and>
    (\<exists>v m. plain_version (or_version r) = Some v \<and> plain_version (or_min_from r) = Some m \<and> m < v) \<and>
    asset_usable (or_image r) \<and>
    (\<forall>tb. or_table r = Some tb \<longrightarrow> asset_usable tb \<and> as_size tb = 0xC00) \<and>
    (\<forall>c. or_companion r = Some c \<longrightarrow> list_all (\<lambda>(_, a). asset_usable a) (cr_assets c))"
    by (rule check_manifest_Inr) (auto simp: list_ex_iff list_all_iff asset_usable_def)
  with sg cap parsed verify_manifest_sound [OF ver] show ?thesis by auto
qed

text \<open>A signed manifest for the example, with a codec that reads the two files.\<close>

definition demo_asset_json :: json where
  "demo_asset_json = JObj [(''name'', JStr ''fw.bin''), (''size'', JInt 24), (''sha256'', JStr (replicate 64 (CHR ''0'')))]"

definition demo_manifest_json :: json where
  "demo_manifest_json = JObj
     [(''format'', JInt 1), (''product'', JStr ''hid-fi''), (''chip'', JStr ''esp32s3''), (''version'', JStr ''4.1''),
      (''firmware'', JStr ''hid_fi_v4.1''), (''released'', JStr []), (''support_until'', JStr []), (''image'', demo_asset_json),
      (''min_from'', JStr ''4.0''), (''comp_api'', JObj [(''min'', JInt 1), (''max'', JInt 1)])]"

definition demo_ota_env :: ota_env where
  "demo_ota_env = \<lparr>oe_json = \<lparr>js_print = \<lambda>_. [],
       js_parse = \<lambda>s. if s = ''m'' then Some demo_manifest_json else Some (JObj [(''key_id'', JStr []), (''sig'', JStr [])])\<rparr>,
     oe_hex = \<lparr>hx_encode = \<lambda>_. [], hx_encode_upper = \<lambda>_. [], hx_decode = \<lambda>_. Some (replicate 64 0)\<rparr>,
     oe_sha256 = \<lambda>_. [], oe_p256 = \<lparr>p_sig_ok = \<lambda>_. True, p_key_ok = \<lambda>_. True, p_verify = \<lambda>_ m _. m = bytes ''m''\<rparr>\<rparr>"

lemma demo_release_reads: "\<exists>r. read_release demo_ota_env (bytes ''m'') (bytes ''s'') [[4]] = Inr r"
proof -
  have asset: "asset_of_json demo_asset_json = Some \<lparr>as_name = ''fw.bin'', as_size = 24, as_sha256 = replicate 64 (CHR ''0'')\<rparr>"
    by (simp add: asset_of_json_def demo_asset_json_def str_field_def field_def)
  obtain r where r: "release_of_json demo_manifest_json = Some r" "or_format r = 1" "or_product r = ''hid-fi''"
    "or_chip r = ''esp32s3''" "or_version r = ''4.1''" "or_min_from r = ''4.0''" "or_firmware r = ''hid_fi_v4.1''"
    "or_image r = \<lparr>as_name = ''fw.bin'', as_size = 24, as_sha256 = replicate 64 (CHR ''0'')\<rparr>" "or_table r = None" "or_companion r = None"
    by (simp add: release_of_json_def demo_manifest_json_def str_field_def field_def asset default_field_def opt_field_def
        range_of_json_def as_u32_def)
  have d: "dec 4 = ''4''" "dec (Suc 0) = ''1''" "dec 0 = ''0''" by (simp_all add: dec.simps digit_def) code_simp+
  have v: "parse_version ''4.1'' = Some (4, 1, 0)" "parse_version ''4.0'' = Some (4, 0, 0)"
    using parse_core [of "[4, 1]" 4 1 0 "[]"] parse_core [of "[4, 0]" 4 0 0 "[]"] by (simp_all add: dots_def d)
  have p: "plain_version ''4.1'' = Some (4, 1, 0)" "plain_version ''4.0'' = Some (4, 0, 0)"
    by (simp_all add: plain_version_def v is_digit_def)
  have u: "asset_usable (or_image r)"
    by (simp add: r asset_usable_def is_sha256_hex_def list_all_iff is_digit_def safe_name_def is_alnum_def)
  have c: "check_manifest r = Inr r" using u by (simp add: check_manifest_def r p MANIFEST_FORMAT_def)
  have "map chr (bytes ''m'') = ''m''" "map chr (bytes ''s'') = ''s''" by (simp_all only: map_chr_bytes)
  then show ?thesis
    by (simp add: read_release_def demo_ota_env_def sig_of_json_def str_field_def field_def verify_manifest_def r c
        MANIFEST_CAP_def key_id_def) (simp add: bytes_def)
qed

theorem read_release_sound_witness:
  "\<exists>r. read_release demo_ota_env (bytes ''m'') (bytes ''s'') [[4]] = Inr r \<and> or_product r = ''hid-fi'' \<and>
     asset_usable (or_image r)"
  using demo_release_reads read_release_sound by blast

text \<open>A file name that is accepted from a manifest cannot leave the folder it is joined to: it is
  not empty, has no slash, backslash, colon or byte outside ASCII, and is not one of the dot names.\<close>

theorem safe_name_stays:
  assumes "safe_name s"
  shows "s \<noteq> [] \<and> s \<noteq> ''.'' \<and> s \<noteq> ''..'' \<and> length s \<le> 96 \<and>
    (\<forall>c \<in> set s. c \<notin> {CHR ''/'', CHR '':'', CHR ''~'', CHR ''%''} \<and> (of_char c :: nat) \<noteq> 92 \<and> (of_char c :: nat) \<noteq> 0 \<and> (of_char c :: nat) < 128)"
  using assms by (auto simp: safe_name_def list_all_iff is_alnum_def is_digit_def)

theorem safe_name_stays_witness:
  "CHR ''/'' \<notin> set ''hid_fi_v4.1.0.bin'' \<and> \<not> safe_name ''../x''"
  using safe_name_stays [of "''hid_fi_v4.1.0.bin''"] safe_name_stays [of "''../x''"]
  by (auto simp: safe_name_def is_alnum_def is_digit_def)

text \<open>Versions round trip: every spelling of a version the boards and releases use is read back as
  its numbers, and no number read is above 999999.\<close>

theorem version_roundtrip:
  assumes "a < 10 ^ 6" "b < 10 ^ 6" "c < 10 ^ 6" and "pre \<in> {[], ''v'', ''V'', ''hid_fi_v''}"
  shows "parse_version (pre @ dec a @ ''.'' @ dec b @ ''.'' @ dec c) = Some (a, b, c) \<and>
    parse_version (pre @ dec a @ ''.'' @ dec b) = Some (a, b, 0) \<and>
    (parse_version s = Some (x, y, z) \<longrightarrow> x < 10 ^ 6 \<and> y < 10 ^ 6 \<and> z < 10 ^ 6)"
  using parse_core [of "[a, b, c]" a b c pre] parse_core [of "[a, b]" a b c pre] assms parse_version_less [of s x y z]
  by (simp add: dots_def)

theorem version_roundtrip_witness:
  "parse_version (''hid_fi_v'' @ dec 4 @ ''.'' @ dec 0 @ ''.'' @ dec 12) = Some (4, 0, 12)"
  using version_roundtrip [of 4 0 12 "''hid_fi_v''" "[]" 0 0 0] by simp

text \<open>What a board is told it needs: an update exactly when its firmware is readable, it is not
  proving a new one, and the newest release is strictly newer - never the same or an older one; and
  "up to date", "verifying" and "unknown" are never said together with anything else.\<close>

theorem verdicts_spec:
  "verdicts b me latest \<noteq> [] \<and>
   (BoardUpdate to once \<in> set (verdicts b me latest) \<longleftrightarrow>
      (\<exists>fw l v w. bs_firmware b = Some fw \<and> parse_version fw = Some v \<and> bs_ota_state b \<noteq> Some ''pending_verify'' \<and>
         latest = Some l \<and> parse_version (lt_firmware l) = Some w \<and> v < w \<and> to = lt_firmware l \<and>
         once = (bs_ota_layout b \<noteq> Some ''two_slot''))) \<and>
   (UpToDate \<in> set (verdicts b me latest) \<longleftrightarrow> verdicts b me latest = [UpToDate]) \<and>
   (Verifying \<in> set (verdicts b me latest) \<longleftrightarrow> verdicts b me latest = [Verifying]) \<and>
   (Unknown \<in> set (verdicts b me latest) \<longleftrightarrow> verdicts b me latest = [Unknown])"
  by (intro conjI verdicts_nonempty BoardUpdate_in_verdicts alone_in_verdicts) simp_all

end
