(* ===== verification/Session.thy ===== *)
theory Session
  imports Pairing
begin

section \<open>The conversation with a board (crates/hidfi-agent/src/session.rs, env.rs)\<close>

text \<open>
  The state machine that pairs and then sends heartbeats.  The state is the session and the outside
  world.  The world is a script: what each HTTP call, each use of the random source and each reading
  of the clock gives, in order; every run of the program against any network is the run of some
  script.  What the session does to the outside is kept in a log.  Instants and durations are
  milliseconds.  Debug logging is left out.
\<close>

subsection \<open>Definitions: the outside world\<close>

datatype net_error = Unreachable string | TooLarge

datatype event =
    EvPost string api_request
  | EvGet string
  | EvAnnounce string

record world =
  w_http :: "(net_error + u16 \<times> string) list"
  w_random :: "u8 list option list"
  w_times :: "nat list"
  w_log :: "event list"

record session_env =
  se_json :: codec
  se_hex :: hex_crate
  se_crypto :: crypto

definition BEAT_EVERY :: nat where "BEAT_EVERY = 20000"
definition PAIR_POLL :: nat where "PAIR_POLL = 1000"
definition BACKOFF_MIN :: nat where "BACKOFF_MIN = 1000"
definition BACKOFF_MAX :: nat where "BACKOFF_MAX = 30000"
definition TN_LIFETIME :: nat where "TN_LIFETIME = 90000"
definition IDLE_WAIT :: nat where "IDLE_WAIT = 60000"

datatype status =
    Connecting
  | NeedsPin
  | WaitingForApproval
  | ShowCode string
  | PairingFailed
  | PairingExpired
  | Online
  | Reconnecting
  | Problem string

text \<open>The announced ticket nonces, newest first.\<close>

type_synonym ticket_nonces = "(string \<times> nat) list"

definition announce :: "string \<Rightarrow> nat \<Rightarrow> ticket_nonces \<Rightarrow> ticket_nonces" where
  "announce tn now q = take 8 ((tn, now) # q)"

definition is_live :: "string \<Rightarrow> nat \<Rightarrow> ticket_nonces \<Rightarrow> bool" where
  "is_live tn now q = list_ex (\<lambda>(t, at). t = tn \<and> now - at < TN_LIFETIME) q"

record identity =
  id_bytes :: "u8 list"
  id_name :: string
  id_key :: "pair_key option"

record listener =
  ls_port :: u16
  ls_fp :: string

datatype phase =
    Idle
  | Unpaired
  | PairingWith initiator "confirmed option" bool "nat option"
  | PhasePaired

record session =
  s_identity :: identity
  s_base :: string
  s_phase :: phase
  s_status :: status
  s_backoff :: nat
  s_listener :: "listener option"
  s_nonces :: ticket_nonces
  s_key_changed :: bool

record agent =
  ag_ses :: session
  ag_world :: world

datatype call_error = CNet net_error | CReply reply_error

type_synonym 'a aprog = "(agent, call_error, 'a) prog"

definition session_new :: "identity \<Rightarrow> string \<Rightarrow> session" where
  "session_new ident base = \<lparr>s_identity = ident, s_base = base,
     s_phase = (if id_key ident \<noteq> None then PhasePaired else Unpaired), s_status = Connecting,
     s_backoff = BACKOFF_MIN, s_listener = None, s_nonces = [], s_key_changed = False\<rparr>"

definition set_base :: "string \<Rightarrow> session \<Rightarrow> session" where
  "set_base base s = s\<lparr>s_base := base\<rparr>"

definition lost :: "session \<Rightarrow> bool" where
  "lost s \<longleftrightarrow> s_status s = Reconnecting"

definition found_again :: "session \<Rightarrow> session" where
  "found_again s = (if lost s then s\<lparr>s_status := Connecting, s_backoff := BACKOFF_MIN\<rparr> else s)"

definition set_listener :: "listener \<Rightarrow> session \<Rightarrow> session" where
  "set_listener l s = s\<lparr>s_listener := Some l\<rparr>"

definition reset_pairing :: "session \<Rightarrow> session" where
  "reset_pairing s = s\<lparr>s_identity := (s_identity s)\<lparr>id_key := None\<rparr>, s_key_changed := True, s_phase := Unpaired\<rparr>"

definition request_pairing :: "session \<Rightarrow> session" where
  "request_pairing s =
     (if s_phase s = Idle then s\<lparr>s_phase := Unpaired, s_status := Connecting\<rparr> else s)"

definition is_paired :: "session \<Rightarrow> bool" where
  "is_paired s \<longleftrightarrow> s_phase s = PhasePaired"

subsection \<open>Definitions: the calls\<close>

definition on_ses :: "(session \<Rightarrow> session) \<Rightarrow> unit aprog" where
  "on_ses f = modify (\<lambda>a. a\<lparr>ag_ses := f (ag_ses a)\<rparr>)"

definition log_event :: "event \<Rightarrow> unit aprog" where
  "log_event e = modify (\<lambda>a. a\<lparr>ag_world := (ag_world a)\<lparr>w_log := w_log (ag_world a) @ [e]\<rparr>\<rparr>)"

text \<open>The next answer of the script; past its end nothing answers.\<close>

definition http_next :: "(net_error + u16 \<times> string) aprog" where
  "http_next a =
     (case w_http (ag_world a) of
        [] \<Rightarrow> (Ok (Inl (Unreachable [])), a)
      | r # rs \<Rightarrow> (Ok r, a\<lparr>ag_world := (ag_world a)\<lparr>w_http := rs\<rparr>\<rparr>))"

definition random_next :: "u8 list option aprog" where
  "random_next a =
     (case w_random (ag_world a) of
        [] \<Rightarrow> (Ok None, a)
      | r # rs \<Rightarrow> (Ok r, a\<lparr>ag_world := (ag_world a)\<lparr>w_random := rs\<rparr>\<rparr>))"

definition clock_now :: "nat aprog" where
  "clock_now a =
     (case w_times (ag_world a) of
        [] \<Rightarrow> (Ok 0, a)
      | t # ts \<Rightarrow> (Ok t, a\<lparr>ag_world := (ag_world a)\<lparr>w_times := ts\<rparr>\<rparr>))"

definition call :: "session_env \<Rightarrow> string \<Rightarrow> api_request \<Rightarrow> raw_reply aprog" where
  "call V base req =
     seq (log_event (EvPost (base @ ''/api/companion'') req))
     (bnd http_next (\<lambda>r.
        case r of
          Inl e \<Rightarrow> throw (CNet e)
        | Inr (code, body) \<Rightarrow>
            (case parse_http (se_json V) code body of
               Inl e \<Rightarrow> throw (CReply e)
             | Inr reply \<Rightarrow> ret reply)))"

definition lift_reply :: "reply_error + 'a \<Rightarrow> 'a aprog" where
  "lift_reply r = (case r of Inl e \<Rightarrow> throw (CReply e) | Inr x \<Rightarrow> ret x)"

text \<open>\<open>rand16\<close> expects the random source to work.\<close>

definition rand16 :: "u8 list aprog" where
  "rand16 = bnd random_next (\<lambda>r. case r of None \<Rightarrow> panic | Some b \<Rightarrow> ret b)"

definition id_hex :: "session_env \<Rightarrow> session \<Rightarrow> string" where
  "id_hex V s = hx_encode (se_hex V) (id_bytes (s_identity s))"

text \<open>\<open>board_uptime\<close>, in seconds.\<close>

definition board_uptime :: "session_env \<Rightarrow> string \<Rightarrow> u64 option aprog" where
  "board_uptime V base =
     seq (log_event (EvGet (base @ ''/api/status'')))
     (bnd http_next (\<lambda>r.
        case r of
          Inl _ \<Rightarrow> ret None
        | Inr (code, body) \<Rightarrow>
            if code \<noteq> 200 then ret None
            else ret (Option.bind (js_parse (se_json V) body) (\<lambda>v. Option.bind (jget v ''uptime_sec'') as_u64))))"

subsection \<open>Definitions: a step\<close>

definition refusal_text :: "refusal \<Rightarrow> string" where
  "refusal_text r =
     (case r of
        UnknownPc \<Rightarrow> ''the board no longer knows this computer; pair again''
      | Other s \<Rightarrow> ''the board refused: '' @ s
      | _ \<Rightarrow> [])"

definition on_error :: "call_error \<Rightarrow> session \<Rightarrow> nat \<times> session" where
  "on_error e s =
     (let network =
            (s_backoff s, s\<lparr>s_status := (if s_phase s = PhasePaired then Reconnecting else Connecting),
               s_backoff := min (s_backoff s * 2) BACKOFF_MAX\<rparr>)
      in case e of
           CNet _ \<Rightarrow> network
         | CReply Malformed \<Rightarrow> network
         | CReply (Refused r) \<Rightarrow>
             if r = PinRequired then (10000, s\<lparr>s_status := NeedsPin\<rparr>)
             else (case r of RateLimited ms \<Rightarrow> (unat (max ms 1000), s) | _ \<Rightarrow>
               if (r = UnknownPc \<or> r = BadProof) \<and> s_phase s = PhasePaired then
                 (BACKOFF_MIN, (reset_pairing s)\<lparr>s_status := Connecting\<rparr>)
               else if r = StaleChallenge then (BACKOFF_MIN, s)
               else if r = BadProof then (IDLE_WAIT, s\<lparr>s_phase := Idle, s_status := PairingFailed\<rparr>)
               else if r = Full then
                 (BACKOFF_MAX, s\<lparr>s_status := Problem ''The board is busy with other pairing requests''\<rparr>)
               else if r = Unsupported then
                 (BACKOFF_MAX, s\<lparr>s_status := Problem ''Update the board's firmware to use screen sharing''\<rparr>)
               else (BACKOFF_MAX, s\<lparr>s_status := Problem (refusal_text r)\<rparr>)))"

text \<open>The answer to a request that is gone: a board that has been up for less time than since the
  request restarted and is asked again.  Adding a second to the uptime panics past \<open>u64\<close> seconds.\<close>

definition request_gone :: "session_env \<Rightarrow> string \<Rightarrow> initiator \<Rightarrow> confirmed option \<Rightarrow> nat option \<Rightarrow> nat aprog" where
  "request_gone V base init confirmed asked_at =
     (let expired = seq (on_ses (\<lambda>s. s\<lparr>s_status := PairingExpired, s_phase := Idle\<rparr>)) (ret IDLE_WAIT) in
      case asked_at of
        None \<Rightarrow> expired
      | Some at \<Rightarrow>
          bnd clock_now (\<lambda>now.
          bnd (board_uptime V base) (\<lambda>up.
            case up of
              None \<Rightarrow> expired
            | Some up \<Rightarrow>
                if 2 ^ 64 \<le> unat up + 1 then panic
                else if unat up * 1000 + 1000 < now - at then
                  seq (on_ses (\<lambda>s. s\<lparr>s_phase := PairingWith init confirmed False None\<rparr>)) (ret 0)
                else expired)))"

definition restart_pairing :: "nat aprog" where
  "restart_pairing = seq (on_ses (\<lambda>s. s\<lparr>s_phase := Unpaired\<rparr>)) (ret PAIR_POLL)"

definition pair_confirm ::
  "session_env \<Rightarrow> string \<Rightarrow> string \<Rightarrow> raw_reply \<Rightarrow> initiator \<Rightarrow> nat option \<Rightarrow> nat aprog" where
  "pair_confirm V base pid r init asked_at =
     bnd (lift_reply (board_key (se_hex V) r)) (\<lambda>(b_pub, n_b).
       case complete (se_crypto V) init b_pub n_b of
         Inl _ \<Rightarrow> seq (on_ses (\<lambda>s. s\<lparr>s_phase := Idle, s_status := PairingFailed\<rparr>)) (ret IDLE_WAIT)
       | Inr c \<Rightarrow>
           seq (on_ses (\<lambda>s. s\<lparr>s_phase := PairingWith init (Some c) True asked_at\<rparr>))
           (bnd (call V base (Reveal pid (hx_encode (se_hex V) (cf_n_a c)))) (\<lambda>_.
            seq (on_ses (\<lambda>s. s\<lparr>s_status := ShowCode (format_code (cf_code c))\<rparr>)) (ret PAIR_POLL))))"

definition pair_answer ::
  "session_env \<Rightarrow> string \<Rightarrow> string \<Rightarrow> raw_reply \<Rightarrow> initiator \<Rightarrow> confirmed option \<Rightarrow> nat option \<Rightarrow> pair_state \<Rightarrow> nat aprog" where
  "pair_answer V base pid r init confirmed asked_at st =
     (case st of
        Pending \<Rightarrow> seq (on_ses (\<lambda>s. s\<lparr>s_status := WaitingForApproval\<rparr>)) (ret PAIR_POLL)
      | Confirm \<Rightarrow> pair_confirm V base pid r init asked_at
      | CodeShown \<Rightarrow>
          (case confirmed of
             Some c \<Rightarrow> seq (on_ses (\<lambda>s. s\<lparr>s_status := ShowCode (format_code (cf_code c))\<rparr>)) (ret PAIR_POLL)
           | None \<Rightarrow> restart_pairing)
      | Paired \<Rightarrow>
          (case confirmed of
             Some c \<Rightarrow>
               seq (on_ses (\<lambda>s. s\<lparr>s_identity := (s_identity s)\<lparr>id_key := Some (cf_key c)\<rparr>, s_key_changed := True,
                      s_status := Connecting, s_phase := PhasePaired\<rparr>)) (ret 0)
           | None \<Rightarrow> restart_pairing)
      | PsNone \<Rightarrow> request_gone V base init confirmed asked_at
      | Aborted \<Rightarrow> seq (on_ses (\<lambda>s. s\<lparr>s_status := PairingFailed, s_phase := Idle\<rparr>)) (ret IDLE_WAIT))"

definition pair_request :: "session_env \<Rightarrow> session \<Rightarrow> initiator \<Rightarrow> bool \<Rightarrow> api_request" where
  "pair_request V s init announced =
     (if announced then State (id_hex V s)
      else Hello PROTOCOL (id_hex V s) (id_name (s_identity s)) (hx_encode (se_hex V) (in_a_pub init))
             (hx_encode (se_hex V) (initiator_commit (se_crypto V) init)))"

definition poll_pairing :: "session_env \<Rightarrow> nat aprog" where
  "poll_pairing V =
     bnd (asks ag_ses) (\<lambda>s.
       case s_phase s of
         PairingWith init confirmed announced asked_at \<Rightarrow>
           bnd (call V (s_base s) (pair_request V s init announced)) (\<lambda>r.
           bnd (if announced then ret asked_at else bnd clock_now (\<lambda>now. ret (Some now))) (\<lambda>asked.
           seq (on_ses (\<lambda>s. s\<lparr>s_phase := PairingWith init confirmed True asked\<rparr>))
           (bnd (lift_reply (reply_pair_state r)) (\<lambda>st.
              pair_answer V (s_base s) (id_hex V s) r init confirmed asked st))))
       | _ \<Rightarrow> ret 0)"

definition start_pairing :: "session_env \<Rightarrow> nat aprog" where
  "start_pairing V =
     bnd random_next (\<lambda>seed. case seed of None \<Rightarrow> throw (CNet (Unreachable ''no randomness'')) | Some _ \<Rightarrow>
     bnd random_next (\<lambda>n_a.
       case initiator_new (se_crypto V) seed n_a of
         None \<Rightarrow> throw (CNet (Unreachable ''no randomness''))
       | Some init \<Rightarrow>
           seq (on_ses (\<lambda>s. s\<lparr>s_phase := PairingWith init None False None\<rparr>)) (poll_pairing V)))"

definition beat :: "session_env \<Rightarrow> nat aprog" where
  "beat V =
     bnd (asks ag_ses) (\<lambda>s.
       case id_key (s_identity s) of
         None \<Rightarrow> seq (on_ses (\<lambda>s. s\<lparr>s_phase := Unpaired\<rparr>)) (ret 0)
       | Some key \<Rightarrow>
           (case s_listener s of
              None \<Rightarrow> seq (on_ses (\<lambda>s. s\<lparr>s_status := Connecting\<rparr>)) (ret PAIR_POLL)
            | Some l \<Rightarrow>
                bnd (call V (s_base s) (Chal (id_hex V s))) (\<lambda>r.
                bnd (lift_reply (challenge (se_hex V) r)) (\<lambda>ch.
                bnd rand16 (\<lambda>b.
                let chal = hx_encode (se_hex V) ch; tn = hx_encode (se_hex V) b;
                    mac = hx_encode (se_hex V) (beat_mac (se_crypto V) key (id_hex V s) (ls_port l) (ls_fp l) tn chal)
                in bnd clock_now (\<lambda>now.
                   seq (on_ses (\<lambda>s. s\<lparr>s_nonces := announce tn now (s_nonces s)\<rparr>))
                   (seq (log_event (EvAnnounce tn))
                   (bnd (call V (s_base s) (Beat (id_hex V s) (ls_port l) (ls_fp l) tn chal mac)) (\<lambda>_.
                    seq (on_ses (\<lambda>s. s\<lparr>s_status := Online\<rparr>)) (ret BEAT_EVERY))))))))))"

definition step_body :: "session_env \<Rightarrow> nat aprog" where
  "step_body V =
     bnd (asks (\<lambda>a. s_phase (ag_ses a))) (\<lambda>p.
       case p of
         Unpaired \<Rightarrow> start_pairing V
       | PairingWith _ _ _ _ \<Rightarrow> poll_pairing V
       | _ \<Rightarrow> beat V)"

definition handle_error :: "call_error \<Rightarrow> nat aprog" where
  "handle_error e a = (case on_error e (ag_ses a) of (wait, s) \<Rightarrow> (Ok wait, a\<lparr>ag_ses := s\<rparr>))"

definition session_step :: "session_env \<Rightarrow> nat aprog" where
  "session_step V =
     bnd (asks (\<lambda>a. s_phase (ag_ses a))) (\<lambda>p.
       if p = Idle then ret IDLE_WAIT
       else bnd (attempt (step_body V)) (\<lambda>r.
         case r of
           Inr wait \<Rightarrow> seq (on_ses (\<lambda>s. s\<lparr>s_backoff := BACKOFF_MIN\<rparr>)) (ret wait)
         | Inl e \<Rightarrow> handle_error e))"

text \<open>What the theorems say about the session: the waits stay in their bounds, few nonces are kept, and
  the key is there exactly while the session is paired.\<close>

definition ses_inv :: "session \<Rightarrow> bool" where
  "ses_inv s \<longleftrightarrow> BACKOFF_MIN \<le> s_backoff s \<and> s_backoff s \<le> BACKOFF_MAX \<and> length (s_nonces s) \<le> 8 \<and>
     (s_phase s = PhasePaired \<longleftrightarrow> id_key (s_identity s) \<noteq> None)"

text \<open>The states a session can be in: steps against any world, and the calls of the service between
  them.\<close>

inductive session_reach :: "session_env \<Rightarrow> session \<Rightarrow> bool" for V where
  created: "session_reach V (session_new ident base)"
| stepped: "session_reach V s \<Longrightarrow> session_step V \<lparr>ag_ses = s, ag_world = w\<rparr> = (out, a) \<Longrightarrow> session_reach V (ag_ses a)"
| moved: "session_reach V s \<Longrightarrow> session_reach V (set_base base s)"
| found: "session_reach V s \<Longrightarrow> session_reach V (found_again s)"
| listening: "session_reach V s \<Longrightarrow> session_reach V (set_listener l s)"
| reset: "session_reach V s \<Longrightarrow> session_reach V (reset_pairing s)"
| asked: "session_reach V s \<Longrightarrow> session_reach V (request_pairing s)"

subsection \<open>Lemmas: running the calls\<close>

definition after_event :: "event \<Rightarrow> agent \<Rightarrow> agent" where
  "after_event e a = a\<lparr>ag_world := (ag_world a)\<lparr>w_log := w_log (ag_world a) @ [e]\<rparr>\<rparr>"

definition after_answer :: "agent \<Rightarrow> agent" where
  "after_answer a = (if w_http (ag_world a) = [] then a else a\<lparr>ag_world := (ag_world a)\<lparr>w_http := tl (w_http (ag_world a))\<rparr>\<rparr>)"

definition answer :: "agent \<Rightarrow> net_error + u16 \<times> string" where
  "answer a = (case w_http (ag_world a) of [] \<Rightarrow> Inl (Unreachable []) | r # _ \<Rightarrow> r)"

definition answer_reply :: "session_env \<Rightarrow> agent \<Rightarrow> call_error + raw_reply" where
  "answer_reply V a =
     (case answer a of
        Inl e \<Rightarrow> Inl (CNet e)
      | Inr (code, body) \<Rightarrow> (case parse_http (se_json V) code body of Inl e \<Rightarrow> Inl (CReply e) | Inr r \<Rightarrow> Inr r))"

definition answer_uptime :: "session_env \<Rightarrow> agent \<Rightarrow> u64 option" where
  "answer_uptime V a =
     (case answer a of
        Inl _ \<Rightarrow> None
      | Inr (code, body) \<Rightarrow>
          if code \<noteq> 200 then None
          else Option.bind (js_parse (se_json V) body) (\<lambda>v. Option.bind (jget v ''uptime_sec'') as_u64))"

definition after_post :: "string \<Rightarrow> api_request \<Rightarrow> agent \<Rightarrow> agent" where
  "after_post base req a = after_answer (after_event (EvPost (base @ ''/api/companion'') req) a)"

definition after_get :: "string \<Rightarrow> agent \<Rightarrow> agent" where
  "after_get base a = after_answer (after_event (EvGet (base @ ''/api/status'')) a)"

definition after_rand :: "agent \<Rightarrow> agent" where
  "after_rand a = (if w_random (ag_world a) = [] then a
     else a\<lparr>ag_world := (ag_world a)\<lparr>w_random := tl (w_random (ag_world a))\<rparr>\<rparr>)"

definition after_clock :: "agent \<Rightarrow> agent" where
  "after_clock a = (if w_times (ag_world a) = [] then a
     else a\<lparr>ag_world := (ag_world a)\<lparr>w_times := tl (w_times (ag_world a))\<rparr>\<rparr>)"

lemma after_ses [simp]:
  "ag_ses (after_event e a) = ag_ses a" "ag_ses (after_answer a) = ag_ses a" "ag_ses (after_post b r a) = ag_ses a"
  "ag_ses (after_get b a) = ag_ses a" "ag_ses (after_rand a) = ag_ses a" "ag_ses (after_clock a) = ag_ses a"
  by (simp_all add: after_event_def after_answer_def after_post_def after_get_def after_rand_def after_clock_def)

lemma after_log [simp]:
  "w_log (ag_world (after_event e a)) = w_log (ag_world a) @ [e]" "w_log (ag_world (after_answer a)) = w_log (ag_world a)"
  "w_log (ag_world (after_post b r a)) = w_log (ag_world a) @ [EvPost (b @ ''/api/companion'') r]"
  "w_log (ag_world (after_get b a)) = w_log (ag_world a) @ [EvGet (b @ ''/api/status'')]"
  "w_log (ag_world (after_rand a)) = w_log (ag_world a)" "w_log (ag_world (after_clock a)) = w_log (ag_world a)"
  by (simp_all add: after_event_def after_answer_def after_post_def after_get_def after_rand_def after_clock_def)

text \<open>\<open>runs a m Q\<close>: the outcome of \<open>m\<close> from \<open>a\<close> and the state it leaves are in \<open>Q\<close>.\<close>

definition runs :: "agent \<Rightarrow> 'a aprog \<Rightarrow> ((call_error, 'a) outcome \<Rightarrow> agent \<Rightarrow> bool) \<Rightarrow> bool" where
  "runs a m Q \<longleftrightarrow> Q (fst (m a)) (snd (m a))"

definition cast_bad :: "('e, 'a) outcome \<Rightarrow> ('e, 'b) outcome" where
  "cast_bad r = (case r of Err e \<Rightarrow> Err e | Panic \<Rightarrow> Panic | _ \<Rightarrow> OutOfFuel)"

lemma cast_bad_simps [simp]: "cast_bad (Err e) = Err e" "cast_bad Panic = Panic" "cast_bad OutOfFuel = OutOfFuel"
  by (simp_all add: cast_bad_def)

named_theorems run_simps \<open>running an agent program one call at a time\<close>

lemma runs_bnd [run_simps]: "runs a (bnd m k) Q = runs a m (\<lambda>r a'. case r of Ok x \<Rightarrow> runs a' (k x) Q | _ \<Rightarrow> Q (cast_bad r) a')"
  by (simp add: runs_def bnd_def split: prod.split outcome.split)

lemma runs_seq [run_simps]: "runs a (seq m k) Q = runs a m (\<lambda>r a'. case r of Ok _ \<Rightarrow> runs a' k Q | _ \<Rightarrow> Q (cast_bad r) a')"
  by (simp add: seq_def runs_bnd)

lemma runs_basic [run_simps]:
  "runs a (ret x) Q1 = Q1 (Ok x) a" "runs a (throw e) Q1 = Q1 (Err e) a" "runs a panic Q1 = Q1 Panic a"
  "runs a (asks g) Q1 = Q1 (Ok (g a)) a" "runs a (on_ses f) Q2 = Q2 (Ok ()) (a\<lparr>ag_ses := f (ag_ses a)\<rparr>)"
  "runs a (log_event e') Q2 = Q2 (Ok ()) (after_event e' a)"
  by (simp_all add: runs_def ret_def throw_def panic_def asks_def on_ses_def modify_def log_event_def after_event_def)

lemma runs_world [run_simps]:
  "runs a random_next Q1 = Q1 (Ok (case w_random (ag_world a) of [] \<Rightarrow> None | r # _ \<Rightarrow> r)) (after_rand a)"
  "runs a clock_now Q2 = Q2 (Ok (case w_times (ag_world a) of [] \<Rightarrow> 0 | t # _ \<Rightarrow> t)) (after_clock a)"
  by (simp_all add: runs_def random_next_def clock_now_def after_rand_def after_clock_def split: list.split)

lemma runs_call [run_simps]:
  "runs a (call V base req) Q =
     (case answer_reply V a of Inl e \<Rightarrow> Q (Err e) (after_post base req a) | Inr r \<Rightarrow> Q (Ok r) (after_post base req a))"
  unfolding call_def
  by (simp add: runs_def seq_def bnd_def log_event_def modify_def http_next_def answer_reply_def answer_def after_post_def
      after_answer_def after_event_def ret_def throw_def split: list.split sum.split prod.split)

lemma runs_uptime [run_simps]: "runs a (board_uptime V base) Q = Q (Ok (answer_uptime V a)) (after_get base a)"
  unfolding board_uptime_def
  by (simp add: runs_def seq_def bnd_def log_event_def modify_def http_next_def answer_uptime_def answer_def after_get_def
      after_answer_def after_event_def ret_def split: list.split sum.split prod.split)

lemma runs_lift [run_simps]: "runs a (lift_reply r) Q = (case r of Inl e \<Rightarrow> Q (Err (CReply e)) a | Inr x \<Rightarrow> Q (Ok x) a)"
  by (simp add: lift_reply_def runs_basic split: sum.split)

lemma runs_attempt [run_simps]:
  "runs a (attempt m) Q = runs a m (\<lambda>r a'. Q (case r of Ok x \<Rightarrow> Ok (Inr x) | Err e \<Rightarrow> Ok (Inl e) | Panic \<Rightarrow> Panic | OutOfFuel \<Rightarrow> OutOfFuel) a')"
  by (simp add: runs_def attempt_def split: prod.split outcome.split)

lemma runs_handle [run_simps]:
  "runs a (handle_error e) Q = Q (Ok (fst (on_error e (ag_ses a)))) (a\<lparr>ag_ses := snd (on_error e (ag_ses a))\<rparr>)"
  by (simp add: runs_def handle_error_def split: prod.split)

text \<open>A step, as its body and what is made of the body's outcome.\<close>

lemma runs_step:
  assumes "s_phase (ag_ses a) \<noteq> Idle"
  shows "runs a (session_step V) Q = runs a (step_body V) (\<lambda>r a'. case r of
      Ok wait \<Rightarrow> Q (Ok wait) (a'\<lparr>ag_ses := (ag_ses a')\<lparr>s_backoff := BACKOFF_MIN\<rparr>\<rparr>)
    | Err e \<Rightarrow> Q (Ok (fst (on_error e (ag_ses a')))) (a'\<lparr>ag_ses := snd (on_error e (ag_ses a'))\<rparr>)
    | _ \<Rightarrow> Q (cast_bad r) a')"
proof -
  obtain r a1 where "step_body V a = (r, a1)" by fastforce
  then have body: "runs a (step_body V) P = P r a1" for P by (simp add: runs_def)
  show ?thesis unfolding session_step_def using assms by (cases r) (simp_all add: run_simps body)
qed

lemma runs_weaken: "runs a m P \<Longrightarrow> (\<And>r a'. P r a' \<Longrightarrow> Q r a') \<Longrightarrow> runs a m Q"
  by (simp add: runs_def)

lemma runsD: "runs a m Q \<Longrightarrow> m a = (r, a') \<Longrightarrow> Q r a'"
  by (simp add: runs_def)

lemma retry_bound: "answer_reply V a = Inl (CReply (Refused (RateLimited ms))) \<Longrightarrow> ms \<le> 60000"
  by (auto simp: answer_reply_def dest: rate_limit_bound split: sum.splits prod.splits)

subsection \<open>Lemmas: one step\<close>

text \<open>What the body of a step may leave, from each phase: the fields of the session it never touches,
  and the phase and key together.\<close>

definition kept :: "session \<Rightarrow> session \<Rightarrow> bool" where
  "kept s s' \<longleftrightarrow> s_base s' = s_base s \<and> s_listener s' = s_listener s \<and> s_backoff s' = s_backoff s \<and>
     id_bytes (s_identity s') = id_bytes (s_identity s) \<and> id_name (s_identity s') = id_name (s_identity s)"

lemma kept_refl [simp]: "kept s s" by (simp add: kept_def)

definition new_events :: "agent \<Rightarrow> agent \<Rightarrow> event list \<Rightarrow> bool" where
  "new_events a a' es \<longleftrightarrow> w_log (ag_world a') = w_log (ag_world a) @ es"

definition no_hello :: "event \<Rightarrow> bool" where
  "no_hello e = (case e of EvPost _ (Hello _ _ _ _ _) \<Rightarrow> False | _ \<Rightarrow> True)"

text \<open>The outcome of a poll: a wait of at most a minute, zero only after a change of phase.\<close>

definition wait_ok :: "session \<Rightarrow> (call_error, nat) outcome \<Rightarrow> bool" where
  "wait_ok s' r = (case r of
     Ok w \<Rightarrow> w \<le> IDLE_WAIT \<and> (w = 0 \<or> PAIR_POLL \<le> w) \<and> (w = 0 \<longrightarrow> s_phase s' = PhasePaired \<or> s_phase s' = Unpaired \<or>
        (\<exists>i c. s_phase s' = PairingWith i c False None))
   | Err (CReply (Refused (RateLimited ms))) \<Rightarrow> ms \<le> 60000
   | _ \<Rightarrow> True)"

text \<open>What polling may do to the session, whatever the board answers: \<open>conf\<close> is the key material of
  this attempt, if the board's key was seen.\<close>

definition poll_post :: "confirmed option \<Rightarrow> agent \<Rightarrow> (call_error, nat) outcome \<Rightarrow> agent \<Rightarrow> bool" where
  "poll_post conf a r a' \<longleftrightarrow>
     kept (ag_ses a) (ag_ses a') \<and> s_nonces (ag_ses a') = s_nonces (ag_ses a) \<and> wait_ok (ag_ses a') r \<and>
     (\<exists>es. new_events a a' es \<and> list_all no_hello es) \<and>
     (if s_phase (ag_ses a') = PhasePaired
      then (\<exists>c. conf = Some c \<and> id_key (s_identity (ag_ses a')) = Some (cf_key c)) \<and> s_key_changed (ag_ses a') \<and> r = Ok 0
      else id_key (s_identity (ag_ses a')) = id_key (s_identity (ag_ses a)))"

lemma answer_wait_ok: "answer_reply V a = Inl e \<Longrightarrow> wait_ok s (Err e)"
  using retry_bound [of V a] by (auto simp: wait_ok_def split: call_error.split reply_error.split refusal.split)

lemma malformed_ok: "board_key X r = Inl e \<Longrightarrow> e = Malformed" "challenge X r = Inl e \<Longrightarrow> e = Malformed"
  "reply_pair_state r = Inl e \<Longrightarrow> e = Malformed"
  by (auto simp: board_key_def challenge_def hex_n_def reply_pair_state_def split: sum.splits option.splits if_splits)

lemma wait_ok_simps:
  "wait_ok s (Ok w) \<longleftrightarrow> w \<le> IDLE_WAIT \<and> (w = 0 \<or> PAIR_POLL \<le> w) \<and> (w = 0 \<longrightarrow> s_phase s = PhasePaired \<or> s_phase s = Unpaired \<or>
      (\<exists>i c. s_phase s = PairingWith i c False None))"
  "wait_ok s Panic" "wait_ok s OutOfFuel" "wait_ok s (Err (CReply Malformed))" "wait_ok s (Err (CNet n))"
  by (simp_all add: wait_ok_def)

lemmas wait_defs = PAIR_POLL_def IDLE_WAIT_def BEAT_EVERY_def BACKOFF_MIN_def BACKOFF_MAX_def

lemma new_events_intros:
  "new_events a a []" "new_events a (a\<lparr>ag_ses := s\<rparr>) []"
  by (simp_all add: new_events_def)

lemma poll_postI:
  assumes "kept (ag_ses a) (ag_ses a')" "s_nonces (ag_ses a') = s_nonces (ag_ses a)" "wait_ok (ag_ses a') r"
    "new_events a a' es" "list_all no_hello es" "s_phase (ag_ses a') \<noteq> PhasePaired"
    "id_key (s_identity (ag_ses a')) = id_key (s_identity (ag_ses a))"
  shows "poll_post conf a r a'"
  using assms by (auto simp: poll_post_def)

lemmas leaf_simps = kept_def run_simps wait_ok_simps answer_wait_ok wait_defs no_hello_def new_events_def

lemma runs_gone:
  assumes "s_phase (ag_ses a) \<noteq> PhasePaired"
  shows "runs a (request_gone V base init conf asked) (poll_post conf a)"
proof (cases asked)
  case None
  then show ?thesis
    unfolding request_gone_def Let_def by (simp add: run_simps) (rule poll_postI [where es = "[]"]; simp add: leaf_simps)
next
  case (Some at)
  have ev: "new_events a (after_get base (after_clock a)) [EvGet (base @ ''/api/status'')]" by (simp add: new_events_def)
  let ?e = "[EvGet (base @ ''/api/status'')]"
  show ?thesis
    unfolding request_gone_def Let_def Some option.case
    by (simp add: run_simps assms split: option.split)
       (intro conjI impI allI; rule poll_postI [where es = ?e]; simp add: leaf_simps assms)
qed

lemma runs_confirm:
  assumes "s_phase (ag_ses a) \<noteq> PhasePaired"
  shows "runs a (pair_confirm V base pid r init asked) (poll_post conf a)"
proof (cases "board_key (se_hex V) r")
  case (Inl e)
  then have "e = Malformed" by (rule malformed_ok)
  with Inl show ?thesis
    unfolding pair_confirm_def by (simp add: run_simps) (rule poll_postI [where es = "[]"]; simp add: leaf_simps assms)
next
  case (Inr k)
  obtain b_pub n_b where k: "k = (b_pub, n_b)" by fastforce
  show ?thesis
  proof (cases "complete (se_crypto V) init b_pub n_b")
    case (Inl e)
    with Inr k show ?thesis
      unfolding pair_confirm_def by (simp add: run_simps) (rule poll_postI [where es = "[]"]; simp add: leaf_simps assms)
  next
    case (Inr c)
    let ?e = "[EvPost (base @ ''/api/companion'') (Reveal pid (hx_encode (se_hex V) (cf_n_a c)))]"
    show ?thesis
      using Inr \<open>board_key (se_hex V) r = Inr k\<close> k unfolding pair_confirm_def
      by (simp add: run_simps split: sum.split)
         (intro conjI impI allI; rule poll_postI [where es = ?e]; simp add: leaf_simps assms)
  qed
qed

lemma runs_answer:
  assumes "s_phase (ag_ses a) \<noteq> PhasePaired"
  shows "runs a (pair_answer V base pid r init conf asked st) (poll_post conf a)"
proof -
  have again: "runs a restart_pairing (poll_post conf a)"
    unfolding restart_pairing_def by (simp add: run_simps) (rule poll_postI [where es = "[]"]; simp add: leaf_simps assms)
  have leaf: "poll_post cf a (Ok w) (a\<lparr>ag_ses := f (ag_ses a)\<rparr>)"
    if "kept (ag_ses a) (f (ag_ses a))" "s_nonces (f (ag_ses a)) = s_nonces (ag_ses a)" "PAIR_POLL \<le> w" "w \<le> IDLE_WAIT"
      "s_phase (f (ag_ses a)) \<noteq> PhasePaired" "id_key (s_identity (f (ag_ses a))) = id_key (s_identity (ag_ses a))" for cf f w
    by (rule poll_postI [where es = "[]"]) (use that in \<open>simp_all add: leaf_simps\<close>)
  show ?thesis
  proof (cases st)
    case PsNone
    then show ?thesis using runs_gone [OF assms] by (simp add: pair_answer_def)
  next
    case Confirm
    then show ?thesis using runs_confirm [OF assms] by (simp add: pair_answer_def)
  next
    case CodeShown
    then show ?thesis
      using again by (auto simp: pair_answer_def run_simps kept_def wait_defs assms intro!: leaf split: option.split)
  next
    case Paired
    show ?thesis
    proof (cases conf)
      case None
      then show ?thesis using again by (simp add: pair_answer_def Paired)
    next
      case (Some c)
      then show ?thesis by (simp add: pair_answer_def Paired run_simps poll_post_def kept_def wait_ok_simps new_events_def)
    qed
  qed (auto simp: pair_answer_def run_simps kept_def wait_defs assms intro!: leaf)
qed

text \<open>A poll sends one request, \<open>hello\<close> exactly when the board has not taken it yet, and then only
  what \<open>poll_post\<close> allows.\<close>

lemma runs_poll:
  assumes "s_phase (ag_ses a) = PairingWith init conf announced asked"
  shows "runs a (poll_pairing V) (\<lambda>r a'. poll_post conf (after_post (s_base (ag_ses a)) (pair_request V (ag_ses a) init announced) a) r a')"
proof -
  let ?a1 = "after_post (s_base (ag_ses a)) (pair_request V (ag_ses a) init announced) a"
  have ph: "s_phase (ag_ses a) \<noteq> PhasePaired" using assms by simp
  have err: "poll_post conf ?a1 (Err e) ?a1" if "wait_ok (ag_ses a) (Err e)" for e
    by (rule poll_postI [where es = "[]"]) (use that ph in \<open>simp_all add: leaf_simps\<close>)
  have shift: "poll_post conf ?a1 r a'" if "poll_post conf b r a'" "kept (ag_ses a) (ag_ses b)"
    "s_nonces (ag_ses b) = s_nonces (ag_ses a)" "w_log (ag_world b) = w_log (ag_world ?a1)"
    "id_key (s_identity (ag_ses b)) = id_key (s_identity (ag_ses a))" for b r a'
    using that by (auto simp: poll_post_def kept_def new_events_def)
  have later: "runs b (bnd (lift_reply (reply_pair_state r)) (pair_answer V base pid r init conf asked')) (poll_post conf ?a1)"
    if "kept (ag_ses a) (ag_ses b)" "s_nonces (ag_ses b) = s_nonces (ag_ses a)" "w_log (ag_world b) = w_log (ag_world ?a1)"
    "id_key (s_identity (ag_ses b)) = id_key (s_identity (ag_ses a))" "s_phase (ag_ses b) \<noteq> PhasePaired" for b r base pid asked'
  proof (cases "reply_pair_state r")
    case (Inl e)
    then have "e = Malformed" by (rule malformed_ok)
    moreover have "poll_post conf b (Err (CReply Malformed)) b"
      by (rule poll_postI [where es = "[]"]) (use that in \<open>simp_all add: leaf_simps\<close>)
    ultimately show ?thesis using Inl shift [OF _ that(1-4)] by (simp add: run_simps)
  next
    case (Inr st)
    have "runs b (pair_answer V base pid r init conf asked' st) (poll_post conf ?a1)"
      by (rule runs_weaken [OF runs_answer [OF that(5)]]) (rule shift [OF _ that(1-4)])
    with Inr show ?thesis by (simp add: run_simps)
  qed
  show ?thesis
  proof (cases "answer_reply V a")
    case (Inl e)
    then show ?thesis
      using assms err [OF answer_wait_ok [OF Inl]] by (simp add: poll_pairing_def run_simps)
  next
    case (Inr r)
    show ?thesis
    proof (cases announced)
      case True
      show ?thesis
        using assms Inr True unfolding poll_pairing_def
        by (simp add: runs_bnd [of _ "asks _"] runs_bnd [of _ "call _ _ _"] runs_bnd [of _ "ret _"] runs_seq runs_basic runs_call)
           (rule later [unfolded eqTrueI [OF True]]; simp add: kept_def)
    next
      case False
      then have no: "announced = False" by simp
      show ?thesis
        using assms Inr False unfolding poll_pairing_def
        by (simp add: runs_bnd [of _ "asks _"] runs_bnd [of _ "call _ _ _"] runs_bnd [of _ "bnd _ _"] runs_bnd [of _ clock_now]
            runs_seq runs_basic runs_call runs_world)
           (rule later [unfolded no]; simp add: kept_def)
    qed
  qed
qed

lemma runs_start:
  assumes "s_phase (ag_ses a) = Unpaired"
  shows "runs a (start_pairing V) (\<lambda>r a'. kept (ag_ses a) (ag_ses a') \<and> s_nonces (ag_ses a') = s_nonces (ag_ses a) \<and>
    wait_ok (ag_ses a') r \<and> s_phase (ag_ses a') \<noteq> PhasePaired \<and>
    id_key (s_identity (ag_ses a')) = id_key (s_identity (ag_ses a)))"
proof -
  have poll: "runs b (poll_pairing V) (\<lambda>r a'. kept (ag_ses a) (ag_ses a') \<and> s_nonces (ag_ses a') = s_nonces (ag_ses a) \<and>
      wait_ok (ag_ses a') r \<and> s_phase (ag_ses a') \<noteq> PhasePaired \<and>
      id_key (s_identity (ag_ses a')) = id_key (s_identity (ag_ses a)))"
    if "ag_ses b = (ag_ses a)\<lparr>s_phase := PairingWith init None False None\<rparr>" for b init
  proof -
    have "s_phase (ag_ses b) = PairingWith init None False None" using that by simp
    then show ?thesis
      by (rule runs_weaken [OF runs_poll]) (auto simp: poll_post_def kept_def that split: if_splits)
  qed
  show ?thesis
    unfolding start_pairing_def initiator_new_def using assms
    by (auto simp: runs_bnd [of _ random_next] runs_world runs_seq runs_basic wait_ok_simps
        intro!: poll split: option.split list.split)
qed

text \<open>A heartbeat: nothing, a challenge asked for, or the challenge, the nonce announced and then the
  beat whose proof covers what it says.\<close>

definition beat_events :: "session_env \<Rightarrow> session \<Rightarrow> event list \<Rightarrow> bool" where
  "beat_events V s es \<longleftrightarrow> es = [] \<or>
     (\<exists>l key. s_listener s = Some l \<and> id_key (s_identity s) = Some key \<and>
        (let url = s_base s @ ''/api/companion''; pid = id_hex V s in
         es = [EvPost url (Chal pid)] \<or>
         (\<exists>b ch reply. challenge (se_hex V) reply = Inr ch \<and>
            (let tn = hx_encode (se_hex V) b; chal = hx_encode (se_hex V) ch in
             es = [EvPost url (Chal pid), EvAnnounce tn,
               EvPost url (Beat pid (ls_port l) (ls_fp l) tn chal
                 (hx_encode (se_hex V) (beat_mac (se_crypto V) key pid (ls_port l) (ls_fp l) tn chal)))]))))"

definition beat_post :: "session_env \<Rightarrow> agent \<Rightarrow> (call_error, nat) outcome \<Rightarrow> agent \<Rightarrow> bool" where
  "beat_post V a r a' \<longleftrightarrow> kept (ag_ses a) (ag_ses a') \<and> wait_ok (ag_ses a') r \<and>
     id_key (s_identity (ag_ses a')) = id_key (s_identity (ag_ses a)) \<and>
     (s_phase (ag_ses a') = s_phase (ag_ses a) \<or> id_key (s_identity (ag_ses a)) = None \<and> s_phase (ag_ses a') = Unpaired) \<and>
     (length (s_nonces (ag_ses a)) \<le> 8 \<longrightarrow> length (s_nonces (ag_ses a')) \<le> 8) \<and>
     (\<exists>es. new_events a a' es \<and> beat_events V (ag_ses a) es \<and>
        (\<forall>tn. EvAnnounce tn \<in> set es \<longrightarrow> fst (hd (s_nonces (ag_ses a'))) = tn))"

lemma runs_beat: "runs a (beat V) (beat_post V a)"
proof (cases "id_key (s_identity (ag_ses a))")
  case None
  then show ?thesis unfolding beat_def by (auto simp: leaf_simps beat_events_def beat_post_def)
next
  case (Some key)
  show ?thesis
  proof (cases "s_listener (ag_ses a)")
    case None
    with Some show ?thesis unfolding beat_def by (auto simp: leaf_simps beat_events_def beat_post_def)
  next
    case l: (Some l)
    let ?url = "s_base (ag_ses a) @ ''/api/companion''" and ?pid = "id_hex V (ag_ses a)"
    have one: "beat_events V (ag_ses a) [EvPost ?url (Chal ?pid)]" using l Some by (auto simp: beat_events_def Let_def)
    have early: "beat_post V a r a'" if "w_log (ag_world a') = w_log (ag_world a) @ [EvPost ?url (Chal ?pid)]" "ag_ses a' = ag_ses a"
      "wait_ok (ag_ses a) r" for r a'
      using that one unfolding beat_post_def by (intro conjI exI [of _ "[EvPost ?url (Chal ?pid)]"]) (simp_all add: new_events_def)
    have late: "beat_post V a r a'"
      if ch: "challenge (se_hex V) reply = Inr ch" and "w_log (ag_world a') = w_log (ag_world a) @
          [EvPost ?url (Chal ?pid), EvAnnounce (hx_encode (se_hex V) b),
           EvPost ?url (Beat ?pid (ls_port l) (ls_fp l) (hx_encode (se_hex V) b) (hx_encode (se_hex V) ch)
             (hx_encode (se_hex V) (beat_mac (se_crypto V) key ?pid (ls_port l) (ls_fp l) (hx_encode (se_hex V) b) (hx_encode (se_hex V) ch))))]"
        "ag_ses a' = (ag_ses a)\<lparr>s_nonces := announce (hx_encode (se_hex V) b) now (s_nonces (ag_ses a)), s_status := st\<rparr>"
        "wait_ok (ag_ses a') r" for r a' reply ch b now st
    proof -
      have "\<exists>es. new_events a a' es \<and> beat_events V (ag_ses a) es \<and>
        (\<forall>tn. EvAnnounce tn \<in> set es \<longrightarrow> fst (hd (s_nonces (ag_ses a'))) = tn)"
        unfolding new_events_def that(2) append_same_eq beat_events_def Let_def
        using ch l Some that(3) by (auto simp: announce_def)
      with that show ?thesis by (auto simp: kept_def announce_def beat_post_def)
    qed
    show ?thesis
    proof (cases "answer_reply V a")
      case (Inl e)
      with Some l show ?thesis
        unfolding beat_def by (simp add: run_simps) (rule early; simp add: answer_wait_ok [OF Inl])
    next
      case (Inr reply)
      show ?thesis
      proof (cases "challenge (se_hex V) reply")
        case (Inl e)
        then have "e = Malformed" by (rule malformed_ok)
        with Inl Inr Some l show ?thesis
          unfolding beat_def by (simp add: run_simps) (rule early; simp add: wait_ok_simps)
      next
        case ch: (Inr ch)
        let ?a1 = "after_post (s_base (ag_ses a)) (Chal ?pid) a"
        show ?thesis
        proof (cases "case w_random (ag_world ?a1) of [] \<Rightarrow> None | r # _ \<Rightarrow> r")
          case None
          with ch Inr Some l show ?thesis
            unfolding beat_def rand16_def by (simp add: run_simps) (rule early; simp add: wait_ok_simps)
        next
          case (Some b)
          with ch Inr \<open>id_key (s_identity (ag_ses a)) = Some key\<close> l show ?thesis
            unfolding beat_def rand16_def
            by (simp add: run_simps Let_def split: sum.split)
               (intro conjI allI impI;
                rule late [where b = b and ch = ch and st = "s_status (ag_ses a)"] late [where b = b and ch = ch and st = Online];
                simp add: wait_ok_simps wait_defs answer_wait_ok)
        qed
      qed
    qed
  qed
qed

subsection \<open>Lemmas: errors and the invariant\<close>

lemma on_error_phase:
  "s_phase (snd (on_error e s)) = s_phase s \<and> id_key (s_identity (snd (on_error e s))) = id_key (s_identity s) \<or>
   s_phase s \<noteq> PhasePaired \<and> s_phase (snd (on_error e s)) = Idle \<and> id_key (s_identity (snd (on_error e s))) = id_key (s_identity s) \<or>
   (e = CReply (Refused UnknownPc) \<or> e = CReply (Refused BadProof)) \<and> s_phase s = PhasePaired \<and>
     s_phase (snd (on_error e s)) = Unpaired \<and> id_key (s_identity (snd (on_error e s))) = None"
  by (auto simp: on_error_def reset_pairing_def Let_def split: call_error.split reply_error.split refusal.split)

lemma on_error_nonces [simp]: "s_nonces (snd (on_error e s)) = s_nonces s"
  by (auto simp: on_error_def reset_pairing_def Let_def split: call_error.split reply_error.split refusal.split)

lemma on_error_backoff:
  "BACKOFF_MIN \<le> s_backoff s \<and> s_backoff s \<le> BACKOFF_MAX \<Longrightarrow>
   BACKOFF_MIN \<le> s_backoff (snd (on_error e s)) \<and> s_backoff (snd (on_error e s)) \<le> BACKOFF_MAX"
  by (auto simp: on_error_def reset_pairing_def Let_def wait_defs split: call_error.split reply_error.split refusal.split)

lemma rate_wait: "ms \<le> (60000 :: u64) \<Longrightarrow> 1000 \<le> unat (max ms 1000) \<and> unat (max ms 1000) \<le> 60000"
  by (auto simp: max_def word_le_nat_alt)

lemma on_error_wait:
  assumes "BACKOFF_MIN \<le> s_backoff s \<and> s_backoff s \<le> BACKOFF_MAX" and "wait_ok s' (Err e)"
  shows "1000 \<le> fst (on_error e s) \<and> fst (on_error e s) \<le> 60000"
  using assms rate_wait
  by (auto simp: on_error_def Let_def wait_ok_def wait_defs split: call_error.splits reply_error.splits refusal.splits)

text \<open>The body of a step from a state in the invariant, in every phase but \<open>Idle\<close>.\<close>

lemma runs_body:
  assumes "ses_inv (ag_ses a)" and "s_phase (ag_ses a) \<noteq> Idle"
  shows "runs a (step_body V) (\<lambda>r a'. ses_inv (ag_ses a') \<and> wait_ok (ag_ses a') r)"
proof -
  have inv: "ses_inv s'" if "kept (ag_ses a) s'" "length (s_nonces s') \<le> 8" "s_phase s' = PhasePaired \<longleftrightarrow> id_key (s_identity s') \<noteq> None" for s'
    using that assms(1) by (simp add: ses_inv_def kept_def)
  have len: "length (s_nonces (ag_ses a)) \<le> 8" and key: "s_phase (ag_ses a) = PhasePaired \<longleftrightarrow> id_key (s_identity (ag_ses a)) \<noteq> None"
    using assms(1) by (simp_all add: ses_inv_def)
  show ?thesis
  proof (cases "s_phase (ag_ses a)")
    case Unpaired
    then have "step_body V a = start_pairing V a" by (simp add: step_body_def bnd_def asks_def)
    with runs_start [OF Unpaired, of V] show ?thesis
      using len key Unpaired by (auto simp: runs_def intro!: inv)
  next
    case (PairingWith init conf announced asked)
    then have "step_body V a = poll_pairing V a" by (simp add: step_body_def bnd_def asks_def)
    with runs_poll [OF PairingWith, of V] show ?thesis
      using len key PairingWith by (auto simp: runs_def poll_post_def intro!: inv split: if_splits)
  next
    case PhasePaired
    then have "step_body V a = beat V a" by (simp add: step_body_def bnd_def asks_def)
    with runs_beat [of a V] show ?thesis
      using len key PhasePaired by (auto simp: runs_def beat_post_def intro!: inv)
  qed (use assms(2) in simp)
qed

text \<open>The wait a step asks for: at most a minute, and under a second only to go straight on after a
  change of phase.\<close>

definition good_wait :: "session \<Rightarrow> nat \<Rightarrow> bool" where
  "good_wait s w \<longleftrightarrow> w \<le> 60000 \<and> (w < 1000 \<longrightarrow> w = 0 \<and>
     (s_phase s = PhasePaired \<or> s_phase s = Unpaired \<or> (\<exists>i c. s_phase s = PairingWith i c False None)))"

lemma runs_step_inv:
  assumes "ses_inv (ag_ses a)"
  shows "runs a (session_step V) (\<lambda>r a'. ses_inv (ag_ses a') \<and> (\<forall>w. r = Ok w \<longrightarrow> good_wait (ag_ses a') w))"
proof (cases "s_phase (ag_ses a) = Idle")
  case True
  then show ?thesis using assms by (simp add: session_step_def run_simps wait_defs good_wait_def)
next
  case False
  have ok: "ses_inv (s\<lparr>s_backoff := BACKOFF_MIN\<rparr>)" "wait_ok s (Ok w) \<Longrightarrow> good_wait (s\<lparr>s_backoff := BACKOFF_MIN\<rparr>) w"
    if "ses_inv s" for s w
    using that by (auto simp: ses_inv_def wait_defs good_wait_def wait_ok_simps)
  have er: "ses_inv (snd (on_error e s))" "wait_ok s (Err e) \<Longrightarrow> good_wait (snd (on_error e s)) (fst (on_error e s))"
    if "ses_inv s" for e s
    using that on_error_phase [of e s] on_error_backoff [of s e] on_error_wait [of s s e]
    by (auto simp: ses_inv_def good_wait_def)
  show ?thesis
    unfolding runs_step [OF False]
    by (rule runs_weaken [OF runs_body [OF assms False]]) (auto simp: ok er split: outcome.split)
qed

lemma session_new_inv: "ses_inv (session_new ident base)"
  by (simp add: ses_inv_def session_new_def wait_defs)

lemma session_reach_inv: "session_reach V s \<Longrightarrow> ses_inv s"
proof (induction rule: session_reach.induct)
  case (stepped s w out a)
  then show ?case using runsD [OF runs_step_inv [of "\<lparr>ag_ses = s, ag_world = w\<rparr>" V]] by auto
next
  case (created ident base)
  show ?case by (rule session_new_inv)
qed (auto simp: ses_inv_def set_base_def found_again_def set_listener_def reset_pairing_def
    request_pairing_def wait_defs)

lemma answer_from_script:
  assumes "answer_reply V a = Inl (CReply e)"
  shows "\<exists>code body. Inr (code, body) \<in> set (w_http (ag_world a)) \<and> parse_http (se_json V) code body = Inl e"
  using assms by (force simp: answer_reply_def answer_def split: list.splits sum.splits)

lemma after_http: "set (w_http (ag_world (after_post b r a))) \<subseteq> set (w_http (ag_world a))"
  "w_http (ag_world (after_event e a)) = w_http (ag_world a)" "w_http (ag_world (after_clock a)) = w_http (ag_world a)"
  "w_http (ag_world (after_rand a)) = w_http (ag_world a)"
  by (auto simp: after_post_def after_answer_def after_event_def after_clock_def after_rand_def dest: list.set_sel(2))

text \<open>The errors a heartbeat can end in were sent by the board.\<close>

lemma runs_beat_refused:
  "runs a (beat V) (\<lambda>r a'. \<forall>f. r = Err (CReply (Refused f)) \<longrightarrow>
     (\<exists>code body. Inr (code, body) \<in> set (w_http (ag_world a)) \<and> parse_http (se_json V) code body = Inl (Refused f)))"
  unfolding beat_def rand16_def
  by (auto simp: run_simps Let_def after_http dest!: answer_from_script dest: malformed_ok split: option.split sum.split)
     (blast dest: subsetD [OF after_http(1)])

subsection \<open>Properties\<close>

text \<open>C4. Whatever the board, the network, the random source and the clock do, and whatever the service
  calls in between: a session holds a key exactly while it is paired, its backoff stays between one
  and thirty seconds, and it keeps at most eight ticket nonces.\<close>

theorem session_invariant:
  assumes "session_reach V s"
  shows "(is_paired s \<longleftrightarrow> id_key (s_identity s) \<noteq> None) \<and> BACKOFF_MIN \<le> s_backoff s \<and> s_backoff s \<le> BACKOFF_MAX \<and>
    length (s_nonces s) \<le> 8"
  using session_reach_inv [OF assms] by (simp add: ses_inv_def is_paired_def)

definition demo_identity :: identity where
  "demo_identity = \<lparr>id_bytes = replicate 16 1, id_name = ''pc'', id_key = None\<rparr>"

definition demo_session_env :: session_env where
  "demo_session_env = \<lparr>se_json = \<lparr>js_print = \<lambda>_. [], js_parse = \<lambda>_. None\<rparr>, se_hex = hex_demo, se_crypto = toy_crypto\<rparr>"

theorem session_invariant_witness:
  "(is_paired (request_pairing (session_new demo_identity ''http://b'')) \<longleftrightarrow>
     id_key (s_identity (request_pairing (session_new demo_identity ''http://b''))) \<noteq> None)"
  using session_invariant [OF session_reach.asked [OF session_reach.created, of demo_session_env demo_identity "''http://b''"]] by blast



text \<open>C5. A paired session loses its key in a step only when the board itself answered that it does not
  know this computer or that the proof is wrong: then the key is forgotten and pairing starts over.
  No network failure, unreadable reply or other refusal touches it.\<close>

theorem key_kept_unless_refused:
  assumes "session_reach V s" and "is_paired s" and "session_step V \<lparr>ag_ses = s, ag_world = w\<rparr> = (r, a)"
  shows "s_phase (ag_ses a) = PhasePaired \<and> id_key (s_identity (ag_ses a)) = id_key (s_identity s) \<or>
    s_phase (ag_ses a) = Unpaired \<and> id_key (s_identity (ag_ses a)) = None \<and>
    (\<exists>code body f. Inr (code, body) \<in> set (w_http w) \<and> parse_http (se_json V) code body = Inl (Refused f) \<and>
       (f = UnknownPc \<or> f = BadProof))"
proof -
  let ?a = "\<lparr>ag_ses = s, ag_world = w\<rparr>"
  have ph: "s_phase (ag_ses ?a) = PhasePaired" and key: "id_key (s_identity s) \<noteq> None"
    using assms(2) session_reach_inv [OF assms(1)] by (simp_all add: is_paired_def ses_inv_def)
  obtain r1 a1 where b: "beat V ?a = (r1, a1)" by fastforce
  have body: "step_body V ?a = (r1, a1)" using ph b by (simp add: step_body_def bnd_def asks_def)
  have post: "s_phase (ag_ses a1) = PhasePaired" "id_key (s_identity (ag_ses a1)) = id_key (s_identity s)"
    using runsD [OF runs_beat b] key ph by (auto simp: beat_post_def)
  have ref: "\<exists>code body. Inr (code, body) \<in> set (w_http w) \<and> parse_http (se_json V) code body = Inl (Refused f)"
    if "r1 = Err (CReply (Refused f))" for f
    using runsD [OF runs_beat_refused b] that by simp
  have run: "runs ?a (session_step V) Q = (case r1 of
      Ok wait \<Rightarrow> Q (Ok wait) (a1\<lparr>ag_ses := (ag_ses a1)\<lparr>s_backoff := BACKOFF_MIN\<rparr>\<rparr>)
    | Err e \<Rightarrow> Q (Ok (fst (on_error e (ag_ses a1)))) (a1\<lparr>ag_ses := snd (on_error e (ag_ses a1))\<rparr>)
    | _ \<Rightarrow> Q (cast_bad r1) a1)" for Q
    using runs_step [of ?a V Q] ph body by (cases r1) (simp_all add: runs_def)
  have "runs ?a (session_step V) (\<lambda>r a. s_phase (ag_ses a) = PhasePaired \<and> id_key (s_identity (ag_ses a)) = id_key (s_identity s) \<or>
    s_phase (ag_ses a) = Unpaired \<and> id_key (s_identity (ag_ses a)) = None \<and>
    (\<exists>code body f. Inr (code, body) \<in> set (w_http w) \<and> parse_http (se_json V) code body = Inl (Refused f) \<and>
       (f = UnknownPc \<or> f = BadProof)))"
    unfolding run using post ref on_error_phase [of _ "ag_ses a1"]
    by (cases r1) (simp_all, metis phase.distinct(11))
  from runsD [OF this assms(3)] show ?thesis .
qed

theorem key_kept_unless_refused_witness:
  "let s = session_new (demo_identity\<lparr>id_key := Some (PairKey [7])\<rparr>) ''http://b'';
       out = session_step demo_session_env \<lparr>ag_ses = set_listener \<lparr>ls_port = 1, ls_fp = ''f''\<rparr> s,
               ag_world = \<lparr>w_http = [Inl TooLarge], w_random = [], w_times = [], w_log = []\<rparr>\<rparr>
   in s_phase (ag_ses (snd out)) = PhasePaired \<and> id_key (s_identity (ag_ses (snd out))) = Some (PairKey [7])"
proof -
  let ?s = "set_listener \<lparr>ls_port = 1, ls_fp = ''f''\<rparr> (session_new (demo_identity\<lparr>id_key := Some (PairKey [7])\<rparr>) ''http://b'')"
  let ?w = "\<lparr>w_http = [Inl TooLarge], w_random = [], w_times = [], w_log = []\<rparr>"
  have "session_reach demo_session_env ?s" by (intro session_reach.listening session_reach.created)
  moreover have "is_paired ?s" "id_key (s_identity ?s) = Some (PairKey [7])"
    by (simp_all add: is_paired_def set_listener_def session_new_def)
  moreover obtain r a where "session_step demo_session_env \<lparr>ag_ses = ?s, ag_world = ?w\<rparr> = (r, a)" by fastforce
  ultimately show ?thesis using key_kept_unless_refused [of demo_session_env ?s ?w r a] by simp
qed

text \<open>C6. The board is asked once: while it has the request, polling sends no \<open>hello\<close>; and a new key is
  taken only when the board says paired and the app has confirmed this very attempt.\<close>

theorem hello_only_once:
  assumes "s_phase s = PairingWith init conf True asked" and "session_step V \<lparr>ag_ses = s, ag_world = w\<rparr> = (r, a)"
  shows "\<exists>es. w_log (ag_world a) = w_log w @ es \<and>
      (\<forall>url v pid name a_pub com. EvPost url (Hello v pid name a_pub com) \<notin> set es) \<and>
      (id_key (s_identity (ag_ses a)) = id_key (s_identity s) \<or>
       (\<exists>c. conf = Some c \<and> id_key (s_identity (ag_ses a)) = Some (cf_key c) \<and> is_paired (ag_ses a)))"
proof -
  let ?a = "\<lparr>ag_ses = s, ag_world = w\<rparr>"
  have ph: "s_phase (ag_ses ?a) = PairingWith init conf True asked" using assms(1) by simp
  have hello: "list_all no_hello es \<Longrightarrow> EvPost url (Hello v pid name a_pub com) \<notin> set es" for es url v pid name a_pub com
    by (auto simp: list_all_iff no_hello_def)
  let ?K = "\<lambda>s'. if s_phase s' = PhasePaired then \<exists>c. conf = Some c \<and> id_key (s_identity s') = Some (cf_key c)
    else id_key (s_identity s') = id_key (s_identity s)"
  let ?Q = "\<lambda>a'. (\<exists>es. w_log (ag_world a') = w_log w @ es \<and> list_all no_hello es) \<and> ?K (ag_ses a')"
  have body: "runs ?a (step_body V) (\<lambda>r a'. ?Q a' \<and> (s_phase (ag_ses a') = PhasePaired \<longrightarrow> r = Ok 0))"
  proof -
    have "step_body V ?a = poll_pairing V ?a" using ph by (simp add: step_body_def bnd_def asks_def)
    then show ?thesis
      using runs_poll [OF ph, of V] by (auto simp: runs_def poll_post_def new_events_def pair_request_def no_hello_def split: if_splits)
  qed
  have err: "?K (snd (on_error e s'))" if "?K s'" "s_phase s' \<noteq> PhasePaired" for e s'
    using that on_error_phase [of e s'] by auto
  have idle: "s_phase (ag_ses ?a) \<noteq> Idle" using ph by simp
  have "runs ?a (session_step V) (\<lambda>_. ?Q)"
    unfolding runs_step [OF idle]
    by (rule runs_weaken [OF body]) (use err in \<open>auto split: outcome.split\<close>)
  from runsD [OF this assms(2)] show ?thesis
    using hello by (auto simp: is_paired_def split: if_splits)
qed

definition demo_pairing :: session where
  "demo_pairing = (session_new demo_identity ''http://b'')\<lparr>s_phase :=
     PairingWith (initiator_from_parts toy_crypto [1] [2]) None True (Some 0)\<rparr>"

theorem hello_only_once_witness:
  "\<exists>es. w_log (ag_world (snd (session_step demo_session_env \<lparr>ag_ses = demo_pairing, ag_world = \<lparr>w_http = [], w_random = [], w_times = [], w_log = []\<rparr>\<rparr>)))
      = [] @ es \<and> (\<forall>url v pid name a_pub com. EvPost url (Hello v pid name a_pub com) \<notin> set es)"
proof -
  let ?w = "\<lparr>w_http = [], w_random = [], w_times = [], w_log = []\<rparr> :: world"
  obtain r a where s: "session_step demo_session_env \<lparr>ag_ses = demo_pairing, ag_world = ?w\<rparr> = (r, a)" by fastforce
  have "s_phase demo_pairing = PairingWith (initiator_from_parts toy_crypto [1] [2]) None True (Some 0)"
    by (simp add: demo_pairing_def)
  from hello_only_once [OF this s] show ?thesis using s by auto
qed



text \<open>C19. A status page can stop the app: a board that answers "no such request" and reports the
  largest uptime there is makes the check for a restart add one second past the end of \<open>Duration\<close>,
  which panics.\<close>

theorem uptime_overflow_panics:
  assumes "s_phase s = PairingWith init conf True (Some at)" and "w_http w = [Inr (c, b1), Inr (200, b2)]"
    and "parse_http (se_json V) c b1 = Inr reply" and "rr_state reply = Some PsNone"
    and "js_parse (se_json V) b2 = Some (JObj [(''uptime_sec'', JInt (2 ^ 64 - 1))])"
  shows "fst (session_step V \<lparr>ag_ses = s, ag_world = w\<rparr>) = Panic"
proof -
  let ?a = "\<lparr>ag_ses = s, ag_world = w\<rparr>"
  have r1: "answer_reply V ?a = Inr reply" using assms by (simp add: answer_reply_def answer_def)
  have up: "answer_uptime V b = Some (- 1)" if "w_http (ag_world b) = [Inr (200, b2)]" for b
    using that assms(5) by (simp add: answer_uptime_def answer_def)
  have left: "w_http (ag_world (after_post base req ?a)) = [Inr (200, b2)]" for base req
    using assms(2) by (simp add: after_post_def after_answer_def after_event_def)
  have "unat (- 1 :: u64) + 1 = 2 ^ 64" by (simp add: unsigned_minus_1_eq_mask mask_eq_exp_minus_1)
  then have big: "2 ^ 64 \<le> unat (- 1 :: u64) + 1" by simp
  have idle: "s_phase (ag_ses ?a) \<noteq> Idle" using assms(1) by simp
  have body: "step_body V ?a = poll_pairing V ?a" using assms(1) by (simp add: step_body_def bnd_def asks_def)
  have "runs ?a (poll_pairing V) (\<lambda>r _. r = Panic)"
    using assms(1,4) r1 left up big
    by (simp add: poll_pairing_def run_simps reply_pair_state_def pair_answer_def request_gone_def Let_def after_http)
  then have "runs ?a (session_step V) (\<lambda>r _. r = Panic)"
    unfolding runs_step [OF idle] by (simp add: runs_def body)
  then show ?thesis by (simp add: runs_def)
qed

theorem uptime_overflow_panics_witness:
  "let V = demo_session_env\<lparr>se_json := \<lparr>js_print = \<lambda>_. [], js_parse = \<lambda>b.
         if b = ''n'' then Some (JObj [(''status'', JStr ''ok''), (''state'', JStr ''none'')])
         else Some (JObj [(''uptime_sec'', JInt (2 ^ 64 - 1))])\<rparr>\<rparr>
   in fst (session_step V \<lparr>ag_ses = demo_pairing, ag_world = \<lparr>w_http = [Inr (200, ''n''), Inr (200, ''u'')], w_random = [], w_times = [], w_log = []\<rparr>\<rparr>) = Panic"
proof -
  let ?J = "\<lparr>js_print = \<lambda>_. [], js_parse = \<lambda>b.
         if b = ''n'' then Some (JObj [(''status'', JStr ''ok''), (''state'', JStr ''none'')])
         else Some (JObj [(''uptime_sec'', JInt (2 ^ 64 - 1))])\<rparr>"
  obtain reply where "parse_http ?J 200 ''n'' = Inr reply" "rr_state reply = Some PsNone"
    by (simp add: parse_http_def reply_parse_def raw_reply_of_json_def field_def opt_field_def pair_state_of_def Let_def)
  then show ?thesis
    unfolding Let_def by (intro uptime_overflow_panics) (simp_all add: demo_pairing_def, simp_all)
qed

end
