(* ===== verification/Locate.thy ===== *)
theory Locate
  imports Discovery Session
begin

section \<open>Finding the boards plugged into this computer (crates/hidfi-agent/src/locate.rs)\<close>

text \<open>
  From the addresses on USB to boards that answer on the network.  The USB listing, what mDNS has
  seen and the answers to \<open>GET\<close> are arguments; why an address missed is a value instead of a text.
\<close>

subsection \<open>Definitions\<close>

type_synonym http_get = "string \<Rightarrow> net_error + u16 \<times> string"

record status_reply =
  sr_mac :: "string option"
  sr_firmware :: "string option"
  sr_wifi_ip :: "string option"

definition status_of_json :: "json \<Rightarrow> status_reply option" where
  "status_of_json v =
     (case v of
        JObj ms \<Rightarrow>
          (case (opt_field ms ''mac'' as_str, opt_field ms ''firmware'' as_str, opt_field ms ''wifi_ip'' as_str) of
             (Some m, Some f, Some w) \<Rightarrow> Some \<lparr>sr_mac = m, sr_firmware = f, sr_wifi_ip = w\<rparr> | _ \<Rightarrow> None)
      | _ \<Rightarrow> None)"

definition mdns_url :: "mac \<Rightarrow> string" where
  "mdns_url m = ''http://esp-hid-'' @ hex2 (mac_bytes m ! 3) @ hex2 (mac_bytes m ! 4) @ hex2 (mac_bytes m ! 5) @ ''.local''"

text \<open>\<open>Ipv4Addr\<close>'s reading: four decimal numbers up to 255, without leading zeros.\<close>

definition ipv4_part :: "string \<Rightarrow> nat option" where
  "ipv4_part p =
     (if p = [] \<or> 3 < length p \<or> \<not> list_all is_digit p \<or> (1 < length p \<and> hd p = CHR ''0'') \<or> 255 < undec p then None
      else Some (undec p))"

definition parse_ipv4 :: "string \<Rightarrow> nat list option" where
  "parse_ipv4 s =
     (let parts = map ipv4_part (split_by (\<lambda>c. c = CHR ''.'') s) in
      if length parts \<noteq> 4 \<or> None \<in> set parts then None else Some (map the parts))"

definition ipv4_text :: "nat list \<Rightarrow> string" where
  "ipv4_text ns = dec (ns ! 0) @ ''.'' @ dec (ns ! 1) @ ''.'' @ dec (ns ! 2) @ ''.'' @ dec (ns ! 3)"

text \<open>\<open>trim_start_matches("http://")\<close>: as often as it is there.\<close>

function trim_http :: "string \<Rightarrow> string" where
  "trim_http s = (if starts_with ''http://'' s then trim_http (drop 7 s) else s)"
  by pat_completeness auto

termination
proof (relation "measure length")
  fix s assume "starts_with ''http://'' s"
  then show "(drop 7 s, s) \<in> measure length" by (cases s) (simp_all add: starts_with_def)
qed simp

declare trim_http.simps [simp del]

definition is_local_name :: "string \<Rightarrow> bool" where
  "is_local_name base =
     ends_with ''.local'' (hd (split_by (\<lambda>c. c = CHR ''/'' \<or> c = CHR '':'') (trim_http base)))"

definition probe_url :: "string \<Rightarrow> string option \<Rightarrow> string" where
  "probe_url base wifi_ip =
     (case Option.bind wifi_ip parse_ipv4 of
        Some ip \<Rightarrow> if is_local_name base \<and> ip \<noteq> [0, 0, 0, 0] then ''http://'' @ ipv4_text ip else base
      | None \<Rightarrow> base)"

definition probe_parse :: "codec \<Rightarrow> string \<Rightarrow> string \<Rightarrow> net_board option" where
  "probe_parse J base body =
     (case Option.bind (js_parse J body) status_of_json of
        None \<Rightarrow> None
      | Some s \<Rightarrow>
          (case sr_firmware s of
             None \<Rightarrow> None
           | Some firmware \<Rightarrow>
               if \<not> starts_with ''hid_fi_v'' firmware then None
               else
                 (case Option.bind (sr_mac s) mac_parse of
                    None \<Rightarrow> None
                  | Some m \<Rightarrow> Some \<lparr>nb_url = probe_url base (sr_wifi_ip s), nb_mac = m, nb_firmware = firmware\<rparr>)))"

datatype miss = MissNet net_error | MissHttp u16 | MissNotBoard

definition probe_why :: "codec \<Rightarrow> http_get \<Rightarrow> string \<Rightarrow> miss + net_board" where
  "probe_why J get base =
     (case get (base @ ''/api/status'') of
        Inl e \<Rightarrow> Inl (MissNet e)
      | Inr (code, body) \<Rightarrow>
          if code \<noteq> 200 then Inl (MissHttp code)
          else (case probe_parse J base body of None \<Rightarrow> Inl MissNotBoard | Some b \<Rightarrow> Inr b))"

definition probe :: "codec \<Rightarrow> http_get \<Rightarrow> string \<Rightarrow> net_board option" where
  "probe J get base = (case probe_why J get base of Inl _ \<Rightarrow> None | Inr b \<Rightarrow> Some b)"

definition add_url :: "string \<Rightarrow> string list \<Rightarrow> string list" where
  "add_url u out = (if u \<in> set out then out else out @ [u])"

definition candidates :: "mac list \<Rightarrow> string option \<Rightarrow> string list \<Rightarrow> string list" where
  "candidates macs remembered_url browsed =
     fold add_url (map mdns_url macs)
       (fold add_url browsed
         (case remembered_url of Some u \<Rightarrow> add_url u [] | None \<Rightarrow> []))"

text \<open>The loop over the addresses: the first answer of a board is kept; the misses are listed.\<close>

fun ask_all :: "codec \<Rightarrow> http_get \<Rightarrow> string list \<Rightarrow> net_board list \<Rightarrow> (string \<times> miss) list \<Rightarrow>
    net_board list \<times> (string \<times> miss) list" where
  "ask_all J get [] seen misses = (seen, misses)"
| "ask_all J get (url # urls) seen misses =
     (case probe_why J get url of
        Inr b \<Rightarrow> ask_all J get urls (if list_ex (\<lambda>s. nb_mac s = nb_mac b) seen then seen else seen @ [b]) misses
      | Inl why \<Rightarrow> ask_all J get urls seen (misses @ [(url, why)]))"

record found_one =
  fo_selection :: selection
  fo_usb :: "mac list"
  fo_misses :: "(string \<times> miss) list"

definition find_board ::
  "codec \<Rightarrow> usb_device list \<Rightarrow> http_get \<Rightarrow> string list \<Rightarrow> (mac \<times> string) option \<Rightarrow> found_one" where
  "find_board J devices get browsed remembered =
     (let macs = usb_macs devices in
      if macs = [] then \<lparr>fo_selection = NotPluggedIn 0, fo_usb = macs, fo_misses = []\<rparr>
      else
        let (seen, misses) = ask_all J get (candidates macs (map_option snd remembered) browsed) [] []
        in \<lparr>fo_selection = select devices seen (map_option fst remembered), fo_usb = macs, fo_misses = misses\<rparr>)"

record found_all =
  fa_here :: "net_board list"
  fa_offline :: "mac list"
  fa_elsewhere :: nat
  fa_misses :: "(string \<times> miss) list"

definition find_all ::
  "codec \<Rightarrow> usb_device list \<Rightarrow> http_get \<Rightarrow> string list \<Rightarrow> (mac \<times> string) list \<Rightarrow> found_all" where
  "find_all J devices get browsed remembered =
     (let macs = usb_macs devices in
      if macs = [] then \<lparr>fa_here = [], fa_offline = [], fa_elsewhere = 0, fa_misses = []\<rparr>
      else
        let known = map snd (filter (\<lambda>(m, _). m \<in> set macs) remembered);
            urls = fold add_url (candidates macs None browsed) known;
            (seen, misses) = ask_all J get urls [] [];
            here = sort_key nb_mac (filter (\<lambda>b. nb_mac b \<in> set macs) seen)
        in \<lparr>fa_here = here, fa_offline = filter (\<lambda>m. \<not> list_ex (\<lambda>b. nb_mac b = m) here) macs,
             fa_elsewhere = length (filter (\<lambda>b. nb_mac b \<notin> set macs) seen), fa_misses = misses\<rparr>)"

subsection \<open>Lemmas\<close>

lemma fold_add_url_distinct: "distinct out \<Longrightarrow> distinct (fold add_url us out)"
  by (induction us arbitrary: out) (auto simp: add_url_def)

lemma fold_add_url_set: "set (fold add_url us out) = set out \<union> set us"
  by (induction us arbitrary: out) (auto simp: add_url_def)

lemma fold_add_url_prefix: "\<exists>new. fold add_url us out = out @ new"
proof (induction us arbitrary: out)
  case (Cons u us)
  obtain new where "fold add_url us (add_url u out) = add_url u out @ new" using Cons by blast
  then show ?case by (auto simp: add_url_def [of u] split: if_splits)
qed simp

lemma candidates_set:
  "set (candidates macs r browsed) = (case r of Some u \<Rightarrow> {u} | None \<Rightarrow> {}) \<union> set browsed \<union> mdns_url ` set macs"
  by (auto simp: candidates_def fold_add_url_set add_url_def split: option.split)

lemma ask_all_distinct:
  "distinct (map nb_mac seen) \<Longrightarrow> distinct (map nb_mac (fst (ask_all J get urls seen misses)))"
  by (induction urls arbitrary: seen misses) (auto simp: list_ex_iff image_iff eq_commute split: sum.split)

lemma ask_all_grows: "set seen \<subseteq> set (fst (ask_all J get urls seen misses))"
proof (induction urls arbitrary: seen misses)
  case (Cons u urls)
  show ?case
  proof (cases "probe_why J get u")
    case (Inr b)
    have "set seen \<subseteq> set (if list_ex (\<lambda>s. nb_mac s = nb_mac b) seen then seen else seen @ [b])" by auto
    with Cons Inr show ?thesis by (simp only: ask_all.simps sum.case) blast
  qed (use Cons in simp)
qed simp

lemma ask_all_probed:
  "b \<in> set (fst (ask_all J get urls seen misses)) \<Longrightarrow> b \<in> set seen \<or> (\<exists>u \<in> set urls. probe_why J get u = Inr b)"
proof (induction urls arbitrary: seen misses)
  case (Cons u urls)
  show ?case
  proof (cases "probe_why J get u")
    case (Inl w)
    with Cons.IH [of seen "misses @ [(u, w)]"] Cons.prems show ?thesis by auto
  next
    case (Inr c)
    with Cons.IH [of "if list_ex (\<lambda>s. nb_mac s = nb_mac c) seen then seen else seen @ [c]" misses] Cons.prems
    show ?thesis by (auto split: if_splits)
  qed
qed simp

lemma ask_all_misses:
  "snd (ask_all J get urls seen misses) = misses @ List.map_filter (\<lambda>u. case probe_why J get u of Inl w \<Rightarrow> Some (u, w) | Inr _ \<Rightarrow> None) urls"
  by (induction urls arbitrary: seen misses) (auto simp: map_filter_simps split: sum.split)

lemma ask_all_complete:
  assumes "u \<in> set urls" and "probe_why J get u = Inr b"
  shows "nb_mac b \<in> nb_mac ` set (fst (ask_all J get urls seen misses))"
  using assms(1)
proof (induction urls arbitrary: seen misses)
  case (Cons v urls)
  show ?case
  proof (cases "v = u")
    case True
    let ?s = "if list_ex (\<lambda>s. nb_mac s = nb_mac b) seen then seen else seen @ [b]"
    have "nb_mac b \<in> nb_mac ` set ?s" by (auto simp: list_ex_iff image_iff eq_commute)
    moreover have "set ?s \<subseteq> set (fst (ask_all J get urls ?s misses))" by (rule ask_all_grows)
    ultimately have "nb_mac b \<in> nb_mac ` set (fst (ask_all J get urls ?s misses))" by blast
    then show ?thesis using True assms(2) by simp
  next
    case False
    with Cons show ?thesis by (auto split: sum.split)
  qed
qed simp

lemma probe_firmware: "probe_why J get u = Inr b \<Longrightarrow> starts_with ''hid_fi_v'' (nb_firmware b)"
  by (auto simp: probe_why_def probe_parse_def split: sum.splits option.splits if_splits)

definition all_urls :: "usb_device list \<Rightarrow> string list \<Rightarrow> (mac \<times> string) list \<Rightarrow> string list" where
  "all_urls devices browsed remembered =
     fold add_url (candidates (usb_macs devices) None browsed) (map snd (filter (\<lambda>(m, _). m \<in> set (usb_macs devices)) remembered))"

definition answered_boards :: "codec \<Rightarrow> http_get \<Rightarrow> string list \<Rightarrow> net_board list" where
  "answered_boards J get urls = fst (ask_all J get urls [] [])"

lemma find_all_eq:
  assumes "usb_macs devices \<noteq> []"
  shows "fa_here (find_all J devices get browsed remembered) =
      sort_key nb_mac (filter (\<lambda>b. nb_mac b \<in> set (usb_macs devices)) (answered_boards J get (all_urls devices browsed remembered)))"
    and "fa_offline (find_all J devices get browsed remembered) =
      filter (\<lambda>m. m \<notin> nb_mac ` set (fa_here (find_all J devices get browsed remembered))) (usb_macs devices)"
  using assms by (auto simp: find_all_def all_urls_def answered_boards_def Let_def list_ex_iff image_iff split: prod.split intro!: filter_cong)

lemma all_urls_set:
  "mdns_url m \<in> set (all_urls devices browsed remembered)" if "on_usb devices m"
  using that by (auto simp: all_urls_def fold_add_url_set candidates_set usb_macs_spec(3))

subsection \<open>Properties\<close>

text \<open>Every board on USB is accounted for exactly once: it is listed as here, where it answered as a
  HID-Fi board under an address that was asked, or as offline; a board whose own network name or any
  asked address answers is never called offline; the list is in order and without doubles.\<close>

theorem find_all_accounts:
  fixes J devices get browsed remembered
  defines "F \<equiv> find_all J devices get browsed remembered"
  shows "{m. on_usb devices m} = nb_mac ` set (fa_here F) \<union> set (fa_offline F) \<and>
    nb_mac ` set (fa_here F) \<inter> set (fa_offline F) = {} \<and>
    distinct (map nb_mac (fa_here F)) \<and> sorted (map nb_mac (fa_here F)) \<and> distinct (fa_offline F) \<and>
    (\<forall>b \<in> set (fa_here F). on_usb devices (nb_mac b) \<and> (\<exists>u. probe_why J get u = Inr b) \<and> starts_with ''hid_fi_v'' (nb_firmware b)) \<and>
    (\<forall>m b. on_usb devices m \<longrightarrow> probe_why J get (mdns_url m) = Inr b \<longrightarrow> nb_mac b = m \<longrightarrow> m \<notin> set (fa_offline F))"
proof (cases "usb_macs devices = []")
  case True
  then have "{m. on_usb devices m} = {}" using usb_macs_spec(3) [of devices] by simp
  with True show ?thesis by (simp add: F_def find_all_def)
next
  case False
  let ?M = "set (usb_macs devices)" and ?urls = "all_urls devices browsed remembered"
  let ?A = "answered_boards J get ?urls"
  note here = find_all_eq(1) [OF False, of J get browsed remembered, folded F_def]
  note off = find_all_eq(2) [OF False, of J get browsed remembered, folded F_def]
  have M: "?M = {m. on_usb devices m}" by (rule usb_macs_spec)
  have set_here: "set (fa_here F) = {b \<in> set ?A. nb_mac b \<in> ?M}" by (auto simp: here)
  have "mset (map nb_mac (fa_here F)) = mset (map nb_mac (filter (\<lambda>b. nb_mac b \<in> ?M) ?A))" by (simp add: here)
  moreover have "distinct (map nb_mac (filter (\<lambda>b. nb_mac b \<in> ?M) ?A))"
    using ask_all_distinct [of "[]" J get ?urls "[]"] by (simp add: answered_boards_def distinct_map_filter)
  ultimately have dist: "distinct (map nb_mac (fa_here F))" by (metis mset_eq_imp_distinct_iff)
  have probed: "(\<exists>u. probe_why J get u = Inr b) \<and> starts_with ''hid_fi_v'' (nb_firmware b)" if "b \<in> set ?A" for b
    using probe_firmware [of J get _ b] ask_all_probed [of b J get ?urls "[]" "[]"] that by (auto simp: answered_boards_def)
  have got: "m \<notin> set (fa_offline F)" if "on_usb devices m" "probe_why J get (mdns_url m) = Inr b" "nb_mac b = m" for m b
    using ask_all_complete [OF all_urls_set [OF that(1), of browsed remembered] that(2), of "[]" "[]"] that M
    by (auto simp: off set_here answered_boards_def)
  show ?thesis
    using dist probed got M usb_macs_spec(2) [of devices] by (auto simp: off set_here) (simp_all add: here)
qed

theorem find_all_accounts_witness:
  "Mac [0xDC, 0xB4, 0xD9, 0x09, 0xF7, 0xC8] \<in> set (fa_offline (find_all \<lparr>js_print = \<lambda>_. [], js_parse = \<lambda>_. None\<rparr>
     [\<lparr>ud_vid = 0x303A, ud_pid = 1, ud_serial = Some ''DCB4D909F7C8''\<rparr>] (\<lambda>_. Inl TooLarge) [] []))"
proof -
  let ?J = "\<lparr>js_print = \<lambda>_. [], js_parse = \<lambda>_. None\<rparr> :: codec" and ?m = "Mac [0xDC, 0xB4, 0xD9, 0x09, 0xF7, 0xC8]"
  let ?d = "[\<lparr>ud_vid = 0x303A, ud_pid = 1, ud_serial = Some ''DCB4D909F7C8''\<rparr>] :: usb_device list"
  let ?F = "find_all ?J ?d (\<lambda>_. Inl TooLarge) [] []"
  have "mac_parse ''DCB4D909F7C8'' = Some ?m" by code_simp
  then have on: "on_usb ?d ?m" by (simp add: on_usb_def ESPRESSIF_VID_def)
  have "fa_here ?F = []"
    using find_all_accounts [of ?d ?J "\<lambda>_. Inl TooLarge" "[]" "[]"]
    by (cases "fa_here ?F") (auto simp: probe_why_def)
  then show ?thesis using find_all_accounts [of ?d ?J "\<lambda>_. Inl TooLarge" "[]" "[]"] on by auto
qed

text \<open>With nothing of ours on USB the network is not touched: the answer is the same whatever
  answers there.  Otherwise the addresses asked are without doubles, the remembered one first.\<close>

theorem find_board_quiet:
  "(usb_macs devices = [] \<longrightarrow>
      find_board J devices get browsed remembered = \<lparr>fo_selection = NotPluggedIn 0, fo_usb = [], fo_misses = []\<rparr> \<and>
      find_all J devices get browsed rem = \<lparr>fa_here = [], fa_offline = [], fa_elsewhere = 0, fa_misses = []\<rparr>) \<and>
   distinct (candidates macs r browsed) \<and> (\<forall>u. r = Some u \<longrightarrow> hd (candidates macs r browsed) = u) \<and>
   set (candidates macs r browsed) = set_option r \<union> set browsed \<union> mdns_url ` set macs"
proof (intro conjI impI allI)
  let ?first = "case r of Some u \<Rightarrow> add_url u [] | None \<Rightarrow> []"
  show "distinct (candidates macs r browsed)"
    unfolding candidates_def by (intro fold_add_url_distinct) (simp add: add_url_def split: option.split)
  show "set (candidates macs r browsed) = set_option r \<union> set browsed \<union> mdns_url ` set macs"
    by (auto simp: candidates_set split: option.splits)
  fix u assume u: "r = Some u"
  obtain n1 where n1: "fold add_url browsed [u] = [u] @ n1" using fold_add_url_prefix by blast
  obtain n2 where "fold add_url (map mdns_url macs) ([u] @ n1) = ([u] @ n1) @ n2" using fold_add_url_prefix by blast
  then show "hd (candidates macs r browsed) = u" using n1 by (simp add: candidates_def u add_url_def [of u])
qed (simp_all add: find_board_def find_all_def)

theorem find_board_quiet_witness:
  "find_board \<lparr>js_print = \<lambda>_. [], js_parse = \<lambda>_. None\<rparr> [] (\<lambda>_. Inl TooLarge) [] None
     = \<lparr>fo_selection = NotPluggedIn 0, fo_usb = [], fo_misses = []\<rparr>"
  using find_board_quiet [of "[]" "\<lparr>js_print = \<lambda>_. [], js_parse = \<lambda>_. None\<rparr>" "\<lambda>_. Inl TooLarge" "[]" None "[]" "[]" None]
  by (simp add: usb_macs_def List.map_filter_def)

end
