(* ===== verification/Recovery.thy ===== *)
theory Recovery
  imports Discovery Image
begin

section \<open>Recovery mode over the board's own USB (crates/hidfi-companion/src/recovery.rs)\<close>

text \<open>
  The line-based JSON link to a board in recovery mode, what the window can ask for over it, and the
  worker that keeps the window's view.  A port is a script: the outcome of each write, the bytes of each
  read and each reading of the clock, in order; what was sent is kept.  Time is in milliseconds.  The
  JSON text and the hex crate are arguments; upper and lower case are those of ASCII, as the board
  spells addresses and product names.  The lock, the channel and the thread around the worker are left
  out: messages are handled one after the other.
\<close>

subsection \<open>Definitions: the link\<close>

definition ESP_NATIVE :: "u16 \<times> u16" where "ESP_NATIVE = (0x303A, 0x1001)"
definition WINDOW :: nat where "WINDOW = 300000"
definition T_ms :: nat where "T_ms = 6000"

datatype rec_error =
    ROpen string
  | RNoAnswer
  | RNotInRecovery
  | RRefused string
  | RInvalid string
  | RWouldErase nat
  | RNotTaken
  | RResetLink

definition rec_text :: "bool \<Rightarrow> rec_error \<Rightarrow> string" where
  "rec_text linux e =
     (case e of
        ROpen m \<Rightarrow>
          if linux \<and> str_contains ''PERMISSION'' (map upper m) then
            ''This computer will not let the Companion open the board's USB serial port. Add yourself to the 'dialout' group (sudo usermod -aG dialout $USER), log out and in, then try again.''
          else ''Could not open the board's recovery link: '' @ m @ ''. Close anything else using it and try again.''
      | RNoAnswer \<Rightarrow> ''The board did not answer. Recovery mode may have just closed: hold BOOT 8 s again.''
      | RNotInRecovery \<Rightarrow> ''This board is not in recovery mode.''
      | RRefused m \<Rightarrow> ''The board refused: '' @ m
      | RInvalid m \<Rightarrow> m
      | RWouldErase n \<Rightarrow> dec n @ '' stored password(s) WILL BE ERASED - they were guarded by the access PIN. Type ERASE to go ahead.''
      | RNotTaken \<Rightarrow> ''The board did not take it. Nothing changed.''
      | RResetLink \<Rightarrow> ''This board's USB link was opened for a factory reset.'')"

record line_port =
  lp_dtr :: "string option"
  lp_writes :: "string option list"
  lp_reads :: "(string + u8 list) list"
  lp_times :: "nat list"
  lp_sent :: "json list"

type_synonym 'a lprog = "(line_port, rec_error, 'a) prog"

text \<open>Past the end of its script a write succeeds, a read gives nothing and the clock is at \<open>t\<close>.\<close>

definition lp_write :: "json \<Rightarrow> unit lprog" where
  "lp_write body p =
     (case lp_writes p of
        Some e # ws \<Rightarrow> (Err (ROpen e), p\<lparr>lp_writes := ws\<rparr>)
      | None # ws \<Rightarrow> (Ok (), p\<lparr>lp_writes := ws, lp_sent := lp_sent p @ [body]\<rparr>)
      | [] \<Rightarrow> (Ok (), p\<lparr>lp_sent := lp_sent p @ [body]\<rparr>))"

definition lp_read :: "(string + u8 list) lprog" where
  "lp_read p =
     (case lp_reads p of [] \<Rightarrow> (Ok (Inr []), p) | r # rs \<Rightarrow> (Ok r, p\<lparr>lp_reads := rs\<rparr>))"

text \<open>Draining what came before: reads until nothing comes or one fails.\<close>

fun drain_reads :: "(string + u8 list) list \<Rightarrow> (string + u8 list) list" where
  "drain_reads (Inr (b # bs) # rs) = drain_reads rs"
| "drain_reads (_ # rs) = rs"
| "drain_reads [] = []"

definition link_new :: "unit lprog" where
  "link_new p =
     (case lp_dtr p of
        Some e \<Rightarrow> (Err (ROpen e), p)
      | None \<Rightarrow> (Ok (), p\<lparr>lp_reads := drain_reads (lp_reads p)\<rparr>))"

definition is_reply :: "json \<Rightarrow> bool" where
  "is_reply v \<longleftrightarrow> jget v ''status'' \<noteq> None \<and> jget v ''event'' = None"

definition line_reply :: "codec \<Rightarrow> u8 list \<Rightarrow> json option" where
  "line_reply J l =
     (let t = str_trim (utf8_lossy l) in
      if \<not> starts_with ''{'' t then None
      else (case js_parse J t of Some v \<Rightarrow> if is_reply v then Some v else None | None \<Rightarrow> None))"

text \<open>The whole lines of the buffer: the first that is a reply, or what is left after them.\<close>

function take_reply :: "codec \<Rightarrow> u8 list \<Rightarrow> json option \<times> u8 list" where
  "take_reply J buf =
     (case position (\<lambda>b. b = 10) buf of
        None \<Rightarrow> (None, buf)
      | Some i \<Rightarrow>
          (case line_reply J (take (Suc i) buf) of
             Some v \<Rightarrow> (Some v, drop (Suc i) buf)
           | None \<Rightarrow> take_reply J (drop (Suc i) buf)))"
  by pat_completeness auto

termination
proof (relation "measure (\<lambda>(_, buf). length buf)")
  fix J and buf :: "u8 list" and i assume "position (\<lambda>b. b = 10) buf = Some i"
  then have "buf \<noteq> []" by (cases buf) auto
  then show "((J, drop (Suc i) buf), J, buf) \<in> measure (\<lambda>(_, buf). length buf)" by (cases buf) simp_all
qed simp

declare take_reply.simps [simp del]

text \<open>The wait for a reply: a round for every reading of the clock before \<open>deadline\<close>.\<close>

fun cmd_wait :: "codec \<Rightarrow> nat \<Rightarrow> nat list \<Rightarrow> u8 list \<Rightarrow> json lprog" where
  "cmd_wait J deadline [] buf p = (Err RNoAnswer, p\<lparr>lp_times := []\<rparr>)"
| "cmd_wait J deadline (now # ts) buf p =
     (if deadline \<le> now then (Err RNoAnswer, p\<lparr>lp_times := ts\<rparr>)
      else
        case lp_read p of
          (Ok (Inl e), p') \<Rightarrow> (Err (ROpen e), p'\<lparr>lp_times := ts\<rparr>)
        | (Ok (Inr bs), p') \<Rightarrow>
            (case take_reply J (buf @ bs) of
               (Some v, _) \<Rightarrow> (Ok v, p'\<lparr>lp_times := ts\<rparr>)
             | (None, rest) \<Rightarrow> cmd_wait J deadline ts rest p')
        | (_, p') \<Rightarrow> (Panic, p'))"

definition link_cmd :: "codec \<Rightarrow> json \<Rightarrow> nat \<Rightarrow> json lprog" where
  "link_cmd J body timeout =
     seq (lp_write body) (\<lambda>p.
       case lp_times p of
         [] \<Rightarrow> (Err RNoAnswer, p)
       | start # ts \<Rightarrow> cmd_wait J (start + timeout) ts [] p)"

subsection \<open>Definitions: the actions\<close>

definition jidx :: "json \<Rightarrow> string \<Rightarrow> json" where
  "jidx v k = (case jget v k of Some x \<Rightarrow> x | None \<Rightarrow> JNull)"

definition jstr :: "json \<Rightarrow> string \<Rightarrow> string" where
  "jstr v k = (case as_str (jidx v k) of Some s \<Rightarrow> s | None \<Rightarrow> [])"

definition jcmd :: "string \<Rightarrow> json" where
  "jcmd c = JObj [(''cmd'', JStr c)]"

definition reply_ok :: "json \<Rightarrow> json lprog" where
  "reply_ok v =
     (if jidx v ''status'' = JStr ''ok'' then ret v
      else throw (RRefused (case as_str (jidx v ''message'') of Some s \<Rightarrow> s | None \<Rightarrow> ''no reason given'')))"

record rec_info =
  ri_mac :: string
  ri_firmware :: string
  ri_left_s :: u64
  ri_ssid :: string
  ri_open :: bool
  ri_generated :: bool
  ri_pin_set :: bool
  ri_stored :: nat
  ri_vault_pin :: bool

definition vault_fate :: "rec_info \<Rightarrow> string" where
  "vault_fate i =
     (if ri_stored i = 0 then ''nothing stored, nothing to lose''
      else if ri_vault_pin i then dec (ri_stored i) @ '' stored password(s) kept - the vault has its own vault PIN''
      else dec (ri_stored i) @ '' stored password(s) WILL BE ERASED - they were guarded by the access PIN'')"

definition entries_len :: "json \<Rightarrow> nat" where
  "entries_len v = (case as_array (jidx v ''entries'') of Some xs \<Rightarrow> length xs | None \<Rightarrow> 0)"

definition rec_get_info :: "codec \<Rightarrow> rec_info lprog" where
  "rec_get_info J =
     bnd (link_cmd J (jcmd ''status'') 1500) (\<lambda>st.
       if jidx st ''recovery'' \<noteq> JBool True then throw RNotInRecovery
       else if jidx st ''recovery_kind'' = JStr ''reset'' then throw RResetLink
       else
         bnd (bnd (link_cmd J (jcmd ''ap_password'') T_ms) reply_ok) (\<lambda>ap.
         bnd (bnd (link_cmd J (jcmd ''vault_list'') T_ms) reply_ok) (\<lambda>vl.
         ret \<lparr>ri_mac = map upper (filter (\<lambda>c. c \<noteq> CHR '':'') (jstr st ''mac'')), ri_firmware = jstr st ''firmware'',
           ri_left_s = (case as_u64 (jidx st ''recovery_left_s'') of Some n \<Rightarrow> n | None \<Rightarrow> 0),
           ri_ssid = jstr ap ''ssid'', ri_open = (jidx ap ''open'' = JBool True),
           ri_generated = (jidx ap ''generated'' = JBool True), ri_pin_set = (jidx st ''auth_set'' = JBool True),
           ri_stored = entries_len vl, ri_vault_pin = (jidx vl ''vault_pin_set'' = JBool True)\<rparr>)))"

definition rec_reveal :: "codec \<Rightarrow> (string \<times> string option) lprog" where
  "rec_reveal J =
     bnd (bnd (link_cmd J (jcmd ''ap_password'') T_ms) reply_ok) (\<lambda>ap.
       if jidx ap ''open'' = JBool True then ret (jstr ap ''ssid'', None)
       else ret (jstr ap ''ssid'', Some (jstr ap ''password'')))"

definition rec_set_password :: "codec \<Rightarrow> string \<Rightarrow> string lprog" where
  "rec_set_password J new =
     (if length new < 8 \<or> 63 < length new
      then throw (RInvalid ''A WiFi password needs 8 to 63 characters. Nothing changed.'')
      else
        bnd (bnd (link_cmd J (jcmd ''ap_password'') T_ms) reply_ok) (\<lambda>ap.
        seq (lp_write (JObj [(''cmd'', JStr ''ap_configure''), (''ssid'', JStr (jstr ap ''ssid'')), (''password'', JStr new),
               (''open'', JBool False)]))
        (bnd (link_cmd J (jcmd ''ap_password'') T_ms) (\<lambda>again.
          if as_str (jidx again ''password'') \<noteq> Some new then throw RNotTaken else ret (jstr ap ''ssid'')))))"

definition pin_ok :: "string \<Rightarrow> bool" where
  "pin_ok pin \<longleftrightarrow> pin = [] \<or> length pin = 4 \<and> list_all is_digit pin"

definition rec_reset_pin :: "codec \<Rightarrow> string \<Rightarrow> bool \<Rightarrow> bool lprog" where
  "rec_reset_pin J pin erase_ok =
     (if \<not> pin_ok pin then throw (RInvalid ''A PIN is four digits. Nothing changed.'')
      else
        bnd (bnd (link_cmd J (jcmd ''vault_list'') T_ms) reply_ok) (\<lambda>vl.
        let n = entries_len vl in
        if 0 < n \<and> jidx vl ''vault_pin_set'' \<noteq> JBool True \<and> \<not> erase_ok then throw (RWouldErase n)
        else
          bnd (bnd (link_cmd J (JObj [(''cmd'', JStr ''set_auth''), (''token'', JStr pin)]) T_ms) reply_ok) (\<lambda>r.
          bnd (link_cmd J (jcmd ''status'') T_ms) (\<lambda>st.
          if (jidx st ''auth_set'' = JBool True) \<noteq> (pin \<noteq> []) then throw RNotTaken
          else ret (jidx r ''vault_wiped'' = JBool True)))))"

definition rec_close :: "codec \<Rightarrow> unit lprog" where
  "rec_close J = bnd (bnd (link_cmd J (jcmd ''recovery_exit'') T_ms) reply_ok) (\<lambda>_. ret ())"

text \<open>\<open>find_port\<close> on what the operating system lists.\<close>

record usb_port =
  up_name :: string
  up_usb :: "(u16 \<times> u16 \<times> string option \<times> string option) option"

definition find_port :: "usb_port list \<Rightarrow> mac \<Rightarrow> string option" where
  "find_port ports m =
     map_option up_name (find (\<lambda>p. case up_usb p of
        None \<Rightarrow> False
      | Some (vid, pid, product, serial) \<Rightarrow>
          (vid, pid) = ESP_NATIVE \<and>
          \<not> str_contains ''JTAG'' (map upper (case product of Some s \<Rightarrow> s | None \<Rightarrow> [])) \<and>
          Option.bind serial mac_parse = Some m \<and> \<not> str_contains ''/tty.'' (up_name p)) ports)"

subsection \<open>Definitions: the worker\<close>

record rec_view =
  rv_mac :: string
  rv_info :: "rec_info option"
  rv_closes :: "nat option"
  rv_busy :: bool
  rv_note :: "(bool \<times> string) option"

datatype rec_op = OpReveal | OpSetPassword string | OpResetPin string bool | OpClose

datatype rec_reply = Shown string "string option" | Done string | Failed string

datatype rec_message = MsgPresent "mac list" | MsgDo mac rec_op

text \<open>The worker and its surroundings: which path each board's link has, what each opening of a link
  gives, and the clock.  What was sent over all links is kept.\<close>

record worker =
  wk_present :: "mac list"
  wk_views :: "rec_view list"
  wk_find :: "mac \<Rightarrow> string option"
  wk_links :: "(rec_error + line_port) list"
  wk_times :: "nat list"
  wk_sent :: "json list"

record rec_env =
  re_json :: codec
  re_hex :: hex_crate
  re_linux :: bool

type_synonym 'a wprog = "(worker, rec_error, 'a) prog"

definition with_link :: "mac \<Rightarrow> 'a lprog \<Rightarrow> 'a wprog" where
  "with_link m job w =
     (case wk_find w m of
        None \<Rightarrow> (Err RNoAnswer, w)
      | Some path \<Rightarrow>
          (case wk_links w of
             [] \<Rightarrow> (Err (ROpen []), w)
           | Inl e # ls \<Rightarrow> (Err e, w\<lparr>wk_links := ls\<rparr>)
           | Inr p # ls \<Rightarrow>
               (case seq link_new job (p\<lparr>lp_sent := []\<rparr>) of
                  (r, p') \<Rightarrow> (r, w\<lparr>wk_links := ls, wk_sent := wk_sent w @ lp_sent p'\<rparr>))))"

definition perform :: "codec \<Rightarrow> rec_op \<Rightarrow> rec_reply lprog" where
  "perform J op =
     (case op of
        OpReveal \<Rightarrow> bnd (rec_reveal J) (\<lambda>(ssid, password). ret (Shown ssid password))
      | OpSetPassword p \<Rightarrow> bnd (rec_set_password J p) (\<lambda>ssid.
          ret (Done (''Done. Join '' @ [CHR 0x27] @ ssid @ [CHR 0x27] @ '' with the new password. Phones on it now will drop off.'')))
      | OpResetPin pin erase \<Rightarrow> bnd (rec_reset_pin J pin erase) (\<lambda>wiped.
          ret (Done ((if pin = [] then ''Access PIN turned off.''
                      else ''Access PIN set. Phones will ask for it on their next connection.'')
                     @ (if wiped then '' The stored passwords were erased, as warned.'' else []))))
      | OpClose \<Rightarrow> bnd (rec_close J) (\<lambda>_. ret (Done ''Recovery mode closed: the board restarts normally.'')))"

fun update_first :: "('a \<Rightarrow> bool) \<Rightarrow> ('a \<Rightarrow> 'a) \<Rightarrow> 'a list \<Rightarrow> 'a list" where
  "update_first q f [] = []"
| "update_first q f (x # xs) = (if q x then f x # xs else x # update_first q f xs)"

definition on_views :: "(rec_view list \<Rightarrow> rec_view list) \<Rightarrow> unit wprog" where
  "on_views f = modify (\<lambda>w. w\<lparr>wk_views := f (wk_views w)\<rparr>)"

definition worker_now :: "nat wprog" where
  "worker_now w = (case wk_times w of [] \<Rightarrow> (Ok 0, w) | t # ts \<Rightarrow> (Ok t, w\<lparr>wk_times := ts\<rparr>))"

text \<open>\<open>Instant::now() + Duration::from_secs(left)\<close>: past the last second an instant can name (a signed
  64-bit count) the addition panics.\<close>

definition closes_at :: "u64 \<Rightarrow> nat wprog" where
  "closes_at left = bnd worker_now (\<lambda>now.
     if 2 ^ 63 \<le> now div 1000 + unat left then panic else ret (now + unat left * 1000))"

definition set_info :: "string \<Rightarrow> rec_info \<Rightarrow> nat \<Rightarrow> rec_view list \<Rightarrow> rec_view list" where
  "set_info h i at = update_first (\<lambda>r. rv_mac r = h) (\<lambda>r. r\<lparr>rv_closes := Some at, rv_info := Some i\<rparr>)"

text \<open>A new link is asked once what it is.  The clock is read only when its view is still there.\<close>

definition ask_new :: "rec_env \<Rightarrow> mac \<Rightarrow> unit wprog" where
  "ask_new E m =
     (let h = mac_hex (re_hex E) m in
      seq (on_views (\<lambda>v. v @ [\<lparr>rv_mac = h, rv_info = None, rv_closes = None, rv_busy = True, rv_note = None\<rparr>]))
      (bnd (attempt (with_link m (rec_get_info (re_json E)))) (\<lambda>r.
       seq (on_views (update_first (\<lambda>r. rv_mac r = h) (\<lambda>r. r\<lparr>rv_busy := False\<rparr>)))
       (case r of
          Inr i \<Rightarrow>
            bnd (asks wk_views) (\<lambda>v.
            if list_ex (\<lambda>r. rv_mac r = h) v then bnd (closes_at (ri_left_s i)) (\<lambda>at. on_views (set_info h i at))
            else ret ())
        | Inl e \<Rightarrow>
            seq (on_views (update_first (\<lambda>r. rv_mac r = h) (\<lambda>r. r\<lparr>rv_note := Some (False, rec_text (re_linux E) e)\<rparr>)))
              (if e = RResetLink then on_views (filter (\<lambda>r. rv_mac r \<noteq> h)) else ret ())))))"

fun ask_each :: "rec_env \<Rightarrow> mac list \<Rightarrow> unit wprog" where
  "ask_each E [] w = ret () w"
| "ask_each E (m # ms) w = seq (ask_new E m) (ask_each E ms) w"

definition on_present :: "rec_env \<Rightarrow> mac list \<Rightarrow> unit wprog" where
  "on_present E now =
     bnd (asks wk_present) (\<lambda>present.
       if now = present then ret ()
       else
         seq (on_views (filter (\<lambda>r. list_ex (\<lambda>m. mac_hex (re_hex E) m = rv_mac r) now)))
         (seq (ask_each E (filter (\<lambda>m. m \<notin> set present) now))
           (modify (\<lambda>w. w\<lparr>wk_present := now\<rparr>))))"

definition note_of :: "rec_reply \<Rightarrow> (bool \<times> string) option" where
  "note_of r = (case r of Shown _ _ \<Rightarrow> None | Done t \<Rightarrow> Some (True, t) | Failed t \<Rightarrow> Some (False, t))"

definition on_do :: "rec_env \<Rightarrow> mac \<Rightarrow> rec_op \<Rightarrow> rec_reply wprog" where
  "on_do E m op =
     (let h = mac_hex (re_hex E) m in
      seq (on_views (update_first (\<lambda>r. rv_mac r = h) (\<lambda>r. r\<lparr>rv_busy := True, rv_note := None\<rparr>)))
      (bnd (attempt (with_link m (perform (re_json E) op))) (\<lambda>r.
       let reply = (case r of Inr x \<Rightarrow> x | Inl e \<Rightarrow> Failed (rec_text (re_linux E) e)) in
       bnd (if op \<noteq> OpClose then bnd (attempt (with_link m (rec_get_info (re_json E))))
              (\<lambda>i. ret (case i of Inr i \<Rightarrow> Some i | Inl _ \<Rightarrow> None)) else ret None) (\<lambda>refreshed.
       seq (on_views (update_first (\<lambda>r. rv_mac r = h) (\<lambda>r. r\<lparr>rv_busy := False, rv_note := note_of reply\<rparr>)))
       (seq (case refreshed of
               None \<Rightarrow> ret ()
             | Some i \<Rightarrow>
                 bnd (asks wk_views) (\<lambda>v.
                 if list_ex (\<lambda>r. rv_mac r = h) v then bnd (closes_at (ri_left_s i)) (\<lambda>at. on_views (set_info h i at))
                 else ret ()))
          (ret reply))))))"

definition worker_handle :: "rec_env \<Rightarrow> rec_message \<Rightarrow> rec_reply option wprog" where
  "worker_handle E msg =
     (case msg of
        MsgPresent now \<Rightarrow> seq (on_present E now) (ret None)
      | MsgDo m op \<Rightarrow> bnd (on_do E m op) (\<lambda>r. ret (Some r)))"

subsection \<open>Definitions: the page's messages\<close>

record rec_msg =
  rm_mac :: mac
  rm_op :: rec_op

definition parse_msg :: "codec \<Rightarrow> string \<Rightarrow> rec_msg option" where
  "parse_msg J msg =
     (case strip_prefix ''rec:'' msg of
        None \<Rightarrow> None
      | Some j \<Rightarrow>
          if 256 < length j then None
          else
            (case js_parse J j of
               None \<Rightarrow> None
             | Some v \<Rightarrow>
                 (case (Option.bind (as_str (jidx v ''mac'')) mac_parse, as_str (jidx v ''op'')) of
                    (Some m, Some op) \<Rightarrow>
                      let txt = as_str (jidx v ''value'') in
                      if op = ''reveal'' then Some \<lparr>rm_mac = m, rm_op = OpReveal\<rparr>
                      else if op = ''close'' then Some \<lparr>rm_mac = m, rm_op = OpClose\<rparr>
                      else if op = ''set_password'' then
                        (case txt of Some p \<Rightarrow> if length p \<le> 63 then Some \<lparr>rm_mac = m, rm_op = OpSetPassword p\<rparr> else None
                                   | None \<Rightarrow> None)
                      else if op = ''reset_pin'' then
                        (case txt of
                           Some p \<Rightarrow> if length p \<le> 4
                             then Some \<lparr>rm_mac = m, rm_op = OpResetPin p (case as_bool (jidx v ''erase'') of Some b \<Rightarrow> b | None \<Rightarrow> False)\<rparr>
                             else None
                         | None \<Rightarrow> None)
                      else None
                  | _ \<Rightarrow> None)))"

definition admit :: "hex_crate \<Rightarrow> rec_view list \<Rightarrow> rec_msg \<Rightarrow> bool" where
  "admit X views m = list_ex (\<lambda>r. rv_mac r = mac_hex X (rm_mac m) \<and> rv_info r \<noteq> None \<and> \<not> rv_busy r) views"

definition op_name :: "rec_op \<Rightarrow> string" where
  "op_name op = (case op of OpReveal \<Rightarrow> ''reveal'' | OpSetPassword _ \<Rightarrow> ''set_password'' | OpResetPin _ _ \<Rightarrow> ''reset_pin''
     | OpClose \<Rightarrow> ''close'')"

definition reply_json :: "codec \<Rightarrow> hex_crate \<Rightarrow> rec_msg \<Rightarrow> rec_reply \<Rightarrow> string" where
  "reply_json J X m r =
     (let head = [(''mac'', JStr (mac_hex X (rm_mac m))), (''op'', JStr (op_name (rm_op m)))] in
      js_print J (JObj (case r of
        Shown ssid password \<Rightarrow> head @ [(''ok'', JBool True), (''ssid'', JStr ssid),
          (''password'', case password of Some p \<Rightarrow> JStr p | None \<Rightarrow> JNull), (''open'', JBool (password = None))]
      | Done t \<Rightarrow> head @ [(''ok'', JBool True), (''text'', JStr t)]
      | Failed t \<Rightarrow> head @ [(''ok'', JBool False), (''text'', JStr t)])))"

subsection \<open>The first reply of a stream\<close>

text \<open>The specification of the wait: the first whole line of the bytes that is a reply.\<close>

function first_reply :: "codec \<Rightarrow> u8 list \<Rightarrow> json option" where
  "first_reply J bs =
     (let l = takeWhile (\<lambda>b. b \<noteq> 10) bs; r = dropWhile (\<lambda>b. b \<noteq> 10) bs in
      if r = [] then None
      else (case line_reply J (l @ [10]) of Some v \<Rightarrow> Some v | None \<Rightarrow> first_reply J (tl r)))"
  by pat_completeness auto

termination
proof (relation "measure (\<lambda>(_, bs). length bs)")
  fix J :: codec and bs l r :: "u8 list" and x assume "r = dropWhile (\<lambda>b. b \<noteq> 10) bs" and "r \<noteq> []"
  then show "((J, tl r), J, bs) \<in> measure (\<lambda>(_, bs). length bs)"
    using length_dropWhile_le [of "\<lambda>b. b \<noteq> 10" bs] by (cases bs) auto
qed simp

declare first_reply.simps [simp del]

lemma position_split: "position (\<lambda>b. b = x) xs = Some i \<Longrightarrow>
    take (Suc i) xs = takeWhile (\<lambda>b. b \<noteq> x) xs @ [x] \<and> drop (Suc i) xs = tl (dropWhile (\<lambda>b. b \<noteq> x) xs)
    \<and> dropWhile (\<lambda>b. b \<noteq> x) xs \<noteq> []"
  by (induction xs arbitrary: i) (auto split: if_splits)

lemma position_append: "position q xs = Some i \<Longrightarrow> position q (xs @ ys) = Some i"
  by (induction xs arbitrary: i) (auto split: if_splits)

lemma take_reply_first: "fst (take_reply J bs) = first_reply J bs"
proof (induction J bs rule: take_reply.induct)
  case (1 J buf)
  show ?case
  proof (cases "position (\<lambda>b. b = 10) buf")
    case None
    then have "dropWhile (\<lambda>b. b \<noteq> 10) buf = []" by (simp add: position_None dropWhile_eq_Nil_conv)
    with None show ?thesis by (simp add: take_reply.simps [of J buf] first_reply.simps [of J buf])
  next
    case (Some i)
    from position_split [OF Some] 1 [OF Some] show ?thesis
      by (auto simp: take_reply.simps [of J buf] first_reply.simps [of J buf] Some Let_def split: option.split)
  qed
qed

lemma take_reply_append:
  "take_reply J (a @ b) =
     (case take_reply J a of (Some v, rest) \<Rightarrow> (Some v, rest @ b) | (None, rest) \<Rightarrow> take_reply J (rest @ b))"
proof (induction J a rule: take_reply.induct)
  case (1 J a)
  show ?case
  proof (cases "position (\<lambda>b. b = 10) a")
    case None
    then show ?thesis by (simp add: take_reply.simps [of J a])
  next
    case (Some i)
    then have "i < length a" using position_Some [OF Some] by simp
    then show ?thesis
      using 1 [OF Some] position_append [OF Some, of b]
      by (simp add: take_reply.simps [of J a] take_reply.simps [of J "a @ b"] Some split: option.split)
  qed
qed

lemma cmd_wait_stream:
  assumes "first_reply J (buf @ concat cs) = Some v" and "take_reply J buf = (None, buf)"
    and "length cs \<le> length ts" and "\<forall>t \<in> set ts. t < deadline" and "lp_reads p = map Inr cs @ rs"
  shows "\<exists>p'. cmd_wait J deadline ts buf p = (Ok v, p') \<and> lp_sent p' = lp_sent p"
  using assms
proof (induction cs arbitrary: buf ts p)
  case Nil
  then show ?case by (metis append_Nil2 concat.simps(1) fst_conv option.distinct(1) take_reply_first)
next
  case (Cons c cs)
  then obtain t ts' where ts: "ts = t # ts'" by (cases ts) auto
  have rd: "lp_read p = (Ok (Inr c), p\<lparr>lp_reads := map Inr cs @ rs\<rparr>)" using Cons.prems(5) by (simp add: lp_read_def)
  show ?case
  proof (cases "take_reply J (buf @ c)")
    case (Pair r rest)
    show ?thesis
    proof (cases r)
      case (Some u)
      then have "take_reply J (buf @ concat (c # cs)) = (Some u, rest @ concat cs)"
        using take_reply_append [of J "buf @ c" "concat cs"] Pair by simp
      then have "u = v" using Cons.prems(1) take_reply_first [of J "buf @ concat (c # cs)"] by simp
      then show ?thesis using Cons.prems ts rd Pair Some by simp
    next
      case None
      have "take_reply J (buf @ concat (c # cs)) = take_reply J (rest @ concat cs)"
        using take_reply_append [of J "buf @ c" "concat cs"] Pair None by simp
      then have "first_reply J (rest @ concat cs) = Some v"
        using Cons.prems(1) by (metis take_reply_first)
      moreover have "take_reply J rest = (None, rest)"
        using take_reply_append [of J "buf @ c" "[]"] Pair None by simp
      ultimately show ?thesis
        using Cons.IH [of rest ts' "p\<lparr>lp_reads := map Inr cs @ rs\<rparr>"] Cons.prems ts rd Pair None by simp
    qed
  qed
qed

lemma link_cmd_stream:
  assumes "first_reply J (concat cs) = Some v" and "lp_writes p = []" and "lp_times p = t # ts"
    and "length cs \<le> length ts" and "\<forall>u \<in> set ts. u < t + timeout" and "lp_reads p = map Inr cs @ rs"
  shows "\<exists>p'. link_cmd J body timeout p = (Ok v, p') \<and> lp_sent p' = lp_sent p @ [body]"
proof -
  have "take_reply J [] = (None, [])" by (simp add: take_reply.simps)
  then show ?thesis
    using cmd_wait_stream [of J "[]" cs v ts "t + timeout" "p\<lparr>lp_sent := lp_sent p @ [body]\<rparr>" rs] assms
    by (simp add: link_cmd_def seq_def bnd_def lp_write_def)
qed

subsection \<open>What is sent over the link\<close>

text \<open>\<open>sends f A m\<close>: everything \<open>m\<close> adds to the log \<open>f\<close> of what was sent is in \<open>A\<close>, whatever its outcome.\<close>

definition sends :: "('s \<Rightarrow> json list) \<Rightarrow> json set \<Rightarrow> ('s, 'e, 'a) prog \<Rightarrow> bool" where
  "sends f A m \<longleftrightarrow> (\<forall>p. \<exists>xs. f (snd (m p)) = f p @ xs \<and> set xs \<subseteq> A)"

named_theorems sends_rules \<open>what a program of the recovery link sends\<close>

lemma sends_bnd [sends_rules]:
  assumes "sends f A m" and "\<And>x. sends f A (k x)"
  shows "sends f A (bnd m k)"
  unfolding sends_def
proof
  fix p
  obtain r q where m: "m p = (r, q)" by fastforce
  with assms(1) obtain xs where xs: "f q = f p @ xs" "set xs \<subseteq> A" unfolding sends_def by (metis snd_conv)
  show "\<exists>xs. f (snd (bnd m k p)) = f p @ xs \<and> set xs \<subseteq> A"
  proof (cases r)
    case (Ok x)
    from assms(2) [of x] obtain ys where "f (snd (k x q)) = f q @ ys" "set ys \<subseteq> A" unfolding sends_def by blast
    with m xs Ok show ?thesis by (intro exI [of _ "xs @ ys"]) (simp add: bnd_def)
  qed (use m xs in \<open>auto simp: bnd_def\<close>)
qed

lemma sends_seq [sends_rules]: "sends f A m \<Longrightarrow> sends f A n \<Longrightarrow> sends f A (seq m n)"
  unfolding seq_def by (rule sends_bnd)

lemma sends_ret [sends_rules]: "sends f A (ret x)" and sends_throw [sends_rules]: "sends f A (throw e)"
  by (simp_all add: sends_def ret_def throw_def)

lemma sends_if [sends_rules]: "(c \<Longrightarrow> sends f A m) \<Longrightarrow> (\<not> c \<Longrightarrow> sends f A n) \<Longrightarrow> sends f A (if c then m else n)"
  by simp

lemma sends_Let [sends_rules]: "sends f A (g x) \<Longrightarrow> sends f A (let y = x in g y)"
  by simp

lemma sends_write [sends_rules]: "b \<in> A \<Longrightarrow> sends lp_sent A (lp_write b)"
  by (auto simp: sends_def lp_write_def split: list.split option.split)

lemma cmd_wait_sent [simp]: "lp_sent (snd (cmd_wait J d ts buf p)) = lp_sent p"
proof (induction ts arbitrary: buf p)
  case (Cons t ts)
  show ?case
  proof (cases "lp_reads p")
    case Nil
    then show ?thesis using Cons.IH by (cases "take_reply J buf") (auto simp: lp_read_def split: option.split)
  next
    case reads: (Cons r rs)
    then show ?thesis
    proof (cases r)
      case (Inr bs)
      then show ?thesis
        using Cons.IH reads by (cases "take_reply J (buf @ bs)") (auto simp: lp_read_def split: option.split)
    qed (simp add: lp_read_def)
  qed
qed simp

lemma sends_cmd [sends_rules]: "b \<in> A \<Longrightarrow> sends lp_sent A (link_cmd J b n)"
  unfolding link_cmd_def
  by (intro sends_seq sends_write) (auto simp: sends_def split: list.split)

lemma sends_reply_ok [sends_rules]: "sends lp_sent A (reply_ok v)"
  unfolding reply_ok_def by (intro sends_rules)

lemma sends_mono: "sends f A m \<Longrightarrow> A \<subseteq> B \<Longrightarrow> sends f B m"
  unfolding sends_def by (meson order_trans)

definition queries :: "json set" where
  "queries = {jcmd ''status'', jcmd ''ap_password'', jcmd ''vault_list''}"

lemma sends_info: "sends lp_sent queries (rec_get_info J)"
  unfolding rec_get_info_def by (intro sends_rules) (auto simp: queries_def)

text \<open>The commands that change the board, and what the person must have asked for.\<close>

definition ap_configure :: "string \<Rightarrow> string \<Rightarrow> json" where
  "ap_configure ssid new =
     JObj [(''cmd'', JStr ''ap_configure''), (''ssid'', JStr ssid), (''password'', JStr new), (''open'', JBool False)]"

definition set_auth :: "string \<Rightarrow> json" where
  "set_auth pin = JObj [(''cmd'', JStr ''set_auth''), (''token'', JStr pin)]"

definition asked_for :: "rec_op \<Rightarrow> json set" where
  "asked_for op =
     (case op of
        OpReveal \<Rightarrow> {}
      | OpSetPassword p \<Rightarrow> {c. \<exists>ssid. c = ap_configure ssid p \<and> 8 \<le> length p \<and> length p \<le> 63}
      | OpResetPin pin _ \<Rightarrow> {c. c = set_auth pin \<and> pin_ok pin}
      | OpClose \<Rightarrow> {jcmd ''recovery_exit''})"

lemma sends_set_password: "sends lp_sent (queries \<union> asked_for (OpSetPassword p)) (rec_set_password J p)"
  unfolding rec_set_password_def by (intro sends_rules) (auto simp: queries_def asked_for_def ap_configure_def)

lemma sends_reset_pin: "sends lp_sent (queries \<union> asked_for (OpResetPin pin e)) (rec_reset_pin J pin e)"
  unfolding rec_reset_pin_def by (intro sends_rules) (auto simp: queries_def asked_for_def set_auth_def)

lemma sends_reveal: "sends lp_sent queries (rec_reveal J)"
  unfolding rec_reveal_def by (intro sends_rules) (auto simp: queries_def)

lemma sends_close: "sends lp_sent (queries \<union> asked_for OpClose) (rec_close J)"
  unfolding rec_close_def by (intro sends_rules) (auto simp: asked_for_def)

lemma sends_perform: "sends lp_sent (queries \<union> asked_for op) (perform J op)"
proof (cases op)
  case OpReveal
  then show ?thesis unfolding perform_def
    by (auto intro!: sends_rules sends_mono [OF sends_reveal] split: prod.split)
qed (auto simp: perform_def intro!: sends_rules sends_set_password sends_reset_pin sends_close)

subsection \<open>Resetting the access PIN\<close>

text \<open>What the board must have said for \<open>set_auth\<close> to be sent.\<close>

definition vault_safe :: "json \<Rightarrow> bool" where
  "vault_safe vl \<longleftrightarrow> entries_len vl = 0 \<or> jidx vl ''vault_pin_set'' = JBool True"

lemma queries_not_set_auth: "set_auth pin \<notin> queries"
  by (simp add: queries_def set_auth_def jcmd_def)

lemma link_cmd_sent:
  assumes "link_cmd J b n p = (r, p')" and "c \<in> set (drop (length (lp_sent p)) (lp_sent p'))"
  shows "c = b"
  using sends_cmd [of b "{b}" J n] assms unfolding sends_def by (metis (no_types) append_eq_conv_conj insertI1 singletonD snd_conv subsetD)

lemma sends_quiet:
  assumes "sends lp_sent queries m" and "m p = (r, p')" and "set_auth tok \<in> set (drop (length (lp_sent p)) (lp_sent p'))"
  shows False
proof -
  from assms(1,2) obtain xs where "lp_sent p' = lp_sent p @ xs" "set xs \<subseteq> queries" unfolding sends_def by (metis snd_conv)
  with assms(3) queries_not_set_auth show False by auto
qed

lemma reset_pin_asks:
  assumes "rec_reset_pin J pin erase_ok p = (r, p')" and "set_auth tok \<in> set (drop (length (lp_sent p)) (lp_sent p'))"
  shows "erase_ok \<or> (\<exists>vl q. link_cmd J (jcmd ''vault_list'') T_ms p = (Ok vl, q) \<and> jidx vl ''status'' = JStr ''ok'' \<and> vault_safe vl)"
proof (rule ccontr)
  assume not: "\<not> ?thesis"
  let ?ask = "bnd (link_cmd J (jcmd ''vault_list'') T_ms) reply_ok"
  have quiet: "sends lp_sent queries ?ask" by (intro sends_rules) (simp add: queries_def)
  have pin: "pin_ok pin"
    using assms(1) sends_quiet [OF sends_throw [of lp_sent queries "RInvalid ''A PIN is four digits. Nothing changed.''"], of p r p' tok] assms(2)
    by (cases "pin_ok pin") (simp_all add: rec_reset_pin_def)
  show False
  proof (cases "?ask p")
    case (Pair o1 q)
    show False
    proof (cases o1)
      case (Ok vl)
      then obtain v q' where v: "link_cmd J (jcmd ''vault_list'') T_ms p = (Ok v, q')" "reply_ok v q' = (Ok vl, q)"
        using Pair by (auto simp: bnd_eq_Ok)
      then have "vl = v" "q' = q" "jidx vl ''status'' = JStr ''ok''" by (auto simp: reply_ok_def ret_def throw_def split: if_splits)
      with v not have "\<not> vault_safe vl" "\<not> erase_ok" by auto
      then have "rec_reset_pin J pin erase_ok p = (Err (RWouldErase (entries_len vl)), q)"
        using Pair Ok pin by (simp add: rec_reset_pin_def vault_safe_def Let_def throw_def)
      then have "p' = q" using assms(1) by simp
      with sends_quiet [OF quiet Pair] assms(2) show False by simp
    qed (use Pair pin assms sends_quiet [OF quiet Pair] in \<open>auto simp: rec_reset_pin_def bnd_def\<close>)
  qed
qed

text \<open>C20. Resetting the PIN can wipe the board's password vault.  \<open>set_auth\<close> is sent only with a usable PIN (four
  digits or none), and only when the person agreed to the erasure or the board itself had just answered
  that nothing is stored or that the vault has a PIN of its own.\<close>

theorem set_auth_guarded:
  assumes "rec_reset_pin J pin erase_ok p = (r, p')"
    and "set_auth tok \<in> set (drop (length (lp_sent p)) (lp_sent p'))"
  shows "tok = pin \<and> (pin = [] \<or> length pin = 4 \<and> list_all is_digit pin) \<and>
    (erase_ok \<or>
     (\<exists>vl q. link_cmd J (jcmd ''vault_list'') T_ms p = (Ok vl, q) \<and> jidx vl ''status'' = JStr ''ok'' \<and>
        (entries_len vl = 0 \<or> jidx vl ''vault_pin_set'' = JBool True)))"
proof -
  from sends_reset_pin [of pin erase_ok J] assms(1) obtain xs
    where "lp_sent p' = lp_sent p @ xs" "set xs \<subseteq> queries \<union> asked_for (OpResetPin pin erase_ok)"
    unfolding sends_def by (metis snd_conv)
  with assms(2) have "set_auth tok \<in> queries \<union> asked_for (OpResetPin pin erase_ok)" by auto
  then have "tok = pin \<and> pin_ok pin" using queries_not_set_auth by (auto simp: asked_for_def set_auth_def)
  with reset_pin_asks [OF assms] show ?thesis by (auto simp: pin_ok_def vault_safe_def)
qed

lemma lp_write_sent: "lp_write b p = (Ok (), p') \<Longrightarrow> lp_sent p' = lp_sent p @ [b]"
  by (auto simp: lp_write_def split: list.splits option.splits)

lemma link_cmd_ok_sent:
  assumes "link_cmd J b n p = (Ok v, p')"
  shows "b \<in> set (lp_sent p')"
proof -
  from assms obtain q where "lp_write b p = (Ok (), q)"
    and q: "(case lp_times q of [] \<Rightarrow> (Err RNoAnswer, q) | start # ts \<Rightarrow> cmd_wait J (start + n) ts [] q) = (Ok v, p')"
    by (auto simp: link_cmd_def seq_eq_Ok)
  from q have "lp_sent p' = lp_sent q" by (auto split: list.splits) (metis cmd_wait_sent snd_conv)
  with lp_write_sent [OF \<open>lp_write b p = (Ok (), q)\<close>] show ?thesis by simp
qed

lemma as_str_Some: "as_str v = Some s \<longleftrightarrow> v = JStr s"
  by (cases v) auto

lemma reply_ok_eq_Ok: "reply_ok v s = (Ok x, s') \<longleftrightarrow> x = v \<and> s' = s \<and> jidx v ''status'' = JStr ''ok''"
  by (auto simp: reply_ok_def ret_def throw_def)

lemma set_password_read_back:
  assumes "rec_set_password J new p = (Ok ssid, p')"
  shows "\<exists>q again. link_cmd J (jcmd ''ap_password'') T_ms q = (Ok again, p') \<and> jidx again ''password'' = JStr new
    \<and> ap_configure ssid new \<in> set (lp_sent q)"
proof -
  have len: "\<not> (length new < 8 \<or> 63 < length new)"
    using assms by (auto simp: rec_set_password_def throw_def)
  from assms obtain ap q0 q again where
    "lp_write (ap_configure (jstr ap ''ssid'') new) q0 = (Ok (), q)"
    "link_cmd J (jcmd ''ap_password'') T_ms q = (Ok again, p')" "as_str (jidx again ''password'') = Some new"
    "ssid = jstr ap ''ssid''"
    by (auto simp: rec_set_password_def bnd_eq_Ok seq_eq_Ok ap_configure_def ret_def throw_def
        simp del: split_paired_Ex split: if_splits)
  with lp_write_sent [of "ap_configure (jstr ap ''ssid'') new" q0 q] show ?thesis
    by (intro exI [of _ q] exI [of _ again]) (simp add: as_str_Some)
qed

lemma reset_pin_read_back:
  assumes "rec_reset_pin J pin erase_ok p = (Ok wiped, p')"
  shows "\<exists>q st. link_cmd J (jcmd ''status'') T_ms q = (Ok st, p') \<and> (jidx st ''auth_set'' = JBool True \<longleftrightarrow> pin \<noteq> [])
    \<and> set_auth pin \<in> set (lp_sent q)"
proof -
  from assms obtain r q0 q st where "link_cmd J (set_auth pin) T_ms q0 = (Ok r, q)"
    "link_cmd J (jcmd ''status'') T_ms q = (Ok st, p')" "jidx st ''auth_set'' = JBool True \<longleftrightarrow> pin \<noteq> []"
    by (auto simp: rec_reset_pin_def bnd_eq_Ok reply_ok_eq_Ok Let_def set_auth_def ret_def throw_def split: if_splits)
  with link_cmd_ok_sent show ?thesis by blast
qed

text \<open>A new WiFi password and a new PIN are reported as taken only after the board, asked once more at the end,
  said so itself.\<close>

theorem changes_read_back:
  "(rec_set_password J new p = (Ok ssid, p') \<longrightarrow>
      (\<exists>q again. link_cmd J (jcmd ''ap_password'') T_ms q = (Ok again, p') \<and> jidx again ''password'' = JStr new
        \<and> ap_configure ssid new \<in> set (lp_sent q))) \<and>
   (rec_reset_pin J pin erase_ok p = (Ok wiped, p') \<longrightarrow>
      (\<exists>q st. link_cmd J (jcmd ''status'') T_ms q = (Ok st, p') \<and> (jidx st ''auth_set'' = JBool True \<longleftrightarrow> pin \<noteq> [])
        \<and> set_auth pin \<in> set (lp_sent q)))"
  using set_password_read_back reset_pin_read_back by blast

subsection \<open>The worker\<close>

lemma sends_worker_cfg [sends_rules]:
  "(\<And>w. wk_sent (f w) = wk_sent w) \<Longrightarrow> sends wk_sent A (modify f)" "sends wk_sent A (asks g)" "sends wk_sent A panic"
  "sends wk_sent A worker_now"
  by (simp_all add: sends_def modify_def asks_def panic_def worker_now_def split: list.split)

lemma sends_on_views [sends_rules]: "sends wk_sent A (on_views f)"
  unfolding on_views_def by (rule sends_rules) simp

lemma sends_closes_at [sends_rules]: "sends wk_sent A (closes_at n)"
  unfolding closes_at_def by (intro sends_rules)

lemma sends_attempt [sends_rules]: "sends f A m \<Longrightarrow> sends f A (attempt m)"
  by (simp add: sends_def)

lemma sends_link_new: "sends lp_sent A link_new"
  by (simp add: sends_def link_new_def split: option.split)

lemma sends_with_link [sends_rules]:
  assumes "sends lp_sent A j"
  shows "sends wk_sent A (with_link m j)"
proof -
  have s: "sends lp_sent A (seq link_new j)" by (intro sends_rules sends_link_new assms)
  have set: "set (lp_sent p') \<subseteq> A" if "seq link_new j (p\<lparr>lp_sent := []\<rparr>) = (r, p')" for p r p'
  proof -
    obtain xs where "lp_sent (snd (seq link_new j (p\<lparr>lp_sent := []\<rparr>))) = [] @ xs" "set xs \<subseteq> A"
      using s [unfolded sends_def, rule_format, of "p\<lparr>lp_sent := []\<rparr>"] by auto
    with that show ?thesis by simp
  qed
  show ?thesis
    unfolding sends_def with_link_def
    by (auto split: option.split list.split sum.split prod.split dest: set)
qed

lemma sends_ask_new: "sends wk_sent queries (ask_new E m)"
  unfolding ask_new_def
  by (intro sends_rules sends_info) (auto intro!: sends_rules split: sum.split)

lemma sends_ask_each: "sends wk_sent queries (ask_each E ms)"
proof (induction ms)
  case Nil
  show ?case by (simp add: sends_def ret_def)
next
  case (Cons m ms)
  have "ask_each E (m # ms) = seq (ask_new E m) (ask_each E ms)" by (rule ext) simp
  with sends_seq [OF sends_ask_new Cons] show ?case by simp
qed

lemma sends_on_do: "sends wk_sent (queries \<union> asked_for op) (on_do E m op)"
  unfolding on_do_def
  by (intro sends_rules sends_perform sends_mono [OF sends_info])
    (auto intro!: sends_rules sends_mono [OF sends_info] split: option.split)

lemma sends_handle:
  "sends wk_sent (queries \<union> (case msg of MsgPresent _ \<Rightarrow> {} | MsgDo _ op \<Rightarrow> asked_for op)) (worker_handle E msg)"
proof (cases msg)
  case (MsgPresent now)
  show ?thesis unfolding worker_handle_def on_present_def MsgPresent
    by (auto intro!: sends_rules sends_mono [OF sends_ask_each])
next
  case (MsgDo m op)
  show ?thesis unfolding worker_handle_def MsgDo by (auto intro!: sends_rules sends_on_do)
qed

text \<open>C21. Nothing that changes a board is sent unless it was asked for: whatever the message and however it ends,
  the worker sends only the three questions, a new password of 8 to 63 characters for \<open>SetPassword\<close>, a usable PIN for
  \<open>ResetPin\<close>, and the exit for \<open>Close\<close>.\<close>

theorem worker_sends_asked:
  "\<exists>xs. wk_sent (snd (worker_handle E msg w)) = wk_sent w @ xs \<and>
     (\<forall>c \<in> set xs.
        c \<in> {jcmd ''status'', jcmd ''ap_password'', jcmd ''vault_list''} \<or>
        (\<exists>m p ssid. msg = MsgDo m (OpSetPassword p) \<and> c = ap_configure ssid p \<and> 8 \<le> length p \<and> length p \<le> 63) \<or>
        (\<exists>m pin e. msg = MsgDo m (OpResetPin pin e) \<and> c = set_auth pin \<and> pin_ok pin) \<or>
        (\<exists>m. msg = MsgDo m OpClose \<and> c = jcmd ''recovery_exit''))"
proof -
  obtain xs where "wk_sent (snd (worker_handle E msg w)) = wk_sent w @ xs"
    and xs: "set xs \<subseteq> queries \<union> (case msg of MsgPresent _ \<Rightarrow> {} | MsgDo _ op \<Rightarrow> asked_for op)"
    using sends_handle [of msg E] unfolding sends_def by blast
  with subsetD [OF xs] show ?thesis
    by (intro exI [of _ xs]) (cases msg; fastforce simp: queries_def asked_for_def split: rec_op.splits)
qed

subsection \<open>The views between messages\<close>

text \<open>One view per address of \<open>H\<close> at most, and only the one of \<open>b\<close> may be busy.\<close>

definition views_ok :: "string set \<Rightarrow> string option \<Rightarrow> rec_view list \<Rightarrow> bool" where
  "views_ok H b vs \<longleftrightarrow>
     distinct (map rv_mac vs) \<and> rv_mac ` set vs \<subseteq> H \<and> (\<forall>r \<in> set vs. rv_busy r \<longrightarrow> Some (rv_mac r) = b)"

lemma update_first_map:
  "distinct (map rv_mac vs) \<Longrightarrow> update_first (\<lambda>r. rv_mac r = h) f vs = map (\<lambda>r. if rv_mac r = h then f r else r) vs"
proof (induction vs)
  case (Cons r vs)
  then have "rv_mac x \<noteq> rv_mac r" if "x \<in> set vs" for x using that by (metis (no_types) distinct.simps(2) imageI list.map(2) list.set_map)
  then have "rv_mac r = h \<Longrightarrow> map (\<lambda>r. if rv_mac r = h then f r else r) vs = vs" by (intro map_idI) auto
  with Cons show ?case by auto
qed simp

lemma views_ok_update:
  assumes "views_ok H b vs" and "\<And>r. rv_mac (f r) = rv_mac r"
    and "\<And>r. rv_mac r = h \<Longrightarrow> rv_busy r \<longrightarrow> Some h = b \<Longrightarrow> rv_busy (f r) \<Longrightarrow> Some h = b'"
    and "\<And>g. g \<noteq> h \<Longrightarrow> Some g = b \<Longrightarrow> Some g = b'"
  shows "views_ok H b' (update_first (\<lambda>r. rv_mac r = h) f vs)"
proof -
  let ?g = "\<lambda>r. if rv_mac r = h then f r else r"
  have m: "rv_mac (?g r) = rv_mac r" for r using assms(2) by simp
  then have c: "rv_mac \<circ> ?g = rv_mac" by (intro ext) simp
  have d: "distinct (map rv_mac vs)" and H: "rv_mac ` set vs \<subseteq> H"
    and b: "\<And>r. r \<in> set vs \<Longrightarrow> rv_busy r \<Longrightarrow> Some (rv_mac r) = b"
    using assms(1) by (auto simp: views_ok_def)
  have "rv_mac ` set (map ?g vs) = rv_mac ` set vs" unfolding set_map image_image m by simp
  moreover have "Some (rv_mac (?g r)) = b'" if "r \<in> set vs" "rv_busy (?g r)" for r
    using that b [OF that(1)] assms(3) [of r] assms(4) [of "rv_mac r"] unfolding m by (simp split: if_splits)
  ultimately show ?thesis
    using d H unfolding views_ok_def update_first_map [OF d] map_map c by (force simp only: set_map)
qed

lemma views_ok_filter: "views_ok H b vs \<Longrightarrow> views_ok H b (filter q vs)"
  unfolding views_ok_def by (auto simp: distinct_map_filter)

lemma views_ok_set_info: "views_ok H b vs \<Longrightarrow> views_ok H b (set_info h i at vs)"
  unfolding set_info_def by (rule views_ok_update) auto

definition views_in :: "string set \<Rightarrow> string option \<Rightarrow> mac list \<Rightarrow> worker \<Rightarrow> bool" where
  "views_in H b ms w \<longleftrightarrow> views_ok H b (wk_views w) \<and> wk_present w = ms"

lemma okay_on_views: "(\<And>vs. views_ok H b vs \<Longrightarrow> views_ok H' b' (f vs)) \<Longrightarrow> okay (views_in H b ms) (on_views f) (\<lambda>_. views_in H' b' ms)"
  unfolding on_views_def by (rule okay_modify) (simp add: views_in_def)

lemma okay_asks_views: "okay (views_in H b ms) (asks f) (\<lambda>_. views_in H b ms)"
  by (rule okay_asks)

lemma okay_link: "okay (views_in H b ms) (attempt (with_link m j)) (\<lambda>_. views_in H b ms)"
  by (auto simp: okay_def attempt_eq_Ok with_link_def views_in_def split: option.splits list.splits sum.splits prod.splits)

lemma okay_closes_at: "okay (views_in H b ms) (closes_at n) (\<lambda>_. views_in H b ms)"
  by (auto simp: okay_def closes_at_def worker_now_def bnd_def views_in_def ret_def panic_def split: list.splits if_splits)

lemma okay_info:
  "okay (views_in H b ms)
     (bnd (asks wk_views) (\<lambda>v. if q v then bnd (closes_at n) (\<lambda>at. on_views (set_info h i at)) else ret ()))
     (\<lambda>_. views_in H b ms)"
  by (intro okay_bnd [OF okay_asks_views] okay_if okay_bnd [OF okay_closes_at] okay_on_views views_ok_set_info okay_ret)

lemma okay_rec_pre: "okay P m Q \<Longrightarrow> (\<And>s. P' s \<Longrightarrow> P s) \<Longrightarrow> okay P' m Q"
  by (erule okay_weaken) auto

lemma okay_ask_new:
  assumes "mac_hex (re_hex E) m \<notin> H"
  shows "okay (views_in H None ms) (ask_new E m) (\<lambda>_. views_in (insert (mac_hex (re_hex E) m) H) None ms)"
proof -
  let ?h = "mac_hex (re_hex E) m"
  let ?H = "insert ?h H"
  let ?new = "\<lparr>rv_mac = ?h, rv_info = None, rv_closes = None, rv_busy = True, rv_note = None\<rparr>"
  have push: "okay (views_in H None ms) (on_views (\<lambda>v. v @ [?new])) (\<lambda>_. views_in ?H (Some ?h) ms)"
    by (rule okay_on_views) (use assms in \<open>auto simp: views_ok_def\<close>)
  have idle: "okay (views_in ?H (Some ?h) ms) (on_views (update_first (\<lambda>r. rv_mac r = ?h) (\<lambda>r. r\<lparr>rv_busy := False\<rparr>)))
      (\<lambda>_. views_in ?H None ms)"
    by (rule okay_on_views, erule views_ok_update) auto
  have noted: "okay (views_in ?H None ms) (on_views (update_first (\<lambda>r. rv_mac r = ?h) (\<lambda>r. r\<lparr>rv_note := x\<rparr>)))
      (\<lambda>_. views_in ?H None ms)" for x
    by (rule okay_on_views, erule views_ok_update) auto
  have dropped: "okay (views_in ?H None ms) (on_views (filter q)) (\<lambda>_. views_in ?H None ms)" for q
    by (rule okay_on_views) (rule views_ok_filter)
  show ?thesis
    unfolding ask_new_def Let_def
    by (intro okay_seq [OF push] okay_bnd [OF okay_link] okay_seq [OF idle])
      (auto split: sum.split intro!: okay_info okay_seq [OF noted] okay_if dropped okay_ret)
qed

lemma okay_ask_each:
  assumes "inj_on (mac_hex (re_hex E)) (S \<union> set now)" and "distinct now" and "S \<inter> set now = {}"
  shows "okay (views_in (mac_hex (re_hex E) ` S) None ms) (ask_each E now)
    (\<lambda>_. views_in (mac_hex (re_hex E) ` (S \<union> set now)) None ms)"
  using assms
proof (induction now arbitrary: S)
  case Nil
  show ?case by (simp add: okay_def ret_def)
next
  case (Cons m now)
  have e: "ask_each E (m # now) = seq (ask_new E m) (ask_each E now)" by (rule ext) simp
  have "mac_hex (re_hex E) m \<notin> mac_hex (re_hex E) ` S"
    using Cons.prems by (auto dest: inj_onD)
  note new = okay_ask_new [OF this, of ms]
  have "okay (views_in (mac_hex (re_hex E) ` insert m S) None ms) (ask_each E now)
      (\<lambda>_. views_in (mac_hex (re_hex E) ` (insert m S \<union> set now)) None ms)"
    by (rule Cons.IH) (use Cons.prems in auto)
  with new show ?case unfolding e by (intro okay_seq [OF new]) simp
qed

text \<open>What holds between messages: one idle view at most for each board present.\<close>

definition worker_inv :: "rec_env \<Rightarrow> worker \<Rightarrow> bool" where
  "worker_inv E w \<longleftrightarrow> list_all mac_ok (wk_present w) \<and>
     views_in (mac_hex (re_hex E) ` set (wk_present w)) None (wk_present w) w"

lemma mac_hex_inj: "hex_ok X \<Longrightarrow> inj_on (mac_hex X) {m. mac_ok m}"
  by (rule inj_onI) (metis mac_hex_parse mem_Collect_eq option.inject)

lemma okay_on_present:
  assumes "hex_ok (re_hex E)" and "distinct now" and "list_all mac_ok now" and ms: "list_all mac_ok ms"
  shows "okay (views_in (mac_hex (re_hex E) ` set ms) None ms) (on_present E now) (\<lambda>_. worker_inv E)"
proof -
  let ?H = "mac_hex (re_hex E)"
  have inj: "inj_on ?H (set ms \<union> set now)"
    using mac_hex_inj [OF assms(1)] by (rule inj_on_subset) (use assms(3) ms in \<open>auto simp: list_all_iff\<close>)
  let ?old = "set ms \<inter> set now" and ?new = "filter (\<lambda>m. m \<notin> set ms) now"
  let ?keep = "filter (\<lambda>r. list_ex (\<lambda>m. ?H m = rv_mac r) now)"
  have "views_ok (?H ` ?old) None (?keep vs)" if v: "views_ok (?H ` set ms) None vs" for vs
  proof -
    have "rv_mac r \<in> ?H ` ?old" if r: "r \<in> set (?keep vs)" for r
    proof -
      obtain m m' where "m \<in> set now" "m' \<in> set ms" "?H m = rv_mac r" "?H m' = rv_mac r"
        using r v by (auto simp: views_ok_def list_ex_iff)
      with inj have "m = m'" by (metis (no_types, lifting) UnCI inj_onD)
      with \<open>m \<in> set now\<close> \<open>m' \<in> set ms\<close> \<open>?H m = rv_mac r\<close> show ?thesis by (metis IntI imageI)
    qed
    with views_ok_filter [OF v] show ?thesis unfolding views_ok_def by blast
  qed
  then have keep: "okay (views_in (?H ` set ms) None ms) (on_views ?keep) (\<lambda>_. views_in (?H ` ?old) None ms)"
    by (rule okay_on_views)
  have sp: "?old \<union> set ?new = set now" by auto
  have ask: "okay (views_in (?H ` ?old) None ms) (ask_each E ?new) (\<lambda>_. views_in (?H ` set now) None ms)"
    using okay_ask_each [of E ?old ?new ms] inj assms(2) unfolding sp by (auto intro: inj_on_subset)
  have all: "okay (views_in (?H ` set now) None ms) (modify (\<lambda>w. w\<lparr>wk_present := now\<rparr>)) (\<lambda>_. worker_inv E)"
    by (rule okay_modify) (use assms(3) in \<open>simp add: worker_inv_def views_in_def\<close>)
  have get: "okay (views_in (?H ` set ms) None ms) (asks wk_present) (\<lambda>x s. x = ms \<and> views_in (?H ` set ms) None ms s)"
    by (rule okay_asks) (simp add: views_in_def)
  show ?thesis
    unfolding on_present_def
  proof (rule okay_bnd [OF get])
    fix x
    show "okay (\<lambda>s. x = ms \<and> views_in (?H ` set ms) None ms s)
        (if now = x then ret ()
         else seq (on_views ?keep) (seq (ask_each E (filter (\<lambda>m. m \<notin> set x) now)) (modify (\<lambda>w. w\<lparr>wk_present := now\<rparr>))))
        (\<lambda>_. worker_inv E)"
    proof (cases "x = ms")
      case True
      have "worker_inv E s" if "views_in (?H ` set ms) None ms s" for s
        using that ms by (simp add: worker_inv_def views_in_def)
      then show ?thesis
        unfolding True by (intro okay_rec_pre [OF okay_if [OF okay_ret okay_seq [OF keep okay_seq [OF ask all]]]]) auto
    qed (simp add: okay_def)
  qed
qed

lemma okay_on_do: "okay (views_in H None ms) (on_do E m op) (\<lambda>_. views_in H None ms)"
proof -
  let ?h = "mac_hex (re_hex E) m"
  have busy: "okay (views_in H None ms)
      (on_views (update_first (\<lambda>r. rv_mac r = ?h) (\<lambda>r. r\<lparr>rv_busy := True, rv_note := None\<rparr>))) (\<lambda>_. views_in H (Some ?h) ms)"
    by (rule okay_on_views, erule views_ok_update) auto
  have idle: "okay (views_in H (Some ?h) ms)
      (on_views (update_first (\<lambda>r. rv_mac r = ?h) (\<lambda>r. r\<lparr>rv_busy := False, rv_note := x\<rparr>))) (\<lambda>_. views_in H None ms)" for x
    by (rule okay_on_views, erule views_ok_update) auto
  have refresh: "okay (views_in H (Some ?h) ms) (if c then bnd (attempt (with_link m j)) (\<lambda>i. ret (f i)) else ret None)
      (\<lambda>_. views_in H (Some ?h) ms)" for c and f :: "rec_error + rec_info \<Rightarrow> rec_info option" and j
    by (intro okay_if okay_bnd [OF okay_link] okay_ret)
  have last: "okay (views_in H None ms)
      (seq (case x of None \<Rightarrow> ret () | Some i \<Rightarrow>
          bnd (asks wk_views) (\<lambda>v. if q v then bnd (closes_at (ri_left_s i)) (\<lambda>at. on_views (set_info ?h i at)) else ret ()))
        (ret y)) (\<lambda>_. views_in H None ms)" for x q and y :: rec_reply
  proof (cases x)
    case None
    have "okay (views_in H None ms) (ret ()) (\<lambda>_. views_in H None ms)" by (rule okay_ret)
    then show ?thesis unfolding None option.case by (rule okay_seq) (rule okay_ret)
  next
    case (Some i)
    show ?thesis unfolding Some option.case by (rule okay_seq [OF okay_info]) (rule okay_ret)
  qed
  show ?thesis
    unfolding on_do_def Let_def
    by (intro okay_seq [OF busy] okay_bnd [OF okay_link] okay_bnd [OF refresh] okay_seq [OF idle] last)
qed

text \<open>What the loop does with the messages that arrive, from the empty start.\<close>

inductive worker_reach :: "rec_env \<Rightarrow> worker \<Rightarrow> bool" for E where
  start: "wk_present w = [] \<Longrightarrow> wk_views w = [] \<Longrightarrow> worker_reach E w"
| present: "worker_reach E w \<Longrightarrow> distinct now \<Longrightarrow> list_all mac_ok now \<Longrightarrow> worker_handle E (MsgPresent now) w = (Ok r, w')
    \<Longrightarrow> worker_reach E w'"
| act: "worker_reach E w \<Longrightarrow> worker_handle E (MsgDo m op) w = (Ok r, w') \<Longrightarrow> worker_reach E w'"

text \<open>Between two messages no view is busy, no board has two views, and every view is of a board whose link is
  on this computer's USB.\<close>

theorem worker_views:
  assumes "worker_reach E w" and "hex_ok (re_hex E)"
  shows "distinct (map rv_mac (wk_views w)) \<and>
    (\<forall>r \<in> set (wk_views w). \<not> rv_busy r \<and> rv_mac r \<in> mac_hex (re_hex E) ` set (wk_present w))"
proof -
  from assms(1) have "worker_inv E w"
  proof induction
    case (start w)
    then show ?case by (simp add: worker_inv_def views_in_def views_ok_def)
  next
    case (present w now r w')
    then have "list_all mac_ok (wk_present w)" "views_in (mac_hex (re_hex E) ` set (wk_present w)) None (wk_present w) w"
      by (simp_all add: worker_inv_def)
    moreover obtain x where "on_present E now w = (Ok x, w')"
      using present.hyps(4) by (auto simp: worker_handle_def seq_eq_Ok ret_def)
    ultimately show ?case using okayD [OF okay_on_present [OF assms(2) present.hyps(2,3)]] by blast
  next
    case (act w m op r w')
    then have inv: "list_all mac_ok (wk_present w)" "views_in (mac_hex (re_hex E) ` set (wk_present w)) None (wk_present w) w"
      by (simp_all add: worker_inv_def)
    obtain x where "on_do E m op w = (Ok x, w')"
      using act.hyps(2) by (auto simp: worker_handle_def bnd_eq_Ok ret_def)
    from okayD [OF okay_on_do inv(2) this] inv(1) show ?case by (simp add: worker_inv_def views_in_def)
  qed
  then show ?thesis by (auto simp: worker_inv_def views_in_def views_ok_def)
qed

subsection \<open>Concrete runs\<close>

text \<open>A line of printable ASCII from a brace to a brace is read as the codec reads it.\<close>

definition plain_line :: "string \<Rightarrow> bool" where
  "plain_line s \<longleftrightarrow> list_all (\<lambda>c. 0x20 \<le> (of_char c :: nat) \<and> (of_char c :: nat) < 0x7F) s \<and> s \<noteq> []
     \<and> hd s = CHR ''{'' \<and> last s = CHR ''}''"

lemma line_reply_plain:
  assumes "plain_line s"
  shows "line_reply J (bytes s @ [10]) = (case js_parse J s of Some v \<Rightarrow> if is_reply v then Some v else None | None \<Rightarrow> None)"
proof -
  let ?n = "s @ [CHR 0x0A]"
  have asc: "list_all (\<lambda>c. (of_char c :: nat) < 128) ?n" using assms by (auto simp: plain_line_def list_all_iff)
  have b: "bytes s @ [10] = bytes ?n" by (simp add: bytes_def)
  have "\<forall>b \<in> set (bytes ?n). b < 0x80"
    using asc by (auto simp: bytes_def list_all_iff word_less_nat_alt)
  then have "utf8_lossy (bytes ?n) = ?n" by (simp add: utf8_lossy_ascii)
  moreover have "str_trim ?n = s"
  proof -
    have e: "s \<noteq> []" "\<not> is_whitespace (of_char (hd s))" "\<not> is_whitespace (of_char (last s))"
      using assms by (simp_all add: plain_line_def is_whitespace_def)
    have "dropWhile is_whitespace (map of_char ?n) = map of_char ?n" using e by (cases s) simp_all
    moreover have "is_whitespace 10" by (simp add: is_whitespace_def)
    moreover have "dropWhile is_whitespace (rev (map of_char s)) = rev (map of_char s)"
      using e by (cases s rule: rev_cases) simp_all
    ultimately have "trim_by is_whitespace (map of_char ?n) = map of_char s" by (simp add: trim_by_def)
    moreover have "list_all (\<lambda>c. (of_char c :: nat) < 128) s" using asc by simp
    ultimately show ?thesis using asc by (simp add: str_trim_def chars_ascii utf8s_ascii)
  qed
  moreover have "starts_with ''{'' s" using assms by (cases s) (simp_all add: plain_line_def starts_with_def)
  ultimately show ?thesis by (simp add: line_reply_def b)
qed

lemma take_reply_line:
  assumes "10 \<notin> set l"
  shows "take_reply J (l @ 10 # r) = (case line_reply J (l @ [10]) of Some v \<Rightarrow> (Some v, r) | None \<Rightarrow> take_reply J r)"
proof -
  have "position (\<lambda>b. b = 10) (l @ 10 # r) = Some (length l)" using assms by (induction l) auto
  moreover have "drop (Suc (length l)) (l @ (10 :: u8) # r) = r" by (induction l) auto
  ultimately show ?thesis by (subst take_reply.simps) (simp split: option.split)
qed

lemma link_cmd_line:
  assumes "plain_line s" and "js_parse J s \<noteq> None" and "is_reply (the (js_parse J s))" and "u < t + timeout"
    and "lp_writes p = []" and "lp_times p = t # u # ts" and "lp_reads p = Inr (bytes s @ [10]) # rs"
  shows "link_cmd J body timeout p = (Ok (the (js_parse J s)), p\<lparr>lp_times := ts, lp_reads := rs, lp_sent := lp_sent p @ [body]\<rparr>)"
proof -
  have "10 \<notin> set (bytes s)"
  proof
    assume "10 \<in> set (bytes s)"
    then obtain c where "c \<in> set s" "(10 :: u8) = of_char c" by (auto simp: bytes_def)
    then have "(of_char c :: nat) = 10" using unat_of_char [of c] by simp
    with assms(1) \<open>c \<in> set s\<close> show False by (auto simp: plain_line_def list_all_iff)
  qed
  from take_reply_line [OF this, of J "[]"] line_reply_plain [OF assms(1), of J] assms(2,3)
  have "take_reply J (bytes s @ [10]) = (Some (the (js_parse J s)), [])" by auto
  with assms(4-) show ?thesis
    by (simp add: link_cmd_def seq_def bnd_def lp_write_def lp_read_def)
qed

text \<open>A board with a guarded vault, which takes the new PIN and the new password.\<close>

definition demo_board :: codec where
  "demo_board = \<lparr>js_print = (\<lambda>_. []), js_parse = (\<lambda>s.
     if s = ''{v}'' then Some (JObj [(''status'', JStr ''ok''), (''entries'', JArr [JNull]), (''vault_pin_set'', JBool True)])
     else if s = ''{k}'' then Some (JObj [(''status'', JStr ''ok''), (''vault_wiped'', JBool False)])
     else if s = ''{s}'' then Some (JObj [(''status'', JStr ''ok''), (''auth_set'', JBool True), (''recovery'', JBool True),
       (''recovery_left_s'', JInt 18446744073709551615)])
     else if s = ''{p}'' then Some (JObj [(''status'', JStr ''ok''), (''ssid'', JStr ''HID''), (''password'', JStr ''12345678'')])
     else None)\<rparr>"

definition demo_line :: "string list \<Rightarrow> line_port" where
  "demo_line ss = \<lparr>lp_dtr = None, lp_writes = [], lp_reads = Inr [] # map (\<lambda>s. Inr (bytes s @ [10])) ss,
     lp_times = concat (replicate (length ss) [0, 1]), lp_sent = []\<rparr>"

lemmas demo_simps = demo_board_def demo_line_def link_cmd_line plain_line_def is_reply_def bnd_def seq_def reply_ok_def
  jidx_def ret_def throw_def T_ms_def

lemma link_cmd_record:
  assumes "plain_line s" and "js_parse J s \<noteq> None" and "is_reply (the (js_parse J s))" and "u < t + timeout"
  shows "link_cmd J body timeout
      \<lparr>lp_dtr = d, lp_writes = [], lp_reads = Inr (bytes s @ [10]) # rs, lp_times = t # u # ts, lp_sent = xs\<rparr>
    = (Ok (the (js_parse J s)), \<lparr>lp_dtr = d, lp_writes = [], lp_reads = rs, lp_times = ts, lp_sent = xs @ [body]\<rparr>)"
  by (subst link_cmd_line [OF assms]) simp_all

lemmas demo_run = demo_board_def link_cmd_record plain_line_def is_reply_def bnd_def seq_def reply_ok_def
  jidx_def jstr_def ret_def throw_def T_ms_def

definition demo_pin_port :: line_port where
  "demo_pin_port = \<lparr>lp_dtr = None, lp_writes = [],
     lp_reads = map (\<lambda>s. Inr (bytes s @ [10])) [''{v}'', ''{k}'', ''{s}''], lp_times = [0, 1, 2, 3, 4, 5], lp_sent = []\<rparr>"

lemma demo_reset_pin:
  "\<exists>p'. rec_reset_pin demo_board ''1234'' False demo_pin_port = (Ok False, p')
     \<and> lp_sent p' = [jcmd ''vault_list'', set_auth ''1234'', jcmd ''status'']"
  by (simp add: rec_reset_pin_def demo_pin_port_def pin_ok_def is_digit_def entries_len_def set_auth_def demo_run)

theorem set_auth_guarded_witness:
  "\<exists>vl q. link_cmd demo_board (jcmd ''vault_list'') T_ms demo_pin_port = (Ok vl, q) \<and>
     (entries_len vl = 0 \<or> jidx vl ''vault_pin_set'' = JBool True)"
proof -
  obtain p' where p': "rec_reset_pin demo_board ''1234'' False demo_pin_port = (Ok False, p')"
    "lp_sent p' = [jcmd ''vault_list'', set_auth ''1234'', jcmd ''status'']"
    using demo_reset_pin by blast
  have "lp_sent demo_pin_port = []" by (simp add: demo_pin_port_def)
  with set_auth_guarded [OF p'(1), of "''1234''"] p'(2) show ?thesis by auto
qed

theorem changes_read_back_witness:
  "\<exists>q st. set_auth ''1234'' \<in> set (lp_sent q) \<and>
     fst (link_cmd demo_board (jcmd ''status'') T_ms q) = Ok st \<and> jidx st ''auth_set'' = JBool True"
proof -
  obtain p' where p': "rec_reset_pin demo_board ''1234'' False demo_pin_port = (Ok False, p')"
    using demo_reset_pin by blast
  have "rec_reset_pin demo_board ''1234'' False demo_pin_port = (Ok False, p') \<longrightarrow>
      (\<exists>q st. link_cmd demo_board (jcmd ''status'') T_ms q = (Ok st, p') \<and> (jidx st ''auth_set'' = JBool True \<longleftrightarrow> ''1234'' \<noteq> [])
        \<and> set_auth ''1234'' \<in> set (lp_sent q))"
    by (rule conjunct2 [OF changes_read_back])
  with p' obtain q st where "link_cmd demo_board (jcmd ''status'') T_ms q = (Ok st, p')" "jidx st ''auth_set'' = JBool True"
    "set_auth ''1234'' \<in> set (lp_sent q)" by auto
  then show ?thesis by (intro exI [of _ q] exI [of _ st]) simp
qed

text \<open>A worker on whose USB one board appears; its link cannot be opened.\<close>

definition demo_rec :: rec_env where
  "demo_rec = \<lparr>re_json = demo_board, re_hex = hex_demo, re_linux = False\<rparr>"

definition demo_worker :: "(rec_error + line_port) list \<Rightarrow> worker" where
  "demo_worker ls = \<lparr>wk_present = [], wk_views = [], wk_find = (\<lambda>_. Some ''/dev/ttyACM0''), wk_links = ls, wk_times = [],
     wk_sent = []\<rparr>"

definition demo_mac :: mac where "demo_mac = Mac [1, 2, 3, 4, 5, 6]"

lemma demo_mac_ok: "mac_ok demo_mac"
  by (simp add: demo_mac_def mac_ok_def replicate6)

lemma worker_run_simps:
  "on_views f w = (Ok (), w\<lparr>wk_views := f (wk_views w)\<rparr>)" "asks g w = (Ok (g w), w)" "modify h w = (Ok (), h w)"
  by (simp_all add: on_views_def asks_def modify_def)

lemma demo_present:
  "\<exists>w'. worker_handle demo_rec (MsgPresent [demo_mac]) (demo_worker [Inl RNoAnswer]) = (Ok None, w')
     \<and> wk_present w' = [demo_mac]
     \<and> wk_views w' = [\<lparr>rv_mac = mac_hex hex_demo demo_mac, rv_info = None, rv_closes = None, rv_busy = False,
         rv_note = Some (False, rec_text False RNoAnswer)\<rparr>]"
  by (simp add: worker_handle_def on_present_def ask_new_def demo_worker_def demo_rec_def worker_run_simps bnd_def seq_def
      Let_def attempt_def with_link_def ret_def)

theorem worker_views_witness:
  "\<exists>w :: worker. wk_views w \<noteq> [] \<and> distinct (map rv_mac (wk_views w)) \<and> (\<forall>r \<in> set (wk_views w). \<not> rv_busy r)"
proof -
  obtain w' where w': "worker_handle demo_rec (MsgPresent [demo_mac]) (demo_worker [Inl RNoAnswer]) = (Ok None, w')"
    "wk_views w' \<noteq> []" using demo_present by auto
  have "worker_reach demo_rec (demo_worker [Inl RNoAnswer])" by (rule worker_reach.start) (simp_all add: demo_worker_def)
  from worker_reach.present [OF this _ _ w'(1)] have "worker_reach demo_rec w'" by (simp add: demo_mac_ok)
  from worker_views [OF this] w'(2) show ?thesis
    unfolding demo_rec_def by (intro exI [of _ "w' :: worker"]) (simp add: hex_demo_ok)
qed

text \<open>The reply to a command is the first whole line of the stream that is a JSON object with a \<open>status\<close> and no
  \<open>event\<close>, however the reads cut the stream and whatever events and noise precede it, as long as the clock
  gives the loop a round per read before the deadline.\<close>

theorem reply_is_first:
  assumes "first_reply J (concat cs) = Some v" and "lp_writes p = []" and "lp_times p = t # ts"
    and "length cs \<le> length ts" and "\<forall>u \<in> set ts. u < t + timeout" and "lp_reads p = map Inr cs @ rs"
  shows "fst (link_cmd J body timeout p) = Ok v"
  using link_cmd_stream [OF assms] by (metis fst_conv)

lemma first_reply_line:
  assumes "10 \<notin> set l"
  shows "first_reply J (l @ 10 # r) = (case line_reply J (l @ [10]) of Some v \<Rightarrow> Some v | None \<Rightarrow> first_reply J r)"
  using arg_cong [OF take_reply_line [OF assms, of J r], of fst] by (simp add: take_reply_first split: option.splits)

theorem reply_is_first_witness:
  "\<exists>v. fst (link_cmd demo_board (jcmd ''status'') 1500
      \<lparr>lp_dtr = None, lp_writes = [], lp_reads = [Inr (bytes ''{'' @ bytes ''v''), Inr (bytes ''}'' @ [10])],
       lp_times = [5, 6, 7], lp_sent = []\<rparr>) = Ok v"
proof -
  have "10 \<notin> set (bytes ''{v}'')" by (simp add: bytes_def)
  from first_reply_line [OF this, of demo_board "[]"] line_reply_plain [of "''{v}''" demo_board]
  obtain v where v: "first_reply demo_board (bytes ''{v}'' @ [10]) = Some v"
    by (auto simp: plain_line_def demo_board_def is_reply_def)
  show ?thesis
    by (rule exI, rule reply_is_first [where cs = "[bytes ''{'' @ bytes ''v'', bytes ''}'' @ [10]]" and t = 5 and ts = "[6, 7]" and rs = "[]" and v = v])
      (use v in \<open>simp_all add: bytes_def\<close>)
qed

text \<open>A board that answers with a \<open>recovery_left_s\<close> of \<open>2 ^ 63\<close> seconds or more makes the worker panic: the addition to
  the clock overflows, the thread ends and no later action is answered.\<close>

theorem recovery_left_panics:
  assumes "with_link m (rec_get_info (re_json E))
      (w\<lparr>wk_views := wk_views w @ [\<lparr>rv_mac = mac_hex (re_hex E) m, rv_info = None, rv_closes = None, rv_busy = True, rv_note = None\<rparr>]\<rparr>)
    = (Ok i, w2)"
    and "2 ^ 63 \<le> unat (ri_left_s i)"
  shows "fst (ask_new E m w) = Panic"
proof -
  let ?new = "\<lparr>rv_mac = mac_hex (re_hex E) m, rv_info = None, rv_closes = None, rv_busy = True, rv_note = None\<rparr>"
  let ?h = "mac_hex (re_hex E) m"
  let ?w3 = "w2\<lparr>wk_views := update_first (\<lambda>r. rv_mac r = ?h) (\<lambda>r. r\<lparr>rv_busy := False\<rparr>) (wk_views w2)\<rparr>"
  have "wk_views w2 = wk_views w @ [?new]"
    using assms(1) by (auto simp: with_link_def split: option.splits list.splits sum.splits prod.splits)
  moreover have "list_ex (\<lambda>r. rv_mac r = h) (update_first (\<lambda>r. rv_mac r = h) (\<lambda>r. r\<lparr>rv_busy := False\<rparr>) vs)
      = list_ex (\<lambda>r. rv_mac r = h) vs" for h and vs :: "rec_view list"
    by (induction vs) auto
  ultimately have there: "list_ex (\<lambda>r. rv_mac r = ?h) (wk_views ?w3)" by simp
  have "attempt (with_link m (rec_get_info (re_json E))) (w\<lparr>wk_views := wk_views w @ [?new]\<rparr>) = (Ok (Inr i), w2)"
    using assms(1) by (simp add: attempt_def)
  then have "ask_new E m w = bnd (closes_at (ri_left_s i)) (\<lambda>at. on_views (set_info ?h i at)) ?w3"
    using there by (simp add: ask_new_def Let_def worker_run_simps seq_def)
  moreover have "fst (closes_at (ri_left_s i) ?w3) = Panic"
    using assms(2) by (auto simp: closes_at_def worker_now_def bnd_def panic_def split: list.split)
  ultimately show ?thesis by (cases "closes_at (ri_left_s i) ?w3") (simp add: bnd_def)
qed

definition demo_info_port :: line_port where
  "demo_info_port = \<lparr>lp_dtr = None, lp_writes = [],
     lp_reads = Inr [] # map (\<lambda>s. Inr (bytes s @ [10])) [''{s}'', ''{p}'', ''{v}''], lp_times = [0, 1, 2, 3, 4, 5], lp_sent = []\<rparr>"

theorem recovery_left_panics_witness:
  "fst (ask_new demo_rec demo_mac (demo_worker [Inr demo_info_port])) = Panic"
proof -
  obtain i w2 where "with_link demo_mac (rec_get_info demo_board)
      ((demo_worker [Inr demo_info_port])\<lparr>wk_views := [\<lparr>rv_mac = mac_hex hex_demo demo_mac, rv_info = None, rv_closes = None,
         rv_busy = True, rv_note = None\<rparr>]\<rparr>) = (Ok i, w2)" "ri_left_s i = word_of_int 18446744073709551615"
    by (simp add: with_link_def demo_worker_def demo_info_port_def link_new_def rec_get_info_def entries_len_def demo_run)
  then show ?thesis
    by (intro recovery_left_panics [of demo_mac demo_rec "demo_worker [Inr demo_info_port]" i w2])
      (simp_all add: demo_rec_def demo_worker_def)
qed

theorem worker_sends_asked_witness:
  "set (wk_sent (snd (worker_handle demo_rec (MsgDo demo_mac OpReveal) (demo_worker [Inr demo_info_port]))))
     \<subseteq> {jcmd ''status'', jcmd ''ap_password'', jcmd ''vault_list''}"
proof -
  have "wk_sent (demo_worker [Inr demo_info_port]) = []" by (simp add: demo_worker_def)
  with worker_sends_asked [of demo_rec "MsgDo demo_mac OpReveal" "demo_worker [Inr demo_info_port]"] show ?thesis
    by auto
qed

end
