(* ===== verification/Factory.thy ===== *)
theory Factory
  imports Recovery Pairing
begin

section \<open>Factory reset from the Companion (crates/hidfi-companion/src/factory.rs)\<close>

text \<open>
  The three ways a board is reset - signed by a paired computer, approved by its owner, or through
  recovery mode - with the view the window shows of each.  The surroundings are a script: the outcome of
  each POST to the board, each look at the USB, what each try to open the link gives, and the readings of
  the clock; what was posted and what was sent over USB is kept.  Past the end of its script a POST
  fails, the USB is empty, no link is found and every deadline has passed.  Time is in milliseconds.  JSON, hex and
  the cryptography are arguments.  The lock and the thread around the worker are left out: messages wait
  in a queue and are handled one after the other.
\<close>

subsection \<open>Definitions: the view\<close>

definition APPROVAL_WAIT :: nat where "APPROVAL_WAIT = 120000"

datatype reset_path = PathPaired | PathRequest | PathRecovery

definition path_str :: "reset_path \<Rightarrow> string" where
  "path_str p = (case p of PathPaired \<Rightarrow> ''paired'' | PathRequest \<Rightarrow> ''request'' | PathRecovery \<Rightarrow> ''recovery'')"

datatype step_state = Todo | Doing | StepDone | StepFailed

definition step_str :: "step_state \<Rightarrow> string" where
  "step_str s = (case s of Todo \<Rightarrow> ''todo'' | Doing \<Rightarrow> ''doing'' | StepDone \<Rightarrow> ''done'' | StepFailed \<Rightarrow> ''failed'')"

record reset_view =
  fv_mac :: string
  fv_path :: reset_path
  fv_steps :: "(string \<times> step_state) list"
  fv_note :: string
  fv_result :: "bool option"
  fv_left :: "nat option"

definition steps_for :: "reset_path \<Rightarrow> (string \<times> step_state) list" where
  "steps_for p = map (\<lambda>n. (n, Todo)) (case p of
     PathPaired \<Rightarrow> [''Asking the board'', ''Restarting with its USB link'', ''Erasing over USB'', ''Restarting as new'']
   | PathRequest \<Rightarrow> [''Asking the board'', ''Waiting for approval on your phone'', ''Erasing and restarting as new'']
   | PathRecovery \<Rightarrow> [''Erasing over USB'', ''Restarting as new''])"

definition choose_path :: "bool \<Rightarrow> bool \<Rightarrow> bool \<Rightarrow> reset_path" where
  "choose_path in_recovery reachable paired =
     (if in_recovery then PathRecovery else if paired \<and> reachable then PathPaired else PathRequest)"

record reset_job =
  fj_mac :: mac
  fj_path :: reset_path
  fj_base :: "string option"
  fj_id :: string
  fj_key :: "pair_key option"
  fj_name :: string
  fj_ssid :: string

datatype reset_msg = RunJob reset_job | ClearView string

record timing =
  tm_appears :: nat
  tm_goes :: nat
  tm_approval :: nat

definition timing_default :: timing where
  "timing_default = \<lparr>tm_appears = 25000, tm_goes = 15000, tm_approval = APPROVAL_WAIT\<rparr>"

record factory_env =
  fe_json :: codec
  fe_json_error :: "string \<Rightarrow> string"
  fe_hex :: hex_crate
  fe_crypto :: crypto
  fe_linux :: bool
  fe_timing :: timing

record factory =
  fa_views :: "reset_view list"
  fa_claimed :: "string list"
  fa_queue :: "reset_msg list"
  fa_http :: "(string + string) list"
  fa_usb :: "mac list list"
  fa_opens :: "(rec_error + line_port) option list"
  fa_times :: "nat list"
  fa_posted :: "(string \<times> api_request) list"
  fa_sent :: "json list"

type_synonym 'a rprog = "(factory, string, 'a) prog"

subsection \<open>Definitions: what the window is told\<close>

definition ui_edit :: "string \<Rightarrow> (reset_view \<Rightarrow> reset_view) \<Rightarrow> unit rprog" where
  "ui_edit h f = modify (\<lambda>s. s\<lparr>fa_views := update_first (\<lambda>r. fv_mac r = h) f (fa_views s)\<rparr>)"

definition ui_begin :: "string \<Rightarrow> reset_path \<Rightarrow> unit rprog" where
  "ui_begin h p = modify (\<lambda>s. s\<lparr>fa_views := filter (\<lambda>r. fv_mac r \<noteq> h) (fa_views s)
     @ [\<lparr>fv_mac = h, fv_path = p, fv_steps = steps_for p, fv_note = [], fv_result = None, fv_left = None\<rparr>]\<rparr>)"

definition set_step :: "nat \<Rightarrow> step_state \<Rightarrow> reset_view \<Rightarrow> reset_view" where
  "set_step i st r = (if i < length (fv_steps r) then r\<lparr>fv_steps := (fv_steps r)[i := (fst (fv_steps r ! i), st)]\<rparr> else r)"

definition ui_step :: "string \<Rightarrow> nat \<Rightarrow> step_state \<Rightarrow> unit rprog" where
  "ui_step h i st = ui_edit h (set_step i st)"

definition ui_note :: "string \<Rightarrow> string \<Rightarrow> unit rprog" where
  "ui_note h t = ui_edit h (\<lambda>r. r\<lparr>fv_note := t\<rparr>)"

definition ui_left :: "string \<Rightarrow> nat option \<Rightarrow> unit rprog" where
  "ui_left h l = ui_edit h (\<lambda>r. r\<lparr>fv_left := l\<rparr>)"

definition ui_finish :: "string \<Rightarrow> bool \<Rightarrow> nat option \<Rightarrow> string \<Rightarrow> unit rprog" where
  "ui_finish h ok failed t =
     ui_edit h (\<lambda>r. (case failed of Some i \<Rightarrow> set_step i StepFailed r | None \<Rightarrow> r)\<lparr>fv_note := t, fv_result := Some ok, fv_left := None\<rparr>)"

definition erased_note :: "string \<Rightarrow> string" where
  "erased_note ssid =
     (if ssid = [] then ''Erased. The board restarted as new: join its own WiFi again to set it up.''
      else ''Erased. The board restarted as new: join its WiFi '' @ ssid @ '' again to set it up.'')"

definition refused_text :: "string \<Rightarrow> string" where
  "refused_text e =
     (if str_contains ''verifying'' e \<or> str_contains ''busy'' e then
        ''An update is running on the board. Try again when it has finished. Nothing was changed.''
      else if str_contains ''unknown_pc'' e then
        ''This computer is no longer paired with the board. Pair it again, or approve from the dashboard. Nothing was changed.''
      else if str_contains ''pin_required'' e then
        ''This board has no access PIN, so it cannot approve from your phone. Join its own WiFi, open the dashboard and use Settings, Factory reset.''
      else if str_contains ''rate_limited'' e then
        ''The board is busy answering other requests. Try again in a moment. Nothing was changed.''
      else ''The board did not answer ('' @ e @ ''). Nothing was changed.'')"

subsection \<open>Definitions: the network\<close>

definition fa_post :: "factory_env \<Rightarrow> string \<Rightarrow> api_request \<Rightarrow> json rprog" where
  "fa_post E base req s0 =
     (let s = s0\<lparr>fa_posted := fa_posted s0 @ [(base, req)]\<rparr> in
      case fa_http s of
        [] \<Rightarrow> (Err [], s)
      | Inl e # hs \<Rightarrow> (Err e, s\<lparr>fa_http := hs\<rparr>)
      | Inr body # hs \<Rightarrow>
          (case js_parse (fe_json E) body of
             None \<Rightarrow> (Err (fe_json_error E body), s\<lparr>fa_http := hs\<rparr>)
           | Some v \<Rightarrow>
               (if jidx v ''status'' = JStr ''ok'' then Ok v
                else Err (case as_str (jidx v ''reply'') of Some t \<Rightarrow> t | None \<Rightarrow> ''refused''), s\<lparr>fa_http := hs\<rparr>)))"

fun reset_tries :: "factory_env \<Rightarrow> string \<Rightarrow> string \<Rightarrow> pair_key \<Rightarrow> nat \<Rightarrow> string \<Rightarrow> string rprog" where
  "reset_tries E base pid key 0 last_err s = throw last_err s"
| "reset_tries E base pid key (Suc n) last_err s =
     bnd (fa_post E base (Chal pid)) (\<lambda>v.
       case as_str (jidx v ''chal'') of
         None \<Rightarrow> throw ''no challenge''
       | Some chal \<Rightarrow>
           bnd (attempt (fa_post E base (ResetReq pid chal (hx_encode (fe_hex E) (reset_mac (fe_crypto E) key pid chal))))) (\<lambda>r.
             case r of
               Inr v \<Rightarrow> (case as_str (jidx v ''token'') of Some t \<Rightarrow> ret t | None \<Rightarrow> throw ''no token'')
             | Inl e \<Rightarrow> if e = ''stale_chal'' then reset_tries E base pid key n e else throw e)) s"

definition net_reset :: "factory_env \<Rightarrow> string \<Rightarrow> string \<Rightarrow> pair_key \<Rightarrow> string rprog" where
  "net_reset E base pid key = reset_tries E base pid key 2 []"

definition net_request :: "factory_env \<Rightarrow> string \<Rightarrow> string \<Rightarrow> string rprog" where
  "net_request E base name =
     bnd (fa_post E base (ResetRequest name)) (\<lambda>v.
       case as_str (jidx v ''request'') of Some r \<Rightarrow> ret r | None \<Rightarrow> throw ''no request id'')"

definition net_request_status :: "factory_env \<Rightarrow> string \<Rightarrow> string \<Rightarrow> string rprog" where
  "net_request_status E base req =
     bnd (fa_post E base (ResetRequestStatus req)) (\<lambda>v.
       ret (case as_str (jidx v ''state'') of Some t \<Rightarrow> t | None \<Rightarrow> ''unknown''))"

subsection \<open>Definitions: the USB link\<close>

fun usb_wait :: "mac \<Rightarrow> bool \<Rightarrow> nat \<Rightarrow> nat list \<Rightarrow> mac list list \<Rightarrow> bool \<times> nat list \<times> mac list list" where
  "usb_wait m present deadline [] us = ((m \<in> set (case us of [] \<Rightarrow> [] | u # _ \<Rightarrow> u)) = present, [], tl us)"
| "usb_wait m present deadline (t # ts) us =
     (if (m \<in> set (case us of [] \<Rightarrow> [] | u # _ \<Rightarrow> u)) = present then (True, t # ts, tl us)
      else if deadline \<le> t then (False, ts, tl us)
      else usb_wait m present deadline ts (tl us))"

definition wait_for :: "mac \<Rightarrow> bool \<Rightarrow> nat \<Rightarrow> bool rprog" where
  "wait_for m present mx s =
     (let start = (case fa_times s of [] \<Rightarrow> 0 | t # _ \<Rightarrow> t);
          (r, ts, us) = usb_wait m present (start + mx) (tl (fa_times s)) (fa_usb s)
      in (Ok r, s\<lparr>fa_times := ts, fa_usb := us\<rparr>))"

fun open_tries :: "nat \<Rightarrow> rec_error \<Rightarrow> (rec_error + line_port) rprog" where
  "open_tries 0 err s = (Ok (Inl err), s)"
| "open_tries (Suc n) err s =
     (case fa_opens s of
        [] \<Rightarrow> open_tries n err s
      | None # os \<Rightarrow> open_tries n err (s\<lparr>fa_opens := os\<rparr>)
      | Some (Inl e) # os \<Rightarrow> open_tries n e (s\<lparr>fa_opens := os\<rparr>)
      | Some (Inr p) # os \<Rightarrow>
          (case link_new (p\<lparr>lp_sent := []\<rparr>) of
             (Ok _, p') \<Rightarrow> (Ok (Inr p'), s\<lparr>fa_opens := os\<rparr>)
           | (Err e, _) \<Rightarrow> open_tries n e (s\<lparr>fa_opens := os\<rparr>)
           | (Panic, _) \<Rightarrow> (Panic, s\<lparr>fa_opens := os\<rparr>)
           | (OutOfFuel, _) \<Rightarrow> (OutOfFuel, s\<lparr>fa_opens := os\<rparr>)))"

definition open_link :: "(rec_error + line_port) rprog" where
  "open_link = open_tries 15 (ROpen ''its USB link is not there'')"

text \<open>The answer to \<open>erase\<close>, and its one command.\<close>

definition erased_ok :: "json \<Rightarrow> bool" where
  "erased_ok r \<longleftrightarrow> jidx r ''reply'' = JStr ''factory_reset'' \<and> jidx r ''status'' = JStr ''ok''"

definition erase_cmd :: "factory_env \<Rightarrow> line_port \<Rightarrow> json \<Rightarrow> unit rprog" where
  "erase_cmd E p body s =
     (case link_cmd (fe_json E) body 6000 p of
        (r, p') \<Rightarrow>
          (case r of
             Ok v \<Rightarrow> if erased_ok v then Ok () else Err (case as_str (jidx v ''reply'') of Some t \<Rightarrow> t | None \<Rightarrow> ''refused'')
           | Err e \<Rightarrow> Err (rec_text (fe_linux E) e)
           | Panic \<Rightarrow> Panic
           | OutOfFuel \<Rightarrow> OutOfFuel, s\<lparr>fa_sent := fa_sent s @ lp_sent p'\<rparr>))"

definition erase_signed :: "string \<Rightarrow> json" where
  "erase_signed prf = JObj [(''cmd'', JStr ''factory_reset''), (''proof'', JStr prf)]"

definition erase_confirmed :: json where
  "erase_confirmed = JObj [(''cmd'', JStr ''factory_reset''), (''confirm'', JBool True)]"

subsection \<open>Definitions: the three ways\<close>

definition open_failed :: "factory_env \<Rightarrow> rec_error \<Rightarrow> string" where
  "open_failed E e = rec_text (fe_linux E) e @ '' Nothing was changed.''"

definition run_paired :: "factory_env \<Rightarrow> reset_job \<Rightarrow> unit rprog" where
  "run_paired E job =
     (let h = mac_hex (fe_hex E) (fj_mac job) in
      case (fj_base job, fj_key job) of
        (Some base, Some key) \<Rightarrow>
          seq (ui_step h 0 Doing)
          (bnd (attempt (net_reset E base (fj_id job) key)) (\<lambda>r. case r of
             Inl e \<Rightarrow> ui_finish h False (Some 0) (refused_text e)
           | Inr token \<Rightarrow>
          seq (ui_step h 0 StepDone)
          (seq (ui_step h 1 Doing)
          (bnd (wait_for (fj_mac job) True (tm_appears (fe_timing E))) (\<lambda>there.
             if \<not> there then ui_finish h False (Some 1)
               ''The board did not come back with its USB link. Nothing was changed: it restarts normally within a minute.''
             else
          bnd open_link (\<lambda>l. case l of
             Inl e \<Rightarrow> ui_finish h False (Some 1) (open_failed E e)
           | Inr p \<Rightarrow>
          seq (ui_step h 1 StepDone)
          (seq (ui_step h 2 Doing)
          (bnd (attempt (erase_cmd E p (erase_signed (hx_encode (fe_hex E) (factory_proof (fe_crypto E) key (fj_id job) token))))) (\<lambda>r. case r of
             Inl e \<Rightarrow> ui_finish h False (Some 2) (refused_text e)
           | Inr _ \<Rightarrow>
          seq (ui_step h 2 StepDone)
          (seq (ui_step h 3 Doing)
          (bnd (wait_for (fj_mac job) False (tm_goes (fe_timing E))) (\<lambda>_.
          seq (ui_step h 3 StepDone)
            (ui_finish h True None (erased_note (fj_ssid job)))))))))))))))
      | _ \<Rightarrow> ui_finish h False (Some 0) ''This computer cannot reach the board on the network. Nothing was changed.'')"

text \<open>One round of the wait for the owner: nothing when it is over, or the failures in a row and whether
  the board was seen waiting.\<close>

definition approval_round :: "factory_env \<Rightarrow> reset_job \<Rightarrow> string \<Rightarrow> string \<Rightarrow> nat \<Rightarrow> nat \<Rightarrow> bool \<Rightarrow> (nat \<times> bool) option rprog" where
  "approval_round E job base req left fails seen =
     (let h = mac_hex (fe_hex E) (fj_mac job) in
      seq (ui_left h (Some (left div 1000)))
      (bnd (attempt (net_request_status E base req)) (\<lambda>r. case r of
         Inr st \<Rightarrow>
           if st = ''pending'' then ret (Some (0, True))
           else if st = ''approved'' then
             seq (ui_step h 1 StepDone)
             (seq (ui_step h 2 StepDone)
             (seq (ui_finish h True None (''Approved on your phone. '' @ erased_note (fj_ssid job))) (ret None)))
           else if st = ''declined'' then
             seq (ui_finish h False (Some 1) ''Declined on the dashboard. Nothing was changed.'') (ret None)
           else
             seq (ui_finish h False (Some 1) (if seen then ''Nobody approved it in time. Nothing was changed.''
               else ''The board forgot the request. Nothing was changed.'')) (ret None)
       | Inl _ \<Rightarrow>
           if 10 \<le> fails + 1 then
             seq (ui_finish h False (Some 1)
               ''The board stopped answering. If you approved it, it has restarted as new; otherwise nothing was changed.'') (ret None)
           else ret (Some (fails + 1, seen)))))"

definition not_in_time :: "factory_env \<Rightarrow> reset_job \<Rightarrow> unit rprog" where
  "not_in_time E job =
     ui_finish (mac_hex (fe_hex E) (fj_mac job)) False (Some 1) ''Nobody approved it in time. Nothing was changed.''"

text \<open>A round for every reading of the clock; past the last one no time is left.\<close>

fun approval_loop :: "factory_env \<Rightarrow> reset_job \<Rightarrow> string \<Rightarrow> string \<Rightarrow> nat \<Rightarrow> nat list \<Rightarrow> nat \<Rightarrow> bool \<Rightarrow> unit rprog" where
  "approval_loop E job base req deadline [] fails seen s =
     bnd (approval_round E job base req 0 fails seen) (\<lambda>r. case r of
        None \<Rightarrow> ret ()
      | Some _ \<Rightarrow> not_in_time E job) (s\<lparr>fa_times := []\<rparr>)"
| "approval_loop E job base req deadline (t # ts) fails seen s =
     bnd (approval_round E job base req (deadline - t) fails seen) (\<lambda>r. case r of
        None \<Rightarrow> ret ()
      | Some (f, sn) \<Rightarrow>
          if deadline - t = 0 then not_in_time E job
          else approval_loop E job base req deadline ts f sn) (s\<lparr>fa_times := ts\<rparr>)"

definition run_request :: "factory_env \<Rightarrow> reset_job \<Rightarrow> unit rprog" where
  "run_request E job =
     (let h = mac_hex (fe_hex E) (fj_mac job) in
      case fj_base job of
        None \<Rightarrow> ui_finish h False (Some 0)
          ''This computer cannot reach the board on the network. Use Factory reset in the dashboard's Settings instead.''
      | Some base \<Rightarrow>
          seq (ui_step h 0 Doing)
          (bnd (attempt (net_request E base (fj_name job))) (\<lambda>r. case r of
             Inl e \<Rightarrow> ui_finish h False (Some 0) (refused_text e)
           | Inr req \<Rightarrow>
          seq (ui_step h 0 StepDone)
          (seq (ui_step h 1 Doing)
          (seq (ui_note h (''Open the board's dashboard on your phone: it asks you to approve '' @ [CHR 0x22] @ fj_name job @ [CHR 0x22]
             @ ''. Nothing changes until you do.''))
          (bnd (asks fa_times) (\<lambda>ts.
             approval_loop E job base req ((case ts of [] \<Rightarrow> 0 | t # _ \<Rightarrow> t) + tm_approval (fe_timing E)) (tl ts) 0 False)))))))"

definition run_recovery :: "factory_env \<Rightarrow> reset_job \<Rightarrow> unit rprog" where
  "run_recovery E job =
     (let h = mac_hex (fe_hex E) (fj_mac job) in
      seq (ui_step h 0 Doing)
      (bnd open_link (\<lambda>l. case l of
         Inl e \<Rightarrow> ui_finish h False (Some 0) (open_failed E e)
       | Inr p \<Rightarrow>
      bnd (attempt (erase_cmd E p erase_confirmed)) (\<lambda>r. case r of
         Inl e \<Rightarrow> ui_finish h False (Some 0) (refused_text e)
       | Inr _ \<Rightarrow>
      seq (ui_step h 0 StepDone)
      (seq (ui_step h 1 Doing)
      (bnd (wait_for (fj_mac job) False (tm_goes (fe_timing E))) (\<lambda>_.
      seq (ui_step h 1 StepDone)
        (ui_finish h True None (erased_note (fj_ssid job))))))))))"

definition run_job :: "factory_env \<Rightarrow> reset_job \<Rightarrow> unit rprog" where
  "run_job E job =
     (case fj_path job of
        PathPaired \<Rightarrow> run_paired E job
      | PathRequest \<Rightarrow> run_request E job
      | PathRecovery \<Rightarrow> run_recovery E job)"

subsection \<open>Definitions: the worker\<close>

text \<open>\<open>run\<close> and \<open>clear\<close> put a message in the queue; the thread takes the first.\<close>

definition factory_run :: "factory_env \<Rightarrow> reset_job \<Rightarrow> unit rprog" where
  "factory_run E job = modify (\<lambda>s.
     if list_ex (\<lambda>v. fv_mac v = mac_hex (fe_hex E) (fj_mac job) \<and> fv_result v = None) (fa_views s) then s
     else s\<lparr>fa_queue := fa_queue s @ [RunJob job]\<rparr>)"

definition factory_clear :: "string \<Rightarrow> unit rprog" where
  "factory_clear m = modify (\<lambda>s. s\<lparr>fa_queue := fa_queue s @ [ClearView m]\<rparr>)"

definition factory_handle :: "factory_env \<Rightarrow> reset_msg \<Rightarrow> unit rprog" where
  "factory_handle E msg =
     (case msg of
        RunJob job \<Rightarrow>
          (let h = mac_hex (fe_hex E) (fj_mac job) in
           seq (modify (\<lambda>s. s\<lparr>fa_claimed := fa_claimed s @ [h]\<rparr>))
           (seq (ui_begin h (fj_path job))
           (seq (run_job E job)
             (modify (\<lambda>s. s\<lparr>fa_claimed := filter (\<lambda>m. m \<noteq> h) (fa_claimed s)\<rparr>)))))
      | ClearView m \<Rightarrow>
          modify (\<lambda>s. s\<lparr>fa_views := filter (\<lambda>v. fv_mac v \<noteq> m \<or> fv_result v = None) (fa_views s)\<rparr>))"

definition factory_next :: "factory_env \<Rightarrow> unit rprog" where
  "factory_next E s =
     (case fa_queue s of [] \<Rightarrow> (Ok (), s) | msg # q \<Rightarrow> factory_handle E msg (s\<lparr>fa_queue := q\<rparr>))"

subsection \<open>What goes down the cable\<close>

text \<open>\<open>one_send A m\<close>: the program \<open>m\<close> sends at most one command, one of \<open>A\<close>.\<close>

definition one_send :: "json set \<Rightarrow> 'a rprog \<Rightarrow> bool" where
  "one_send A m \<longleftrightarrow> (\<forall>s. \<exists>xs. fa_sent (snd (m s)) = fa_sent s @ xs \<and> length xs \<le> 1 \<and> set xs \<subseteq> A)"

lemma one_send_quiet: "sends fa_sent {} m \<Longrightarrow> one_send A m"
  by (fastforce simp: sends_def one_send_def)

lemma one_send_then:
  assumes "sends fa_sent {} m" and "\<And>x s s'. m s = (Ok x, s') \<Longrightarrow> one_send A (k x)"
  shows "one_send A (bnd m k)"
  unfolding one_send_def
proof
  fix s
  obtain r q where m: "m s = (r, q)" by fastforce
  have q: "fa_sent q = fa_sent s" using assms(1) m unfolding sends_def by (metis append_Nil2 snd_conv set_empty subset_empty)
  show "\<exists>xs. fa_sent (snd (bnd m k s)) = fa_sent s @ xs \<and> length xs \<le> 1 \<and> set xs \<subseteq> A"
  proof (cases r)
    case (Ok x)
    with assms(2) m q show ?thesis unfolding one_send_def by (metis bnd_Ok)
  qed (use m q in \<open>auto simp: bnd_def\<close>)
qed

lemma one_send_last:
  assumes "one_send A m" and "\<And>x. sends fa_sent {} (k x)"
  shows "one_send A (bnd m k)"
  unfolding one_send_def
proof
  fix s
  obtain r q where m: "m s = (r, q)" by fastforce
  obtain xs where q: "fa_sent q = fa_sent s @ xs" "length xs \<le> 1" "set xs \<subseteq> A"
    using assms(1) m unfolding one_send_def by (metis snd_conv)
  show "\<exists>xs. fa_sent (snd (bnd m k s)) = fa_sent s @ xs \<and> length xs \<le> 1 \<and> set xs \<subseteq> A"
  proof (cases r)
    case (Ok x)
    have "fa_sent (snd (k x q)) = fa_sent q"
      using assms(2) unfolding sends_def by (metis append_Nil2 set_empty subset_empty)
    with m q Ok show ?thesis by (auto simp: bnd_def)
  qed (use m q in \<open>auto simp: bnd_def\<close>)
qed

lemma sends_modify [sends_rules]: "(\<And>s. f (g s) = f s) \<Longrightarrow> sends f A (modify g)"
  by (simp add: sends_def modify_def)

lemma sends_asks [sends_rules]: "sends f A (asks g)"
  by (simp add: sends_def asks_def)

lemma sends_ui [sends_rules]:
  "sends fa_sent A (ui_edit h f)" "sends fa_sent A (ui_begin h p)" "sends fa_sent A (ui_step h i st)"
  "sends fa_sent A (ui_note h t)" "sends fa_sent A (ui_left h l)" "sends fa_sent A (ui_finish h ok fl t)"
  unfolding ui_edit_def ui_begin_def ui_step_def ui_note_def ui_left_def ui_finish_def
  by (rule sends_modify; simp)+

lemma sends_post [sends_rules]: "sends fa_sent A (fa_post E base req)"
  by (auto simp: sends_def fa_post_def Let_def split: list.split sum.split option.split)

lemma sends_reset_tries: "sends fa_sent A (reset_tries E base pid key n e)"
proof (induction n arbitrary: e)
  case 0
  show ?case by (simp add: sends_def throw_def)
next
  case (Suc n)
  let ?m = "\<lambda>s. reset_tries E base pid key (Suc n) e s"
  have "sends fa_sent A ?m"
    unfolding reset_tries.simps
    by (auto intro!: sends_rules Suc split: option.split sum.split)
  then show ?case by simp
qed

lemma sends_net [sends_rules]:
  "sends fa_sent A (net_reset E base pid key)" "sends fa_sent A (net_request E base name)"
  "sends fa_sent A (net_request_status E base req)"
  unfolding net_reset_def net_request_def net_request_status_def
  by (auto intro!: sends_rules sends_reset_tries split: option.split)

lemma sends_wait_for [sends_rules]: "sends fa_sent A (wait_for m b n)"
  by (auto simp: sends_def wait_for_def Let_def split: prod.split)

lemma open_tries_fresh:
  "fa_sent (snd (open_tries n e s)) = fa_sent s \<and> (\<forall>p s'. open_tries n e s = (Ok (Inr p), s') \<longrightarrow> lp_sent p = [])"
proof (induction n arbitrary: e s)
  case (Suc n)
  have new: "lp_sent (snd (link_new (p\<lparr>lp_sent := []\<rparr>))) = []" for p
    by (simp add: link_new_def split: option.split)
  show ?case
    using Suc new by (auto split: list.split option.split sum.split prod.split outcome.split) (metis snd_conv)+
qed simp

lemma sends_open_link [sends_rules]: "sends fa_sent A open_link"
  using open_tries_fresh unfolding sends_def open_link_def by auto

lemma lp_write_cases:
  obtains e q where "lp_write b p = (Err e, q)" "lp_sent q = lp_sent p"
  | q where "lp_write b p = (Ok (), q)" "lp_sent q = lp_sent p @ [b]"
  by (cases "lp_write b p", simp add: lp_write_def split: list.splits option.splits) fastforce+

lemma cmd_wait_ends: "fst (cmd_wait J d ts buf p) \<noteq> Panic \<and> fst (cmd_wait J d ts buf p) \<noteq> OutOfFuel"
proof (induction ts arbitrary: buf p)
  case (Cons t ts)
  show ?case
  proof (cases "lp_reads p")
    case Nil
    then show ?thesis using Cons.IH by (cases "take_reply J buf") (auto simp: lp_read_def split: option.split)
  next
    case reads: (Cons r rs)
    then show ?thesis
    proof (cases r)
      case (Inr bs)
      then show ?thesis
        using Cons.IH reads by (cases "take_reply J (buf @ bs)") (auto simp: lp_read_def split: option.split)
    qed (simp add: lp_read_def)
  qed
qed simp

lemma link_cmd_cases:
  "(\<exists>v. fst (link_cmd J b n p) = Ok v) \<or> (\<exists>e. fst (link_cmd J b n p) = Err e)"
  "lp_sent (snd (link_cmd J b n p)) = lp_sent p \<or> lp_sent (snd (link_cmd J b n p)) = lp_sent p @ [b]"
proof -
  have w: "(\<exists>v. fst (cmd_wait J d ts [] q) = Ok v) \<or> (\<exists>e. fst (cmd_wait J d ts [] q) = Err e)" for d ts q
    using cmd_wait_ends by (metis outcome.exhaust)
  show "(\<exists>v. fst (link_cmd J b n p) = Ok v) \<or> (\<exists>e. fst (link_cmd J b n p) = Err e)"
  proof (cases rule: lp_write_cases [of b p])
    case (2 q)
    then show ?thesis using w by (cases "lp_times q") (simp_all add: link_cmd_def)
  qed (simp add: link_cmd_def)
  show "lp_sent (snd (link_cmd J b n p)) = lp_sent p \<or> lp_sent (snd (link_cmd J b n p)) = lp_sent p @ [b]"
  proof (cases rule: lp_write_cases [of b p])
    case (2 q)
    then show ?thesis by (cases "lp_times q") (simp_all add: link_cmd_def)
  qed (simp add: link_cmd_def)
qed

lemma one_send_erase: "lp_sent p = [] \<Longrightarrow> one_send {body} (erase_cmd E p body)"
  using link_cmd_cases(2) [of "fe_json E" body 6000 p]
  by (auto simp: one_send_def erase_cmd_def split: prod.split)

lemma one_send_attempt: "one_send A m \<Longrightarrow> one_send A (attempt m)"
  by (simp add: one_send_def)

lemma one_send_if: "(c \<Longrightarrow> one_send A m) \<Longrightarrow> (\<not> c \<Longrightarrow> one_send A n) \<Longrightarrow> one_send A (if c then m else n)"
  by simp

lemma one_send_seq: "sends fa_sent {} m \<Longrightarrow> one_send A n \<Longrightarrow> one_send A (seq m n)"
  unfolding seq_def by (rule one_send_then)

lemma one_send_seq_last: "one_send A m \<Longrightarrow> sends fa_sent {} n \<Longrightarrow> one_send A (seq m n)"
  unfolding seq_def by (rule one_send_last)

lemma one_send_mono: "one_send A m \<Longrightarrow> A \<subseteq> B \<Longrightarrow> one_send B m"
  unfolding one_send_def by (meson order_trans)

text \<open>What a job may send.\<close>

definition token_of :: "factory_env \<Rightarrow> reset_job \<Rightarrow> string \<Rightarrow> pair_key \<Rightarrow> string \<Rightarrow> bool" where
  "token_of E job base key token \<longleftrightarrow> fj_base job = Some base \<and> fj_key job = Some key \<and>
     (\<exists>s s'. net_reset E base (fj_id job) key s = (Ok token, s'))"

definition may_send :: "factory_env \<Rightarrow> reset_job \<Rightarrow> json set" where
  "may_send E job =
     (case fj_path job of
        PathPaired \<Rightarrow> {erase_signed (hx_encode (fe_hex E) (factory_proof (fe_crypto E) key (fj_id job) token)) | base key token.
          token_of E job base key token}
      | PathRequest \<Rightarrow> {}
      | PathRecovery \<Rightarrow> {erase_confirmed})"

lemma open_link_fresh: "open_link s = (Ok (Inr p), s') \<Longrightarrow> lp_sent p = []"
  using open_tries_fresh unfolding open_link_def by blast

lemma one_send_recovery: "one_send {erase_confirmed} (run_recovery E job)"
  unfolding run_recovery_def Let_def
proof (intro one_send_seq sends_rules one_send_then, goal_cases)
  case (1 l s s')
  show ?case
  proof (cases l)
    case (Inr p)
    with open_link_fresh 1 have "one_send {erase_confirmed} (attempt (erase_cmd E p erase_confirmed))"
      by (blast intro: one_send_attempt one_send_erase)
    then show ?thesis
      unfolding Inr sum.case by (rule one_send_last) (auto intro!: sends_rules split: sum.split)
  qed (auto intro!: one_send_quiet sends_rules)
qed

lemma one_send_paired: "fj_path job = PathPaired \<Longrightarrow> one_send (may_send E job) (run_paired E job)"
proof -
  assume path: "fj_path job = PathPaired"
  show ?thesis
  proof (cases "fj_base job = None \<or> fj_key job = None")
    case True
    then show ?thesis
      unfolding run_paired_def Let_def
      by (auto intro!: one_send_quiet sends_rules split: option.split)
  next
    case False
    then obtain base key where bk: "fj_base job = Some base" "fj_key job = Some key" by auto
    show ?thesis
      unfolding run_paired_def Let_def bk option.case prod.case
    proof (intro one_send_seq sends_rules one_send_then, goal_cases)
      case (1 r s s')
      show ?case
      proof (cases r)
        case (Inr token)
        have tok: "token_of E job base key token"
          using 1 Inr bk by (auto simp: token_of_def attempt_eq_Ok)
        let ?body = "erase_signed (hx_encode (fe_hex E) (factory_proof (fe_crypto E) key (fj_id job) token))"
        have body: "{?body} \<subseteq> may_send E job" using path tok by (auto simp: may_send_def)
        show ?thesis
          unfolding Inr sum.case
        proof (intro one_send_seq sends_rules one_send_then one_send_if one_send_quiet [OF sends_ui(6)], goal_cases)
          case (1 there s1 s1' l s2 s2')
          show ?case
          proof (cases l)
            case (Inr p)
            then have "lp_sent p = []" using 1 open_link_fresh by blast
            then have er: "one_send (may_send E job) (attempt (erase_cmd E p ?body))"
              by (intro one_send_attempt one_send_mono [OF one_send_erase body])
            show ?thesis
              unfolding Inr sum.case
              by (intro one_send_seq sends_rules one_send_last [OF er]) (auto intro!: sends_rules split: sum.split)
          qed (auto intro!: one_send_quiet sends_rules)
        qed
      qed (auto intro!: one_send_quiet sends_rules)
    qed
  qed
qed

lemma sends_approval_round: "sends fa_sent A (approval_round E job base req left fails seen)"
  unfolding approval_round_def Let_def
  by (auto intro!: sends_rules split: sum.split)

lemma sends_cfg:
  assumes "\<And>s. f (g s) = f s" and "sends f A m"
  shows "sends f A (\<lambda>s. m (g s))"
  unfolding sends_def
proof
  fix p
  from assms show "\<exists>xs. f (snd (m (g p))) = f p @ xs \<and> set xs \<subseteq> A" unfolding sends_def by metis
qed

lemma sends_approval_loop: "sends fa_sent A (approval_loop E job base req deadline ts fails seen)"
proof (induction ts arbitrary: fails seen)
  case Nil
  show ?case
    unfolding approval_loop.simps
    by (rule sends_cfg) (auto intro!: sends_rules sends_approval_round simp: not_in_time_def split: option.split)
next
  case (Cons t ts)
  show ?case
    unfolding approval_loop.simps
    by (rule sends_cfg) (auto intro!: sends_rules sends_approval_round Cons simp: not_in_time_def split: option.split)
qed

lemma sends_run_request: "sends fa_sent A (run_request E job)"
  unfolding run_request_def Let_def
  by (auto intro!: sends_rules sends_approval_loop split: option.split sum.split)

lemma one_send_job: "one_send (may_send E job) (run_job E job)"
  using one_send_paired [of job E] one_send_recovery [of E job] one_send_quiet [OF sends_run_request, of "{}" E job]
  by (cases "fj_path job") (simp_all add: run_job_def may_send_def)

lemma one_send_handle: "one_send (may_send E job) (factory_handle E (RunJob job))"
  unfolding factory_handle_def reset_msg.case Let_def
  by (intro one_send_seq one_send_seq_last one_send_job sends_modify sends_ui) simp_all


subsection \<open>What the window is left with\<close>

text \<open>\<open>reaches P m Q\<close>: from every state in \<open>P\<close> the program returns, with a value and a state in \<open>Q\<close>.\<close>

definition reaches :: "('s \<Rightarrow> bool) \<Rightarrow> ('s, 'e, 'a) prog \<Rightarrow> ('a \<Rightarrow> 's \<Rightarrow> bool) \<Rightarrow> bool" where
  "reaches P m Q \<longleftrightarrow> (\<forall>s. P s \<longrightarrow> (\<exists>x s'. m s = (Ok x, s') \<and> Q x s'))"

lemma reaches_bnd: "reaches P m R \<Longrightarrow> (\<And>x. reaches (R x) (k x) Q) \<Longrightarrow> reaches P (bnd m k) Q"
  unfolding reaches_def by (metis bnd_Ok)

lemma reaches_seq: "reaches P m (\<lambda>_. R) \<Longrightarrow> reaches R n Q \<Longrightarrow> reaches P (seq m n) Q"
  unfolding seq_def by (erule reaches_bnd)

lemma reaches_pre: "reaches P m Q \<Longrightarrow> (\<And>s. P' s \<Longrightarrow> P s) \<Longrightarrow> reaches P' m Q"
  unfolding reaches_def by blast

lemma reaches_post: "reaches P m Q \<Longrightarrow> (\<And>x s. Q x s \<Longrightarrow> Q' x s) \<Longrightarrow> reaches P m Q'"
  unfolding reaches_def by blast

lemma reaches_ret: "(\<And>s. P s \<Longrightarrow> Q x s) \<Longrightarrow> reaches P (ret x) Q"
  by (simp add: reaches_def ret_def)

lemma reaches_if: "(c \<Longrightarrow> reaches P m Q) \<Longrightarrow> (\<not> c \<Longrightarrow> reaches P n Q) \<Longrightarrow> reaches P (if c then m else n) Q"
  by simp

lemma reaches_modify: "(\<And>s. P s \<Longrightarrow> Q () (f s)) \<Longrightarrow> reaches P (modify f) Q"
  by (simp add: reaches_def modify_def)

lemma reaches_asks: "(\<And>s. P s \<Longrightarrow> Q (f s) s) \<Longrightarrow> reaches P (asks f) Q"
  by (simp add: reaches_def asks_def)

lemma reaches_assume: "(C \<Longrightarrow> reaches P m Q) \<Longrightarrow> reaches (\<lambda>s. C \<and> P s) m Q"
  by (auto simp: reaches_def)

text \<open>\<open>sees h o cl Q\<close>: the one view of \<open>h\<close> is in \<open>Q\<close>, the others are \<open>o\<close> and the claimed boards \<open>cl\<close>.\<close>

definition sees :: "string \<Rightarrow> reset_view list \<Rightarrow> string list \<Rightarrow> (reset_view \<Rightarrow> bool) \<Rightarrow> factory \<Rightarrow> bool" where
  "sees h others cl Q s \<longleftrightarrow> (\<exists>r. filter (\<lambda>r. fv_mac r = h) (fa_views s) = [r] \<and> Q r) \<and>
     filter (\<lambda>r. fv_mac r \<noteq> h) (fa_views s) = others \<and> fa_claimed s = cl"

lemma filter_update_first:
  "(\<And>x. p x \<Longrightarrow> p (f x)) \<Longrightarrow>
     filter p (update_first p f xs) = (case filter p xs of [] \<Rightarrow> [] | y # ys \<Rightarrow> f y # ys)"
  "(\<And>x. p x \<Longrightarrow> p (f x)) \<Longrightarrow> filter (\<lambda>x. \<not> p x) (update_first p f xs) = filter (\<lambda>x. \<not> p x) xs"
  by (induction xs) auto

lemma reaches_edit:
  assumes "\<And>r. P r \<Longrightarrow> Q (f r)" and "\<And>r. fv_mac (f r) = fv_mac r"
  shows "reaches (sees h others cl P) (ui_edit h f) (\<lambda>_. sees h others cl Q)"
  unfolding ui_edit_def
proof (rule reaches_modify)
  fix s assume "sees h others cl P s"
  then obtain r where r: "filter (\<lambda>r. fv_mac r = h) (fa_views s) = [r]" "P r"
    and others: "filter (\<lambda>r. fv_mac r \<noteq> h) (fa_views s) = others" "fa_claimed s = cl" unfolding sees_def by blast
  show "sees h others cl Q (s\<lparr>fa_views := update_first (\<lambda>r. fv_mac r = h) f (fa_views s)\<rparr>)"
    unfolding sees_def using r others assms
    by (simp add: filter_update_first [where p = "\<lambda>r. fv_mac r = h"])
qed

lemma set_step_mac [simp]: "fv_mac (set_step i st r) = fv_mac r"
  by (simp add: set_step_def)

text \<open>A program that leaves the views and the claims alone.\<close>

lemma reaches_other:
  assumes "\<And>s. \<exists>x. fst (m s) = Ok x" and "\<And>s. fa_views (snd (m s)) = fa_views s" and "\<And>s. fa_claimed (snd (m s)) = fa_claimed s"
  shows "reaches (sees h others cl P) m (\<lambda>_. sees h others cl P)"
  unfolding reaches_def using assms by (simp add: sees_def) (metis prod.collapse)

text \<open>\<open>calm m\<close>: the program returns or fails, and leaves the views and the claims alone.\<close>

definition calm :: "'a rprog \<Rightarrow> bool" where
  "calm m \<longleftrightarrow> (\<forall>s. fst (m s) \<noteq> Panic \<and> fst (m s) \<noteq> OutOfFuel \<and>
     fa_views (snd (m s)) = fa_views s \<and> fa_claimed (snd (m s)) = fa_claimed s)"

named_theorems calm_rules \<open>programs that leave the views alone\<close>

lemma calm_bnd [calm_rules]: "calm m \<Longrightarrow> (\<And>x. calm (k x)) \<Longrightarrow> calm (bnd m k)"
  unfolding calm_def
proof
  fix s
  assume m: "\<forall>s. fst (m s) \<noteq> Panic \<and> fst (m s) \<noteq> OutOfFuel \<and>
      fa_views (snd (m s)) = fa_views s \<and> fa_claimed (snd (m s)) = fa_claimed s"
    and k: "\<And>x. \<forall>s. fst (k x s) \<noteq> Panic \<and> fst (k x s) \<noteq> OutOfFuel \<and>
      fa_views (snd (k x s)) = fa_views s \<and> fa_claimed (snd (k x s)) = fa_claimed s"
  show "fst (bnd m k s) \<noteq> Panic \<and> fst (bnd m k s) \<noteq> OutOfFuel \<and>
      fa_views (snd (bnd m k s)) = fa_views s \<and> fa_claimed (snd (bnd m k s)) = fa_claimed s"
  proof (cases "m s")
    case (Pair r q)
    with m [rule_format, of s] k [rule_format, of _ q] show ?thesis by (cases r) (simp_all add: bnd_def)
  qed
qed

lemma attempt_ok: "fst (m s) \<noteq> Panic \<Longrightarrow> fst (m s) \<noteq> OutOfFuel \<Longrightarrow> \<exists>x. fst (attempt m s) = Ok x"
  by (cases "m s"; cases "fst (m s)") (simp_all add: attempt_def)

lemma calm_attempt [calm_rules]: "calm m \<Longrightarrow> calm (attempt m)"
  unfolding calm_def using attempt_ok by (metis attempt_state outcome.distinct(3,5))

lemma calm_ret [calm_rules]: "calm (ret x)" and calm_throw [calm_rules]: "calm (throw e)"
  by (simp_all add: calm_def ret_def throw_def)

lemma calm_if [calm_rules]: "(c \<Longrightarrow> calm m) \<Longrightarrow> (\<not> c \<Longrightarrow> calm n) \<Longrightarrow> calm (if c then m else n)"
  by simp

lemma calm_post [calm_rules]: "calm (fa_post E base req)"
  by (auto simp: calm_def fa_post_def Let_def split: list.split sum.split option.split)

lemma calm_reset_tries: "calm (reset_tries E base pid key n e)"
proof (induction n arbitrary: e)
  case 0
  show ?case by (simp add: calm_def throw_def)
next
  case (Suc n)
  have "calm (\<lambda>s. reset_tries E base pid key (Suc n) e s)"
    unfolding reset_tries.simps
    by (auto intro!: calm_rules Suc split: option.split sum.split)
  then show ?case by simp
qed

lemma calm_net [calm_rules]:
  "calm (net_reset E base pid key)" "calm (net_request E base name)" "calm (net_request_status E base req)"
  unfolding net_reset_def net_request_def net_request_status_def
  by (auto intro!: calm_rules calm_reset_tries split: option.split)

lemma calm_erase [calm_rules]: "calm (erase_cmd E p body)"
  using link_cmd_cases(1) [of "fe_json E" body 6000 p]
  by (cases "link_cmd (fe_json E) body 6000 p"; cases "fst (link_cmd (fe_json E) body 6000 p)")
    (simp_all add: calm_def erase_cmd_def)

lemma open_tries_calm:
  "(\<exists>x. fst (open_tries n e s) = Ok x) \<and> fa_views (snd (open_tries n e s)) = fa_views s \<and>
     fa_claimed (snd (open_tries n e s)) = fa_claimed s"
proof (induction n arbitrary: e s)
  case (Suc n)
  have new: "link_new q = (Ok (), snd (link_new q)) \<or> (\<exists>e. link_new q = (Err e, snd (link_new q)))" for q
    by (simp add: link_new_def split: option.split)
  show ?case
  proof (cases "fa_opens s")
    case (Cons o' os)
    then show ?thesis
    proof (cases o')
      case (Some l)
      with Cons Suc new show ?thesis
        by (cases l) (auto split: prod.split outcome.split, (metis outcome.distinct prod.inject)+)
    qed (use Cons Suc in simp)
  qed (use Suc in simp)
qed simp

lemma reaches_calm:
  "calm m \<Longrightarrow> reaches (sees h others cl P) (attempt m) (\<lambda>x s. (\<exists>s0 s1. attempt m s0 = (Ok x, s1)) \<and> sees h others cl P s)"
  unfolding reaches_def
proof (intro allI impI)
  fix s assume c: "calm m" and s: "sees h others cl P s"
  from c have a: "calm (attempt m)" by (rule calm_attempt)
  from c obtain x where x: "fst (attempt m s) = Ok x" unfolding calm_def using attempt_ok by metis
  from a s have "sees h others cl P (snd (attempt m s))" unfolding calm_def sees_def by metis
  with x show "\<exists>x s'. attempt m s = (Ok x, s') \<and> (\<exists>s0 s1. attempt m s0 = (Ok x, s1)) \<and> sees h others cl P s'"
    by (metis prod.collapse)
qed

lemma reaches_wait: "reaches (sees h others cl P) (wait_for m b n) (\<lambda>_. sees h others cl P)"
  by (rule reaches_other) (simp_all add: wait_for_def Let_def split: prod.split)

lemma reaches_open: "reaches (sees h others cl P) open_link (\<lambda>_. sees h others cl P)"
  unfolding open_link_def by (rule reaches_other) (use open_tries_calm in blast)+

text \<open>The states of the steps while a job runs, and of a finished view.\<close>

definition at :: "step_state list \<Rightarrow> reset_view \<Rightarrow> bool" where
  "at xs r \<longleftrightarrow> map snd (fv_steps r) = xs"

definition over :: "bool \<Rightarrow> reset_view \<Rightarrow> bool" where
  "over ok r \<longleftrightarrow> fv_result r = Some ok \<and> fv_left r = None \<and>
     (let xs = map snd (fv_steps r) in
      if ok then set xs \<subseteq> {StepDone}
      else \<exists>i < length xs. xs = replicate i StepDone @ StepFailed # replicate (length xs - Suc i) Todo)"

definition acked :: "factory_env \<Rightarrow> reset_job \<Rightarrow> bool" where
  "acked E job \<longleftrightarrow>
     (case fj_path job of
        PathRequest \<Rightarrow> \<exists>base req s s'. net_request_status E base req s = (Ok ''approved'', s')
      | _ \<Rightarrow> \<exists>c p v p'. c \<in> may_send E job \<and> link_cmd (fe_json E) c 6000 p = (Ok v, p') \<and> erased_ok v)"

definition told :: "factory_env \<Rightarrow> reset_job \<Rightarrow> reset_view \<Rightarrow> bool" where
  "told E job r \<longleftrightarrow> over False r \<or> over True r \<and> acked E job"

lemma at_step: "at xs r \<Longrightarrow> at (xs[i := st]) (set_step i st r)"
  by (auto simp: at_def set_step_def map_update list_update_beyond)

lemma reaches_step: "reaches (sees h o' cl (at xs)) (ui_step h i st) (\<lambda>_. sees h o' cl (at (xs[i := st])))"
  unfolding ui_step_def by (rule reaches_edit) (auto intro: at_step)

lemma reaches_note: "reaches (sees h o' cl (at xs)) (ui_note h t) (\<lambda>_. sees h o' cl (at xs))"
  and reaches_left: "reaches (sees h o' cl (at xs)) (ui_left h l) (\<lambda>_. sees h o' cl (at xs))"
  unfolding ui_note_def ui_left_def by (rule reaches_edit; simp add: at_def)+

lemma reaches_fail:
  assumes "xs[i := StepFailed] = replicate i StepDone @ StepFailed # replicate (length xs - Suc i) Todo" and "i < length xs"
  shows "reaches (sees h o' cl (at xs)) (ui_finish h False (Some i) t) (\<lambda>_. sees h o' cl (told E job))"
  unfolding ui_finish_def
proof (rule reaches_edit)
  fix r assume "at xs r"
  then have "at (xs[i := StepFailed]) (set_step i StepFailed r)" by (rule at_step)
  then have "over False ((set_step i StepFailed r)\<lparr>fv_note := t, fv_result := Some False, fv_left := None\<rparr>)"
    using assms unfolding over_def at_def Let_def
    by (auto intro!: exI [of _ i])
  then show "told E job ((case Some i of Some i \<Rightarrow> set_step i StepFailed r | None \<Rightarrow> r)
      \<lparr>fv_note := t, fv_result := Some False, fv_left := None\<rparr>)" by (simp add: told_def)
qed simp

lemma reaches_done:
  assumes "set xs \<subseteq> {StepDone}" and "acked E job"
  shows "reaches (sees h o' cl (at xs)) (ui_finish h True None t) (\<lambda>_. sees h o' cl (told E job))"
  unfolding ui_finish_def
  by (rule reaches_edit) (use assms in \<open>auto simp: told_def over_def at_def Let_def\<close>)

lemma acked_erase:
  assumes "attempt (erase_cmd E p c) s = (Ok (Inr u), s')" and "c \<in> may_send E job" and "fj_path job \<noteq> PathRequest"
  shows "acked E job"
proof -
  from assms(1) have "fst (erase_cmd E p c s) = Ok u" by (auto simp: attempt_eq_Ok)
  then obtain v p' where "link_cmd (fe_json E) c 6000 p = (Ok v, p')" "erased_ok v"
    by (cases "link_cmd (fe_json E) c 6000 p") (auto simp: erase_cmd_def split: outcome.splits if_splits)
  with assms(2,3) show ?thesis by (cases "fj_path job") (auto simp: acked_def)
qed

lemma reaches_recovery:
  assumes path: "fj_path job = PathRecovery"
  shows "reaches (sees (mac_hex (fe_hex E) (fj_mac job)) o' cl (at [Todo, Todo])) (run_recovery E job)
    (\<lambda>_. sees (mac_hex (fe_hex E) (fj_mac job)) o' cl (told E job))"
proof -
  let ?h = "mac_hex (fe_hex E) (fj_mac job)"
  have step: "reaches (sees ?h o' cl (at xs)) (ui_step ?h i st) (\<lambda>_. sees ?h o' cl (at ys))"
    if "xs[i := st] = ys" for xs ys i st using reaches_step that by blast
  have fail: "reaches (sees ?h o' cl (at [Doing, Todo])) (ui_finish ?h False (Some 0) t) (\<lambda>_. sees ?h o' cl (told E job))" for t
    by (rule reaches_fail) simp_all
  let ?rest = "\<lambda>r. case r of Inl e \<Rightarrow> ui_finish ?h False (Some 0) (refused_text e)
      | Inr _ \<Rightarrow> seq (ui_step ?h 0 StepDone) (seq (ui_step ?h 1 Doing)
          (bnd (wait_for (fj_mac job) False (tm_goes (fe_timing E))) (\<lambda>_.
            seq (ui_step ?h 1 StepDone) (ui_finish ?h True None (erased_note (fj_ssid job))))))"
  have "reaches (sees ?h o' cl (at [Doing, Todo])) (?rest r) (\<lambda>_. sees ?h o' cl (told E job))"
    if "\<exists>s0 s1. attempt (erase_cmd E p erase_confirmed) s0 = (Ok r, s1)" for p r
  proof (cases r)
    case (Inr u)
    then have ack: "acked E job" using acked_erase [of E p erase_confirmed] path that by (auto simp: may_send_def)
    show ?thesis
      unfolding Inr sum.case
      by (intro reaches_seq [OF step [OF refl]] reaches_bnd [OF reaches_wait] reaches_done [OF _ ack]) simp
  qed (simp add: fail)
  note erased = reaches_bnd [OF reaches_calm [OF calm_erase] reaches_assume [OF this]]
  have opened: "reaches (sees ?h o' cl (at [Doing, Todo]))
     (case l of Inl e \<Rightarrow> ui_finish ?h False (Some 0) (open_failed E e)
      | Inr p \<Rightarrow> bnd (attempt (erase_cmd E p erase_confirmed)) ?rest)
     (\<lambda>_. sees ?h o' cl (told E job))" for l
    by (cases l) (simp_all only: sum.case fail erased)
  show ?thesis
    unfolding run_recovery_def Let_def
    by (rule reaches_seq [OF step [of "[Todo, Todo]" 0 Doing "[Doing, Todo]"] reaches_bnd [OF reaches_open opened]]) simp
qed

lemma reaches_paired:
  assumes path: "fj_path job = PathPaired"
  shows "reaches (sees (mac_hex (fe_hex E) (fj_mac job)) o' cl (at [Todo, Todo, Todo, Todo])) (run_paired E job)
    (\<lambda>_. sees (mac_hex (fe_hex E) (fj_mac job)) o' cl (told E job))"
proof -
  let ?h = "mac_hex (fe_hex E) (fj_mac job)"
  have step: "reaches (sees ?h o' cl (at xs)) (ui_step ?h i st) (\<lambda>_. sees ?h o' cl (at ys))"
    if "xs[i := st] = ys" for xs ys i st using reaches_step that by blast
  have fail0: "reaches (sees ?h o' cl (at (x # [Todo, Todo, Todo]))) (ui_finish ?h False (Some 0) t) (\<lambda>_. sees ?h o' cl (told E job))" for t x
    by (rule reaches_fail) simp_all
  have fail1: "reaches (sees ?h o' cl (at [StepDone, Doing, Todo, Todo])) (ui_finish ?h False (Some 1) t) (\<lambda>_. sees ?h o' cl (told E job))" for t
    by (rule reaches_fail) simp_all
  have fail2: "reaches (sees ?h o' cl (at [StepDone, StepDone, Doing, Todo])) (ui_finish ?h False (Some 2) t) (\<lambda>_. sees ?h o' cl (told E job))" for t
    by (rule reaches_fail) (simp_all add: numeral_2_eq_2)
  show ?thesis
  proof (cases "fj_base job = None \<or> fj_key job = None")
    case True
    then show ?thesis using fail0 by (auto simp: run_paired_def Let_def split: option.split)
  next
    case False
    then obtain base key where bk: "fj_base job = Some base" "fj_key job = Some key" by auto
    let ?body = "\<lambda>token. erase_signed (hx_encode (fe_hex E) (factory_proof (fe_crypto E) key (fj_id job) token))"
    let ?last = "\<lambda>r. case r of Inl e \<Rightarrow> ui_finish ?h False (Some 2) (refused_text e)
      | Inr _ \<Rightarrow> seq (ui_step ?h 2 StepDone) (seq (ui_step ?h 3 Doing)
          (bnd (wait_for (fj_mac job) False (tm_goes (fe_timing E))) (\<lambda>_.
            seq (ui_step ?h 3 StepDone) (ui_finish ?h True None (erased_note (fj_ssid job))))))"
    have "reaches (sees ?h o' cl (at [StepDone, StepDone, Doing, Todo])) (?last r) (\<lambda>_. sees ?h o' cl (told E job))"
      if r: "\<exists>s0 s1. attempt (erase_cmd E p (?body token)) s0 = (Ok r, s1)" and tok: "token_of E job base key token" for p r token
    proof (cases r)
      case (Inr u)
      have "?body token \<in> may_send E job" using tok path by (auto simp: may_send_def)
      then have ack: "acked E job" using acked_erase [of E p "?body token"] path r Inr by auto
      show ?thesis
        unfolding Inr sum.case
        by (intro reaches_seq [OF step [OF refl]] reaches_bnd [OF reaches_wait] reaches_done [OF _ ack])
          (simp add: numeral_2_eq_2 numeral_3_eq_3)
    qed (simp add: fail2)
    note erased = reaches_bnd [OF reaches_calm [OF calm_erase] reaches_assume [OF this]]
    let ?linked = "\<lambda>token l. case l of Inl e \<Rightarrow> ui_finish ?h False (Some 1) (open_failed E e)
      | Inr p \<Rightarrow> seq (ui_step ?h 1 StepDone) (seq (ui_step ?h 2 Doing) (bnd (attempt (erase_cmd E p (?body token))) ?last))"
    have linked: "reaches (sees ?h o' cl (at [StepDone, Doing, Todo, Todo])) (?linked token l) (\<lambda>_. sees ?h o' cl (told E job))"
      if tok: "token_of E job base key token" for token l
    proof (cases l)
      case (Inr p)
      show ?thesis
        unfolding Inr sum.case
        by (rule reaches_seq [OF step [of _ _ _ "[StepDone, StepDone, Todo, Todo]"]
              reaches_seq [OF step [of _ _ _ "[StepDone, StepDone, Doing, Todo]"] erased [OF _ tok]]]) simp_all
    qed (simp add: fail1 del: One_nat_def)
    let ?answered = "\<lambda>r. case r of Inl e \<Rightarrow> ui_finish ?h False (Some 0) (refused_text e)
      | Inr token \<Rightarrow> seq (ui_step ?h 0 StepDone) (seq (ui_step ?h 1 Doing)
          (bnd (wait_for (fj_mac job) True (tm_appears (fe_timing E))) (\<lambda>there.
            if \<not> there then ui_finish ?h False (Some 1)
               ''The board did not come back with its USB link. Nothing was changed: it restarts normally within a minute.''
            else bnd open_link (?linked token))))"
    have answered: "reaches (sees ?h o' cl (at [Doing, Todo, Todo, Todo])) (?answered r) (\<lambda>_. sees ?h o' cl (told E job))"
      if r: "\<exists>s0 s1. attempt (net_reset E base (fj_id job) key) s0 = (Ok r, s1)" for r
    proof (cases r)
      case (Inr token)
      then have "token_of E job base key token" using r bk by (auto simp: token_of_def attempt_eq_Ok)
      note l = reaches_bnd [OF reaches_open linked [OF this]]
      show ?thesis
        unfolding Inr sum.case
        by (rule reaches_seq [OF step [of _ _ _ "[StepDone, Todo, Todo, Todo]"]
              reaches_seq [OF step [of _ _ _ "[StepDone, Doing, Todo, Todo]"]
                reaches_bnd [OF reaches_wait reaches_if [OF fail1 l]]]]) simp_all
    qed (simp add: fail0)
    show ?thesis
      unfolding run_paired_def Let_def bk option.case prod.case
      by (rule reaches_seq [OF step [of _ _ _ "[Doing, Todo, Todo, Todo]"]
            reaches_bnd [OF reaches_calm [OF calm_net(1)] reaches_assume [OF answered]]]) simp_all
  qed
qed

lemma reaches_round:
  assumes path: "fj_path job = PathRequest" and hdef: "h = mac_hex (fe_hex E) (fj_mac job)"
  shows "reaches (sees h o' cl (at [StepDone, Doing, Todo])) (approval_round E job base req left fails seen)
    (\<lambda>r. if r = None then sees h o' cl (told E job) else sees h o' cl (at [StepDone, Doing, Todo]))"
proof -
  have fail: "reaches (sees h o' cl (at [StepDone, Doing, Todo])) (ui_finish h False (Some 1) t) (\<lambda>_. sees h o' cl (told E job))" for t
    by (rule reaches_fail) simp_all
  have ended: "reaches (sees h o' cl (at [StepDone, Doing, Todo])) (seq (ui_finish h False (Some 1) t) (ret None))
     (\<lambda>r. if r = None then sees h o' cl (told E job) else sees h o' cl (at [StepDone, Doing, Todo]))" for t
    by (rule reaches_seq [OF fail reaches_ret]) simp
  have on: "reaches (sees h o' cl (at [StepDone, Doing, Todo])) (ret (Some x))
     (\<lambda>r. if r = None then sees h o' cl (told E job) else sees h o' cl (at [StepDone, Doing, Todo]))" for x :: "nat \<times> bool"
    by (rule reaches_ret) simp
  have approved: "reaches (sees h o' cl (at [StepDone, Doing, Todo]))
     (seq (ui_step h 1 StepDone) (seq (ui_step h 2 StepDone) (seq (ui_finish h True None t) (ret None))))
     (\<lambda>r. if r = None then sees h o' cl (told E job) else sees h o' cl (at [StepDone, Doing, Todo]))" if "acked E job" for t
    by (rule reaches_seq [OF reaches_step reaches_seq [OF reaches_step reaches_seq [OF reaches_done [OF _ that] reaches_ret]]])
      (simp_all add: numeral_2_eq_2)
  have ack: "acked E job" if "\<exists>s0 s1. attempt (net_request_status E base req) s0 = (Ok (Inr ''approved''), s1)"
    using that path by (auto simp: acked_def attempt_eq_Ok)
  show ?thesis
    unfolding approval_round_def Let_def hdef [symmetric]
    by (rule reaches_seq [OF reaches_left reaches_bnd [OF reaches_calm [OF calm_net(3)] reaches_assume]])
      (auto split: sum.split simp del: One_nat_def intro!: ended on approved ack)
qed

lemma sees_times: "sees h o' cl P (s\<lparr>fa_times := ts\<rparr>) = sees h o' cl P s"
  by (simp add: sees_def)

lemma reaches_times: "reaches (sees h o' cl P) m Q \<Longrightarrow> reaches (sees h o' cl P) (\<lambda>s. m (s\<lparr>fa_times := ts\<rparr>)) Q"
  by (simp add: reaches_def sees_times)

lemma reaches_loop:
  assumes path: "fj_path job = PathRequest" and hdef: "h = mac_hex (fe_hex E) (fj_mac job)"
  shows "reaches (sees h o' cl (at [StepDone, Doing, Todo])) (approval_loop E job base req deadline ts fails seen)
    (\<lambda>_. sees h o' cl (told E job))"
proof (induction ts arbitrary: fails seen)
  have late: "reaches (sees h o' cl (at [StepDone, Doing, Todo])) (not_in_time E job) (\<lambda>_. sees h o' cl (told E job))"
    unfolding not_in_time_def hdef [symmetric] by (rule reaches_fail) simp_all
  have stop: "reaches (sees h o' cl (told E job)) (ret ()) (\<lambda>_. sees h o' cl (told E job))" by (rule reaches_ret)
  case Nil
  show ?case
    unfolding approval_loop.simps
    by (rule reaches_times, rule reaches_bnd [OF reaches_round [OF path hdef]])
      (auto split: option.split intro: late stop)
next
  have late: "reaches (sees h o' cl (at [StepDone, Doing, Todo])) (not_in_time E job) (\<lambda>_. sees h o' cl (told E job))"
    unfolding not_in_time_def hdef [symmetric] by (rule reaches_fail) simp_all
  have stop: "reaches (sees h o' cl (told E job)) (ret ()) (\<lambda>_. sees h o' cl (told E job))" by (rule reaches_ret)
  case (Cons t ts)
  show ?case
    unfolding approval_loop.simps
    by (rule reaches_times, rule reaches_bnd [OF reaches_round [OF path hdef]])
      (auto split: option.split intro: late stop Cons)
qed

lemma reaches_request:
  assumes path: "fj_path job = PathRequest"
  shows "reaches (sees (mac_hex (fe_hex E) (fj_mac job)) o' cl (at [Todo, Todo, Todo])) (run_request E job)
    (\<lambda>_. sees (mac_hex (fe_hex E) (fj_mac job)) o' cl (told E job))"
proof -
  let ?h = "mac_hex (fe_hex E) (fj_mac job)"
  have step: "reaches (sees ?h o' cl (at xs)) (ui_step ?h i st) (\<lambda>_. sees ?h o' cl (at ys))"
    if "xs[i := st] = ys" for xs ys i st using reaches_step that by blast
  have fail: "reaches (sees ?h o' cl (at (x # [Todo, Todo]))) (ui_finish ?h False (Some 0) t) (\<lambda>_. sees ?h o' cl (told E job))" for t x
    by (rule reaches_fail) simp_all
  show ?thesis
  proof (cases "fj_base job")
    case None
    then show ?thesis using fail by (simp add: run_request_def Let_def)
  next
    case (Some base)
    let ?asked = "\<lambda>r. case r of Inl e \<Rightarrow> ui_finish ?h False (Some 0) (refused_text e)
      | Inr req \<Rightarrow>
          seq (ui_step ?h 0 StepDone)
          (seq (ui_step ?h 1 Doing)
          (seq (ui_note ?h (''Open the board's dashboard on your phone: it asks you to approve '' @ [CHR 0x22] @ fj_name job @ [CHR 0x22]
             @ ''. Nothing changes until you do.''))
          (bnd (asks fa_times) (\<lambda>ts.
             approval_loop E job base req ((case ts of [] \<Rightarrow> 0 | t # _ \<Rightarrow> t) + tm_approval (fe_timing E)) (tl ts) 0 False))))"
    have ts: "reaches (sees ?h o' cl P) (asks fa_times) (\<lambda>_. sees ?h o' cl P)" for P by (rule reaches_asks)
    have "reaches (sees ?h o' cl (at [Doing, Todo, Todo])) (?asked r) (\<lambda>_. sees ?h o' cl (told E job))" for r
    proof (cases r)
      case (Inr req)
      show ?thesis
        unfolding Inr sum.case
        by (rule reaches_seq [OF step [of _ _ _ "[StepDone, Todo, Todo]"] reaches_seq [OF step [of _ _ _ "[StepDone, Doing, Todo]"]
              reaches_seq [OF reaches_note reaches_bnd [OF ts reaches_loop [OF path refl]]]]]) simp_all
    qed (simp add: fail)
    note asked = reaches_bnd [OF reaches_calm [OF calm_net(2)] reaches_assume [OF this]]
    show ?thesis
      unfolding run_request_def Let_def Some option.case
      by (rule reaches_seq [OF step [of _ _ _ "[Doing, Todo, Todo]"] asked]) simp
  qed
qed

lemma reaches_job:
  "reaches (sees (mac_hex (fe_hex E) (fj_mac job)) o' cl (\<lambda>r. fv_steps r = steps_for (fj_path job))) (run_job E job)
    (\<lambda>_. sees (mac_hex (fe_hex E) (fj_mac job)) o' cl (told E job))"
proof -
  let ?h = "mac_hex (fe_hex E) (fj_mac job)"
  have pre: "sees ?h o' cl (at (map snd (steps_for (fj_path job)))) s"
    if "sees ?h o' cl (\<lambda>r. fv_steps r = steps_for (fj_path job)) s" for s
    using that by (auto simp: sees_def at_def)
  have "reaches (sees ?h o' cl (at (map snd (steps_for (fj_path job))))) (run_job E job) (\<lambda>_. sees ?h o' cl (told E job))"
    by (cases "fj_path job")
      (simp_all add: run_job_def steps_for_def reaches_paired reaches_request reaches_recovery)
  from reaches_pre [OF this pre] show ?thesis .
qed

lemma sees_begin:
  "sees h (filter (\<lambda>r. fv_mac r \<noteq> h) (fa_views s)) (fa_claimed s) (\<lambda>r. fv_steps r = steps_for p) (snd (ui_begin h p s))"
  by (simp add: ui_begin_def modify_def sees_def)

lemma handle_run:
  "\<exists>s'. factory_handle E (RunJob job) s = (Ok (), s') \<and>
     sees (mac_hex (fe_hex E) (fj_mac job)) (filter (\<lambda>r. fv_mac r \<noteq> mac_hex (fe_hex E) (fj_mac job)) (fa_views s))
       (filter (\<lambda>m. m \<noteq> mac_hex (fe_hex E) (fj_mac job)) (fa_claimed s)) (told E job) s'"
proof -
  let ?h = "mac_hex (fe_hex E) (fj_mac job)"
  let ?s = "s\<lparr>fa_claimed := fa_claimed s @ [?h]\<rparr>"
  obtain s1 where b: "ui_begin ?h (fj_path job) ?s = (Ok (), s1)" by (simp add: ui_begin_def modify_def)
  from reaches_job [of E job] sees_begin [of ?h ?s "fj_path job"] obtain s2
    where s2: "run_job E job s1 = (Ok (), s2)"
      "sees ?h (filter (\<lambda>r. fv_mac r \<noteq> ?h) (fa_views ?s)) (fa_claimed ?s) (told E job) s2"
    unfolding reaches_def b by fastforce
  have "factory_handle E (RunJob job) s = (Ok (), s2\<lparr>fa_claimed := filter (\<lambda>m. m \<noteq> ?h) (fa_claimed s2)\<rparr>)"
    unfolding factory_handle_def reset_msg.case Let_def
    by (simp add: modify_def seq_def bnd_def b s2(1))
  with s2(2) show ?thesis by (auto simp: sees_def)
qed

text \<open>A reset always ends, and the window is told the truth about the board: whatever the network, the USB and the
  clock do, the job returns with exactly one view of its board, finished; it says "erased" only with every
  step done and after the board itself acknowledged the erase or said it was approved, and otherwise one
  step has failed, those before it are done and those after it were never begun.  The other boards' views
  are as they were.\<close>

theorem reset_ends:
  "\<exists>s' r. factory_handle E (RunJob job) s = (Ok (), s') \<and>
     filter (\<lambda>v. fv_mac v = mac_hex (fe_hex E) (fj_mac job)) (fa_views s') = [r] \<and>
     filter (\<lambda>v. fv_mac v \<noteq> mac_hex (fe_hex E) (fj_mac job)) (fa_views s')
       = filter (\<lambda>v. fv_mac v \<noteq> mac_hex (fe_hex E) (fj_mac job)) (fa_views s) \<and>
     (over False r \<or> over True r \<and> acked E job)"
  using handle_run [of E job s] unfolding sees_def told_def by blast

text \<open>What the window, the person and the thread do, in any order.\<close>

inductive factory_reach :: "factory_env \<Rightarrow> factory \<Rightarrow> bool" for E where
  start: "fa_views s = [] \<Longrightarrow> fa_claimed s = [] \<Longrightarrow> fa_queue s = [] \<Longrightarrow> factory_reach E s"
| run: "factory_reach E s \<Longrightarrow> factory_run E job s = (Ok (), s') \<Longrightarrow> factory_reach E s'"
| clear: "factory_reach E s \<Longrightarrow> factory_clear m s = (Ok (), s') \<Longrightarrow> factory_reach E s'"
| thread: "factory_reach E s \<Longrightarrow> factory_next E s = (Ok (), s') \<Longrightarrow> factory_reach E s'"

definition factory_inv :: "factory \<Rightarrow> bool" where
  "factory_inv s \<longleftrightarrow> fa_claimed s = [] \<and> distinct (map fv_mac (fa_views s)) \<and> (\<forall>v \<in> set (fa_views s). fv_result v \<noteq> None)"

lemma distinct_by_filter:
  assumes "filter (\<lambda>x. f x = h) xs = [r]" and "distinct (map f (filter (\<lambda>x. f x \<noteq> h) xs))"
  shows "distinct (map f xs)"
  using assms
proof (induction xs)
  case (Cons x xs)
  show ?case
  proof (cases "f x = h")
    case True
    with Cons.prems have none: "filter (\<lambda>x. f x = h) xs = []" and "distinct (map f (filter (\<lambda>x. f x \<noteq> h) xs))" by auto
    then have "filter (\<lambda>x. f x \<noteq> h) xs = xs" by (auto simp: filter_empty_conv)
    with Cons.prems True none show ?thesis by (auto simp: filter_empty_conv)
  qed (use Cons in auto)
qed simp

lemma factory_inv_handle:
  assumes "factory_inv s" and "factory_handle E msg s = (Ok (), s')"
  shows "factory_inv s'"
proof (cases msg)
  case (ClearView m)
  with assms show ?thesis
    by (auto simp: factory_handle_def modify_def factory_inv_def distinct_map_filter)
next
  case (RunJob job)
  let ?h = "mac_hex (fe_hex E) (fj_mac job)"
  from handle_run [of E job s] assms(2) RunJob obtain r
    where r: "filter (\<lambda>v. fv_mac v = ?h) (fa_views s') = [r]" "told E job r"
      and o: "filter (\<lambda>v. fv_mac v \<noteq> ?h) (fa_views s') = filter (\<lambda>v. fv_mac v \<noteq> ?h) (fa_views s)"
      and c: "fa_claimed s' = filter (\<lambda>m. m \<noteq> ?h) (fa_claimed s)"
    unfolding sees_def by auto
  have "distinct (map fv_mac (filter (\<lambda>v. fv_mac v \<noteq> ?h) (fa_views s')))"
    using assms(1) unfolding o factory_inv_def by (simp add: distinct_map_filter)
  then have "distinct (map fv_mac (fa_views s'))" by (rule distinct_by_filter [OF r(1)])
  moreover have "fv_result v \<noteq> None" if "v \<in> set (fa_views s')" for v
  proof (cases "fv_mac v = ?h")
    case True
    with that have "v \<in> set (filter (\<lambda>v. fv_mac v = ?h) (fa_views s'))" by simp
    with r(1) have "v = r" by simp
    with r(2) show ?thesis by (auto simp: told_def over_def)
  next
    case False
    with that have "v \<in> set (filter (\<lambda>v. fv_mac v \<noteq> ?h) (fa_views s))" unfolding o [symmetric] by simp
    with assms(1) show ?thesis by (auto simp: factory_inv_def)
  qed
  ultimately show ?thesis using assms(1) c by (simp add: factory_inv_def)
qed

text \<open>Between two messages no board is claimed, no board has two views, and every view shown is of a reset that
  ended - so a view without a result always means a reset in progress.\<close>

theorem factory_between:
  assumes "factory_reach E s"
  shows "fa_claimed s = [] \<and> distinct (map fv_mac (fa_views s)) \<and> (\<forall>v \<in> set (fa_views s). fv_result v \<noteq> None)"
proof -
  from assms have "factory_inv s"
  proof induction
    case (start s)
    then show ?case by (simp add: factory_inv_def)
  next
    case (run s job s')
    then show ?case by (auto simp: factory_run_def modify_def factory_inv_def split: if_splits)
  next
    case (clear s m s')
    then show ?case by (auto simp: factory_clear_def modify_def factory_inv_def)
  next
    case (thread s s')
    show ?case
    proof (cases "fa_queue s")
      case (Cons msg q)
      with thread have "factory_handle E msg (s\<lparr>fa_queue := q\<rparr>) = (Ok (), s')" by (simp add: factory_next_def)
      moreover have "factory_inv (s\<lparr>fa_queue := q\<rparr>)" using thread.IH by (simp add: factory_inv_def)
      ultimately show ?thesis using factory_inv_handle by blast
    qed (use thread in \<open>simp add: factory_next_def\<close>)
  qed
  then show ?thesis by (simp add: factory_inv_def)
qed

subsection \<open>When the answer to the erase is lost\<close>

lemma refused_no_answer:
  "refused_text (rec_text linux RNoAnswer) =
     ''The board did not answer (The board did not answer. Recovery mode may have just closed: hold BOOT 8 s again.). Nothing was changed.''"
proof -
  have e: "rec_text linux RNoAnswer = ''The board did not answer. Recovery mode may have just closed: hold BOOT 8 s again.''"
    by (simp add: rec_text_def)
  show ?thesis unfolding e by code_simp
qed

text \<open>The erase may have happened although the window says that nothing was changed: when the command went down
  the cable and the board's answer did not come in time (it restarts to erase), the reset ends with
  "Nothing was changed".\<close>

theorem lost_answer_denied:
  assumes "fj_path job = PathRecovery" and "fa_opens s = Some (Inr p) # os" and "link_new (p\<lparr>lp_sent := []\<rparr>) = (Ok (), p1)"
    and "link_cmd (fe_json E) erase_confirmed 6000 p1 = (Err RNoAnswer, p2)" and "lp_sent p2 = [erase_confirmed]"
  shows "\<exists>s' r. factory_handle E (RunJob job) s = (Ok (), s') \<and> fa_sent s' = fa_sent s @ [erase_confirmed] \<and>
    filter (\<lambda>v. fv_mac v = mac_hex (fe_hex E) (fj_mac job)) (fa_views s') = [r] \<and>
    fv_note r = ''The board did not answer (The board did not answer. Recovery mode may have just closed: hold BOOT 8 s again.). Nothing was changed.''"
proof -
  let ?h = "mac_hex (fe_hex E) (fj_mac job)"
  have opened: "open_link t = (Ok (Inr p1), t\<lparr>fa_opens := os\<rparr>)" if "fa_opens t = Some (Inr p) # os" for t
    using that assms(3) by (simp add: open_link_def eval_nat_numeral)
  have erased: "attempt (erase_cmd E p1 erase_confirmed) t = (Ok (Inl (rec_text (fe_linux E) RNoAnswer)), t\<lparr>fa_sent := fa_sent t @ [erase_confirmed]\<rparr>)" for t
    using assms(4,5) by (simp add: attempt_def erase_cmd_def)
  have none: "filter (\<lambda>v. fv_mac v = ?h) (filter (\<lambda>r. fv_mac r \<noteq> ?h) vs) = []" for vs
    by (simp add: filter_empty_conv)
  show ?thesis
    using assms(1,2)
    by (simp add: factory_handle_def run_job_def run_recovery_def Let_def seq_def bnd_def modify_def ui_begin_def ui_step_def
        ui_edit_def ui_finish_def opened erased refused_no_answer none
        filter_update_first(1) [where p = "\<lambda>v. fv_mac v = ?h"])
qed

text \<open>The check for a running reset reads a view that only the thread sets: a second \<open>run\<close> before the thread has taken
  the first is queued too.\<close>

lemma second_run_queued:
  assumes "\<not> list_ex (\<lambda>v. fv_mac v = mac_hex (fe_hex E) (fj_mac job) \<and> fv_result v = None) (fa_views s)"
  shows "\<exists>s1 s2. factory_run E job s = (Ok (), s1) \<and> factory_run E job s1 = (Ok (), s2)
    \<and> fa_queue s2 = fa_queue s @ [RunJob job, RunJob job]"
  using assms by (simp add: factory_run_def modify_def)

subsection \<open>A concrete reset\<close>

definition demo_crypto :: crypto where
  "demo_crypto = \<lparr>cr_sha256 = (\<lambda>b. b), cr_hmac = (\<lambda>k m. k @ m), cr_hkdf = (\<lambda>s k i. s @ k @ i), cr_public = (\<lambda>s. s),
     cr_dh = (\<lambda>a b. a @ b), cr_contributory = (\<lambda>_. True)\<rparr>"

definition demo_fenv :: factory_env where
  "demo_fenv = \<lparr>fe_json = demo_board, fe_json_error = (\<lambda>_. []), fe_hex = hex_demo, fe_crypto = demo_crypto, fe_linux = False,
     fe_timing = timing_default\<rparr>"

definition demo_reset :: reset_job where
  "demo_reset = \<lparr>fj_mac = demo_mac, fj_path = PathRecovery, fj_base = None, fj_id = ''00'', fj_key = None, fj_name = ''PC'',
     fj_ssid = ''HID''\<rparr>"

definition demo_silent :: line_port where
  "demo_silent = \<lparr>lp_dtr = None, lp_writes = [], lp_reads = [], lp_times = [0, 7000], lp_sent = []\<rparr>"

definition demo_factory :: factory where
  "demo_factory = \<lparr>fa_views = [], fa_claimed = [], fa_queue = [], fa_http = [], fa_usb = [], fa_opens = [Some (Inr demo_silent)],
     fa_times = [], fa_posted = [], fa_sent = []\<rparr>"

theorem lost_answer_denied_witness:
  "fa_sent (snd (factory_handle demo_fenv (RunJob demo_reset) demo_factory)) = [erase_confirmed]"
proof -
  have "link_cmd (fe_json demo_fenv) erase_confirmed 6000 demo_silent
      = (Err RNoAnswer, demo_silent\<lparr>lp_times := [], lp_sent := [erase_confirmed]\<rparr>)"
    by (simp add: link_cmd_def seq_def bnd_def lp_write_def demo_silent_def)
  from lost_answer_denied [of demo_reset demo_factory demo_silent "[]" demo_silent demo_fenv, OF _ _ _ this]
  show ?thesis by (auto simp: demo_reset_def demo_factory_def demo_silent_def link_new_def)
qed


theorem factory_between_witness:
  "\<exists>s :: factory. fa_views s \<noteq> [] \<and> (\<forall>v \<in> set (fa_views s). fv_result v \<noteq> None)"
proof -
  have r0: "factory_reach demo_fenv demo_factory" by (rule factory_reach.start) (simp_all add: demo_factory_def)
  have "factory_run demo_fenv demo_reset demo_factory = (Ok (), demo_factory\<lparr>fa_queue := [RunJob demo_reset]\<rparr>)"
    by (simp add: factory_run_def modify_def demo_factory_def)
  note r1 = factory_reach.run [OF r0 this]
  from handle_run [of demo_fenv demo_reset "demo_factory\<lparr>fa_queue := []\<rparr>"] obtain s
    where s: "factory_handle demo_fenv (RunJob demo_reset) (demo_factory\<lparr>fa_queue := []\<rparr>) = (Ok (), s)" "fa_views s \<noteq> []"
    unfolding sees_def by fastforce
  have "factory_next demo_fenv (demo_factory\<lparr>fa_queue := [RunJob demo_reset]\<rparr>) = (Ok (), s)"
    using s(1) by (simp add: factory_next_def)
  from factory_between [OF factory_reach.thread [OF r1 this]] s(2) show ?thesis by blast
qed

end
