(* ===== verification/Air_Update.thy ===== *)
theory Air_Update
  imports Ota_Release Update Discovery "HOL-Library.List_Lexorder" "HOL-Library.Char_ord"
begin

section \<open>What a board is offered and the update over the air (crates/hidfi-companion/src/updates.rs)\<close>

text \<open>
  The decisions of the update centre as the code has them - the offer for a board, the phase of an update
  read from the board's status, the plan for the cable - and the jobs around them: fetching a release,
  remembering COM ports, the update over the air, fetching an installer.  The network is a script: what
  each GET, each status, each request and each relay gives; the clock and the two buttons (cancel, restart
  now) are lists of readings, one for each time they are looked at.  Every status and request is kept in a log.
  Files live on the disk of the cable update.  Time is in milliseconds.
\<close>

subsection \<open>Definitions: what a board is offered\<close>

definition MANIFEST :: string where "MANIFEST = ''hidfi-ota.json''"
definition SIGNATURE :: string where "SIGNATURE = ''hidfi-ota.sig''"
definition IMAGE_CAP :: nat where "IMAGE_CAP = 6 * 1024 * 1024 + 0x400000"
definition INSTALLER_CAP :: nat where "INSTALLER_CAP = 200 * 1024 * 1024"
definition STALL :: nat where "STALL = 10 * 60 * 1000"
definition CHECK_EVERY :: nat where "CHECK_EVERY = 24 * 3600 * 1000"

record board_offer =
  bo_to :: string
  bo_size :: u64
  bo_changes :: "(string \<times> string) list"
  bo_security :: bool
  bo_over_air :: bool
  bo_cable_once :: bool

datatype offer_kind = OfUnknown | OfUpToDate | OfVerifying | OfBoard board_offer | OfCompanionFirst

record seen =
  sn_firmware :: "string option"
  sn_layout :: "string option"
  sn_state :: "string option"
  sn_result :: "string option"
  sn_step :: string
  sn_bytes :: u64
  sn_total :: u64
  sn_paused :: bool
  sn_available :: string
  sn_error :: string
  sn_comp_api :: "u32 option"
  sn_uptime :: u64

definition status_str :: "json \<Rightarrow> string \<Rightarrow> string option" where
  "status_str v k = Option.bind (jget v k) as_str"

definition status_num :: "json \<Rightarrow> string \<Rightarrow> u64" where
  "status_num v k = (case Option.bind (jget v k) as_u64 of Some n \<Rightarrow> n | None \<Rightarrow> 0)"

definition seen_of_status :: "json \<Rightarrow> seen" where
  "seen_of_status v =
     \<lparr>sn_firmware = status_str v ''firmware'', sn_layout = status_str v ''ota_layout'', sn_state = status_str v ''ota_state'',
      sn_result = status_str v ''ota_result'', sn_step = (case status_str v ''ota_step'' of Some t \<Rightarrow> t | None \<Rightarrow> ''idle''),
      sn_bytes = status_num v ''ota_bytes'', sn_total = status_num v ''ota_total'',
      sn_paused = (case Option.bind (jget v ''ota_paused'') as_bool of Some b \<Rightarrow> b | None \<Rightarrow> False),
      sn_available = (case status_str v ''ota_available'' of Some t \<Rightarrow> t | None \<Rightarrow> []),
      sn_error = (case status_str v ''ota_error'' of Some t \<Rightarrow> t | None \<Rightarrow> []),
      sn_comp_api = map_option ucast (Option.bind (jget v ''comp_api'') as_u64), sn_uptime = status_num v ''uptime_sec''\<rparr>"

definition has_engine :: "seen \<Rightarrow> bool" where
  "has_engine s \<longleftrightarrow> sn_layout s \<noteq> None"

definition seen_core :: "seen \<Rightarrow> board_status" where
  "seen_core s = \<lparr>bs_firmware = sn_firmware s, bs_comp_api = sn_comp_api s, bs_ota_layout = sn_layout s,
     bs_ota_state = sn_state s, bs_ota_result = sn_result s\<rparr>"

text \<open>\<open>find_map\<close> of the board's own update among the verdicts.\<close>

fun board_update_of :: "verdict list \<Rightarrow> bool option" where
  "board_update_of [] = None"
| "board_update_of (BoardUpdate _ cable_once # vs) = Some cable_once"
| "board_update_of (_ # vs) = board_update_of vs"

definition offer :: "seen option \<Rightarrow> ota_release option \<Rightarrow> string \<Rightarrow> bool \<Rightarrow> offer_kind" where
  "offer board rel this_companion paired_and_reachable =
     (case board of
        None \<Rightarrow> OfUnknown
      | Some s \<Rightarrow>
          (let vs = verdicts (seen_core s) this_companion (map_option release_latest rel) in
           if Verifying \<in> set vs then OfVerifying
           else if UpdateCompanionFirst \<in> set vs then OfCompanionFirst
           else if Unknown \<in> set vs then OfUnknown
           else
             (case (rel, sn_firmware s) of
                (Some r, Some fw) \<Rightarrow>
                  (case board_update_of vs of
                     Some cable_once \<Rightarrow>
                       OfBoard \<lparr>bo_to = or_version r, bo_size = as_size (or_image r),
                         bo_changes = map (\<lambda>c. (cl_version c, str_trim (cl_text c))) (changes_since r fw),
                         bo_security = or_security r,
                         bo_over_air = (\<not> cable_once \<and> paired_and_reachable \<and> has_engine s \<and> reachable_from r fw),
                         bo_cable_once = cable_once\<rparr>
                   | None \<Rightarrow> OfUpToDate)
              | _ \<Rightarrow> OfUnknown)))"

definition companion_offer :: "string \<Rightarrow> ota_release option \<Rightarrow> string \<Rightarrow> asset option" where
  "companion_offer os rel this_companion =
     (case rel of
        None \<Rightarrow> None
      | Some r \<Rightarrow>
          (case or_companion r of
             None \<Rightarrow> None
           | Some c \<Rightarrow>
               (case (parse_version (cr_version c), parse_version this_companion) of
                  (Some a, Some b) \<Rightarrow> if b < a then companion_asset r os else None
                | _ \<Rightarrow> None)))"

subsection \<open>Definitions: the phase of an update\<close>

datatype air_state =
    JIdle
  | JChecking
  | JDownloading u64 u64 bool
  | JReady
  | JRestarting
  | JVerifying
  | JCable string u64 u64
  | JDone string
  | JRolledBack
  | JStopped
  | JFailed string

definition board_error :: "string \<Rightarrow> string" where
  "board_error code =
     (if code = ''no_connection'' then ''the board could not reach the release''
      else if code = ''bad_signature'' then ''the release is not signed by HID-Fi - nothing was installed''
      else if code = ''bad_manifest'' then ''the release description could not be read''
      else if code = ''hash'' \<or> code = ''flash_verify'' then ''the downloaded firmware did not match - nothing was installed''
      else if code = ''flash_write'' \<or> code = ''flash_read'' then ''the board could not write its flash - nothing was switched''
      else if code = ''too_big'' then ''the release does not fit this board''
      else if code = ''memory'' then ''the board ran short of memory - try again''
      else if code = ''single_slot'' then ''the board needs the cable once''
      else if code = ''nothing_to_install'' then ''there is nothing to install''
      else if code = ''cancelled'' then ''stopped''
      else ''the board stopped the update'')"

definition air_phase :: "seen \<Rightarrow> u64 \<Rightarrow> string \<Rightarrow> air_state" where
  "air_phase s started to =
     (if sn_uptime s < started \<or> sn_state s = Some ''pending_verify'' then
        (if sn_state s = Some ''pending_verify'' then JVerifying
         else if sn_result s = Some ''rolled_back'' then JRolledBack
         else if sn_state s = Some ''valid'' \<and> Option.bind (sn_firmware s) parse_version = parse_version to then JDone to
         else if sn_state s = Some ''valid'' then JRolledBack
         else JRestarting)
      else if sn_step s = ''checking'' then JChecking
      else if sn_step s \<in> {''downloading'', ''verifying'', ''switching''} then JDownloading (sn_bytes s) (sn_total s) (sn_paused s)
      else if sn_step s = ''ready'' then JReady
      else if sn_error s = ''cancelled'' then JStopped
      else if sn_error s \<noteq> [] then JFailed (board_error (sn_error s))
      else JIdle)"

definition needs_relay :: "seen \<Rightarrow> bool" where
  "needs_relay s \<longleftrightarrow> sn_step s = ''idle'' \<and> sn_error s = ''no_connection''"

subsection \<open>Definitions: the cable\<close>

datatype cable_plan_kind = Native "string option" | Com string

record com_port =
  cp_path :: string
  cp_serial :: "string option"

definition cable_plan :: "seen option \<Rightarrow> bool \<Rightarrow> com_port list \<Rightarrow> string option \<Rightarrow> bool \<Rightarrow> string + cable_plan_kind" where
  "cable_plan board paired com known prefer_native =
     (if (case board of Some s \<Rightarrow> sn_state s = Some ''pending_verify'' | None \<Rightarrow> False) then
        Inl ''the board is proving a new firmware - wait a minute''
      else if (case board of Some s \<Rightarrow> sn_step s \<noteq> ''idle'' \<and> sn_step s \<noteq> ''ready'' | None \<Rightarrow> False) then
        Inl ''an update over the air is running - let it finish or cancel it''
      else
        let mine = map_option cp_path (Option.bind known (\<lambda>k. find (\<lambda>c. cp_serial c = Some k) com));
            only = (case com of [c] \<Rightarrow> Some (cp_path c) | _ \<Rightarrow> None);
            native_ok = (case board of Some s \<Rightarrow> paired \<and> has_engine s | None \<Rightarrow> False);
            mine_or_only = (case mine of Some p \<Rightarrow> Some p | None \<Rightarrow> only)
        in
          if mine \<noteq> None \<and> \<not> prefer_native then Inr (Com (the mine))
          else if native_ok then Inr (Native mine_or_only)
          else
            (case mine_or_only of
               Some p \<Rightarrow> Inr (Com p)
             | None \<Rightarrow>
                 if com = [] then Inl ''connect the board's COM port (the second USB-C) to this computer''
                 else Inl ''several boards' COM ports are connected - leave only this board's COM cable in''))"

text \<open>The map of the file \<open>com_ports.json\<close>: a \<open>BTreeMap\<close> in the order of its keys.  An address is ASCII text,
  so its upper case is that of the ASCII letters.\<close>

definition com_file :: "string \<Rightarrow> string" where
  "com_file dir = path_join dir ''com_ports.json''"

definition btree :: "(string \<times> string) list \<Rightarrow> (string \<times> string) list" where
  "btree kvs = sort_key fst (fold (\<lambda>(k, v). AList.update k v) kvs [])"

definition com_map_of_json :: "json \<Rightarrow> (string \<times> string) list option" where
  "com_map_of_json v =
     (case v of
        JObj ms \<Rightarrow> map_option btree (all_some (\<lambda>(k, x). map_option (Pair k) (as_str x)) ms)
      | _ \<Rightarrow> None)"

definition com_load :: "codec \<Rightarrow> string \<Rightarrow> disk \<Rightarrow> (string \<times> string) list option" where
  "com_load J dir d = Option.bind (Option.bind (files d (com_file dir)) (js_parse J)) com_map_of_json"

definition bare_mac :: "string \<Rightarrow> string" where
  "bare_mac m = map upper (filter (\<lambda>c. c \<noteq> CHR '':'') m)"

definition com_known :: "codec \<Rightarrow> string \<Rightarrow> string \<Rightarrow> disk \<Rightarrow> string option" where
  "com_known J dir m d =
     Option.bind (com_load J dir d) (\<lambda>kvs. map_option fst (find (\<lambda>(k, v). v = bare_mac m) kvs))"

definition com_json :: "(string \<times> string) list \<Rightarrow> json" where
  "com_json kvs = JObj (map (\<lambda>(k, v). (k, JStr v)) kvs)"

text \<open>\<open>create_dir_all\<close> changes nothing that is looked at; \<open>fs::write\<close> creates the file and writes it.\<close>

definition fs_mkdir :: "unit fprog_disk" where
  "fs_mkdir d = (case io_next d of (Some _, d') \<Rightarrow> (Err ''io'', d') | (None, d') \<Rightarrow> (Ok (), d'))"

definition fs_write :: "string \<Rightarrow> string \<Rightarrow> unit fprog_disk" where
  "fs_write p body = seq (fs_create p) (fs_append p body)"

definition com_insert :: "string \<Rightarrow> string \<Rightarrow> (string \<times> string) list \<Rightarrow> (string \<times> string) list" where
  "com_insert serial m kvs = sort_key fst (AList.update serial m (filter (\<lambda>(k, v). v \<noteq> m) kvs))"

definition com_remember :: "codec \<Rightarrow> string \<Rightarrow> string \<Rightarrow> string \<Rightarrow> unit fprog_disk" where
  "com_remember J dir serial m =
     bnd (asks (\<lambda>d. case com_load J dir d of Some kvs \<Rightarrow> kvs | None \<Rightarrow> [])) (\<lambda>kvs.
     seq fs_mkdir
     (seq (fs_write (com_file dir @ ''.part'') (js_print J (com_json (com_insert serial (bare_mac m) kvs))))
       (fs_rename (com_file dir @ ''.part'') (com_file dir))))"

subsection \<open>Definitions: the network\<close>

datatype upd_event = EvStatus "json option" | EvOta string string | EvRelay "(string \<times> u8 list) list"

record upd_world =
  uw_gets :: "(string + u8 list) list"
  uw_got :: "(string \<times> nat) list"
  uw_status :: "(string + json) list"
  uw_ota :: "(string + string option) list"
  uw_relays :: "(string + string) list"
  uw_times :: "nat list"
  uw_cancel :: "bool list"
  uw_restart :: "bool list"
  uw_job :: air_state
  uw_log :: "upd_event list"

type_synonym 'a wprog2 = "(upd_world, string, 'a) prog"

definition uw_get :: "string \<Rightarrow> nat \<Rightarrow> u8 list wprog2" where
  "uw_get url cap w =
     (let w' = w\<lparr>uw_got := uw_got w @ [(url, cap)]\<rparr> in
      case uw_gets w of
        [] \<Rightarrow> (Err [], w')
      | Inl e # gs \<Rightarrow> (Err e, w'\<lparr>uw_gets := gs\<rparr>)
      | Inr b # gs \<Rightarrow> (Ok b, w'\<lparr>uw_gets := gs\<rparr>))"

definition fetch_release :: "ota_env \<Rightarrow> string \<Rightarrow> u8 list list \<Rightarrow> (ota_release \<times> u8 list \<times> u8 list) wprog2" where
  "fetch_release V source trusted =
     bnd (uw_get (source @ MANIFEST) MANIFEST_CAP) (\<lambda>m.
     bnd (uw_get (source @ SIGNATURE) 4096) (\<lambda>s.
       case read_release V m s trusted of
         Inr r \<Rightarrow> ret (r, m, s)
       | Inl BadSignature \<Rightarrow> throw ''the release is not signed by HID-Fi''
       | Inl (NotForUs w) \<Rightarrow> throw (''the release could not be used ('' @ w @ '')'')
       | Inl ImageMismatch \<Rightarrow> throw ''the release files do not match''))"

definition fetch_asset :: "ota_env \<Rightarrow> string \<Rightarrow> asset \<Rightarrow> nat \<Rightarrow> u8 list wprog2" where
  "fetch_asset V source a cap =
     bnd (uw_get (source @ as_name a) cap) (\<lambda>b.
       if asset_matches V a b then ret b else throw (as_name a @ '' is not the file the release names''))"

definition link_status :: "(string + json) wprog2" where
  "link_status w =
     (case uw_status w of
        [] \<Rightarrow> (Ok (Inl []), w\<lparr>uw_log := uw_log w @ [EvStatus None]\<rparr>)
      | r # rs \<Rightarrow> (Ok r, w\<lparr>uw_status := rs, uw_log := uw_log w @ [EvStatus (case r of Inr v \<Rightarrow> Some v | Inl _ \<Rightarrow> None)]\<rparr>))"

definition link_ota :: "string \<Rightarrow> string \<Rightarrow> (string + string option) wprog2" where
  "link_ota act url w =
     (let w' = w\<lparr>uw_log := uw_log w @ [EvOta act url]\<rparr> in
      case uw_ota w of [] \<Rightarrow> (Ok (Inl []), w') | r # rs \<Rightarrow> (Ok r, w'\<lparr>uw_ota := rs\<rparr>))"

definition relay_start :: "(string \<times> u8 list) list \<Rightarrow> (string + string) wprog2" where
  "relay_start served w =
     (let w' = w\<lparr>uw_log := uw_log w @ [EvRelay served]\<rparr> in
      case uw_relays w of [] \<Rightarrow> (Ok (Inl []), w') | r # rs \<Rightarrow> (Ok r, w'\<lparr>uw_relays := rs\<rparr>))"

definition uw_now :: "nat wprog2" where
  "uw_now w = (case uw_times w of [] \<Rightarrow> (Ok 0, w) | t # ts \<Rightarrow> (Ok t, w\<lparr>uw_times := ts\<rparr>))"

definition cancel_read :: "bool wprog2" where
  "cancel_read w = (case uw_cancel w of [] \<Rightarrow> (Ok False, w) | b # bs \<Rightarrow> (Ok b, w\<lparr>uw_cancel := bs\<rparr>))"

definition restart_read :: "bool wprog2" where
  "restart_read w = (case uw_restart w of [] \<Rightarrow> (Ok False, w) | b # bs \<Rightarrow> (Ok b, w\<lparr>uw_restart := bs\<rparr>))"

definition set_job :: "air_state \<Rightarrow> unit wprog2" where
  "set_job j = modify (\<lambda>w. w\<lparr>uw_job := j\<rparr>)"

subsection \<open>Definitions: the update over the air\<close>

text \<open>\<open>poll\<close>: a status for every reading of the clock before the end; past the last one time is up.\<close>

fun poll_loop :: "(seen \<Rightarrow> bool) \<Rightarrow> nat \<Rightarrow> nat list \<Rightarrow> (string + seen) wprog2" where
  "poll_loop what deadline [] w =
     bnd link_status (\<lambda>r. case r of
        Inr v \<Rightarrow> if what (seen_of_status v) then ret (Inr (seen_of_status v)) else ret (Inl ''the board did not answer in time'')
      | Inl _ \<Rightarrow> ret (Inl ''the board did not answer in time'')) (w\<lparr>uw_times := []\<rparr>)"
| "poll_loop what deadline (t # ts) w =
     bnd link_status (\<lambda>r.
       let again = (if deadline \<le> t then ret (Inl ''the board did not answer in time'') else poll_loop what deadline ts) in
       case r of
        Inr v \<Rightarrow> if what (seen_of_status v) then ret (Inr (seen_of_status v)) else again
      | Inl _ \<Rightarrow> again) (w\<lparr>uw_times := ts\<rparr>)"

definition poll :: "(seen \<Rightarrow> bool) \<Rightarrow> nat \<Rightarrow> (string + seen) wprog2" where
  "poll what secs = bnd uw_now (\<lambda>now. bnd (asks uw_times) (\<lambda>ts. poll_loop what (now + secs * 1000) ts))"

text \<open>One round of the wait after the install: nothing when it is over, or what it keeps.\<close>

definition air_round :: "u64 \<Rightarrow> string \<Rightarrow> nat \<Rightarrow> bool \<Rightarrow> air_state \<Rightarrow> (nat \<times> bool \<times> air_state) option wprog2" where
  "air_round started to moved_at cancel_sent prev =
     bnd cancel_read (\<lambda>c.
     let sends_cancel = (c \<and> \<not> cancel_sent); cancelled = (cancel_sent \<or> sends_cancel) in
     seq (if sends_cancel then bnd (link_ota ''cancel'' []) (\<lambda>_. ret ()) else ret ())
     (bnd restart_read (\<lambda>now.
     seq (if now then bnd (link_ota ''apply'' []) (\<lambda>_. ret ()) else ret ())
     (bnd link_status (\<lambda>r.
     let job = (case r of
                  Inr v \<Rightarrow> air_phase (seen_of_status v) started to
                | Inl _ \<Rightarrow> if prev \<in> {JReady, JRestarting, JVerifying} then JRestarting else prev);
         waiting = (case job of JReady \<Rightarrow> True | JDownloading _ _ paused \<Rightarrow> paused | _ \<Rightarrow> False) in
     if (case job of JDone _ \<Rightarrow> True | JRolledBack \<Rightarrow> True | JStopped \<Rightarrow> True | JFailed _ \<Rightarrow> True | _ \<Rightarrow> False) then
       seq (set_job job) (ret None)
     else if job = JIdle \<and> cancelled then seq (set_job JStopped) (ret None)
     else
       bnd (if job \<noteq> prev \<or> waiting then uw_now else ret moved_at) (\<lambda>moved.
       seq (if job \<noteq> prev then set_job job else ret ())
       (bnd uw_now (\<lambda>t.
         if STALL \<le> t - moved then seq (set_job (JFailed ''the board stopped making progress'')) (ret None)
         else ret (Some (moved, cancelled, job))))))))))"

fun air_loop :: "nat \<Rightarrow> u64 \<Rightarrow> string \<Rightarrow> nat \<Rightarrow> bool \<Rightarrow> air_state \<Rightarrow> unit wprog2" where
  "air_loop 0 started to moved cancel_sent prev w = (OutOfFuel, w)"
| "air_loop (Suc n) started to moved cancel_sent prev w =
     bnd (air_round started to moved cancel_sent prev) (\<lambda>r. case r of
        None \<Rightarrow> ret ()
      | Some (m, c, l) \<Rightarrow> air_loop n started to m c l) w"

definition fail_job :: "string \<Rightarrow> unit wprog2" where
  "fail_job why = set_job (JFailed why)"

text \<open>After the checks: the install and the wait for it.\<close>

definition air_install :: "nat \<Rightarrow> ota_release \<Rightarrow> seen \<Rightarrow> unit wprog2" where
  "air_install fuel rel s =
     (if sn_available s \<noteq> or_version rel then
        fail_job (if sn_error s = [] then ''the board does not see this release'' else board_error (sn_error s))
      else
        bnd cancel_read (\<lambda>c.
        if c then set_job JStopped
        else
          bnd (link_ota ''install'' []) (\<lambda>r. case r of
            Inl e \<Rightarrow> fail_job (''the board refused the install: '' @ e)
          | Inr _ \<Rightarrow> bnd uw_now (\<lambda>t. air_loop fuel (sn_uptime s) (or_version rel) t False JIdle))))"

definition idle_step :: "seen \<Rightarrow> bool" where
  "idle_step s \<longleftrightarrow> sn_step s = ''idle''"

definition air_job :: "nat \<Rightarrow> ota_release \<Rightarrow> (string \<times> u8 list) list wprog2 \<Rightarrow> unit wprog2" where
  "air_job fuel rel release_files =
     seq (set_job JChecking)
     (bnd (link_ota ''check'' []) (\<lambda>r. case r of
        Inl e \<Rightarrow> fail_job (''the board refused the check: '' @ e)
      | Inr _ \<Rightarrow>
     bnd (poll idle_step 120) (\<lambda>r. case r of
        Inl e \<Rightarrow> fail_job e
      | Inr s \<Rightarrow>
        if sn_available s \<noteq> or_version rel \<and> needs_relay s then
          bnd (attempt release_files) (\<lambda>f. case f of
             Inl e \<Rightarrow> fail_job e
           | Inr served \<Rightarrow>
          bnd (relay_start served) (\<lambda>r. case r of
             Inl e \<Rightarrow> fail_job (''could not serve the release to the board: '' @ e)
           | Inr url \<Rightarrow>
          bnd (link_ota ''from'' url) (\<lambda>r. case r of
             Inl e \<Rightarrow> fail_job (''the board refused the relay: '' @ e)
           | Inr _ \<Rightarrow>
          bnd (poll idle_step 120) (\<lambda>r. case r of
             Inl e \<Rightarrow> fail_job e
           | Inr again \<Rightarrow> air_install fuel rel again))))
        else air_install fuel rel s)))"

text \<open>What the centre hands to the relay: the manifest, its signature and the checked image.\<close>

definition relay_files :: "ota_env \<Rightarrow> string \<Rightarrow> ota_release \<Rightarrow> u8 list \<Rightarrow> u8 list \<Rightarrow> (string \<times> u8 list) list wprog2" where
  "relay_files V source rel m sig =
     bnd (fetch_asset V source (or_image rel) IMAGE_CAP) (\<lambda>img.
       ret [(MANIFEST, m), (SIGNATURE, sig), (as_name (or_image rel), img)])"

subsection \<open>Definitions: the installer\<close>

text \<open>The network and the disk together.\<close>

record upd_host =
  uh_net :: upd_world
  uh_disk :: disk

definition fetch_installer :: "ota_env \<Rightarrow> string \<Rightarrow> asset \<Rightarrow> string \<Rightarrow> (upd_host, string, string) prog" where
  "fetch_installer V source a dir =
     bnd (zoom uh_net (\<lambda>n h. h\<lparr>uh_net := n\<rparr>) (\<lambda>e. e) (fetch_asset V source a INSTALLER_CAP)) (\<lambda>b.
       let path = path_join dir (as_name a); tmp = path_join dir (as_name a @ ''.part'') in
       seq (zoom uh_disk (\<lambda>d h. h\<lparr>uh_disk := d\<rparr>) (\<lambda>e. e)
              (seq fs_mkdir (seq (fs_write tmp (map chr b)) (fs_rename tmp path))))
         (ret path))"

subsection \<open>What the board is asked, and when\<close>

definition is_status :: "upd_event \<Rightarrow> bool" where
  "is_status e \<longleftrightarrow> (case e of EvStatus _ \<Rightarrow> True | _ \<Rightarrow> False)"

text \<open>The requests of a log, and its last status when that is the last event.\<close>

definition acts :: "upd_event list \<Rightarrow> upd_event list" where
  "acts xs = filter (\<lambda>e. \<not> is_status e) xs"

definition last_status :: "upd_event list \<Rightarrow> json option" where
  "last_status xs = (case rev xs of EvStatus r # _ \<Rightarrow> r | _ \<Rightarrow> None)"

text \<open>\<open>fits rel pre e\<close>: the event \<open>e\<close> may follow \<open>pre\<close>.\<close>

definition fits :: "ota_release \<Rightarrow> upd_event list \<Rightarrow> upd_event \<Rightarrow> bool" where
  "fits rel pre e \<longleftrightarrow>
     (case e of
        EvStatus _ \<Rightarrow> True
      | EvRelay served \<Rightarrow> acts pre = [EvOta ''check'' []] \<and>
          (\<exists>v. last_status pre = Some v \<and> needs_relay (seen_of_status v) \<and> sn_available (seen_of_status v) \<noteq> or_version rel)
      | EvOta act url \<Rightarrow>
          act = ''check'' \<and> pre = [] \<or>
          act = ''from'' \<and> (\<exists>served. acts pre = [EvOta ''check'' [], EvRelay served] \<and> \<not> is_status (last pre)) \<or>
          act = ''install'' \<and> (acts pre = [EvOta ''check'' []] \<or> (\<exists>served u. acts pre = [EvOta ''check'' [], EvRelay served, EvOta ''from'' u])) \<and>
            (\<exists>v. last_status pre = Some v \<and> sn_step (seen_of_status v) = ''idle'' \<and> sn_available (seen_of_status v) = or_version rel) \<or>
          act = ''apply'' \<and> EvOta ''install'' [] \<in> set pre \<or>
          act = ''cancel'' \<and> EvOta ''install'' [] \<in> set pre \<and> EvOta ''cancel'' [] \<notin> set pre)"

definition log_ok :: "ota_release \<Rightarrow> upd_event list \<Rightarrow> bool" where
  "log_ok rel xs \<longleftrightarrow> (\<forall>pre e post. xs = pre @ e # post \<longrightarrow> fits rel pre e)"

lemma log_ok_Nil: "log_ok rel []"
  by (simp add: log_ok_def)

lemma log_ok_snoc: "log_ok rel (xs @ [e]) \<longleftrightarrow> log_ok rel xs \<and> fits rel xs e"
proof
  assume l: "log_ok rel (xs @ [e])"
  have "fits rel pre e'" if "xs = pre @ e' # post" for pre e' post
    using l [unfolded log_ok_def, rule_format, of pre e' "post @ [e]"] that by simp
  moreover have "fits rel xs e" using l unfolding log_ok_def by blast
  ultimately show "log_ok rel xs \<and> fits rel xs e" by (simp add: log_ok_def)
next
  assume r: "log_ok rel xs \<and> fits rel xs e"
  have "fits rel pre e'" if "xs @ [e] = pre @ e' # post" for pre e' post
    using that r unfolding log_ok_def by (cases post rule: rev_cases) auto
  then show "log_ok rel (xs @ [e])" by (simp add: log_ok_def)
qed

lemma acts_snoc [simp]: "acts (xs @ [EvStatus r]) = acts xs" "acts (xs @ [EvOta a u]) = acts xs @ [EvOta a u]"
    "acts (xs @ [EvRelay f]) = acts xs @ [EvRelay f]"
  and last_status_snoc [simp]: "last_status (xs @ [EvStatus r]) = r"
  and acts_Nil [simp]: "acts [] = []"
  by (simp_all add: acts_def is_status_def last_status_def)

lemma acts_set: "\<not> is_status e \<Longrightarrow> e \<in> set (acts xs) \<longleftrightarrow> e \<in> set xs"
  by (simp add: acts_def)

text \<open>The job says "done" only right after a status that shows the new version, valid.\<close>

definition done_ok :: "ota_release \<Rightarrow> upd_world \<Rightarrow> bool" where
  "done_ok rel w \<longleftrightarrow> (\<forall>t. uw_job w = JDone t \<longrightarrow> t = or_version rel \<and>
     (\<exists>v. last_status (uw_log w) = Some v \<and> sn_state (seen_of_status v) = Some ''valid'' \<and>
       Option.bind (sn_firmware (seen_of_status v)) parse_version = parse_version (or_version rel)))"

definition air_inv :: "ota_release \<Rightarrow> upd_world \<Rightarrow> bool" where
  "air_inv rel w \<longleftrightarrow> log_ok rel (uw_log w) \<and> done_ok rel w"

text \<open>While the job is not at its end, the requests so far are \<open>xs\<close>.\<close>

definition asked_so :: "upd_event list \<Rightarrow> upd_world \<Rightarrow> bool" where
  "asked_so xs w \<longleftrightarrow> acts (uw_log w) = xs \<and> (\<forall>t. uw_job w \<noteq> JDone t)"

definition st :: "(upd_event list \<Rightarrow> bool) \<Rightarrow> upd_world \<Rightarrow> bool" where
  "st G w \<longleftrightarrow> (\<forall>t. uw_job w \<noteq> JDone t) \<and> G (uw_log w)"

lemma guarded_post: "guarded P I m Q \<Longrightarrow> (\<And>x s. Q x s \<Longrightarrow> Q' x s) \<Longrightarrow> guarded P I m Q'"
  unfolding guarded_def by blast

lemma guarded_any: "guarded P I m Q \<Longrightarrow> guarded P I m (\<lambda>_ _. True)"
  unfolding guarded_def by blast

lemma quiet_rule:
  assumes "\<And>w. uw_log (snd (m w)) = uw_log w" and "\<And>w. uw_job (snd (m w)) = uw_job w"
  shows "guarded (st G) (air_inv rel) m (\<lambda>_. st G)"
  unfolding guarded_def
proof (intro allI impI conjI)
  fix w assume w: "st G w" "air_inv rel w"
  then show "air_inv rel (snd (m w))" unfolding air_inv_def done_ok_def assms by blast
  fix x w' assume "m w = (Ok x, w')"
  then show "st G w'" using assms [of w] w by (simp add: st_def)
qed

lemma status_rule:
  assumes "\<And>l r. G l \<Longrightarrow> G (l @ [EvStatus r])"
  shows "guarded (st G) (air_inv rel) link_status
    (\<lambda>r. st (\<lambda>l. G l \<and> last_status l = (case r of Inr v \<Rightarrow> Some v | Inl _ \<Rightarrow> None)))"
  using assms
  by (auto simp: guarded_def link_status_def st_def air_inv_def log_ok_snoc done_ok_def fits_def split: list.split)

lemma ota_rule:
  assumes "\<And>l. G l \<Longrightarrow> fits rel l (EvOta a u)" and "\<And>l. G l \<Longrightarrow> G' (l @ [EvOta a u])"
  shows "guarded (st G) (air_inv rel) (link_ota a u) (\<lambda>_. st G')"
  using assms
  by (auto simp: guarded_def link_ota_def Let_def st_def air_inv_def log_ok_snoc done_ok_def split: list.split)

lemma relay_rule:
  assumes "\<And>l. G l \<Longrightarrow> fits rel l (EvRelay f)" and "\<And>l. G l \<Longrightarrow> G' (l @ [EvRelay f])"
  shows "guarded (st G) (air_inv rel) (relay_start f) (\<lambda>_. st G')"
  using assms
  by (auto simp: guarded_def relay_start_def Let_def st_def air_inv_def log_ok_snoc done_ok_def split: list.split)

lemma job_rule: "(\<And>t. j \<noteq> JDone t) \<Longrightarrow> guarded (st G) (air_inv rel) (set_job j) (\<lambda>_. st G)"
  by (auto simp: guarded_def set_job_def modify_def st_def air_inv_def done_ok_def)

lemma done_rule:
  assumes "\<And>l. G l \<Longrightarrow> \<exists>v. last_status l = Some v \<and> sn_state (seen_of_status v) = Some ''valid'' \<and>
       Option.bind (sn_firmware (seen_of_status v)) parse_version = parse_version (or_version rel)"
  shows "guarded (st G) (air_inv rel) (set_job (JDone (or_version rel))) (\<lambda>_ _. True)"
  using assms by (auto simp: guarded_def set_job_def modify_def st_def air_inv_def done_ok_def)

lemma fail_rule: "guarded (st G) (air_inv rel) (fail_job e) (\<lambda>_. st G)"
  unfolding fail_job_def by (rule job_rule) simp

lemma now_rule: "guarded (st G) (air_inv rel) uw_now (\<lambda>_. st G)"
  and cancel_rule: "guarded (st G) (air_inv rel) cancel_read (\<lambda>_. st G)"
  and restart_rule: "guarded (st G) (air_inv rel) restart_read (\<lambda>_. st G)"
  and asks_rule: "guarded (st G) (air_inv rel) (asks f) (\<lambda>_. st G)"
  by (rule quiet_rule; simp add: uw_now_def cancel_read_def restart_read_def asks_def split: list.split)+

lemma guarded_times:
  assumes "guarded (st G) (air_inv rel) m Q"
  shows "guarded (st G) (air_inv rel) (\<lambda>w. m (w\<lparr>uw_times := ts\<rparr>)) Q"
  unfolding guarded_def
proof (intro allI impI)
  fix w assume "st G w" and "air_inv rel w"
  then have "st G (w\<lparr>uw_times := ts\<rparr>)" and "air_inv rel (w\<lparr>uw_times := ts\<rparr>)"
    by (simp_all add: st_def air_inv_def done_ok_def)
  with assms show "air_inv rel (snd (m (w\<lparr>uw_times := ts\<rparr>))) \<and> (\<forall>x s'. m (w\<lparr>uw_times := ts\<rparr>) = (Ok x, s') \<longrightarrow> Q x s')"
    unfolding guarded_def by blast
qed

lemma poll_loop_rule:
  assumes "\<And>l r. G l \<Longrightarrow> G (l @ [EvStatus r])"
  shows "guarded (st G) (air_inv rel) (poll_loop what e ts)
    (\<lambda>r. st (\<lambda>l. G l \<and> (\<forall>s. r = Inr s \<longrightarrow> what s \<and> (\<exists>v. last_status l = Some v \<and> seen_of_status v = s))))"
proof (induction ts)
  case Nil
  show ?case
    unfolding poll_loop.simps
    by (rule guarded_times, rule guarded_bnd [OF status_rule [where G = G, OF assms]])
      (auto split: sum.split intro!: guarded_ret guarded_if simp: st_def)
next
  case (Cons t ts)
  let ?Q = "\<lambda>r. st (\<lambda>l. G l \<and> (\<forall>s. r = Inr s \<longrightarrow> what s \<and> (\<exists>v. last_status l = Some v \<and> seen_of_status v = s)))"
  have again: "guarded (st (\<lambda>l. G l \<and> R l)) (air_inv rel)
      (if e \<le> t then ret (Inl ''the board did not answer in time'') else poll_loop what e ts) ?Q" for R
    by (intro guarded_if guarded_ret guarded_pre [OF Cons]) (auto simp: st_def)
  have answered: "guarded (st (\<lambda>l. G l \<and> last_status l = (case r of Inr v \<Rightarrow> Some v | Inl _ \<Rightarrow> None))) (air_inv rel)
      (case r of
         Inr v \<Rightarrow> if what (seen_of_status v) then ret (Inr (seen_of_status v))
           else if e \<le> t then ret (Inl ''the board did not answer in time'') else poll_loop what e ts
       | Inl _ \<Rightarrow> if e \<le> t then ret (Inl ''the board did not answer in time'') else poll_loop what e ts) ?Q" for r :: "string + json"
  proof (cases r)
    case (Inr v)
    show ?thesis
    proof (cases "what (seen_of_status v)")
      case True
      then show ?thesis unfolding Inr sum.case by (auto intro!: guarded_ret simp: st_def)
    qed (use Inr again in simp)
  qed (use again in simp)
  show ?case
    unfolding poll_loop.simps Let_def
    by (rule guarded_times, rule guarded_bnd [OF status_rule [where G = G, OF assms] answered])
qed

lemma poll_rule:
  assumes "\<And>l r. G l \<Longrightarrow> G (l @ [EvStatus r])"
  shows "guarded (st G) (air_inv rel) (poll what secs)
    (\<lambda>r. st (\<lambda>l. G l \<and> (\<forall>s. r = Inr s \<longrightarrow> what s \<and> (\<exists>v. last_status l = Some v \<and> seen_of_status v = s))))"
  unfolding poll_def by (rule guarded_bnd [OF now_rule guarded_bnd [OF asks_rule poll_loop_rule [where G = G, OF assms]]])

subsection \<open>The rounds after the install\<close>

definition installed :: "bool \<Rightarrow> upd_event list \<Rightarrow> bool" where
  "installed c l \<longleftrightarrow> EvOta ''install'' [] \<in> set l \<and> (c \<or> EvOta ''cancel'' [] \<notin> set l)"

lemma air_phase_done:
  "air_phase s started to = JDone t \<Longrightarrow> t = to \<and> sn_state s = Some ''valid'' \<and>
     Option.bind (sn_firmware s) parse_version = parse_version to"
  by (auto simp: air_phase_def split: if_splits)

text \<open>The state after a round.\<close>

definition rounded :: "(nat \<times> bool \<times> air_state) option \<Rightarrow> upd_world \<Rightarrow> bool" where
  "rounded r w \<longleftrightarrow> (case r of None \<Rightarrow> True | Some (m, c, j) \<Rightarrow> st (installed c) w \<and> (\<forall>t. j \<noteq> JDone t))"

lemma stop_rule:
  assumes "\<And>t. j \<noteq> JDone t"
  shows "guarded (st G) (air_inv rel) (seq (set_job j) (ret None)) rounded"
proof -
  have "guarded (st G) (air_inv rel) (set_job j) (\<lambda>_. st G)" by (rule job_rule) (rule assms)
  then show ?thesis by (rule guarded_seq) (rule guarded_ret, simp add: rounded_def)
qed

text \<open>The end of a round, once its phase is known not to be final.\<close>

lemma round_on_rule:
  assumes "\<And>t. job \<noteq> JDone t"
  shows "guarded (st (installed c)) (air_inv rel)
    (bnd (if b then uw_now else ret moved_at) (\<lambda>moved.
       seq (if d then set_job job else ret ())
       (bnd uw_now (\<lambda>t.
         if STALL \<le> t - moved then seq (set_job (JFailed e)) (ret None)
         else ret (Some (moved, c, job)))))) rounded"
proof -
  have 1: "guarded (st (installed c)) (air_inv rel) (if b then uw_now else ret moved_at) (\<lambda>_. st (installed c))"
    by (intro guarded_if now_rule guarded_ret)
  have 2: "guarded (st (installed c)) (air_inv rel) (if d then set_job job else ret ()) (\<lambda>_. st (installed c))"
    by (intro guarded_if job_rule guarded_ret assms)
  have 3: "guarded (st (installed c)) (air_inv rel)
      (if q then seq (set_job (JFailed e)) (ret None) else ret (Some (moved, c, job))) rounded" for q moved
    by (intro guarded_if stop_rule guarded_ret) (simp_all add: rounded_def assms)
  show ?thesis by (rule guarded_bnd [OF 1 guarded_seq [OF 2 guarded_bnd [OF now_rule 3]]])
qed

lemma final_rule:
  assumes "to = or_version rel" and "\<And>t. prev \<noteq> JDone t"
    and job: "job = (case r of Inr v \<Rightarrow> air_phase (seen_of_status v) started to
      | Inl _ \<Rightarrow> if prev \<in> {JReady, JRestarting, JVerifying} then JRestarting else prev)"
  shows "guarded (st (\<lambda>l. installed c l \<and> last_status l = (case r of Inr v \<Rightarrow> Some v | Inl _ \<Rightarrow> None))) (air_inv rel)
    (seq (set_job job) (ret None)) rounded"
proof (cases "\<exists>t. job = JDone t")
  case True
  then obtain v where v: "r = Inr v" "air_phase (seen_of_status v) started to = JDone to"
    using assms air_phase_done by (cases r) (auto split: if_splits)
  have "job = JDone (or_version rel)" using v job assms(1) by simp
  then show ?thesis
    using air_phase_done [OF v(2)] v(1) assms(1)
    by (auto intro!: guarded_seq [OF done_rule guarded_ret] simp: rounded_def)
next
  case False
  then show ?thesis by (intro stop_rule) blast
qed

lemma installed_snoc: "installed c l \<Longrightarrow> installed c (l @ [EvStatus r])" "installed c l \<Longrightarrow> installed c (l @ [EvOta ''apply'' []])"
  "installed c l \<Longrightarrow> installed True (l @ [EvOta ''cancel'' []])"
  by (simp_all add: installed_def)

lemma installed_status: "guarded (st (installed c)) (air_inv rel) link_status
    (\<lambda>r. st (\<lambda>l. installed c l \<and> last_status l = (case r of Inr v \<Rightarrow> Some v | Inl _ \<Rightarrow> None)))"
  by (rule status_rule [where G = "installed c"]) (rule installed_snoc(1))

lemma air_round_rule:
  assumes to: "to = or_version rel" and prev: "\<And>t. prev \<noteq> JDone t"
  shows "guarded (st (installed c)) (air_inv rel) (air_round started to moved_at c prev) rounded"
proof -
  have cancel: "guarded (st (installed c)) (air_inv rel)
      (if b \<and> \<not> c then bnd (link_ota ''cancel'' []) (\<lambda>_. ret ()) else ret ()) (\<lambda>_. st (installed (c \<or> b \<and> \<not> c)))" for b
  proof (cases "b \<and> \<not> c")
    case True
    then show ?thesis
      by (simp del: bnd_ret, intro guarded_bnd [OF ota_rule [where G' = "installed True"] guarded_ret])
        (auto simp: installed_def fits_def)
  qed (auto intro!: guarded_ret)
  have restart: "guarded (st (installed c')) (air_inv rel)
      (if b then bnd (link_ota ''apply'' []) (\<lambda>_. ret ()) else ret ()) (\<lambda>_. st (installed c'))" for b c'
    by (intro guarded_if guarded_ret guarded_bnd [OF ota_rule [where G' = "installed c'"] guarded_ret])
      (auto simp: installed_def fits_def)
  let ?job = "\<lambda>r. case r of Inr v \<Rightarrow> air_phase (seen_of_status v) started to
      | Inl _ \<Rightarrow> if prev \<in> {JReady, JRestarting, JVerifying} then JRestarting else prev"
  let ?final = "\<lambda>job. case job of JDone _ \<Rightarrow> True | JRolledBack \<Rightarrow> True | JStopped \<Rightarrow> True | JFailed _ \<Rightarrow> True | _ \<Rightarrow> False"
  have rest: "guarded (st (\<lambda>l. installed c' l \<and> last_status l = (case r of Inr v \<Rightarrow> Some v | Inl _ \<Rightarrow> None))) (air_inv rel)
      (if ?final (?job r) then seq (set_job (?job r)) (ret None)
       else if ?job r = JIdle \<and> c' then seq (set_job JStopped) (ret None)
       else bnd (if b r then uw_now else ret moved_at) (\<lambda>moved.
         seq (if ?job r \<noteq> prev then set_job (?job r) else ret ())
         (bnd uw_now (\<lambda>t.
           if STALL \<le> t - moved then seq (set_job (JFailed ''the board stopped making progress'')) (ret None)
           else ret (Some (moved, c', ?job r)))))) rounded" for c' b and r :: "string + json"
  proof (cases "?final (?job r)")
    case True
    show ?thesis unfolding if_P [OF True] by (rule final_rule [OF to prev refl])
  next
    case False
    have nd: "?job r \<noteq> JDone t" for t
    proof
      assume e: "?job r = JDone t"
      from False show False unfolding e by simp
    qed
    have "guarded (st (installed c')) (air_inv rel)
      (if ?job r = JIdle \<and> c' then seq (set_job JStopped) (ret None)
       else bnd (if b r then uw_now else ret moved_at) (\<lambda>moved.
         seq (if ?job r \<noteq> prev then set_job (?job r) else ret ())
         (bnd uw_now (\<lambda>t.
           if STALL \<le> t - moved then seq (set_job (JFailed ''the board stopped making progress'')) (ret None)
           else ret (Some (moved, c', ?job r)))))) rounded"
      by (rule guarded_if [OF stop_rule round_on_rule [OF nd]]) simp
    then show ?thesis unfolding if_not_P [OF False] by (rule guarded_pre) (simp add: st_def)
  qed
  show ?thesis
    unfolding air_round_def Let_def
    by (rule guarded_bnd [OF cancel_rule guarded_seq [OF cancel guarded_bnd [OF restart_rule guarded_seq [OF restart
          guarded_bnd [OF installed_status rest]]]]])
qed

lemma air_loop_rule:
  assumes to: "to = or_version rel" and "\<And>t. prev \<noteq> JDone t"
  shows "guarded (st (installed c)) (air_inv rel) (air_loop n started to moved c prev) (\<lambda>_ _. True)"
  using assms(2)
proof (induction n arbitrary: moved c prev)
  case 0
  show ?case by (simp add: guarded_def)
next
  case (Suc n)
  have "guarded (rounded r) (air_inv rel)
      (case r of None \<Rightarrow> ret () | Some (m, c, l) \<Rightarrow> air_loop n started to m c l) (\<lambda>_ _. True)" for r
  proof (cases r)
    case (Some x)
    obtain m c' j where x: "x = (m, c', j)" by (cases x) auto
    have "guarded (\<lambda>w. (\<forall>t. j \<noteq> JDone t) \<and> st (installed c') w) (air_inv rel) (air_loop n started to m c' j) (\<lambda>_ _. True)"
      by (rule guarded_assume) (use Suc.IH in blast)
    then show ?thesis unfolding Some x option.case prod.case
      by (rule guarded_pre) (simp add: rounded_def)
  qed (auto intro: guarded_ret)
  from guarded_bnd [OF air_round_rule [OF to Suc.prems] this]
  have "guarded (st (installed c)) (air_inv rel)
      (\<lambda>w. bnd (air_round started to moved c prev)
        (\<lambda>r. case r of None \<Rightarrow> ret () | Some (m, c, l) \<Rightarrow> air_loop n started to m c l) w) (\<lambda>_ _. True)" .
  then show ?case by simp
qed

text \<open>The requests before the install: the check alone, or the relayed check after it.\<close>

definition checked :: "upd_event list \<Rightarrow> bool" where
  "checked l \<longleftrightarrow> acts l = [EvOta ''check'' []] \<or>
     (\<exists>served u. acts l = [EvOta ''check'' [], EvRelay served, EvOta ''from'' u])"

lemma checked_fresh: "checked l \<Longrightarrow> EvOta ''cancel'' [] \<notin> set l"
  using acts_set [of "EvOta ''cancel'' []" l] by (auto simp: checked_def is_status_def)

lemma air_install_rule:
  "guarded (st (\<lambda>l. checked l \<and> sn_step s = ''idle'' \<and> (\<exists>v. last_status l = Some v \<and> seen_of_status v = s))) (air_inv rel)
     (air_install fuel rel s) (\<lambda>_ _. True)"
proof (cases "sn_available s = or_version rel")
  case False
  then show ?thesis unfolding air_install_def by (simp add: guarded_any [OF fail_rule])
next
  case True
  let ?G = "\<lambda>l. checked l \<and> sn_step s = ''idle'' \<and> (\<exists>v. last_status l = Some v \<and> seen_of_status v = s)"
  have install: "guarded (st ?G) (air_inv rel) (link_ota ''install'' []) (\<lambda>_. st (installed False))"
  proof (rule ota_rule)
    fix l assume "?G l"
    then show "fits rel l (EvOta ''install'' [])" using True by (auto simp: fits_def checked_def)
    show "installed False (l @ [EvOta ''install'' []])"
      using \<open>?G l\<close> checked_fresh by (auto simp: installed_def)
  qed
  have wait: "guarded (st (installed False)) (air_inv rel)
      (case r of Inl e \<Rightarrow> fail_job (''the board refused the install: '' @ e)
       | Inr _ \<Rightarrow> bnd uw_now (\<lambda>t. air_loop fuel (sn_uptime s) (or_version rel) t False JIdle)) (\<lambda>_ _. True)" for r :: "string + string option"
    by (cases r) (auto intro: guarded_any [OF fail_rule] guarded_bnd [OF now_rule air_loop_rule])
  have go: "guarded (st ?G) (air_inv rel)
      (if c then set_job JStopped else bnd (link_ota ''install'' []) (\<lambda>r. case r of
         Inl e \<Rightarrow> fail_job (''the board refused the install: '' @ e)
       | Inr _ \<Rightarrow> bnd uw_now (\<lambda>t. air_loop fuel (sn_uptime s) (or_version rel) t False JIdle))) (\<lambda>_ _. True)" for c
    by (intro guarded_if guarded_any [OF job_rule] guarded_bnd [OF install wait]) simp
  show ?thesis
    unfolding air_install_def using True by (simp add: guarded_bnd [OF cancel_rule go])
qed

lemma air_job_rule:
  assumes fetch: "\<And>w. uw_log (snd (fetch w)) = uw_log w" "\<And>w. uw_job (snd (fetch w)) = uw_job w"
  shows "guarded (st (\<lambda>l. l = [])) (air_inv rel) (air_job fuel rel fetch) (\<lambda>_ _. True)"
proof -
  let ?at = "\<lambda>xs l. acts l = xs"
  let ?c = "EvOta ''check'' []"
  let ?seen = "\<lambda>xs s l. acts l = xs \<and> sn_step s = ''idle'' \<and> (\<exists>v. last_status l = Some v \<and> seen_of_status v = s)"
  have polled: "guarded (st (?at xs)) (air_inv rel) (poll idle_step 120)
      (\<lambda>r. st (\<lambda>l. acts l = xs \<and> (\<forall>s. r = Inr s \<longrightarrow> idle_step s \<and> (\<exists>v. last_status l = Some v \<and> seen_of_status v = s))))" for xs
    by (rule poll_rule) simp
  have check: "guarded (st (\<lambda>l. l = [])) (air_inv rel) (link_ota ''check'' []) (\<lambda>_. st (?at [?c]))"
    by (rule ota_rule) (simp_all add: fits_def acts_def is_status_def)
  have again: "guarded (st (\<lambda>l. acts l = [?c, EvRelay f, EvOta ''from'' u] \<and>
        (\<forall>s. r = Inr s \<longrightarrow> idle_step s \<and> (\<exists>v. last_status l = Some v \<and> seen_of_status v = s)))) (air_inv rel)
      (case r of Inl e \<Rightarrow> fail_job e | Inr again \<Rightarrow> air_install fuel rel again) (\<lambda>_ _. True)" for r f u
    by (cases r) (auto intro!: guarded_any [OF fail_rule] guarded_pre [OF air_install_rule]
        simp: st_def checked_def idle_step_def)
  have from_r: "guarded (st (\<lambda>l. acts l = [?c, EvRelay f] \<and> \<not> is_status (last l))) (air_inv rel)
      (bnd (link_ota ''from'' url) (\<lambda>r. case r of
         Inl e \<Rightarrow> fail_job (''the board refused the relay: '' @ e)
       | Inr _ \<Rightarrow> bnd (poll idle_step 120) (\<lambda>r. case r of Inl e \<Rightarrow> fail_job e | Inr again \<Rightarrow> air_install fuel rel again))) (\<lambda>_ _. True)" for f url
  proof (rule guarded_bnd)
    show "guarded (st (\<lambda>l. acts l = [?c, EvRelay f] \<and> \<not> is_status (last l))) (air_inv rel) (link_ota ''from'' url)
        (\<lambda>_. st (?at [?c, EvRelay f, EvOta ''from'' url]))"
      by (rule ota_rule) (auto simp: fits_def)
    show "guarded (st (?at [?c, EvRelay f, EvOta ''from'' url])) (air_inv rel)
        (case r of Inl e \<Rightarrow> fail_job (''the board refused the relay: '' @ e)
         | Inr _ \<Rightarrow> bnd (poll idle_step 120) (\<lambda>r. case r of Inl e \<Rightarrow> fail_job e | Inr again \<Rightarrow> air_install fuel rel again)) (\<lambda>_ _. True)"
      for r :: "string + string option"
      by (cases r) (auto intro: guarded_any [OF fail_rule] guarded_bnd [OF polled again])
  qed
  let ?relay = "bnd (attempt fetch) (\<lambda>f. case f of
             Inl e \<Rightarrow> fail_job e
           | Inr served \<Rightarrow>
          bnd (relay_start served) (\<lambda>r. case r of
             Inl e \<Rightarrow> fail_job (''could not serve the release to the board: '' @ e)
           | Inr url \<Rightarrow>
          bnd (link_ota ''from'' url) (\<lambda>r. case r of
             Inl e \<Rightarrow> fail_job (''the board refused the relay: '' @ e)
           | Inr _ \<Rightarrow>
          bnd (poll idle_step 120) (\<lambda>r. case r of
             Inl e \<Rightarrow> fail_job e
           | Inr again \<Rightarrow> air_install fuel rel again))))"
  have relay: "guarded (st (?seen [?c] s)) (air_inv rel) ?relay (\<lambda>_ _. True)"
    if "sn_available s \<noteq> or_version rel" "needs_relay s" for s
  proof (rule guarded_bnd)
    show "guarded (st (?seen [?c] s)) (air_inv rel) (attempt fetch) (\<lambda>_. st (?seen [?c] s))"
      by (rule quiet_rule) (simp_all add: fetch)
    have start: "guarded (st (?seen [?c] s)) (air_inv rel) (relay_start served)
        (\<lambda>_. st (\<lambda>l. acts l = [?c, EvRelay served] \<and> \<not> is_status (last l)))" for served
      by (rule relay_rule) (use that in \<open>auto simp: fits_def is_status_def\<close>)
    have started: "guarded (st (\<lambda>l. acts l = [?c, EvRelay served] \<and> \<not> is_status (last l))) (air_inv rel)
        (case r of Inl e \<Rightarrow> fail_job (''could not serve the release to the board: '' @ e)
         | Inr url \<Rightarrow> bnd (link_ota ''from'' url) (\<lambda>r. case r of
             Inl e \<Rightarrow> fail_job (''the board refused the relay: '' @ e)
           | Inr _ \<Rightarrow> bnd (poll idle_step 120) (\<lambda>r. case r of Inl e \<Rightarrow> fail_job e | Inr again \<Rightarrow> air_install fuel rel again)))
        (\<lambda>_ _. True)" for r served
      by (cases r) (simp_all only: sum.case guarded_any [OF fail_rule] from_r)
    show "guarded (st (?seen [?c] s)) (air_inv rel)
        (case f of Inl e \<Rightarrow> fail_job e | Inr served \<Rightarrow> bnd (relay_start served) (\<lambda>r. case r of
             Inl e \<Rightarrow> fail_job (''could not serve the release to the board: '' @ e)
           | Inr url \<Rightarrow> bnd (link_ota ''from'' url) (\<lambda>r. case r of
             Inl e \<Rightarrow> fail_job (''the board refused the relay: '' @ e)
           | Inr _ \<Rightarrow> bnd (poll idle_step 120) (\<lambda>r. case r of Inl e \<Rightarrow> fail_job e | Inr again \<Rightarrow> air_install fuel rel again))))
        (\<lambda>_ _. True)" for f
      by (cases f) (simp_all only: sum.case guarded_any [OF fail_rule] guarded_bnd [OF start started])
  qed
  have direct: "guarded (st (?seen [?c] s)) (air_inv rel) (air_install fuel rel s) (\<lambda>_ _. True)" for s
    by (rule guarded_pre [OF air_install_rule]) (auto simp: st_def checked_def)
  have polled1: "guarded (st (\<lambda>l. acts l = [?c] \<and> (\<forall>s. r = Inr s \<longrightarrow> idle_step s \<and> (\<exists>v. last_status l = Some v \<and> seen_of_status v = s))))
      (air_inv rel)
      (case r of Inl e \<Rightarrow> fail_job e
       | Inr s \<Rightarrow> if sn_available s \<noteq> or_version rel \<and> needs_relay s then ?relay else air_install fuel rel s) (\<lambda>_ _. True)" for r
  proof (cases r)
    case (Inr s)
    have "guarded (st (?seen [?c] s)) (air_inv rel)
        (if sn_available s \<noteq> or_version rel \<and> needs_relay s then ?relay else air_install fuel rel s) (\<lambda>_ _. True)"
      by (rule guarded_if [OF relay direct]) simp_all
    then show ?thesis unfolding Inr sum.case by (rule guarded_pre) (simp add: st_def idle_step_def)
  qed (simp add: guarded_any [OF fail_rule])
  have checked1: "guarded (st (?at [?c])) (air_inv rel)
      (case r of Inl e \<Rightarrow> fail_job (''the board refused the check: '' @ e)
       | Inr _ \<Rightarrow> bnd (poll idle_step 120) (\<lambda>r. case r of Inl e \<Rightarrow> fail_job e
           | Inr s \<Rightarrow> if sn_available s \<noteq> or_version rel \<and> needs_relay s then ?relay else air_install fuel rel s)) (\<lambda>_ _. True)"
    for r :: "string + string option"
    by (cases r) (simp_all only: sum.case guarded_any [OF fail_rule] guarded_bnd [OF polled polled1])
  show ?thesis
    unfolding air_job_def
    by (rule guarded_seq [OF job_rule guarded_bnd [OF check checked1]]) simp
qed

lemma relay_files_quiet:
  "uw_log (snd (relay_files V source rel m sig w)) = uw_log w" "uw_job (snd (relay_files V source rel m sig w)) = uw_job w"
  by (simp_all add: relay_files_def fetch_asset_def uw_get_def Let_def bnd_def ret_def throw_def
      split: list.split sum.split outcome.split prod.split)

text \<open>C22. An update over the air asks a board for nothing out of turn, whatever the network, the clock and the person do:
  the check comes first; the release is relayed at most once, and only when the status just read says that the
  board could not reach it; the install is asked for at most once, and only when the status just read shows the
  board idle and offering exactly this release; a restart or a cancel is asked for only after it, the cancel
  at most once.  And the job ends in "done" only when the status just read shows the new version running, valid.\<close>

theorem air_requests_in_turn:
  assumes "uw_log w = []" and "uw_job w = JIdle"
    and "w' = snd (air_job fuel rel (relay_files V source rel m sig) w)"
  shows "log_ok rel (uw_log w') \<and>
    (\<forall>t. uw_job w' = JDone t \<longrightarrow> t = or_version rel \<and>
      (\<exists>v. last_status (uw_log w') = Some v \<and> sn_state (seen_of_status v) = Some ''valid'' \<and>
        Option.bind (sn_firmware (seen_of_status v)) parse_version = parse_version (or_version rel)))"
proof -
  have "st (\<lambda>l. l = []) w" "air_inv rel w"
    using assms(1,2) by (simp_all add: st_def air_inv_def log_ok_Nil done_ok_def)
  with air_job_rule [OF relay_files_quiet] have "air_inv rel w'" unfolding assms(3) by (rule guardedD)
  then show ?thesis unfolding air_inv_def done_ok_def by blast
qed

definition demo_release :: ota_release where
  "demo_release = \<lparr>or_format = 1, or_product = ''hid-fi'', or_chip = ''esp32s3'', or_version = ''4.1'', or_firmware = ''hid_fi_v4.1'',
     or_released = [], or_support_until = [],
     or_image = \<lparr>as_name = ''fw.bin'', as_size = 24, as_sha256 = replicate 64 (CHR ''0'')\<rparr>,
     or_min_from = ''4.0'', or_security = False, or_risk = [], or_comp_api = \<lparr>ar_min = 1, ar_max = 1\<rparr>, or_changelog = [],
     or_companion = None, or_table = None\<rparr>"

definition demo_status :: "string \<Rightarrow> string \<Rightarrow> string \<Rightarrow> json" where
  "demo_status fw state uptime = JObj [(''firmware'', JStr fw), (''ota_layout'', JStr ''two_slot''), (''ota_state'', JStr state),
     (''ota_available'', JStr ''4.1''), (''uptime_sec'', JInt (int (length uptime)))]"

definition demo_net :: upd_world where
  "demo_net = \<lparr>uw_gets = [], uw_got = [], uw_status = [Inr (demo_status ''4.0'' ''valid'' ''12''), Inr (demo_status ''4.1'' ''valid'' ''1'')],
     uw_ota = [Inr None, Inr None], uw_relays = [], uw_times = [], uw_cancel = [], uw_restart = [], uw_job = JIdle, uw_log = []\<rparr>"

lemmas net_calls = link_ota_def link_status_def relay_start_def uw_now_def cancel_read_def restart_read_def set_job_def modify_def
  seq_def bnd_def ret_def asks_def Let_def

lemma demo_air_job:
  "air_job 1 demo_release (relay_files demo_ota_env [] demo_release [] []) demo_net =
     (Ok (), demo_net\<lparr>uw_status := [], uw_ota := [], uw_job := JDone ''4.1'',
        uw_log := [EvOta ''check'' [], EvStatus (Some (demo_status ''4.0'' ''valid'' ''12'')), EvOta ''install'' [],
          EvStatus (Some (demo_status ''4.1'' ''valid'' ''1''))]\<rparr>)"
  unfolding One_nat_def
  by (simp add: air_job_def poll_def air_install_def air_round_def net_calls demo_net_def demo_release_def demo_status_def
      idle_step_def seen_of_status_def status_str_def status_num_def air_phase_def)

theorem air_requests_in_turn_witness:
  "uw_job (snd (air_job 1 demo_release (relay_files demo_ota_env [] demo_release [] []) demo_net)) = JDone ''4.1'' \<and>
   log_ok demo_release (uw_log (snd (air_job 1 demo_release (relay_files demo_ota_env [] demo_release [] []) demo_net)))"
  using air_requests_in_turn [of demo_net _ 1 demo_release demo_ota_env "[]" "[]" "[]", OF _ _ refl]
  unfolding demo_air_job snd_conv by (auto simp: demo_net_def)

subsection \<open>A board that stops moving\<close>

definition still :: "bool \<Rightarrow> air_state \<Rightarrow> bool" where
  "still c j \<longleftrightarrow> j = JChecking \<or> j = JRestarting \<or> (\<exists>b n. j = JDownloading b n False) \<or> j = JIdle \<and> \<not> c"

lemma still_round:
  assumes "still c prev" and "uw_status w = []" and "uw_cancel w = []" and "uw_restart w = []" and "uw_times w = t # ts"
  shows "air_round started to moved c prev w =
    (let w' = w\<lparr>uw_times := ts, uw_log := uw_log w @ [EvStatus None]\<rparr> in
     if STALL \<le> t - moved then (Ok None, w'\<lparr>uw_job := JFailed ''the board stopped making progress''\<rparr>)
     else (Ok (Some (moved, c, prev)), w'))"
  using assms unfolding still_def
  by (elim disjE; clarsimp)
    (simp_all add: air_round_def Let_def seq_def bnd_def cancel_read_def restart_read_def link_status_def ret_def uw_now_def
      set_job_def modify_def)

text \<open>The wait after an install always ends when the board stops: if it never answers again and is not in a state it may
  rest in, the job fails at the first reading of the clock ten minutes after the last movement, after one round for each
  reading.\<close>

theorem silent_board_fails:
  assumes "still c prev" and "uw_status w = []" and "uw_cancel w = []" and "uw_restart w = []"
    and "uw_times w = early @ [t]" and "\<forall>u \<in> set early. u - moved < STALL" and "STALL \<le> t - moved" and "length early < fuel"
  shows "\<exists>w'. air_loop fuel started to moved c prev w = (Ok (), w') \<and>
    uw_job w' = JFailed ''the board stopped making progress'' \<and> length (uw_log w') = length (uw_log w) + length early + 1"
  using assms
proof (induction early arbitrary: w fuel)
  case Nil
  then obtain n where "fuel = Suc n" by (cases fuel) auto
  with Nil still_round [OF Nil.prems(1-4), of t "[]"] show ?case by (simp add: bnd_def Let_def ret_def)
next
  case (Cons u early)
  then obtain n where n: "fuel = Suc n" by (cases fuel) auto
  let ?w = "w\<lparr>uw_times := early @ [t], uw_log := uw_log w @ [EvStatus None]\<rparr>"
  have "air_round started to moved c prev w = (Ok (Some (moved, c, prev)), ?w)"
    using still_round [OF Cons.prems(1-4), of u "early @ [t]"] Cons.prems by (simp add: Let_def)
  moreover obtain w' where "air_loop n started to moved c prev ?w = (Ok (), w')"
    "uw_job w' = JFailed ''the board stopped making progress''" "length (uw_log w') = length (uw_log ?w) + length early + 1"
    using Cons.IH [of ?w n] Cons.prems n by auto
  ultimately show ?case unfolding n by (simp add: bnd_def)
qed

theorem silent_board_fails_witness:
  "uw_job (snd (air_loop 3 12 ''4.1'' 1000 False JRestarting (demo_net\<lparr>uw_status := [], uw_times := [2000, STALL + 1000]\<rparr>))) =
     JFailed ''the board stopped making progress''"
  using silent_board_fails [of False JRestarting "demo_net\<lparr>uw_status := [], uw_times := [2000, STALL + 1000]\<rparr>" "[2000]"
      "STALL + 1000" 1000 3 12 "''4.1''"]
  by (fastforce simp: still_def demo_net_def STALL_def)

subsection \<open>What is offered\<close>

lemma companion_first_in_verdicts:
  "UpdateCompanionFirst \<in> set (verdicts b me l) \<longleftrightarrow>
     (\<exists>fw. Option.bind (bs_firmware b) parse_version = Some fw) \<and> bs_ota_state b \<noteq> Some ''pending_verify'' \<and>
     COMP_API_MAX < (case bs_comp_api b of Some a \<Rightarrow> a | None \<Rightarrow> 1)"
proof (cases "Option.bind (bs_firmware b) parse_version")
  case None
  then show ?thesis by (simp add: verdicts_def)
next
  case (Some fw)
  show ?thesis
  proof (cases "bs_ota_state b = Some ''pending_verify''")
    case True
    with Some show ?thesis by (simp add: verdicts_def)
  next
    case False
    have api: "UpdateCompanionFirst \<in> set (api_verdict b) \<longleftrightarrow> COMP_API_MAX < (case bs_comp_api b of Some a \<Rightarrow> a | None \<Rightarrow> 1)"
      by (auto simp: api_verdict_def Let_def COMP_API_MIN_def COMP_API_MAX_def)
    have "UpdateCompanionFirst \<in> set (verdicts b me l) \<longleftrightarrow> UpdateCompanionFirst \<in> set (api_verdict b)"
      using Some False companion_verdict_set [of me]
      by (auto simp: verdicts_def Let_def board_verdict_set split: option.splits)
    then show ?thesis using api Some False by (simp del: split_paired_Ex)
  qed
qed

lemma board_update_of_mem: "board_update_of vs = Some c \<Longrightarrow> \<exists>t. BoardUpdate t c \<in> set vs"
  and board_update_of_None: "board_update_of vs = None \<longleftrightarrow> (\<forall>t c. BoardUpdate t c \<notin> set vs)"
  by (induction vs rule: board_update_of.induct) auto

lemma board_update_of_verdicts:
  "board_update_of (verdicts b me (Some l)) = Some cable \<longleftrightarrow>
     (\<exists>fw v w. bs_firmware b = Some fw \<and> parse_version fw = Some v \<and> bs_ota_state b \<noteq> Some ''pending_verify'' \<and>
        parse_version (lt_firmware l) = Some w \<and> v < w \<and> cable = (bs_ota_layout b \<noteq> Some ''two_slot''))" (is "?l \<longleftrightarrow> ?r")
proof
  assume ?l
  from board_update_of_mem [OF this] show ?r using BoardUpdate_in_verdicts [of _ cable b me "Some l"] by auto
next
  assume ?r
  then have "BoardUpdate (lt_firmware l) cable \<in> set (verdicts b me (Some l))" by (subst BoardUpdate_in_verdicts) auto
  then obtain c where c: "board_update_of (verdicts b me (Some l)) = Some c"
    using board_update_of_None by (cases "board_update_of (verdicts b me (Some l))") blast+
  from board_update_of_mem [OF c] have "c = (bs_ota_layout b \<noteq> Some ''two_slot'')"
    using BoardUpdate_in_verdicts [of _ c b me "Some l"] by auto
  with c \<open>?r\<close> show ?l by auto
qed

lemma offer_board:
  "offer (Some s) (Some r) me paired = OfBoard b \<longleftrightarrow>
     (\<exists>fw v w. sn_firmware s = Some fw \<and> parse_version fw = Some v \<and> parse_version (or_version r) = Some w \<and> v < w \<and>
        sn_state s \<noteq> Some ''pending_verify'' \<and> (case sn_comp_api s of Some a \<Rightarrow> a | None \<Rightarrow> 1) \<le> COMP_API_MAX \<and>
        b = \<lparr>bo_to = or_version r, bo_size = as_size (or_image r),
          bo_changes = map (\<lambda>c. (cl_version c, str_trim (cl_text c))) (changes_since r fw), bo_security = or_security r,
          bo_over_air = (sn_layout s = Some ''two_slot'' \<and> paired \<and> (\<exists>m. parse_version (or_min_from r) = Some m \<and> m \<le> v)),
          bo_cable_once = (sn_layout s \<noteq> Some ''two_slot'')\<rparr>)" (is "?l \<longleftrightarrow> ?r")
proof -
  let ?vs = "verdicts (seen_core s) me (Some (release_latest r))"
  show ?thesis
  proof
    assume l: ?l
    then have v: "Verifying \<notin> set ?vs" "UpdateCompanionFirst \<notin> set ?vs"
      by (auto simp: offer_def Let_def split: if_splits)
    from l v obtain fw cable where fw: "sn_firmware s = Some fw" and cable: "board_update_of ?vs = Some cable"
      and b: "b = \<lparr>bo_to = or_version r, bo_size = as_size (or_image r),
                         bo_changes = map (\<lambda>c. (cl_version c, str_trim (cl_text c))) (changes_since r fw),
                         bo_security = or_security r,
                         bo_over_air = (\<not> cable \<and> paired \<and> has_engine s \<and> reachable_from r fw),
                         bo_cable_once = cable\<rparr>"
      by (auto simp: offer_def Let_def split: if_splits option.splits)
    from cable [unfolded board_update_of_verdicts] obtain fw' x w where
      "bs_firmware (seen_core s) = Some fw'" "parse_version fw' = Some x" "bs_ota_state (seen_core s) \<noteq> Some ''pending_verify''"
      "parse_version (lt_firmware (release_latest r)) = Some w" "x < w"
      "cable = (bs_ota_layout (seen_core s) \<noteq> Some ''two_slot'')" by blast
    with fw have x: "parse_version fw = Some x" "parse_version (or_version r) = Some w" "x < w" "sn_state s \<noteq> Some ''pending_verify''"
        "cable = (sn_layout s \<noteq> Some ''two_slot'')"
      by (simp_all add: seen_core_def release_latest_def)
    have api: "(case sn_comp_api s of Some a \<Rightarrow> a | None \<Rightarrow> 1) \<le> COMP_API_MAX"
      using v(2) [unfolded companion_first_in_verdicts] fw x by (auto simp: seen_core_def not_less simp del: split_paired_Ex split_paired_All)
    have "bo_over_air b = (sn_layout s = Some ''two_slot'' \<and> paired \<and> (\<exists>m. parse_version (or_min_from r) = Some m \<and> m \<le> x))"
      unfolding b by (cases "parse_version (or_min_from r)") (auto simp: x has_engine_def reachable_from_def)
    then show ?r
      by (intro exI [of _ fw] exI [of _ x] exI [of _ w]) (use fw x api b in \<open>simp del: split_paired_Ex\<close>)
  next
    assume ?r
    then obtain fw v w where fw: "sn_firmware s = Some fw" "parse_version fw = Some v" "parse_version (or_version r) = Some w" "v < w"
        "sn_state s \<noteq> Some ''pending_verify''" and api: "(case sn_comp_api s of Some a \<Rightarrow> a | None \<Rightarrow> 1) \<le> COMP_API_MAX"
      and b: "b = \<lparr>bo_to = or_version r, bo_size = as_size (or_image r),
          bo_changes = map (\<lambda>c. (cl_version c, str_trim (cl_text c))) (changes_since r fw), bo_security = or_security r,
          bo_over_air = (sn_layout s = Some ''two_slot'' \<and> paired \<and> (\<exists>m. parse_version (or_min_from r) = Some m \<and> m \<le> v)),
          bo_cable_once = (sn_layout s \<noteq> Some ''two_slot'')\<rparr>"
      by (auto simp del: split_paired_Ex)
    have cable: "board_update_of ?vs = Some (sn_layout s \<noteq> Some ''two_slot'')"
      unfolding board_update_of_verdicts by (rule exI [of _ fw], rule exI [of _ v], rule exI [of _ w])
        (simp add: fw seen_core_def release_latest_def)
    then obtain t c where t: "BoardUpdate t c \<in> set ?vs" using board_update_of_mem by blast
    have "Verifying \<notin> set ?vs" "Unknown \<notin> set ?vs"
      using t alone_in_verdicts [of Verifying "seen_core s" me "Some (release_latest r)"]
        alone_in_verdicts [of Unknown "seen_core s" me "Some (release_latest r)"] by auto
    moreover have "UpdateCompanionFirst \<notin> set ?vs"
      unfolding companion_first_in_verdicts using api by (simp add: seen_core_def not_less)
    moreover have "(\<exists>m. parse_version (or_min_from r) = Some m \<and> m \<le> v) = reachable_from r fw"
      by (cases "parse_version (or_min_from r)") (auto simp: reachable_from_def fw)
    ultimately show ?l
      using cable by (auto simp: offer_def Let_def fw b has_engine_def simp del: split_paired_Ex)
  qed
qed

text \<open>A board is offered a release exactly when its firmware is readable and older, it is not proving a new one and
  its protocol is not newer than this Companion speaks; over the air is offered exactly when it has two slots, is paired
  and reachable, and runs at least the version the release can be installed from.  Without a status or a release nothing is
  offered.\<close>

theorem offer_board_iff:
  "(offer (Some s) (Some r) me paired = OfBoard b \<longleftrightarrow>
     (\<exists>fw v w. sn_firmware s = Some fw \<and> parse_version fw = Some v \<and> parse_version (or_version r) = Some w \<and> v < w \<and>
        sn_state s \<noteq> Some ''pending_verify'' \<and> (case sn_comp_api s of Some a \<Rightarrow> a | None \<Rightarrow> 1) \<le> COMP_API_MAX \<and>
        b = \<lparr>bo_to = or_version r, bo_size = as_size (or_image r),
          bo_changes = map (\<lambda>c. (cl_version c, str_trim (cl_text c))) (changes_since r fw), bo_security = or_security r,
          bo_over_air = (sn_layout s = Some ''two_slot'' \<and> paired \<and> (\<exists>m. parse_version (or_min_from r) = Some m \<and> m \<le> v)),
          bo_cable_once = (sn_layout s \<noteq> Some ''two_slot'')\<rparr>)) \<and>
   offer None rel me paired \<noteq> OfBoard b \<and> offer seen_now None me paired \<noteq> OfBoard b"
  unfolding offer_board by (auto simp: offer_def Let_def split: option.split)

subsection \<open>The cable\<close>

text \<open>A port that may be used: the one remembered for this board, or the only one there is.\<close>

definition this_boards :: "com_port list \<Rightarrow> string option \<Rightarrow> string \<Rightarrow> bool" where
  "this_boards com known p \<longleftrightarrow> (\<exists>c \<in> set com. cp_path c = p \<and> (known \<noteq> None \<and> cp_serial c = known \<or> com = [c]))"

lemma mine_or_only_this:
  assumes "(case map_option cp_path (Option.bind known (\<lambda>k. find (\<lambda>c. cp_serial c = Some k) com)) of
      Some p \<Rightarrow> Some p | None \<Rightarrow> (case com of [c] \<Rightarrow> Some (cp_path c) | _ \<Rightarrow> None)) = Some p"
  shows "this_boards com known p"
proof (cases "Option.bind known (\<lambda>k. find (\<lambda>c. cp_serial c = Some k) com)")
  case None
  with assms show ?thesis by (auto simp: this_boards_def split: list.splits)
next
  case (Some c)
  then obtain k where "known = Some k" "find (\<lambda>c. cp_serial c = Some k) com = Some c" by (auto simp: bind_eq_Some_conv)
  then have "c \<in> set com" "known \<noteq> None" "cp_serial c = known" by (auto simp: find_Some_iff)
  with assms Some show ?thesis by (auto simp: this_boards_def)
qed

text \<open>A cable update is planned only while the board neither proves a firmware nor updates over the air, and its port is
  never guessed: it is the port remembered for this board or the only one connected, and the board's own socket is used only
  for a paired board with the engine; with several unknown ports and no such board, the person is asked to leave one.\<close>

theorem cable_plan_never_guesses:
  "(\<forall>plan. cable_plan board paired com known native = Inr plan \<longrightarrow>
      (\<forall>s. board = Some s \<longrightarrow> sn_state s \<noteq> Some ''pending_verify'' \<and> sn_step s \<in> {''idle'', ''ready''}) \<and>
      (case plan of
         Com p \<Rightarrow> this_boards com known p
       | Native port \<Rightarrow> paired \<and> (\<exists>s. board = Some s \<and> has_engine s) \<and> (\<forall>p. port = Some p \<longrightarrow> this_boards com known p))) \<and>
   (board = None \<and> known = None \<and> 1 < length com \<longrightarrow>
      cable_plan board paired com known native =
        Inl ''several boards' COM ports are connected - leave only this board's COM cable in'')"
  (is "?plans \<and> ?several")
proof
  let ?mine = "map_option cp_path (Option.bind known (\<lambda>k. find (\<lambda>c. cp_serial c = Some k) com))"
  let ?only = "case com of [c] \<Rightarrow> Some (cp_path c) | _ \<Rightarrow> None"
  let ?port = "case ?mine of Some p \<Rightarrow> Some p | None \<Rightarrow> ?only"
  let ?native_ok = "case board of Some s \<Rightarrow> paired \<and> has_engine s | None \<Rightarrow> False"
  show ?plans
  proof (intro allI impI)
    fix plan assume p: "cable_plan board paired com known native = Inr plan"
    have quiet: "\<not> (case board of Some s \<Rightarrow> sn_state s = Some ''pending_verify'' | None \<Rightarrow> False)"
      "\<not> (case board of Some s \<Rightarrow> sn_step s \<noteq> ''idle'' \<and> sn_step s \<noteq> ''ready'' | None \<Rightarrow> False)"
      using p unfolding cable_plan_def by (metis Inl_Inr_False)+
    have plan: "(if ?mine \<noteq> None \<and> \<not> native then Inr (Com (the ?mine))
          else if ?native_ok then Inr (Native ?port)
          else (case ?port of
               Some p \<Rightarrow> Inr (Com p)
             | None \<Rightarrow> if com = [] then Inl ''connect the board's COM port (the second USB-C) to this computer''
                 else Inl ''several boards' COM ports are connected - leave only this board's COM cable in'')) = Inr plan"
      using p unfolding cable_plan_def Let_def if_not_P [OF quiet(1)] if_not_P [OF quiet(2)] .
    have port: "this_boards com known q" if "?port = Some q" for q using mine_or_only_this [OF that] .
    have "case plan of
         Com p \<Rightarrow> this_boards com known p
       | Native port \<Rightarrow> paired \<and> (\<exists>s. board = Some s \<and> has_engine s) \<and> (\<forall>p. port = Some p \<longrightarrow> this_boards com known p)"
    proof (cases "?mine \<noteq> None \<and> \<not> native")
      case True
      then obtain q where q: "?mine = Some q" by blast
      then have "?port = Some q" unfolding q by simp
      with True plan q port show ?thesis by auto
    next
      case False
      show ?thesis
      proof (cases ?native_ok)
        case True
        have "plan = Native ?port" using plan unfolding if_not_P [OF False] if_P [OF True] by simp
        then show ?thesis using True port by (cases board) simp_all
      next
        case no: False
        show ?thesis
          using plan port unfolding if_not_P [OF False] if_not_P [OF no] by (cases ?port) (auto split: if_splits)
      qed
    qed
    then show "(\<forall>s. board = Some s \<longrightarrow> sn_state s \<noteq> Some ''pending_verify'' \<and> sn_step s \<in> {''idle'', ''ready''}) \<and>
      (case plan of
         Com p \<Rightarrow> this_boards com known p
       | Native port \<Rightarrow> paired \<and> (\<exists>s. board = Some s \<and> has_engine s) \<and> (\<forall>p. port = Some p \<longrightarrow> this_boards com known p))"
      using quiet by (cases board) simp_all
  qed
  show ?several by (cases com) (auto simp: cable_plan_def Let_def split: list.split)
qed

theorem cable_plan_never_guesses_witness:
  "cable_plan None False [\<lparr>cp_path = ''a'', cp_serial = Some ''x''\<rparr>, \<lparr>cp_path = ''b'', cp_serial = Some ''y''\<rparr>] (Some ''y'') False =
     Inr (Com ''b'') \<and>
   this_boards [\<lparr>cp_path = ''a'', cp_serial = Some ''x''\<rparr>, \<lparr>cp_path = ''b'', cp_serial = Some ''y''\<rparr>] (Some ''y'') ''b''"
  using cable_plan_never_guesses [of None False "[\<lparr>cp_path = ''a'', cp_serial = Some ''x''\<rparr>, \<lparr>cp_path = ''b'', cp_serial = Some ''y''\<rparr>]"
      "Some ''y''" False]
  by (simp add: cable_plan_def)

subsection \<open>The COM ports that are remembered\<close>

text \<open>What the file means: the port of each board.\<close>

definition com_list :: "codec \<Rightarrow> string \<Rightarrow> disk \<Rightarrow> (string \<times> string) list" where
  "com_list J dir d = (case com_load J dir d of Some kvs \<Rightarrow> kvs | None \<Rightarrow> [])"

definition com_abs :: "codec \<Rightarrow> string \<Rightarrow> disk \<Rightarrow> string \<rightharpoonup> string" where
  "com_abs J dir d = map_of (map (\<lambda>(k, v). (v, k)) (com_list J dir d))"

text \<open>The abstract operation: the board gets the port, and whoever had it no longer does.\<close>

definition com_give :: "string \<Rightarrow> string \<Rightarrow> (string \<rightharpoonup> string) \<Rightarrow> (string \<rightharpoonup> string)" where
  "com_give m serial f = (\<lambda>x. if x = m then Some serial else if f x = Some serial then None else f x)"

definition com_wf :: "(string \<times> string) list \<Rightarrow> bool" where
  "com_wf kvs \<longleftrightarrow> sorted (map fst kvs) \<and> distinct (map fst kvs) \<and> distinct (map snd kvs)"

lemma com_find: "map_option fst (find (\<lambda>(k, v). v = x) kvs) = map_of (map (\<lambda>(k, v). (v, k)) kvs) x"
  by (induction kvs) auto

lemma com_known_abs: "com_known J dir m d = com_abs J dir d (bare_mac m)"
  by (cases "com_load J dir d") (simp_all add: com_known_def com_abs_def com_list_def com_find)

lemma swap_map_of:
  assumes "distinct (map snd kvs)"
  shows "map_of (map (\<lambda>(k, v). (v, k)) kvs) x = Some k \<longleftrightarrow> (k, x) \<in> set kvs"
proof -
  have "map fst (map (\<lambda>(k, v). (v, k)) kvs) = map snd kvs" by (induction kvs) auto
  with assms have "distinct (map fst (map (\<lambda>(k, v). (v, k)) kvs))" by argo
  from map_of_eq_Some_iff [OF this] show ?thesis by force
qed

lemma com_insert_facts:
  assumes "com_wf kvs"
  shows com_insert_wf: "com_wf (com_insert serial m kvs)"
    and com_insert_set: "set (com_insert serial m kvs) = insert (serial, m) {(k, v) \<in> set kvs. v \<noteq> m \<and> k \<noteq> serial}"
proof -
  let ?f = "filter (\<lambda>(k, v). v \<noteq> m) kvs"
  let ?u = "AList.update serial m ?f"
  have df: "distinct (map fst ?f)" "distinct (map snd ?f)"
    using assms by (simp_all add: com_wf_def distinct_map_filter)
  have du: "distinct (map fst ?u)" using df(1) by (rule distinct_update)
  have mem: "(k, v) \<in> set ?u \<longleftrightarrow> (k = serial \<and> v = m) \<or> (k \<noteq> serial \<and> (k, v) \<in> set ?f)" for k v
    using map_of_eq_Some_iff [OF du, of k v] map_of_eq_Some_iff [OF df(1), of k v] by (auto simp: update_conv' split: if_splits)
  have one: "k = k'" if "(k, v) \<in> set ?f" "(k', v) \<in> set ?f" for k k' v
    using that df(2) unfolding distinct_map inj_on_def by (metis prod.inject snd_conv)
  have "inj_on snd (set ?u)"
  proof (rule inj_onI)
    fix p q assume p: "p \<in> set ?u" "q \<in> set ?u" "snd p = snd q"
    obtain k k' v where pq: "p = (k, v)" "q = (k', v)" using p(3) by (cases p; cases q) simp
    have "(k, m) \<notin> set ?f" "(k', m) \<notin> set ?f" by simp_all
    then show "p = q" using p(1,2) one [of k v k'] unfolding pq mem by blast
  qed
  with du have "distinct (map snd ?u)" unfolding distinct_map by blast
  moreover have "mset (com_insert serial m kvs) = mset ?u" by (simp add: com_insert_def)
  ultimately have "distinct (map snd (com_insert serial m kvs))" "distinct (map fst (com_insert serial m kvs))"
    using du by (simp_all add: com_insert_def distinct_map)
  then show "com_wf (com_insert serial m kvs)" by (simp add: com_wf_def com_insert_def)
  show "set (com_insert serial m kvs) = insert (serial, m) {(k, v) \<in> set kvs. v \<noteq> m \<and> k \<noteq> serial}"
    using mem by (auto simp: com_insert_def)
qed

lemma update_new: "k \<notin> fst ` set al \<Longrightarrow> AList.update k v al = al @ [(k, v)]"
  by (induction al) auto

lemma btree_wf: "com_wf kvs \<Longrightarrow> btree kvs = kvs"
proof -
  have "fold (\<lambda>(k, v). AList.update k v) kvs acc = acc @ kvs" if "distinct (map fst (acc @ kvs))" for acc
    using that
  proof (induction kvs arbitrary: acc)
    case (Cons kv kvs)
    obtain k v where kv: "kv = (k, v)" by (cases kv)
    have "AList.update k v acc = acc @ [(k, v)]" using Cons.prems by (intro update_new) (auto simp: kv)
    then show ?case using Cons.IH [of "acc @ [(k, v)]"] Cons.prems by (simp add: kv)
  qed simp
  from this [of "[]"] show "com_wf kvs \<Longrightarrow> btree kvs = kvs" by (simp add: btree_def com_wf_def sort_key_id_if_sorted)
qed

lemma com_json_roundtrip: "com_wf kvs \<Longrightarrow> com_map_of_json (com_json kvs) = Some kvs"
  by (simp add: com_json_def com_map_of_json_def all_some_def comp_def btree_wf case_prod_unfold list_all_iff list.map_ident)

text \<open>A file is written beside and renamed: the path has all of it or what it had.\<close>

lemma replace_file:
  assumes "tmp \<noteq> path"
  shows "case seq fs_mkdir (seq (fs_write tmp body) (fs_rename tmp path)) d of (r, d') \<Rightarrow>
    (r = Ok () \<and> files d' path = Some body \<or> r = Err ''io'' \<and> files d' path = files d path) \<and>
    (\<forall>p. p \<noteq> path \<and> p \<noteq> tmp \<longrightarrow> files d' p = files d p)"
  using assms
  by (auto simp: seq_def bnd_def fs_mkdir_def fs_write_def fs_create_def fs_append_def fs_rename_def io_next_def
      split: list.splits option.splits)

lemma com_remember_files:
  "case com_remember J dir serial m d of (r, d') \<Rightarrow>
    (r = Ok () \<and> files d' (com_file dir) = Some (js_print J (com_json (com_insert serial (bare_mac m) (com_list J dir d)))) \<or>
     r = Err ''io'' \<and> files d' (com_file dir) = files d (com_file dir))"
  using replace_file [of "com_file dir @ ''.part''" "com_file dir" "js_print J (com_json (com_insert serial (bare_mac m) (com_list J dir d)))" d]
  by (simp add: com_remember_def bnd_def asks_def com_list_def split: prod.splits)

text \<open>Remembering a board's COM port implements an update of the map from boards to ports: when it succeeds, the board has
  exactly that port, another board that had it has none, and every other board keeps its own; when it fails, at any of its
  file operations, the map is what it was.  The file it leaves is again sorted, with one port for each board and one board
  for each port, and what is looked up for a board is that map at its address.\<close>

theorem com_remember_refines:
  assumes "com_wf (com_list J dir d)" and "codec_ok J (com_json (com_insert serial (bare_mac m) (com_list J dir d)))"
  shows "case com_remember J dir serial m d of (r, d') \<Rightarrow>
    com_wf (com_list J dir d') \<and> (\<forall>x. com_known J dir x d' = com_abs J dir d' (bare_mac x)) \<and>
    (r = Ok () \<and> com_abs J dir d' = com_give (bare_mac m) serial (com_abs J dir d) \<or>
     r = Err ''io'' \<and> com_abs J dir d' = com_abs J dir d)"
proof -
  let ?new = "com_insert serial (bare_mac m) (com_list J dir d)"
  obtain r d' where run: "com_remember J dir serial m d = (r, d')" by fastforce
  note wf = com_insert_wf [OF assms(1), of serial "bare_mac m"]
  consider (ok) "r = Ok ()" "files d' (com_file dir) = Some (js_print J (com_json ?new))"
    | (io) "r = Err ''io''" "files d' (com_file dir) = files d (com_file dir)"
    using com_remember_files [of dir J serial m d] unfolding run by auto
  then show ?thesis
  proof cases
    case ok
    have new: "com_list J dir d' = ?new"
      using ok assms(2) com_json_roundtrip [OF wf] by (simp add: com_list_def com_load_def codec_ok_def)
    have old: "com_abs J dir d x = Some k \<longleftrightarrow> (k, x) \<in> set (com_list J dir d)" for x k
      unfolding com_abs_def by (rule swap_map_of) (use assms(1) in \<open>simp add: com_wf_def\<close>)
    have "com_abs J dir d' x = Some k \<longleftrightarrow> com_give (bare_mac m) serial (com_abs J dir d) x = Some k" for x k
      unfolding com_abs_def [of J dir d'] new swap_map_of [OF wf [unfolded com_wf_def, THEN conjunct2, THEN conjunct2]]
        com_insert_set [OF assms(1)] using old [of x k] old [of x serial] by (auto simp: com_give_def)
    then have "com_abs J dir d' = com_give (bare_mac m) serial (com_abs J dir d)"
      by (intro ext option.expand) (metis not_None_eq option.sel)+
    with ok show ?thesis unfolding run by (simp add: new wf com_known_abs)
  next
    case io
    then have "com_list J dir d' = com_list J dir d" by (simp add: com_list_def com_load_def)
    with io assms(1) show ?thesis unfolding run by (simp add: com_abs_def com_known_abs)
  qed
qed

text \<open>The file is not there yet, and the codec reads what it wrote.\<close>

definition com_demo_codec :: codec where
  "com_demo_codec = \<lparr>js_print = (\<lambda>v. if v = com_json [(''PORT1'', ''DCDA0C112233'')] then ''p1'' else ''p''),
     js_parse = (\<lambda>s. if s = ''p1'' then Some (com_json [(''PORT1'', ''DCDA0C112233'')]) else None)\<rparr>"

theorem com_remember_refines_witness:
  "com_known com_demo_codec ''u'' ''dc:da:0c:11:22:33''
     (snd (com_remember com_demo_codec ''u'' ''PORT1'' ''DC:DA:0C:11:22:33'' \<lparr>files = \<lambda>_. None, io_errors = []\<rparr>)) = Some ''PORT1''"
proof -
  let ?d = "\<lparr>files = \<lambda>_. None, io_errors = []\<rparr> :: disk"
  have b: "bare_mac ''DC:DA:0C:11:22:33'' = ''DCDA0C112233''" "bare_mac ''dc:da:0c:11:22:33'' = ''DCDA0C112233''"
    by code_simp+
  have none: "com_list com_demo_codec ''u'' ?d = []" by (simp add: com_list_def com_load_def)
  have new: "com_insert ''PORT1'' ''DCDA0C112233'' [] = [(''PORT1'', ''DCDA0C112233'')]" by (simp add: com_insert_def)
  have "fst (com_remember com_demo_codec ''u'' ''PORT1'' ''DC:DA:0C:11:22:33'' ?d) = Ok ()"
    by (simp add: com_remember_def seq_def bnd_def asks_def fs_mkdir_def fs_write_def fs_create_def fs_append_def fs_rename_def io_next_def)
  moreover have "codec_ok com_demo_codec (com_json [(''PORT1'', ''DCDA0C112233'')])" by (simp add: codec_ok_def com_demo_codec_def)
  ultimately show ?thesis
    using com_remember_refines [of com_demo_codec "''u''" ?d "''PORT1''" "''DC:DA:0C:11:22:33''"]
    unfolding none b new by (auto simp: b com_wf_def com_give_def split: prod.splits)
qed

subsection \<open>The installer\<close>

text \<open>An installer is handed over only when the file at its path is, byte for byte, one the signed release pins by size and
  SHA-256; and whatever fails - the network, the digest, the disk at any operation - the file that was there before is left
  whole.  Nothing but it and the part beside it is touched.\<close>

theorem installer_whole_or_untouched:
  "case fetch_installer V source a dir h of (r, h') \<Rightarrow>
     (\<forall>p. r = Ok p \<longrightarrow> p = path_join dir (as_name a) \<and>
        (\<exists>b. files (uh_disk h') p = Some (map chr b) \<and> asset_matches V a b)) \<and>
     ((\<forall>p. r \<noteq> Ok p) \<longrightarrow> files (uh_disk h') (path_join dir (as_name a)) = files (uh_disk h) (path_join dir (as_name a))) \<and>
     (\<forall>p. p \<noteq> path_join dir (as_name a) \<and> p \<noteq> path_join dir (as_name a @ ''.part'') \<longrightarrow> files (uh_disk h') p = files (uh_disk h) p)"
proof -
  let ?path = "path_join dir (as_name a)" and ?tmp = "path_join dir (as_name a @ ''.part'')"
  obtain o1 n where f: "fetch_asset V source a INSTALLER_CAP (uh_net h) = (o1, n)" by fastforce
  have ok: "asset_matches V a b" if "o1 = Ok b" for b
  proof -
    from f that have "fetch_asset V source a INSTALLER_CAP (uh_net h) = (Ok b, n)" by simp
    then show ?thesis unfolding fetch_asset_def bnd_eq_Ok by (auto simp: ret_def throw_def split: if_splits)
  qed
  have ne: "?tmp \<noteq> ?path"
    by (cases "as_name a") (simp_all add: path_join_def starts_with_def)
  show ?thesis
  proof (cases o1)
    case (Ok b)
    obtain r d' where run: "seq fs_mkdir (seq (fs_write ?tmp (map chr b)) (fs_rename ?tmp ?path)) (uh_disk h) = (r, d')" by fastforce
    note written = replace_file [OF ne, of "map chr b" "uh_disk h", unfolded run prod.case]
    from written ok [OF Ok] show ?thesis
      by (auto simp: fetch_installer_def bnd_def zoom_def f Ok Let_def seq_def [of "zoom _ _ _ _"] run ret_def) blast
  qed (simp_all add: fetch_installer_def bnd_def zoom_def f)
qed

theorem installer_whole_or_untouched_witness:
  "let a = \<lparr>as_name = ''a.exe'', as_size = 3, as_sha256 = []\<rparr>;
       h = \<lparr>uh_net = demo_net\<lparr>uw_gets := [Inr [77, 90, 0]]\<rparr>, uh_disk = \<lparr>files = \<lambda>_. None, io_errors = []\<rparr>\<rparr>
   in \<exists>b. files (uh_disk (snd (fetch_installer demo_ota_env [] a ''u'' h))) ''u/a.exe'' = Some (map chr b) \<and>
     asset_matches demo_ota_env a b"
proof -
  let ?a = "\<lparr>as_name = ''a.exe'', as_size = 3, as_sha256 = []\<rparr>"
  let ?h = "\<lparr>uh_net = demo_net\<lparr>uw_gets := [Inr [77, 90, 0]]\<rparr>, uh_disk = \<lparr>files = \<lambda>_. None, io_errors = []\<rparr>\<rparr>"
  have p: "path_join ''u'' (as_name ?a) = ''u/a.exe''" by (simp add: path_join_def starts_with_def)
  have m: "asset_matches demo_ota_env ?a [77, 90, 0]" by (simp add: asset_matches_def demo_ota_env_def)
  have "fst (fetch_installer demo_ota_env [] ?a ''u'' ?h) = Ok ''u/a.exe''"
    using m p by (simp add: fetch_installer_def fetch_asset_def uw_get_def demo_net_def zoom_def bnd_def seq_def ret_def Let_def
        fs_mkdir_def fs_write_def fs_create_def fs_append_def fs_rename_def io_next_def)
  then obtain h' where run: "fetch_installer demo_ota_env [] ?a ''u'' ?h = (Ok ''u/a.exe'', h')" by (metis prod.collapse)
  from installer_whole_or_untouched [where V = demo_ota_env and source = "[]" and a = ?a and dir = "''u''" and h = ?h, unfolded run prod.case p]
  show ?thesis unfolding Let_def run snd_conv by blast
qed

end
