(* ===== verification/Store.thy ===== *)
theory Store
  imports Update Discovery Pairing "HOL-Library.Sublist"
begin

section \<open>What the app keeps between runs (crates/hidfi-companion/src/store.rs)\<close>

text \<open>
  The state file, one key file for each board and the WebRTC certificate, on the disk of the cable update: every
  operation on it may fail, and an append may leave any part of what it was to write.  A power cut is the last
  failure of a run.  Reads give what is there.  JSON and hex are arguments; so are the random bytes of a new id, the
  name the system gives this computer and the certificate that is made when there is none.  File modes are left out.
\<close>

subsection \<open>Definitions: the state\<close>

record known_board =
  kb_mac :: string
  kb_url :: string

record store_state =
  ss_id :: string
  ss_name :: string
  ss_board_mac :: "string option"
  ss_board_url :: "string option"
  ss_boards :: "known_board list"
  ss_display :: "u32 option"
  ss_start_at_login :: bool
  ss_share_sound :: bool
  ss_share_mic :: bool

text \<open>The derived serde forms.\<close>

definition json_of_board :: "known_board \<Rightarrow> json" where
  "json_of_board b = JObj [(''mac'', JStr (kb_mac b)), (''url'', JStr (kb_url b))]"

definition board_of_json :: "json \<Rightarrow> known_board option" where
  "board_of_json v =
     (case v of
        JObj ms \<Rightarrow>
          (case (typed ms ''mac'' as_str, typed ms ''url'' as_str) of
             (Some m, Some u) \<Rightarrow> Some \<lparr>kb_mac = m, kb_url = u\<rparr> | _ \<Rightarrow> None)
      | _ \<Rightarrow> None)"

definition boards_of_json :: "json \<Rightarrow> known_board list option" where
  "boards_of_json v =
     (case v of
        JArr xs \<Rightarrow> if list_all (\<lambda>x. board_of_json x \<noteq> None) xs then Some (map (the \<circ> board_of_json) xs) else None
      | _ \<Rightarrow> None)"

definition optional :: "string \<Rightarrow> string option \<Rightarrow> (string \<times> json) list" where
  "optional k t = (case t of None \<Rightarrow> [] | Some s \<Rightarrow> [(k, JStr s)])"

definition json_of_state :: "store_state \<Rightarrow> json" where
  "json_of_state s = JObj
     ([(''id'', JStr (ss_id s)), (''name'', JStr (ss_name s))] @ optional ''board_mac'' (ss_board_mac s) @
      optional ''board_url'' (ss_board_url s) @
      [(''boards'', JArr (map json_of_board (ss_boards s))),
       (''display'', case ss_display s of None \<Rightarrow> JNull | Some n \<Rightarrow> JInt (uint n)),
       (''start_at_login'', JBool (ss_start_at_login s)), (''share_sound'', JBool (ss_share_sound s)),
       (''share_mic'', JBool (ss_share_mic s))])"

definition state_of_json :: "json \<Rightarrow> store_state option" where
  "state_of_json v =
     (case v of
        JObj ms \<Rightarrow>
          (case (typed ms ''id'' as_str, typed ms ''name'' as_str, opt_field ms ''board_mac'' as_str,
                 opt_field ms ''board_url'' as_str, default_field ms ''boards'' boards_of_json [], opt_field ms ''display'' as_u32,
                 default_field ms ''start_at_login'' as_bool True, default_field ms ''share_sound'' as_bool True,
                 default_field ms ''share_mic'' as_bool False) of
             (Some i, Some n, Some bm, Some bu, Some bs, Some d, Some l, Some so, Some mi) \<Rightarrow>
               Some \<lparr>ss_id = i, ss_name = n, ss_board_mac = bm, ss_board_url = bu, ss_boards = bs, ss_display = d,
                 ss_start_at_login = l, ss_share_sound = so, ss_share_mic = mi\<rparr>
           | _ \<Rightarrow> None)
      | _ \<Rightarrow> None)"

text \<open>\<open>State::default()\<close>: the derived one, every switch off.\<close>

definition state_default :: store_state where
  "state_default = \<lparr>ss_id = [], ss_name = [], ss_board_mac = None, ss_board_url = None, ss_boards = [], ss_display = None,
     ss_start_at_login = False, ss_share_sound = False, ss_share_mic = False\<rparr>"

record store_env =
  so_json :: codec
  so_hex :: hex_crate
  so_dir :: string

subsection \<open>Definitions: files\<close>

definition fs_remove :: "string \<Rightarrow> unit fprog_disk" where
  "fs_remove p d =
     (case io_next d of
        (Some _, d') \<Rightarrow> (Err ''io'', d')
      | (None, d') \<Rightarrow>
          if files d' p = None then (Err ''not found'', d')
          else (Ok (), d'\<lparr>files := (files d')(p := None)\<rparr>))"

definition fs_create_new :: "string \<Rightarrow> unit fprog_disk" where
  "fs_create_new p d =
     (case io_next d of
        (Some _, d') \<Rightarrow> (Err ''io'', d')
      | (None, d') \<Rightarrow>
          if files d' p = None then (Ok (), d'\<lparr>files := (files d')(p := Some [])\<rparr>) else (Err ''exists'', d'))"

definition open_new :: "string \<Rightarrow> unit fprog_disk" where
  "open_new p = bnd (attempt (fs_remove p)) (\<lambda>_. fs_create_new p)"

definition write_atomic :: "string \<Rightarrow> string \<Rightarrow> unit fprog_disk" where
  "write_atomic path data =
     (let tmp = with_extension_tmp path in
      seq (open_new tmp)
      (seq (fs_append tmp data)
      (seq fs_sync (fs_rename tmp path))))"

text \<open>Removing a file that is not there is no error.\<close>

definition fs_forget :: "string \<Rightarrow> unit fprog_disk" where
  "fs_forget p = bnd (attempt (fs_remove p)) (\<lambda>r. case r of
     Inl e \<Rightarrow> if e \<noteq> ''not found'' then throw e else ret ()
   | Inr _ \<Rightarrow> ret ())"

definition store_path :: "store_env \<Rightarrow> string \<Rightarrow> string" where
  "store_path E n = path_join (so_dir E) n"

subsection \<open>Definitions: the state file\<close>

definition load_state :: "store_env \<Rightarrow> disk \<Rightarrow> store_state option" where
  "load_state E d = Option.bind (Option.bind (files d (store_path E ''state.json'')) (js_parse (so_json E))) state_of_json"

definition id_ok :: "string \<Rightarrow> bool" where
  "id_ok i \<longleftrightarrow> length i = 32 \<and> list_all is_hexdigit i"

definition computer_name :: "string \<Rightarrow> string" where
  "computer_name raw = clean_name (str_trim raw)"

definition save_state :: "store_env \<Rightarrow> store_state \<Rightarrow> unit fprog_disk" where
  "save_state E s = write_atomic (store_path E ''state.json'') (js_print (so_json E) (json_of_state s))"

text \<open>\<open>Store::state\<close>, with the random bytes and the system's name in case they are needed.\<close>

definition fresh_state :: "store_env \<Rightarrow> u8 list \<Rightarrow> string \<Rightarrow> store_state" where
  "fresh_state E rnd raw = state_default\<lparr>ss_id := hx_encode (so_hex E) rnd, ss_name := computer_name raw, ss_start_at_login := True\<rparr>"

definition get_state :: "store_env \<Rightarrow> u8 list \<Rightarrow> string \<Rightarrow> store_state fprog_disk" where
  "get_state E rnd raw =
     bnd (asks (load_state E)) (\<lambda>l.
       if (case l of Some s \<Rightarrow> id_ok (ss_id s) | None \<Rightarrow> False) then ret (the l)
       else bnd (attempt (save_state E (fresh_state E rnd raw))) (\<lambda>_. ret (fresh_state E rnd raw)))"

subsection \<open>Definitions: the keys\<close>

definition read_key :: "store_env \<Rightarrow> string \<Rightarrow> disk \<Rightarrow> pair_key option" where
  "read_key E p d = Option.bind (files d p) (\<lambda>t.
     if \<not> is_text t then None
     else (case hx_decode (so_hex E) (str_trim t) of
             Some b \<Rightarrow> if length b = 32 then Some (PairKey b) else None
           | None \<Rightarrow> None))"

definition key_name :: "store_env \<Rightarrow> mac \<Rightarrow> string" where
  "key_name E m = ''pairing-'' @ mac_hex (so_hex E) m @ ''.key''"

definition key_path :: "store_env \<Rightarrow> mac \<Rightarrow> string" where
  "key_path E m = store_path E (key_name E m)"

definition key_for :: "store_env \<Rightarrow> mac \<Rightarrow> disk \<Rightarrow> pair_key option" where
  "key_for E m d = read_key E (key_path E m) d"

definition strip_suffix :: "string \<Rightarrow> string \<Rightarrow> string option" where
  "strip_suffix p s = map_option rev (strip_prefix (rev p) (rev s))"

definition key_entry :: "store_env \<Rightarrow> disk \<Rightarrow> string \<Rightarrow> (mac \<times> pair_key) option" where
  "key_entry E d n =
     (if \<not> is_text n then None
      else
        (case Option.bind (Option.bind (strip_prefix ''pairing-'' n) (strip_suffix ''.key'')) mac_parse of
           None \<Rightarrow> None
         | Some m \<Rightarrow> map_option (Pair m) (read_key E (store_path E n) d)))"

text \<open>\<open>keys\<close>, with the names the directory lists.\<close>

definition stored_keys :: "store_env \<Rightarrow> string list \<Rightarrow> disk \<Rightarrow> (mac \<times> pair_key) list" where
  "stored_keys E names d = sort_key fst (List.map_filter (key_entry E d) names)"

definition save_key_for :: "store_env \<Rightarrow> mac \<Rightarrow> pair_key option \<Rightarrow> unit fprog_disk" where
  "save_key_for E m k =
     (case k of
        Some k \<Rightarrow> write_atomic (key_path E m) (hx_encode (so_hex E) (key_bytes k))
      | None \<Rightarrow> fs_forget (key_path E m))"

subsection \<open>Definitions: the certificate\<close>

definition store_cert :: "store_env \<Rightarrow> (string \<times> string) option \<Rightarrow> (string \<times> string) option fprog_disk" where
  "store_cert E made =
     bnd (asks (\<lambda>d. (files d (store_path E ''dtls.cert''), files d (store_path E ''dtls.key'')))) (\<lambda>found.
       case found of
         (Some (c # cs), Some (k # ks)) \<Rightarrow> ret (Some (c # cs, k # ks))
       | _ \<Rightarrow>
           (case made of
              None \<Rightarrow> ret None
            | Some (c, k) \<Rightarrow>
                bnd (attempt (seq (write_atomic (store_path E ''dtls.key'') k) (write_atomic (store_path E ''dtls.cert'') c)))
                  (\<lambda>_. ret (Some (c, k)))))"

subsection \<open>Definitions: from one board to many\<close>

record store_world =
  sw_disk :: disk
  sw_state :: store_state

type_synonym 'a sprog2 = "(store_world, string, 'a) prog"

definition on_disk :: "'a fprog_disk \<Rightarrow> 'a sprog2" where
  "on_disk m = zoom sw_disk (\<lambda>d w. w\<lparr>sw_disk := d\<rparr>) (\<lambda>e. e) m"

definition add_board :: "store_env \<Rightarrow> mac \<Rightarrow> store_state \<Rightarrow> store_state" where
  "add_board E m s =
     (case ss_board_url s of
        None \<Rightarrow> s
      | Some url \<Rightarrow>
          (let s' = s\<lparr>ss_board_url := None\<rparr> in
           if list_ex (\<lambda>b. kb_mac b = mac_hex (so_hex E) m) (ss_boards s) then s'
           else s'\<lparr>ss_boards := ss_boards s @ [\<lparr>kb_mac = mac_hex (so_hex E) m, kb_url = url\<rparr>]\<rparr>))"

definition migrate :: "store_env \<Rightarrow> unit sprog2" where
  "migrate E =
     (let legacy = store_path E ''pairing.key'' in
      bnd (asks (\<lambda>w. Option.bind (ss_board_mac (sw_state w)) mac_parse)) (\<lambda>found.
      seq (case found of
             None \<Rightarrow> ret ()
           | Some m \<Rightarrow>
               seq (modify (\<lambda>w. w\<lparr>sw_state := add_board E m (sw_state w)\<rparr>))
               (seq (bnd (asks (\<lambda>w. read_key E legacy (sw_disk w))) (\<lambda>old. case old of
                       None \<Rightarrow> ret ()
                     | Some k \<Rightarrow>
                         bnd (asks (\<lambda>w. key_for E m (sw_disk w))) (\<lambda>have. case have of
                           None \<Rightarrow> on_disk (save_key_for E m (Some k))
                         | Some _ \<Rightarrow> ret ())))
               (seq (modify (\<lambda>w. w\<lparr>sw_state := (sw_state w)\<lparr>ss_board_mac := None\<rparr>\<rparr>))
                 (bnd (asks sw_state) (\<lambda>s. on_disk (save_state E s))))))
        (on_disk (fs_forget legacy))))"

text \<open>\<open>remember\<close>: nothing is written when the address is the one that is kept.\<close>

definition set_url :: "store_env \<Rightarrow> mac \<Rightarrow> string \<Rightarrow> store_state \<Rightarrow> store_state" where
  "set_url E m url s =
     (case position (\<lambda>b. kb_mac b = mac_hex (so_hex E) m) (ss_boards s) of
        Some i \<Rightarrow> s\<lparr>ss_boards := (ss_boards s)[i := (ss_boards s ! i)\<lparr>kb_url := url\<rparr>]\<rparr>
      | None \<Rightarrow> s\<lparr>ss_boards := ss_boards s @ [\<lparr>kb_mac = mac_hex (so_hex E) m, kb_url = url\<rparr>]\<rparr>)"

definition remember :: "store_env \<Rightarrow> mac \<Rightarrow> string \<Rightarrow> unit sprog2" where
  "remember E m url =
     bnd (asks sw_state) (\<lambda>s.
       if (case find (\<lambda>b. kb_mac b = mac_hex (so_hex E) m) (ss_boards s) of Some b \<Rightarrow> kb_url b = url | None \<Rightarrow> False) then ret ()
       else
         seq (modify (\<lambda>w. w\<lparr>sw_state := set_url E m url (sw_state w)\<rparr>))
           (on_disk (save_state E (set_url E m url s))))"

definition remembered :: "store_state \<Rightarrow> (mac \<times> string) list" where
  "remembered s = List.map_filter (\<lambda>b. map_option (\<lambda>m. (m, kb_url b)) (mac_parse (kb_mac b))) (ss_boards s)"

subsection \<open>Paths\<close>

definition dir_part :: "string \<Rightarrow> string" where
  "dir_part d = (if d = [] \<or> last d = CHR ''/'' then d else d @ ''/'')"

text \<open>The names of the files that are kept: no slash, and not the temporary name of another.\<close>

definition kept :: "string \<Rightarrow> bool" where
  "kept n \<longleftrightarrow> n \<noteq> [] \<and> CHR ''/'' \<notin> set n \<and> last n \<noteq> CHR ''p''"

lemma store_path_kept: "kept n \<Longrightarrow> store_path E n = dir_part (so_dir E) @ n"
  by (cases n) (auto simp: kept_def store_path_def path_join_def dir_part_def starts_with_def)

lemma store_path_inj: "kept n \<Longrightarrow> kept n' \<Longrightarrow> store_path E n = store_path E n' \<longleftrightarrow> n = n'"
  by (simp add: store_path_kept)

lemma takeWhile_dir: "takeWhile (\<lambda>c. c \<noteq> CHR ''/'') (rev (dir_part d)) = []"
  by (cases d rule: rev_cases) (auto simp: dir_part_def)

lemma tmp_of_kept:
  assumes "kept n"
  shows "with_extension_tmp (store_path E n) = dir_part (so_dir E) @ stem_of n @ ''.tmp''"
proof -
  have "takeWhile (\<lambda>c. c \<noteq> CHR ''/'') (rev n @ rev (dir_part d)) = rev n @ takeWhile (\<lambda>c. c \<noteq> CHR ''/'') (rev (dir_part d))" for d
    using assms by (intro takeWhile_append2) (auto simp: kept_def)
  then have "file_part (dir_part d @ n) = n" for d by (simp add: file_part_def takeWhile_dir)
  then show ?thesis by (simp add: with_extension_tmp_def store_path_kept [OF assms])
qed

lemma tmp_not_kept: "kept n \<Longrightarrow> kept n' \<Longrightarrow> with_extension_tmp (store_path E n) \<noteq> store_path E n'"
  unfolding tmp_of_kept store_path_kept [of n'] by (auto simp: kept_def)

lemma kept_names [simp]: "kept ''state.json''" "kept ''pairing.key''" "kept ''dtls.cert''" "kept ''dtls.key''"
  by (simp_all add: kept_def)

lemma upper_hex_char: "c \<in> set (hex2_upper b) \<Longrightarrow> is_hexdigit c"
  using upper_digits [OF upper_hex_upper [of "[b]"]] by (simp add: list_all_iff)

lemma mac_hex_chars: "hex_ok X \<Longrightarrow> c \<in> set (mac_hex X m) \<Longrightarrow> is_hexdigit c"
  by (auto simp: mac_hex_def hex_ok_def dest: upper_hex_char)

lemma slash_no_digit: "\<not> is_hexdigit (CHR ''/'')"
  by (simp add: is_hexdigit_def hex_val_def)

lemma kept_key_name [simp]: "hex_ok (so_hex E) \<Longrightarrow> kept (key_name E m)"
  using mac_hex_chars [of "so_hex E" "CHR ''/''" m] by (auto simp: kept_def key_name_def slash_no_digit)

lemma mac_hex_eq_iff: "hex_ok X \<Longrightarrow> mac_hex X m = mac_hex X m' \<longleftrightarrow> m = m'"
proof -
  assume X: "hex_ok X"
  have "length (concat (map hex2_upper bs)) = 2 * length bs" for bs using X by (metis hex_ok_def)
  then show ?thesis
    using X concat_hex2_upper_inj [of "mac_bytes m" "mac_bytes m'"] by (cases m; cases m') (auto simp: mac_hex_def hex_ok_def)
qed

lemma key_name_inj: "hex_ok (so_hex E) \<Longrightarrow> key_name E m = key_name E m' \<longleftrightarrow> m = m'"
  by (simp add: key_name_def mac_hex_eq_iff)

lemma key_name_other: "key_name E m \<noteq> ''pairing.key''" "key_name E m \<noteq> ''state.json''"
  by (simp_all add: key_name_def)

subsection \<open>Files: the old one or the new one\<close>

lemma write_atomic_cases:
  assumes "with_extension_tmp path \<noteq> path"
  shows "case write_atomic path data d of (r, d') \<Rightarrow>
    (r = Ok () \<and> files d' path = Some data \<or> (\<exists>e. r = Err e) \<and> files d' path = files d path) \<and>
    (\<forall>p. p \<noteq> path \<and> p \<noteq> with_extension_tmp path \<longrightarrow> files d' p = files d p)"
  using assms
  by (auto simp: write_atomic_def open_new_def attempt_def Let_def seq_def bnd_def fs_remove_def fs_create_new_def fs_append_def
      fs_sync_def fs_rename_def io_next_def split: list.splits option.splits if_splits)

lemma fs_forget_cases:
  "case fs_forget path d of (r, d') \<Rightarrow>
    (r = Ok () \<and> files d' path = None \<or> r = Err ''io'' \<and> files d' path = files d path) \<and>
    (\<forall>p. p \<noteq> path \<longrightarrow> files d' p = files d p)"
  by (auto simp: fs_forget_def attempt_def bnd_def fs_remove_def io_next_def ret_def throw_def
      split: list.splits option.splits if_splits)

text \<open>What a write of a kept file leaves of the kept files.\<close>

lemma write_kept:
  assumes "kept n" and "write_atomic (store_path E n) data d = (r, d')"
  shows "r = Ok () \<and> files d' (store_path E n) = Some data \<or> (\<exists>e. r = Err e) \<and> files d' (store_path E n) = files d (store_path E n)"
    and "kept n' \<Longrightarrow> n' \<noteq> n \<Longrightarrow> files d' (store_path E n') = files d (store_path E n')"
proof -
  have t: "with_extension_tmp (store_path E n) \<noteq> store_path E x" if "kept x" for x using tmp_not_kept [OF assms(1) that] .
  note c = write_atomic_cases [OF t [OF assms(1)], where data = data and d = d, unfolded assms(2) prod.case]
  show "r = Ok () \<and> files d' (store_path E n) = Some data \<or> (\<exists>e. r = Err e) \<and> files d' (store_path E n) = files d (store_path E n)"
    using c by blast
  show "files d' (store_path E n') = files d (store_path E n')" if "kept n'" "n' \<noteq> n"
    using c t [OF that(1)] store_path_inj [OF that(1) assms(1)] that(2) by metis
qed

subsection \<open>Files as maps\<close>

text \<open>The contract of everything that is kept under a key on the disk: an operation on one entry sets exactly that entry, or
  fails and leaves all of them.  The client's lemmas are about whole histories of such operations, some of which
  failed.\<close>

fun put_all :: "('k \<Rightarrow> 'v option \<Rightarrow> ('d, 'e, unit) prog) \<Rightarrow> ('k \<times> 'v option) list \<Rightarrow> 'd \<Rightarrow> ('k \<times> 'v option) list \<times> 'd" where
  "put_all put [] d = ([], d)"
| "put_all put ((k, v) # kvs) d =
     (let (r, d') = put k v d; (taken, d'') = put_all put kvs d' in ((if r = Ok () then (k, v) # taken else taken), d''))"

locale atomic_map =
  fixes look :: "'d \<Rightarrow> 'k \<Rightarrow> 'v option"
    and put :: "'k \<Rightarrow> 'v option \<Rightarrow> ('d, 'e, unit) prog"
    and fit :: "'k \<Rightarrow> 'v option \<Rightarrow> bool"
  assumes put_spec: "fit k v \<Longrightarrow> put k v d = (r, d') \<Longrightarrow>
    r = Ok () \<and> look d' = (look d)(k := v) \<or> (\<exists>e. r = Err e) \<and> look d' = look d"
begin

lemma history:
  assumes "\<forall>(k, v) \<in> set kvs. fit k v" and "put_all put kvs d = (taken, d')"
  shows "look d' = fold (\<lambda>(k, v) m. m(k := v)) taken (look d) \<and> subseq taken kvs"
  using assms
proof (induction kvs arbitrary: d taken)
  case (Cons kv kvs)
  obtain k v where kv: "kv = (k, v)" by fastforce
  obtain r d1 where r: "put k v d = (r, d1)" by fastforce
  obtain tk d2 where rest: "put_all put kvs d1 = (tk, d2)" by fastforce
  from Cons.prems(2) have t: "taken = (if r = Ok () then (k, v) # tk else tk)" "d' = d2" by (auto simp: kv r rest)
  from Cons.prems(1) have "fit k v" by (simp add: kv)
  note p = put_spec [OF this r]
  have "look d' = fold (\<lambda>(k, v) m. m(k := v)) tk (look d1) \<and> subseq tk kvs"
    by (rule Cons.IH) (use rest Cons.prems(1) t(2) in simp_all)
  with p show ?case by (auto simp: t kv simp del: fun_upd_apply)
qed simp

lemma untouched: "\<forall>(k, v) \<in> set kvs. fit k v \<Longrightarrow> put_all put kvs d = (taken, d') \<Longrightarrow> k \<notin> fst ` set kvs \<Longrightarrow> look d' k = look d k"
proof -
  have "fold (\<lambda>(k, v) m. m(k := v)) xs m k = m k" if "k \<notin> fst ` set xs" for xs :: "('k \<times> 'v option) list" and m
    using that by (induction xs arbitrary: m) auto
  moreover assume "\<forall>(k, v) \<in> set kvs. fit k v" "put_all put kvs d = (taken, d')" "k \<notin> fst ` set kvs"
  ultimately show ?thesis using history [of kvs d taken d'] by (metis (no_types, lifting) image_mono subsetD set_nths_subset subseq_conv_nths)
qed

end

lemma one_entry:
  assumes "(r = Ok () \<and> f n = v \<or> (\<exists>e. r = Err e) \<and> f n = g n) \<and> (\<forall>x. x \<noteq> n \<longrightarrow> f x = g x)"
  shows "r = Ok () \<and> f = g(n := v) \<or> (\<exists>e. r = Err e) \<and> f = g"
proof -
  from assms have "f = g(n := f n)" by (simp add: fun_eq_iff)
  with assms show ?thesis by (metis fun_upd_triv)
qed

interpretation kept_files: atomic_map "\<lambda>d n. if kept n then files d (store_path E n) else None"
  "\<lambda>n v. case v of Some t \<Rightarrow> write_atomic (store_path E n) t | None \<Rightarrow> fs_forget (store_path E n)" "\<lambda>n _. kept n"
proof
  fix n v d r and d' :: disk
  assume n: "kept n" and run: "(case v of Some t \<Rightarrow> write_atomic (store_path E n) t | None \<Rightarrow> fs_forget (store_path E n)) d = (r, d')"
  let ?look = "\<lambda>d n. if kept n then files d (store_path E n) else None"
  have "(r = Ok () \<and> ?look d' n = v \<or> (\<exists>e. r = Err e) \<and> ?look d' n = ?look d n) \<and> (\<forall>x. x \<noteq> n \<longrightarrow> ?look d' x = ?look d x)"
  proof (cases v)
    case None
    then show ?thesis
      using run n fs_forget_cases [where path = "store_path E n" and d = d] by (auto simp: store_path_inj)
  next
    case (Some t)
    then show ?thesis using run n write_kept [OF n, of E t d r d'] by auto
  qed
  then show "r = Ok () \<and> ?look d' = (?look d)(n := v) \<or> (\<exists>e. r = Err e) \<and> ?look d' = ?look d" by (rule one_entry)
qed

subsection \<open>The keys\<close>

text \<open>The documented text of an encoded key: two lower case digits for each byte.\<close>

definition hex_lower :: "hex_crate \<Rightarrow> bool" where
  "hex_lower X \<longleftrightarrow> (\<forall>bs. hx_encode X bs = concat (map hex2 bs))"

lemma hex_digit_hex: "n < 16 \<Longrightarrow> is_hexdigit (hex_digit n)"
  by (simp add: is_hexdigit_def hex_val_digit)

lemma hex_chars: "list_all is_hexdigit (concat (map hex2 bs))"
proof (induction bs)
  case (Cons b bs)
  have "unat b div 16 < 16" "unat b mod 16 < 16" using unat_u8_less [of b] by simp_all
  with Cons show ?case by (simp add: hex2_def hex_digit_hex)
qed simp

lemma hex_text:
  assumes "list_all is_hexdigit s"
  shows "is_text s" "str_trim s = s"
proof -
  have asc: "list_all (\<lambda>c. (of_char c :: nat) < 128) s" using assms by (auto simp: list_all_iff dest: hexdigit_char)
  then show "is_text s" by (rule is_text_ascii)
  show "str_trim s = s"
  proof (cases "s = []")
    case False
    then have "is_hexdigit (hd s)" "is_hexdigit (last s)" using assms unfolding list_all_iff by simp_all
    then show ?thesis by (intro str_trim_ascii_id [OF asc]) (blast dest: hexdigit_char)
  qed (simp add: str_trim_ascii_id)
qed

lemma read_key_text:
  assumes "hex_ok (so_hex E)" and "hex_lower (so_hex E)" and "length (key_bytes k) = 32"
    and "files d p = Some (hx_encode (so_hex E) (key_bytes k))"
  shows "read_key E p d = Some k"
proof -
  have "list_all is_hexdigit (hx_encode (so_hex E) (key_bytes k))" using assms(2) hex_chars by (simp add: hex_lower_def)
  from hex_text [OF this] show ?thesis using assms by (cases k) (simp add: read_key_def hex_ok_def)
qed

text \<open>The key files are such a map, from boards to pairing keys: the path of a board is a kept file of its own.\<close>

lemma key_ring_refines:
  assumes "hex_ok (so_hex E)" and "hex_lower (so_hex E)" and "\<forall>k. key = Some k \<longrightarrow> length (key_bytes k) = 32"
  shows "case save_key_for E m key d of (r, d') \<Rightarrow>
    (r = Ok () \<and> (\<lambda>x. key_for E x d') = (\<lambda>x. key_for E x d)(m := key) \<or>
     (\<exists>e. r = Err e) \<and> (\<lambda>x. key_for E x d') = (\<lambda>x. key_for E x d))"
proof -
  obtain r d' where run: "save_key_for E m key d = (r, d')" by fastforce
  have same: "key_for E x d' = key_for E x d" if "files d' (key_path E x) = files d (key_path E x)" for x
    using that by (simp add: key_for_def read_key_def)
  note name = kept_key_name [OF assms(1)]
  have neq: "key_path E x \<noteq> key_path E m" if "x \<noteq> m" for x
    using that by (simp add: key_path_def store_path_inj name key_name_inj [OF assms(1)])
  have others: "files d' (key_path E x) = files d (key_path E x)" if "x \<noteq> m" for x
  proof (cases key)
    case None
    then show ?thesis
      using run neq [OF that] fs_forget_cases [where path = "key_path E m" and d = d] by (simp add: save_key_for_def)
  next
    case (Some k)
    have "key_name E x \<noteq> key_name E m" using that key_name_inj [OF assms(1)] by simp
    with write_kept(2) [OF name, where d = d and d' = d' and r = r and n' = "key_name E x"] run Some name
    show ?thesis by (simp add: save_key_for_def key_path_def)
  qed
  have mine: "r = Ok () \<and> key_for E m d' = key \<or> (\<exists>e. r = Err e) \<and> files d' (key_path E m) = files d (key_path E m)"
  proof (cases key)
    case None
    then show ?thesis
      using run fs_forget_cases [where path = "key_path E m" and d = d] by (auto simp: save_key_for_def key_for_def read_key_def)
  next
    case (Some k)
    with write_kept(1) [OF name, where d = d and d' = d' and r = r] run assms(3)
    show ?thesis
      by (auto simp: save_key_for_def key_path_def key_for_def intro: read_key_text [OF assms(1,2)])
  qed
  from mine show ?thesis
  proof
    assume ok: "r = Ok () \<and> key_for E m d' = key"
    then have "(\<lambda>x. key_for E x d') = (\<lambda>x. key_for E x d)(m := key)" using same others by auto
    with ok show ?thesis by (simp add: run)
  next
    assume err: "(\<exists>e. r = Err e) \<and> files d' (key_path E m) = files d (key_path E m)"
    then have "(\<lambda>x. key_for E x d') = (\<lambda>x. key_for E x d)" using same others by metis
    with err show ?thesis by (simp add: run)
  qed
qed

interpretation key_ring: atomic_map "\<lambda>d x. key_for E x d" "save_key_for E"
  "\<lambda>_ key. hex_ok (so_hex E) \<and> hex_lower (so_hex E) \<and> (\<forall>k. key = Some k \<longrightarrow> length (key_bytes k) = 32)"
proof
  fix m key d r d'
  assume "hex_ok (so_hex E) \<and> hex_lower (so_hex E) \<and> (\<forall>k. key = Some k \<longrightarrow> length (key_bytes k) = 32)"
    and "save_key_for E m key d = (r, d')"
  then show "r = Ok () \<and> (\<lambda>x. key_for E x d') = (\<lambda>x. key_for E x d)(m := key) \<or> (\<exists>e. r = Err e) \<and> (\<lambda>x. key_for E x d') = (\<lambda>x. key_for E x d)"
    using key_ring_refines [where E = E and key = key and m = m and d = d] by simp
qed

text \<open>C25. The key files implement a map from boards to pairing keys, over any history: after saving and forgetting keys of any boards in any
  order, where any file operations may have failed, the key of every board is the one that the operations that succeeded left, in
  their order - saving sets exactly one entry, forgetting removes exactly one, and one that failed changed nothing; so no operation touches the
  key of another board.\<close>

theorem key_ring_history:
  assumes "hex_ok (so_hex E)" and "hex_lower (so_hex E)" and "\<forall>(m, key) \<in> set ops. \<forall>k. key = Some k \<longrightarrow> length (key_bytes k) = 32"
    and "put_all (save_key_for E) ops d = (taken, d')"
  shows "subseq taken ops \<and> (\<lambda>m. key_for E m d') = fold (\<lambda>(m, key) ring. ring(m := key)) taken (\<lambda>m. key_for E m d) \<and>
    (\<forall>m. m \<notin> fst ` set ops \<longrightarrow> key_for E m d' = key_for E m d)"
  using assms key_ring.history [OF _ assms(4)] key_ring.untouched [OF _ assms(4)] by (simp add: case_prod_unfold)

text \<open>An empty disk, and a codec that reads back the state it is shown.\<close>

definition no_files :: disk where
  "no_files = \<lparr>files = \<lambda>_. None, io_errors = []\<rparr>"

definition demo_store :: "store_state \<Rightarrow> store_env" where
  "demo_store s = \<lparr>so_json = \<lparr>js_print = \<lambda>v. if v = json_of_state s then ''s'' else [],
     js_parse = \<lambda>t. if t = ''s'' then Some (json_of_state s) else None\<rparr>, so_hex = hex_demo, so_dir = ''d''\<rparr>"

lemma demo_store_simps [simp]: "so_hex (demo_store s) = hex_demo" "codec_ok (so_json (demo_store s)) (json_of_state s)"
    "hex_ok hex_demo" "hex_lower hex_demo"
  by (simp_all add: demo_store_def codec_ok_def hex_demo_ok) (simp add: hex_lower_def hex_demo_def)

lemmas file_calls = write_atomic_def open_new_def Let_def seq_def bnd_def attempt_def fs_remove_def fs_create_new_def
  fs_append_def fs_sync_def fs_rename_def io_next_def no_files_def

theorem key_ring_history_witness:
  "let m = Mac [1, 2, 3, 4, 5, 6]; k = PairKey (replicate 32 7);
       (taken, d') = put_all (save_key_for (demo_store state_default)) [(m, Some k)] no_files
   in taken = [(m, Some k)] \<and> key_for (demo_store state_default) m d' = Some k"
proof -
  let ?E = "demo_store state_default" and ?m = "Mac [1, 2, 3, 4, 5, 6]" and ?k = "Some (PairKey (replicate 32 7))"
  have "fst (save_key_for ?E ?m ?k no_files) = Ok ()" by (simp add: save_key_for_def file_calls)
  then obtain d' where run: "save_key_for ?E ?m ?k no_files = (Ok (), d')" by (metis prod.collapse)
  then have all: "put_all (save_key_for ?E) [(?m, ?k)] no_files = ([(?m, ?k)], d')" by simp
  have "(\<lambda>m. key_for ?E m d') = fold (\<lambda>(m, key) ring. ring(m := key)) [(?m, ?k)] (\<lambda>m. key_for ?E m no_files)"
    using key_ring_history [OF _ _ _ all] by simp
  from fun_cong [OF this, of ?m] show ?thesis unfolding Let_def all prod.case by simp
qed

subsection \<open>The state file\<close>

lemma board_json_roundtrip: "board_of_json (json_of_board b) = Some b"
  by (simp add: board_of_json_def json_of_board_def typed_def field_def)

lemma boards_json_roundtrip: "boards_of_json (JArr (map json_of_board bs)) = Some bs"
  by (simp add: boards_of_json_def list_all_iff board_json_roundtrip comp_def list.map_ident)

lemma state_json_roundtrip: "state_of_json (json_of_state s) = Some s"
  by (cases "ss_board_mac s"; cases "ss_board_url s"; cases "ss_display s")
    (simp_all add: state_of_json_def json_of_state_def typed_def field_def opt_field_def default_field_def optional_def
      boards_json_roundtrip)

lemma load_saved:
  assumes "codec_ok (so_json E) (json_of_state s)" and "files d (store_path E ''state.json'') = Some (js_print (so_json E) (json_of_state s))"
  shows "load_state E d = Some s"
  using assms by (simp add: load_state_def codec_ok_def state_json_roundtrip)

lemma load_same: "files d' (store_path E ''state.json'') = files d (store_path E ''state.json'') \<Longrightarrow> load_state E d' = load_state E d"
  by (simp add: load_state_def)

lemma save_state_cases:
  assumes "codec_ok (so_json E) (json_of_state s)" and "save_state E s d = (r, d')"
  shows "r = Ok () \<and> load_state E d' = Some s \<or> (\<exists>e. r = Err e) \<and> load_state E d' = load_state E d"
  using write_kept(1) [OF kept_names(1), where E = E and d = d and d' = d' and r = r] assms load_saved load_same
  by (metis save_state_def)

text \<open>The app always has a usable identity, and it sticks: whatever is on the disk and whatever fails, the state that is
  read has an id of 32 hex digits; a saved state with such an id is given back as it was saved and nothing is written;
  otherwise a new one is made, and unless it could not be saved the next start reads the same.\<close>

theorem state_usable_and_sticks:
  assumes "hex_ok (so_hex E)" and "hex_lower (so_hex E)" and "length rnd = 16"
    and "codec_ok (so_json E) (json_of_state (fresh_state E rnd raw))"
  shows "\<exists>s d'. get_state E rnd raw d = (Ok s, d') \<and> id_ok (ss_id s) \<and>
    (\<forall>s0. load_state E d = Some s0 \<and> id_ok (ss_id s0) \<longrightarrow> s = s0 \<and> d' = d) \<and>
    (load_state E d' = Some s \<or> load_state E d' = load_state E d \<and> (\<exists>e. fst (save_state E s d) = Err e))"
proof (cases "case load_state E d of Some s \<Rightarrow> id_ok (ss_id s) | None \<Rightarrow> False")
  case True
  then obtain s where "load_state E d = Some s" "id_ok (ss_id s)" by (auto split: option.splits)
  then show ?thesis by (simp add: get_state_def bnd_def asks_def ret_def)
next
  case False
  let ?s = "fresh_state E rnd raw"
  obtain r d' where run: "save_state E ?s d = (r, d')" by fastforce
  have "hx_encode (so_hex E) rnd = concat (map hex2 rnd)" using assms(2) by (simp add: hex_lower_def)
  then have ok: "id_ok (ss_id ?s)" using hex_chars [of rnd] assms(3) by (simp add: id_ok_def fresh_state_def)
  from save_state_cases [OF assms(4) run] have "get_state E rnd raw d = (Ok ?s, d')"
    using False run by (auto simp: get_state_def bnd_def asks_def attempt_def ret_def)
  with save_state_cases [OF assms(4) run] ok False run show ?thesis by (auto split: option.splits)
qed

theorem state_usable_and_sticks_witness:
  "let s = fresh_state (demo_store state_default) (replicate 16 0x5A) ''mac''; E = demo_store s
   in \<exists>d'. get_state E (replicate 16 0x5A) ''mac'' no_files = (Ok s, d') \<and> load_state E d' = Some s"
proof -
  let ?s = "fresh_state (demo_store state_default) (replicate 16 0x5A) ''mac''"
  let ?E = "demo_store ?s"
  have s: "fresh_state ?E (replicate 16 0x5A) ''mac'' = ?s" by (simp add: fresh_state_def)
  have none: "load_state ?E no_files = None" by (simp add: load_state_def no_files_def)
  have "fst (save_state ?E ?s no_files) = Ok ()" by (simp add: save_state_def file_calls)
  then obtain d' where saved: "save_state ?E ?s no_files = (Ok (), d')" by (metis prod.collapse)
  then have run: "get_state ?E (replicate 16 0x5A) ''mac'' no_files = (Ok ?s, d')"
    by (simp add: get_state_def bnd_def asks_def attempt_def ret_def none s)
  from state_usable_and_sticks [where E = ?E and rnd = "replicate 16 0x5A" and raw = "''mac''" and d = no_files] run
  have "\<forall>e. fst (save_state ?E ?s no_files) \<noteq> Err e \<and> load_state ?E d' = Some ?s" by (simp add: s saved)
  then show ?thesis unfolding Let_def using run by blast
qed

subsection \<open>From one board to many\<close>

abbreviation legacy_key :: "store_env \<Rightarrow> string" where
  "legacy_key E \<equiv> store_path E ''pairing.key''"

definition migrated :: "store_env \<Rightarrow> mac \<Rightarrow> store_state \<Rightarrow> store_state" where
  "migrated E m s = (add_board E m s)\<lparr>ss_board_mac := None\<rparr>"

text \<open>The key a board has in the end: its own, or the one from before.\<close>

definition best_key :: "store_env \<Rightarrow> mac \<Rightarrow> pair_key \<Rightarrow> disk \<Rightarrow> pair_key" where
  "best_key E m k d = (case key_for E m d of Some k0 \<Rightarrow> k0 | None \<Rightarrow> k)"

lemma read_key_length: "read_key E p d = Some k \<Longrightarrow> length (key_bytes k) = 32"
  by (auto simp: read_key_def bind_eq_Some_conv split: if_splits option.splits)

lemma key_for_same: "files d' (key_path E x) = files d (key_path E x) \<Longrightarrow> key_for E x d' = key_for E x d"
  and legacy_same: "files d' (legacy_key E) = files d (legacy_key E) \<Longrightarrow> read_key E (legacy_key E) d' = read_key E (legacy_key E) d"
  by (simp_all add: key_for_def read_key_def)

text \<open>The three writes of \<open>migrate\<close>, each with what it leaves of the rest.\<close>

lemma save_key_step:
  assumes "hex_ok (so_hex E)" and "hex_lower (so_hex E)" and "length (key_bytes k) = 32" and "save_key_for E m (Some k) d = (r, d')"
  shows "r = Ok () \<and> key_for E m d' = Some k \<or> (\<exists>e. r = Err e) \<and> key_for E m d' = key_for E m d"
    and "x \<noteq> m \<Longrightarrow> key_for E x d' = key_for E x d"
    and "read_key E (legacy_key E) d' = read_key E (legacy_key E) d" and "load_state E d' = load_state E d"
proof -
  have ring: "r = Ok () \<and> (\<lambda>x. key_for E x d') = (\<lambda>x. key_for E x d)(m := Some k) \<or>
     (\<exists>e. r = Err e) \<and> (\<lambda>x. key_for E x d') = (\<lambda>x. key_for E x d)"
    using key_ring_refines [OF assms(1,2), where key = "Some k" and m = m and d = d] assms(3,4) by simp
  then show "r = Ok () \<and> key_for E m d' = Some k \<or> (\<exists>e. r = Err e) \<and> key_for E m d' = key_for E m d"
    "x \<noteq> m \<Longrightarrow> key_for E x d' = key_for E x d"
    by (auto dest: fun_cong [where x = m]) (auto dest: fun_cong [where x = x])
  have "write_atomic (store_path E (key_name E m)) (hx_encode (so_hex E) (key_bytes k)) d = (r, d')"
    using assms(4) by (simp add: save_key_for_def key_path_def)
  note keep = write_kept(2) [OF kept_key_name [OF assms(1)] this]
  show "read_key E (legacy_key E) d' = read_key E (legacy_key E) d"
    by (rule legacy_same, rule keep) (simp_all add: key_name_other [symmetric])
  show "load_state E d' = load_state E d"
    by (rule load_same, rule keep) (simp_all add: key_name_other [symmetric])
qed

lemma save_state_step:
  assumes "hex_ok (so_hex E)" and "codec_ok (so_json E) (json_of_state s)" and "save_state E s d = (r, d')"
  shows "r = Ok () \<and> load_state E d' = Some s \<or> (\<exists>e. r = Err e) \<and> load_state E d' = load_state E d"
    and "key_for E x d' = key_for E x d" and "read_key E (legacy_key E) d' = read_key E (legacy_key E) d"
proof -
  note keep = write_kept(2) [OF kept_names(1) assms(3) [unfolded save_state_def]]
  show "r = Ok () \<and> load_state E d' = Some s \<or> (\<exists>e. r = Err e) \<and> load_state E d' = load_state E d"
    by (rule save_state_cases [OF assms(2,3)])
  show "key_for E x d' = key_for E x d"
    by (rule key_for_same, unfold key_path_def, rule keep) (simp_all add: assms(1) key_name_other)
  show "read_key E (legacy_key E) d' = read_key E (legacy_key E) d"
    by (rule legacy_same, rule keep) simp_all
qed

lemma forget_step:
  assumes "hex_ok (so_hex E)" and "fs_forget (legacy_key E) d = (r, d')"
  shows "r = Ok () \<and> files d' (legacy_key E) = None \<or> r = Err ''io''"
    and "key_for E x d' = key_for E x d" and "load_state E d' = load_state E d"
proof -
  note c = fs_forget_cases [where path = "legacy_key E" and d = d, unfolded assms(2) prod.case]
  show "r = Ok () \<and> files d' (legacy_key E) = None \<or> r = Err ''io''" using c by blast
  have "key_path E x \<noteq> legacy_key E"
    using store_path_inj [OF kept_key_name [OF assms(1)] kept_names(2)] key_name_other(1) by (simp add: key_path_def)
  then show "key_for E x d' = key_for E x d" using c by (intro key_for_same) blast
  have "store_path E ''state.json'' \<noteq> legacy_key E" by (simp add: store_path_inj)
  then show "load_state E d' = load_state E d" using c by (intro load_same) blast
qed

lemma on_disk_run: "m d = (r, d') \<Longrightarrow> (\<forall>e. r \<noteq> Panic \<and> r \<noteq> OutOfFuel) \<Longrightarrow> on_disk m \<lparr>sw_disk = d, sw_state = s\<rparr> = (r, \<lparr>sw_disk = d', sw_state = s\<rparr>)"
  by (cases r) (simp_all add: on_disk_def zoom_def)

lemma no_panic:
  "fst (write_atomic p t d) \<noteq> Panic" "fst (write_atomic p t d) \<noteq> OutOfFuel"
  "fst (fs_forget p d) \<noteq> Panic" "fst (fs_forget p d) \<noteq> OutOfFuel"
  by (auto simp: write_atomic_def fs_forget_def open_new_def attempt_def Let_def seq_def bnd_def fs_remove_def fs_create_new_def
      fs_append_def fs_sync_def fs_rename_def io_next_def ret_def throw_def split: list.splits option.splits if_splits)

lemma migrate_eq:
  assumes "Option.bind (ss_board_mac s) mac_parse = Some m" and "read_key E (legacy_key E) d = Some k"
  shows "migrate E \<lparr>sw_disk = d, sw_state = s\<rparr> =
    (case (if key_for E m d = None then save_key_for E m (Some k) d else (Ok (), d)) of
       (Ok _, d1) \<Rightarrow>
         (case save_state E (migrated E m s) d1 of
            (Ok _, d2) \<Rightarrow> (case fs_forget (legacy_key E) d2 of (r, d3) \<Rightarrow> (r, \<lparr>sw_disk = d3, sw_state = migrated E m s\<rparr>))
          | (r, d2) \<Rightarrow> (r, \<lparr>sw_disk = d2, sw_state = migrated E m s\<rparr>))
     | (r, d1) \<Rightarrow> (r, \<lparr>sw_disk = d1, sw_state = add_board E m s\<rparr>))"
proof -
  let ?first = "if key_for E m d = None then save_key_for E m (Some k) d else (Ok (), d)"
  obtain r1 d1 where first: "?first = (r1, d1)" by fastforce
  obtain r2 d2 where second: "save_state E (migrated E m s) d1 = (r2, d2)" by fastforce
  obtain r3 d3 where third: "fs_forget (legacy_key E) d2 = (r3, d3)" by fastforce
  have keys: "bnd (asks (\<lambda>w. read_key E (legacy_key E) (sw_disk w))) (\<lambda>old. case old of
        None \<Rightarrow> ret ()
      | Some k \<Rightarrow> bnd (asks (\<lambda>w. key_for E m (sw_disk w))) (\<lambda>have. case have of
            None \<Rightarrow> on_disk (save_key_for E m (Some k)) | Some _ \<Rightarrow> ret ())) \<lparr>sw_disk = d, sw_state = s'\<rparr> =
      (r1, \<lparr>sw_disk = d1, sw_state = s'\<rparr>)" for s'
  proof (cases "key_for E m d")
    case None
    then show ?thesis using first assms(2) by (cases r1) (simp_all add: bnd_def asks_def on_disk_def zoom_def)
  qed (use first assms(2) in \<open>simp add: bnd_def asks_def ret_def\<close>)
  have state: "bnd (asks sw_state) (\<lambda>s. on_disk (save_state E s)) \<lparr>sw_disk = d1, sw_state = migrated E m s\<rparr> =
      (r2, \<lparr>sw_disk = d2, sw_state = migrated E m s\<rparr>)"
    using second by (cases r2) (simp_all add: bnd_def asks_def on_disk_def zoom_def)
  have forget: "on_disk (fs_forget (legacy_key E)) \<lparr>sw_disk = d2, sw_state = migrated E m s\<rparr> = (r3, \<lparr>sw_disk = d3, sw_state = migrated E m s\<rparr>)"
    using third by (cases r3) (simp_all add: on_disk_def zoom_def)
  have m: "migrated E m s = add_board E m s\<lparr>ss_board_mac := None\<rparr>" by (simp add: migrated_def)
  have run: "migrate E \<lparr>sw_disk = d, sw_state = s\<rparr> =
    (case r1 of Ok _ \<Rightarrow> (case r2 of Ok _ \<Rightarrow> (r3, \<lparr>sw_disk = d3, sw_state = migrated E m s\<rparr>) | r \<Rightarrow> (r, \<lparr>sw_disk = d2, sw_state = migrated E m s\<rparr>))
     | r \<Rightarrow> (r, \<lparr>sw_disk = d1, sw_state = add_board E m s\<rparr>))"
    using assms(1) keys [of "add_board E m s"] state forget
    by (cases r1; cases r2) (simp_all add: migrate_def Let_def bnd_def [of "asks (\<lambda>w. Option.bind _ _)"] asks_def seq_def bnd_def modify_def m)
  show ?thesis unfolding first run by (cases r1; cases r2) (simp_all add: second third)
qed

lemma migrate_no_mac:
  assumes "Option.bind (ss_board_mac s) mac_parse = None"
  shows "migrate E \<lparr>sw_disk = d, sw_state = s\<rparr> = (case fs_forget (legacy_key E) d of (r, d') \<Rightarrow> (r, \<lparr>sw_disk = d', sw_state = s\<rparr>))"
  using assms
  by (auto simp: migrate_def bnd_def seq_def asks_def on_disk_def zoom_def Let_def ret_def split: prod.splits outcome.splits)

text \<open>What one run leaves, wherever it fails.\<close>

lemma migrate_run:
  assumes hex: "hex_ok (so_hex E)" "hex_lower (so_hex E)" and found: "Option.bind (ss_board_mac s) mac_parse = Some m"
    and old: "read_key E (legacy_key E) d = Some k" and state: "load_state E d = Some s"
    and codec: "codec_ok (so_json E) (json_of_state (migrated E m s))"
    and run: "migrate E \<lparr>sw_disk = d, sw_state = s\<rparr> = (r, w')"
  shows "(r = Ok () \<and> key_for E m (sw_disk w') = Some (best_key E m k d) \<and> files (sw_disk w') (legacy_key E) = None \<and>
        load_state E (sw_disk w') = Some (migrated E m s) \<and> sw_state w' = migrated E m s \<or>
      (\<exists>e. r = Err e) \<and> (key_for E m (sw_disk w') = Some (best_key E m k d) \<and> load_state E (sw_disk w') = Some (migrated E m s) \<or>
        best_key E m k (sw_disk w') = best_key E m k d \<and> read_key E (legacy_key E) (sw_disk w') = Some k \<and>
          load_state E (sw_disk w') = Some s)) \<and>
    (\<forall>x. x \<noteq> m \<longrightarrow> key_for E x (sw_disk w') = key_for E x d)"
proof -
  obtain r1 d1 where first: "(if key_for E m d = None then save_key_for E m (Some k) d else (Ok (), d)) = (r1, d1)" by fastforce
  have one: "r1 = Ok () \<and> key_for E m d1 = Some (best_key E m k d) \<or> (\<exists>e. r1 = Err e) \<and> key_for E m d1 = key_for E m d"
    "x \<noteq> m \<Longrightarrow> key_for E x d1 = key_for E x d" "read_key E (legacy_key E) d1 = Some k" "load_state E d1 = Some s" for x
    using save_key_step [OF hex read_key_length [OF old], of m d r1 d1] first old state
    by (auto simp: best_key_def split: if_splits)
  have eq: "migrate E \<lparr>sw_disk = d, sw_state = s\<rparr> = (case (r1, d1) of
       (Ok _, d1) \<Rightarrow>
         (case save_state E (migrated E m s) d1 of
            (Ok _, d2) \<Rightarrow> (case fs_forget (legacy_key E) d2 of (r, d3) \<Rightarrow> (r, \<lparr>sw_disk = d3, sw_state = migrated E m s\<rparr>))
          | (r, d2) \<Rightarrow> (r, \<lparr>sw_disk = d2, sw_state = migrated E m s\<rparr>))
     | (r, d1) \<Rightarrow> (r, \<lparr>sw_disk = d1, sw_state = add_board E m s\<rparr>))"
    unfolding migrate_eq [OF found old] first ..
  from one(1) show ?thesis
  proof
    assume "(\<exists>e. r1 = Err e) \<and> key_for E m d1 = key_for E m d"
    then show ?thesis using eq run one(2-4) by (auto simp: best_key_def)
  next
    assume ok1: "r1 = Ok () \<and> key_for E m d1 = Some (best_key E m k d)"
    obtain r2 d2 where second: "save_state E (migrated E m s) d1 = (r2, d2)" by fastforce
    note two = save_state_step [OF hex(1) codec second]
    show ?thesis
    proof (cases "r2 = Ok ()")
      case False
      then have "\<exists>e. r2 = Err e" "load_state E d2 = Some s" using two(1) one(4) by auto
      then show ?thesis using eq run ok1 one two second by (auto simp: best_key_def)
    next
      case True
      obtain r3 d3 where third: "fs_forget (legacy_key E) d2 = (r3, d3)" by fastforce
      note three = forget_step [OF hex(1) third]
      have "load_state E d3 = Some (migrated E m s)" using two(1) three(3) True by auto
      moreover have "r = r3" "w' = \<lparr>sw_disk = d3, sw_state = migrated E m s\<rparr>" using eq run ok1 second third True by auto
      ultimately show ?thesis using ok1 one(2) two(2) three by auto
    qed
  qed
qed

lemma no_failure:
  assumes "io_errors d = []"
  shows "fst (write_atomic p t d) = Ok ()" "fst (fs_forget p d) = Ok ()" "io_errors (snd (write_atomic p t d)) = []"
  using assms
  by (auto simp: write_atomic_def fs_forget_def open_new_def attempt_def Let_def seq_def bnd_def fs_remove_def fs_create_new_def
      fs_append_def fs_sync_def fs_rename_def io_next_def ret_def throw_def split: if_splits)


definition old_state :: store_state where
  "old_state = state_default\<lparr>ss_board_mac := Some (mac_hex hex_demo (Mac [1, 2, 3, 4, 5, 6])), ss_board_url := Some ''http://b''\<rparr>"

definition old_store :: store_env where
  "old_store = \<lparr>so_json = \<lparr>js_print = \<lambda>v. if v = json_of_state old_state then ''0'' else ''1'',
     js_parse = \<lambda>t. Some (json_of_state (if t = ''0'' then old_state
       else migrated (demo_store state_default) (Mac [1, 2, 3, 4, 5, 6]) old_state))\<rparr>, so_hex = hex_demo, so_dir = ''d''\<rparr>"

definition old_disk :: disk where
  "old_disk = \<lparr>files = (\<lambda>_. None)(''d/state.json'' := Some ''0'', ''d/pairing.key'' := Some (hx_encode hex_demo (replicate 32 7))),
     io_errors = [None, None, Some 9]\<rparr>"

lemma migrated_hex: "so_hex E = so_hex E' \<Longrightarrow> migrated E m s = migrated E' m s"
  by (simp add: migrated_def add_board_def Let_def split: option.split)


text \<open>The old key is removed also when no board is named with it: a state file that cannot be read is replaced by one without
  the board, and the next start then deletes the key.\<close>

lemma legacy_key_dropped:
  assumes "Option.bind (ss_board_mac s) mac_parse = None" and "io_errors d = []"
  shows "\<exists>w'. migrate E \<lparr>sw_disk = d, sw_state = s\<rparr> = (Ok (), w') \<and> files (sw_disk w') (legacy_key E) = None \<and> sw_state w' = s"
proof -
  obtain r d' where f: "fs_forget (legacy_key E) d = (r, d')" by fastforce
  then have "r = Ok ()" using no_failure(2) [OF assms(2), of "legacy_key E"] by simp
  with f fs_forget_cases [where path = "legacy_key E" and d = d] show ?thesis by (auto simp: migrate_no_mac [OF assms(1)])
qed

subsection \<open>The certificate\<close>

definition cert_files :: "store_env \<Rightarrow> disk \<Rightarrow> string option \<times> string option" where
  "cert_files E d = (files d (store_path E ''dtls.cert''), files d (store_path E ''dtls.key''))"

text \<open>A certificate on the disk is one that was made, with its key beside it.\<close>

definition cert_inv :: "(string \<times> string) set \<Rightarrow> store_env \<Rightarrow> disk \<Rightarrow> bool" where
  "cert_inv made E d \<longleftrightarrow>
     (\<forall>c. fst (cert_files E d) = Some c \<and> c \<noteq> [] \<longrightarrow> (\<exists>k. snd (cert_files E d) = Some k \<and> (c, k) \<in> made))"

lemma store_cert_given:
  "cert_files E d = (Some c, Some k) \<Longrightarrow> c \<noteq> [] \<Longrightarrow> k \<noteq> [] \<Longrightarrow> store_cert E x d = (Ok (Some (c, k)), d)"
  by (cases c; cases k) (simp_all add: store_cert_def cert_files_def bnd_def asks_def ret_def)

lemma store_cert_made:
  assumes "fst (cert_files E d) = None \<or> fst (cert_files E d) = Some []"
  shows "store_cert E None d = (Ok None, d)"
    and "store_cert E (Some (c, k)) d =
      bnd (attempt (seq (write_atomic (store_path E ''dtls.key'') k) (write_atomic (store_path E ''dtls.cert'') c)))
          (\<lambda>_. ret (Some (c, k))) d"
  using assms by (auto simp: store_cert_def cert_files_def bnd_def asks_def ret_def)

text \<open>The certificate on the disk always has its own key beside it, however often making one is cut short: the key
  is written first.  What the app is given is a pair that was made together, it is the one on the disk when there is one,
  and a certificate that was saved is given again by every later start.\<close>

theorem cert_matches_key:
  assumes "cert_inv made E d" and "\<forall>p. new = Some p \<longrightarrow> p \<in> made \<and> fst p \<noteq> [] \<and> snd p \<noteq> []" and "\<forall>p \<in> made. snd p \<noteq> []"
  shows "case store_cert E new d of (r, d') \<Rightarrow>
    cert_inv made E d' \<and> (\<exists>res. r = Ok res \<and> (\<forall>p. res = Some p \<longrightarrow> p \<in> made) \<and>
      (\<forall>c k. fst (cert_files E d) = Some c \<and> c \<noteq> [] \<and> snd (cert_files E d) = Some k \<longrightarrow> res = Some (c, k) \<and> d' = d) \<and>
      (\<forall>new'. fst (cert_files E d') \<noteq> None \<and> fst (cert_files E d') \<noteq> Some [] \<longrightarrow> store_cert E new' d' = (Ok res, d')))"
proof -
  let ?there = "\<exists>c k. cert_files E d = (Some c, Some k) \<and> c \<noteq> [] \<and> k \<noteq> []"
  show ?thesis
  proof (cases ?there)
    case True
    then obtain c k where ck: "cert_files E d = (Some c, Some k)" "c \<noteq> []" "k \<noteq> []" by blast
    with assms(1) have "(c, k) \<in> made" by (auto simp: cert_inv_def)
    with ck assms(1) show ?thesis by (simp add: store_cert_given [OF ck])
  next
    case False
    have no: "fst (cert_files E d) = None \<or> fst (cert_files E d) = Some []"
    proof (rule ccontr)
      assume "\<not> ?thesis"
      then obtain c where c: "fst (cert_files E d) = Some c" "c \<noteq> []" by auto
      with assms(1) obtain k where k: "snd (cert_files E d) = Some k" "(c, k) \<in> made" unfolding cert_inv_def by blast
      with assms(3) c have "cert_files E d = (Some c, Some k)" "k \<noteq> []" by (auto simp: prod_eq_iff)
      with c False show False by blast
    qed
    note make = store_cert_made [OF no]
    show ?thesis
    proof (cases new)
      case None
      with assms(1) no show ?thesis by (auto simp: make)
    next
      case (Some p)
      obtain c k where p: "p = (c, k)" by (cases p)
      with Some assms(2) have made: "(c, k) \<in> made" "c \<noteq> []" "k \<noteq> []" by auto
      obtain r1 d1 where w1: "write_atomic (store_path E ''dtls.key'') k d = (r1, d1)" by fastforce
      obtain r2 d2 where w2: "write_atomic (store_path E ''dtls.cert'') c d1 = (r2, d2)" by fastforce
      note k1 = write_kept [OF kept_names(4) w1] and k2 = write_kept [OF kept_names(3) w2]
      have c1: "fst (cert_files E d1) = fst (cert_files E d)" using k1(2) [OF kept_names(3)] by (simp add: cert_files_def)
      show ?thesis
      proof (cases "r1 = Ok ()")
        case False
        then obtain e where "r1 = Err e" using k1(1) by blast
        then have "store_cert E new d = (Ok (Some (c, k)), d1)"
          unfolding Some p make by (simp add: bnd_def attempt_def seq_def ret_def w1)
        moreover have "cert_inv made E d1" using no c1 by (auto simp: cert_inv_def)
        ultimately show ?thesis using no c1 made by auto
      next
        case True
        then have key: "snd (cert_files E d2) = Some k"
          using k1(1) k2(2) [OF kept_names(4)] by (simp add: cert_files_def)
        have cert: "fst (cert_files E d2) = Some c \<or> fst (cert_files E d2) = fst (cert_files E d)"
          using k2(1) c1 by (auto simp: cert_files_def)
        have run: "store_cert E new d = (Ok (Some (c, k)), d2)"
          unfolding Some p make using True k2(1) by (elim disjE conjE exE) (simp_all add: bnd_def attempt_def seq_def ret_def w1 w2)
        have "store_cert E x d2 = (Ok (Some (c, k)), d2)"
          if "fst (cert_files E d2) \<noteq> None" "fst (cert_files E d2) \<noteq> Some []" for x
          by (rule store_cert_given) (use that cert no key made in \<open>auto simp: prod_eq_iff\<close>)
        moreover have "cert_inv made E d2" using no cert key made by (auto simp: cert_inv_def)
        ultimately show ?thesis using run no made by auto
      qed
    qed
  qed
qed

theorem cert_matches_key_witness:
  "cert_inv {(''c1'', ''k1''), (''c2'', ''k2'')} old_store
     (snd (store_cert old_store (Some (''c2'', ''k2'')) (snd (store_cert old_store (Some (''c1'', ''k1'')) (no_files\<lparr>io_errors := [None, None, None, None, None, None, Some 1]\<rparr>)))))"
proof -
  let ?made = "{(''c1'', ''k1''), (''c2'', ''k2'')}"
  let ?d = "no_files\<lparr>io_errors := [None, None, None, None, None, None, Some 1]\<rparr>"
  have "cert_inv ?made old_store ?d" by (simp add: cert_inv_def cert_files_def no_files_def)
  with cert_matches_key [where made = ?made and E = old_store and new = "Some (''c1'', ''k1'')" and d = ?d]
  have "cert_inv ?made old_store (snd (store_cert old_store (Some (''c1'', ''k1'')) ?d))" by (simp split: prod.splits)
  with cert_matches_key [where made = ?made and E = old_store and new = "Some (''c2'', ''k2'')"
      and d = "snd (store_cert old_store (Some (''c1'', ''k1'')) ?d)"]
  show ?thesis by (simp split: prod.splits)
qed

subsection \<open>The addresses that worked\<close>

definition boards_ok :: "store_env \<Rightarrow> store_state \<Rightarrow> bool" where
  "boards_ok E s \<longleftrightarrow> distinct (map kb_mac (ss_boards s))"

text \<open>What the list of boards means: the address of each.\<close>

definition known_urls :: "store_state \<Rightarrow> string \<rightharpoonup> string" where
  "known_urls s = map_of (map (\<lambda>b. (kb_mac b, kb_url b)) (ss_boards s))"

lemma find_mem: "find P xs = Some x \<Longrightarrow> x \<in> set xs \<and> P x"
  by (induction xs) (auto split: if_splits)

lemma known_urls_iff: "boards_ok E s \<Longrightarrow> known_urls s m = Some u \<longleftrightarrow> (\<exists>b \<in> set (ss_boards s). kb_mac b = m \<and> kb_url b = u)"
  unfolding known_urls_def boards_ok_def by (subst map_of_eq_Some_iff) (auto simp: comp_def)

lemma set_url_boards:
  assumes "boards_ok E s"
  shows "boards_ok E (set_url E m url s)" and "known_urls (set_url E m url s) = (known_urls s)(mac_hex (so_hex E) m \<mapsto> url)"
proof -
  let ?h = "mac_hex (so_hex E) m"
  have "boards_ok E (set_url E m url s) \<and> known_urls (set_url E m url s) = (known_urls s)(?h \<mapsto> url)"
  proof (cases "position (\<lambda>b. kb_mac b = ?h) (ss_boards s)")
    case None
    then have new: "\<forall>b \<in> set (ss_boards s). kb_mac b \<noteq> ?h" by (simp add: position_None)
    then have "map_of (map (\<lambda>b. (kb_mac b, kb_url b)) (ss_boards s)) ?h = None" by (auto simp: map_of_eq_None_iff)
    then have "map_of (map (\<lambda>b. (kb_mac b, kb_url b)) (ss_boards s) @ [(?h, url)]) =
        (map_of (map (\<lambda>b. (kb_mac b, kb_url b)) (ss_boards s)))(?h \<mapsto> url)"
      by (intro ext) (simp add: map_add_def split: option.split)
    moreover have "distinct (map kb_mac (ss_boards s) @ [?h])" using new assms by (auto simp: boards_ok_def)
    ultimately show ?thesis using None by (simp add: set_url_def boards_ok_def known_urls_def)
  next
    case (Some i)
    let ?bs = "(ss_boards s)[i := (ss_boards s ! i)\<lparr>kb_url := url\<rparr>]"
    from position_Some [OF Some] have i: "i < length (ss_boards s)" "kb_mac (ss_boards s ! i) = ?h" by simp_all
    then have macs: "map kb_mac ?bs = map kb_mac (ss_boards s)" by (simp add: map_update list_update_same_conv)
    then have ok: "boards_ok E (set_url E m url s)" using assms by (simp add: set_url_def Some boards_ok_def)
    have inj: "inj_on kb_mac (set (ss_boards s))" "distinct (ss_boards s)" using assms by (simp_all add: boards_ok_def distinct_map)
    have only: "b \<in> set (ss_boards s) \<Longrightarrow> kb_mac b = ?h \<longleftrightarrow> b = ss_boards s ! i" for b
      using inj(1) i nth_mem [OF i(1)] by (metis inj_onD)
    have mem: "b \<in> set ?bs \<longleftrightarrow> b = (ss_boards s ! i)\<lparr>kb_url := url\<rparr> \<or> b \<in> set (ss_boards s) \<and> kb_mac b \<noteq> ?h" for b
      unfolding set_update_distinct [OF inj(2) i(1)] using only by blast
    have "known_urls (set_url E m url s) x = Some u \<longleftrightarrow> ((known_urls s)(?h \<mapsto> url)) x = Some u" for x u
    proof -
      have "known_urls (set_url E m url s) x = Some u \<longleftrightarrow> (\<exists>b \<in> set ?bs. kb_mac b = x \<and> kb_url b = u)"
        using known_urls_iff [OF ok] by (simp add: set_url_def Some)
      also have "\<dots> \<longleftrightarrow> (if x = ?h then u = url else \<exists>b \<in> set (ss_boards s). kb_mac b = x \<and> kb_url b = u)"
        unfolding Bex_def mem using i(2) by auto
      finally show ?thesis using known_urls_iff [OF assms, of x u] by auto
    qed
    then show ?thesis using ok by (intro conjI ext option.expand) (metis not_None_eq option.sel)+
  qed
  then show "boards_ok E (set_url E m url s)" "known_urls (set_url E m url s) = (known_urls s)(?h \<mapsto> url)" by blast+
qed

text \<open>Remembering the address that worked implements an update of the map from boards to addresses: afterwards the board has
  that address, every other board keeps its own, no board is listed twice and the finder is given it; what is on the disk
  is the new list, or the old one when it could not be saved.\<close>

theorem remember_refines:
  assumes "hex_ok (so_hex E)" and "mac_ok m" and "boards_ok E s" and "load_state E d = Some s"
    and "codec_ok (so_json E) (json_of_state (set_url E m url s))"
  shows "case remember E m url \<lparr>sw_disk = d, sw_state = s\<rparr> of (r, w') \<Rightarrow>
    boards_ok E (sw_state w') \<and> known_urls (sw_state w') = (known_urls s)(mac_hex (so_hex E) m \<mapsto> url) \<and>
    (m, url) \<in> set (remembered (sw_state w')) \<and>
    (r = Ok () \<and> load_state E (sw_disk w') = Some (sw_state w') \<or> (\<exists>e. r = Err e) \<and> load_state E (sw_disk w') = Some s)"
proof -
  let ?h = "mac_hex (so_hex E) m"
  have in_list: "(m, url) \<in> set (remembered t)" if "boards_ok E t" "known_urls t ?h = Some url" for t
  proof -
    from that obtain b where "b \<in> set (ss_boards t)" "kb_mac b = ?h" "kb_url b = url" by (auto simp: known_urls_iff)
    then show ?thesis using mac_hex_parse [OF assms(1,2)]
      by (force simp: remembered_def List.map_filter_def)
  qed
  show ?thesis
  proof (cases "case find (\<lambda>b. kb_mac b = ?h) (ss_boards s) of Some b \<Rightarrow> kb_url b = url | None \<Rightarrow> False")
    case True
    then obtain b where "b \<in> set (ss_boards s)" "kb_mac b = ?h" "kb_url b = url" by (auto dest: find_mem split: option.splits)
    then have k: "known_urls s ?h = Some url" using known_urls_iff [OF assms(3)] by blast
    then have "(known_urls s)(?h \<mapsto> url) = known_urls s" by auto
    with True k show ?thesis using assms(3,4) in_list [OF assms(3) k] by (simp add: remember_def bnd_def asks_def ret_def)
  next
    case False
    obtain r d' where save: "save_state E (set_url E m url s) d = (r, d')" by fastforce
    then have "r \<noteq> Panic" "r \<noteq> OutOfFuel" using no_panic unfolding save_state_def by (metis fst_conv)+
    then have run: "remember E m url \<lparr>sw_disk = d, sw_state = s\<rparr> = (r, \<lparr>sw_disk = d', sw_state = set_url E m url s\<rparr>)"
      using False save by (cases r) (simp_all add: remember_def bnd_def asks_def seq_def modify_def on_disk_def zoom_def)
    note new = set_url_boards [OF assms(3), of m url]
    with run save_state_cases [OF assms(5) save] assms(4) show ?thesis
      by (auto simp: in_list [OF new(1)])
  qed
qed

text \<open>A codec that knows two states.\<close>

definition two_states :: "store_state \<Rightarrow> store_state \<Rightarrow> store_env" where
  "two_states s0 s1 = \<lparr>so_json = \<lparr>js_print = \<lambda>v. if v = json_of_state s0 then ''0'' else ''1'',
     js_parse = \<lambda>t. Some (json_of_state (if t = ''0'' then s0 else s1))\<rparr>, so_hex = hex_demo, so_dir = ''d''\<rparr>"

definition demo_urls :: store_env where
  "demo_urls = two_states state_default (set_url (demo_store state_default) (Mac [1, 2, 3, 4, 5, 6]) ''u'' state_default)"

theorem remember_refines_witness:
  "known_urls (sw_state (snd (remember demo_urls (Mac [1, 2, 3, 4, 5, 6]) ''u''
      \<lparr>sw_disk = no_files\<lparr>files := [''d/state.json'' \<mapsto> ''0'']\<rparr>, sw_state = state_default\<rparr>))) (mac_hex hex_demo (Mac [1, 2, 3, 4, 5, 6])) = Some ''u''"
proof -
  let ?m = "Mac [1, 2, 3, 4, 5, 6]"
  let ?d = "no_files\<lparr>files := [''d/state.json'' \<mapsto> ''0'']\<rparr>"
  have E: "so_hex demo_urls = hex_demo" by (simp add: demo_urls_def two_states_def)
  have p: "store_path demo_urls ''state.json'' = ''d/state.json''"
    by (simp add: store_path_def path_join_def starts_with_def demo_urls_def two_states_def)
  have same: "set_url demo_urls ?m ''u'' state_default = set_url (demo_store state_default) ?m ''u'' state_default"
    unfolding set_url_def E demo_store_simps(1) by (rule refl)
  have "ss_boards (set_url (demo_store state_default) ?m ''u'' state_default) \<noteq> ss_boards state_default"
    by (simp add: set_url_def state_default_def)
  then have "json_of_state (set_url (demo_store state_default) ?m ''u'' state_default) \<noteq> json_of_state state_default"
    using state_json_roundtrip by (metis option.inject)
  then have codec: "codec_ok (so_json demo_urls) (json_of_state (set_url demo_urls ?m ''u'' state_default))"
    unfolding same codec_ok_def by (simp add: demo_urls_def two_states_def)
  have "load_state demo_urls ?d = Some state_default"
    unfolding load_state_def p by (simp add: demo_urls_def two_states_def state_json_roundtrip)
  moreover have "boards_ok demo_urls state_default" "mac_ok ?m"
    by (simp_all add: boards_ok_def state_default_def mac_ok_def replicate6)
  ultimately show ?thesis
    using remember_refines [where E = demo_urls and m = ?m and url = "''u''" and s = state_default and d = ?d] codec
    by (simp add: E split: prod.splits)
qed

end
