(* ===== verification/Update_Center.thy ===== *)
theory Update_Center
  imports Air_Update
begin

section \<open>The update centre (crates/hidfi-companion/src/updates/center.rs)\<close>

text \<open>
  The thread that knows the newest release, what every board here runs and is offered, and each update in
  flight.  One turn of its loop is a function of what it reads - the two clocks, the boards, their pairing and
  statuses, the journals on the disk - and of the command it receives.  What it starts beside itself (a release
  check, an update, a download, an install) is a thread in the state, and what such a thread reports is a step of its own, at
  any time between two turns.  An update's shared state belongs to one run of it, so runs have numbers.  Times are in
  milliseconds; the wall clock may go back.
\<close>

subsection \<open>Definitions: the view\<close>

record board_upd =
  bu_mac :: string
  bu_firmware :: "string option"
  bu_offer :: offer_kind
  bu_job :: air_state
  bu_resumable :: "string option"

datatype comp_upd =
    CuNone
  | CuAvailable string u64
  | CuDownloading string
  | CuReady string string
  | CuInstalling string
  | CuFailed string

record upd_view =
  uv_boards :: "board_upd list"
  uv_companion :: comp_upd
  uv_latest :: "string option"
  uv_problem :: "string option"
  uv_checking :: bool

definition view_default :: upd_view where
  "view_default = \<lparr>uv_boards = [], uv_companion = CuNone, uv_latest = None, uv_problem = None, uv_checking = False\<rparr>"

definition view_board :: "upd_view \<Rightarrow> string \<Rightarrow> board_upd option" where
  "view_board v m = find (\<lambda>b. bu_mac b = m) (uv_boards v)"

datatype upd_cmd = CheckNow | UpdateBoard string bool | CancelUpdate string | RestartNow string | GetCompanion | OpenInstaller

record board_here =
  bh_mac :: string
  bh_url :: "string option"

subsection \<open>Definitions: the state\<close>

record center_env =
  cn_source :: string
  cn_dir :: string
  cn_version :: string
  cn_os :: string
  cn_json :: codec

type_synonym read_rel = "ota_release \<times> u8 list \<times> u8 list"

record running =
  ru_id :: nat
  ru_job :: air_state
  ru_cancel :: bool
  ru_restart :: bool
  ru_done :: "nat option"

datatype center_thread =
    ThCheck
  | ThUpdate nat string bool
  | ThDownload string asset
  | ThInstall string string

record center =
  ce_rel :: "read_rel option"
  ce_next :: int
  ce_looked_for :: "string set"
  ce_failures :: u32
  ce_retry :: "nat option"
  ce_seen :: "string \<rightharpoonup> seen \<times> nat"
  ce_jobs :: "(string \<times> running) list"
  ce_comp :: comp_upd
  ce_checking :: bool
  ce_problem :: "string option"
  ce_view :: upd_view
  ce_threads :: "center_thread list"
  ce_runs :: nat

definition center_new :: "int \<Rightarrow> center" where
  "center_new wall = \<lparr>ce_rel = None, ce_next = wall, ce_looked_for = {}, ce_failures = 0, ce_retry = None, ce_seen = Map.empty,
     ce_jobs = [], ce_comp = CuNone, ce_checking = False, ce_problem = None, ce_view = view_default, ce_threads = [], ce_runs = 0\<rparr>"

subsection \<open>Definitions: when to look for a release\<close>

definition retry_delay :: "u32 \<Rightarrow> nat" where
  "retry_delay n =
     (let mins = 2 ^ min (unat n - 1) 16 in min (mins * 60 * 1000) CHECK_EVERY)"

definition release_due :: "int \<Rightarrow> int \<Rightarrow> bool" where
  "release_due now next \<longleftrightarrow> next < now \<or> next - now = 0 \<or> int CHECK_EVERY < next - now"

definition board_ahead :: "string \<Rightarrow> ota_release option \<Rightarrow> bool" where
  "board_ahead firmware known =
     (case known of
        None \<Rightarrow> False
      | Some r \<Rightarrow>
          (case (parse_version firmware, parse_version (or_version r)) of
             (Some b, Some k) \<Rightarrow> k < b
           | _ \<Rightarrow> False))"

definition journal_path :: "string \<Rightarrow> string \<Rightarrow> string" where
  "journal_path dir m = path_join (path_join dir ''updates'') (bare_mac m @ ''.json'')"

definition resumable :: "codec \<Rightarrow> string \<Rightarrow> string \<Rightarrow> disk \<Rightarrow> string option" where
  "resumable J dir m d =
     (case journal_load J (journal_path dir m) d of
        None \<Rightarrow> None
      | Some j \<Rightarrow> if j_step j < Restarted then Some (step_name (j_step j)) else None)"

subsection \<open>Definitions: a turn\<close>

text \<open>What a turn reads.\<close>

record turn =
  tn_now :: nat
  tn_wall :: int
  tn_here :: "board_here list"
  tn_paired :: "string \<Rightarrow> bool"
  tn_status :: "string \<Rightarrow> string + json"
  tn_disk :: disk
  tn_wall_after :: int

definition start_check :: "turn \<Rightarrow> center \<Rightarrow> center" where
  "start_check t c =
     (if release_due (tn_wall t) (ce_next c) \<and> \<not> ce_checking c then
        c\<lparr>ce_next := tn_wall t + int CHECK_EVERY, ce_checking := True, ce_threads := ce_threads c @ [ThCheck]\<rparr>
      else c)"

definition take_retry :: "turn \<Rightarrow> center \<Rightarrow> center" where
  "take_retry t c =
     (case ce_retry c of
        Some d \<Rightarrow> c\<lparr>ce_next := tn_wall t + int d, ce_retry := None\<rparr>
      | None \<Rightarrow> c)"

definition busy :: "center \<Rightarrow> bool" where
  "busy c \<longleftrightarrow> list_ex (\<lambda>(_, j). ru_done j = None) (ce_jobs c)"

definition rel_known :: "center \<Rightarrow> ota_release option" where
  "rel_known c = map_option fst (ce_rel c)"

definition look_board :: "turn \<Rightarrow> nat \<Rightarrow> board_here \<Rightarrow> center \<Rightarrow> center" where
  "look_board t every b c =
     (case bh_url b of
        None \<Rightarrow> c
      | Some url \<Rightarrow>
          if (case ce_seen c (bh_mac b) of None \<Rightarrow> True | Some (_, at) \<Rightarrow> every \<le> tn_now t - at) then
            (case tn_status t url of
               Inr v \<Rightarrow> c\<lparr>ce_seen := (ce_seen c)(bh_mac b \<mapsto> (seen_of_status v, tn_now t))\<rparr>
             | Inl _ \<Rightarrow> c)
          else c)"

definition board_seen :: "board_here \<Rightarrow> center \<Rightarrow> seen option" where
  "board_seen b c = (case bh_url b of None \<Rightarrow> None | Some _ \<Rightarrow> map_option fst (ce_seen c (bh_mac b)))"

definition board_row :: "center_env \<Rightarrow> turn \<Rightarrow> board_here \<Rightarrow> center \<Rightarrow> board_upd" where
  "board_row E t b c =
     (let s = board_seen b c in
      \<lparr>bu_mac = bh_mac b, bu_firmware = Option.bind s sn_firmware,
       bu_offer = offer s (rel_known c) (cn_version E) (tn_paired t (bh_mac b) \<and> bh_url b \<noteq> None),
       bu_job = (case map_of (ce_jobs c) (bh_mac b) of Some j \<Rightarrow> ru_job j | None \<Rightarrow> JIdle),
       bu_resumable = resumable (cn_json E) (cn_dir E) (bh_mac b) (tn_disk t)\<rparr>)"

fun look_boards :: "center_env \<Rightarrow> turn \<Rightarrow> nat \<Rightarrow> board_here list \<Rightarrow> center \<Rightarrow> board_upd list \<times> center" where
  "look_boards E t every [] c = ([], c)"
| "look_boards E t every (b # bs) c =
     (let c' = look_board t every b c; (rows, c'') = look_boards E t every bs c' in (board_row E t b c' # rows, c''))"

definition look_again :: "turn \<Rightarrow> string \<Rightarrow> center \<Rightarrow> center" where
  "look_again t f c =
     (if board_ahead f (rel_known c) \<and> f \<notin> ce_looked_for c then
        c\<lparr>ce_looked_for := insert f (ce_looked_for c), ce_next := tn_wall t\<rparr>
      else c)"

definition job_over :: "air_state \<Rightarrow> bool" where
  "job_over j \<longleftrightarrow> (case j of JDone _ \<Rightarrow> True | JRolledBack \<Rightarrow> True | JStopped \<Rightarrow> True | JFailed _ \<Rightarrow> True | _ \<Rightarrow> False)"

definition mark_over :: "nat \<Rightarrow> running \<Rightarrow> running" where
  "mark_over now j = (if job_over (ru_job j) \<and> ru_done j = None then j\<lparr>ru_done := Some now\<rparr> else j)"

definition end_jobs :: "turn \<Rightarrow> center \<Rightarrow> center" where
  "end_jobs t c = c\<lparr>ce_jobs :=
     filter (\<lambda>(_, j). case ru_done j of None \<Rightarrow> True | Some d \<Rightarrow> tn_now t - d < 600000)
       (map (\<lambda>(m, j). (m, mark_over (tn_now t) j)) (ce_jobs c))\<rparr>"

definition comp_version :: "ota_release \<Rightarrow> string" where
  "comp_version r = (case or_companion r of Some cr \<Rightarrow> cr_version cr | None \<Rightarrow> [])"

definition comp_shown :: "center_env \<Rightarrow> center \<Rightarrow> comp_upd" where
  "comp_shown E c =
     (if ce_comp c = CuNone then
        (case companion_offer (cn_os E) (rel_known c) (cn_version E) of
           Some a \<Rightarrow> CuAvailable (case rel_known c of Some r \<Rightarrow> comp_version r | None \<Rightarrow> []) (as_size a)
         | None \<Rightarrow> CuNone)
      else ce_comp c)"

definition show_view :: "center_env \<Rightarrow> board_upd list \<Rightarrow> center \<Rightarrow> center" where
  "show_view E rows c = c\<lparr>ce_view :=
     \<lparr>uv_boards = rows, uv_companion = comp_shown E c, uv_latest = map_option or_version (rel_known c),
      uv_problem = ce_problem c, uv_checking = ce_checking c\<rparr>\<rparr>"

definition look_around :: "center_env \<Rightarrow> turn \<Rightarrow> center \<Rightarrow> center" where
  "look_around E t c0 =
     (let c1 = take_retry t (start_check t c0);
          (rows, c2) = look_boards E t (if busy c1 then 2000 else 30000) (tn_here t) c1;
          c3 = fold (look_again t) (List.map_filter bu_firmware rows) c2
      in show_view E rows (end_jobs t c3))"

subsection \<open>Definitions: the commands\<close>

definition edit_job :: "string \<Rightarrow> (running \<Rightarrow> running) \<Rightarrow> center \<Rightarrow> center" where
  "edit_job m f c = (case map_of (ce_jobs c) m of Some j \<Rightarrow> c\<lparr>ce_jobs := AList.update m (f j) (ce_jobs c)\<rparr> | None \<Rightarrow> c)"

definition start_update :: "turn \<Rightarrow> string \<Rightarrow> bool \<Rightarrow> center \<Rightarrow> center" where
  "start_update t m cable c =
     (if (case map_of (ce_jobs c) m of Some j \<Rightarrow> ru_done j = None | None \<Rightarrow> False) then c
      else if ce_rel c = None then c
      else if find (\<lambda>b. bh_mac b = m) (tn_here t) = None then c
      else
        c\<lparr>ce_jobs := AList.update m
            \<lparr>ru_id = ce_runs c, ru_job = JIdle, ru_cancel = False, ru_restart = False, ru_done = None\<rparr> (ce_jobs c),
          ce_threads := ce_threads c @ [ThUpdate (ce_runs c) m cable], ce_runs := Suc (ce_runs c)\<rparr>)"

definition get_companion :: "center_env \<Rightarrow> center \<Rightarrow> center" where
  "get_companion E c =
     (case rel_known c of
        None \<Rightarrow> c
      | Some r \<Rightarrow>
          (case companion_offer (cn_os E) (Some r) (cn_version E) of
             None \<Rightarrow> c
           | Some a \<Rightarrow> c\<lparr>ce_comp := CuDownloading (comp_version r), ce_threads := ce_threads c @ [ThDownload (comp_version r) a]\<rparr>))"

definition open_installer :: "center \<Rightarrow> center" where
  "open_installer c =
     (case ce_comp c of
        CuReady to path \<Rightarrow> c\<lparr>ce_comp := CuInstalling to, ce_threads := ce_threads c @ [ThInstall to path]\<rparr>
      | _ \<Rightarrow> c)"

definition do_command :: "center_env \<Rightarrow> turn \<Rightarrow> upd_cmd \<Rightarrow> center \<Rightarrow> center" where
  "do_command E t cmd c =
     (case cmd of
        CheckNow \<Rightarrow> c\<lparr>ce_next := tn_wall_after t\<rparr>
      | CancelUpdate m \<Rightarrow> edit_job m (\<lambda>j. j\<lparr>ru_cancel := True\<rparr>) c
      | RestartNow m \<Rightarrow> edit_job m (\<lambda>j. j\<lparr>ru_restart := True\<rparr>) c
      | UpdateBoard m cable \<Rightarrow> start_update t m cable c
      | GetCompanion \<Rightarrow> get_companion E c
      | OpenInstaller \<Rightarrow> open_installer c)"

text \<open>A turn with the command it receives, if one came in time.\<close>

definition center_turn :: "center_env \<Rightarrow> turn \<Rightarrow> upd_cmd option \<Rightarrow> center \<Rightarrow> center" where
  "center_turn E t got c =
     (case got of None \<Rightarrow> look_around E t c | Some cmd \<Rightarrow> do_command E t cmd (look_around E t c))"

subsection \<open>Definitions: what the threads report\<close>

definition check_done :: "string + read_rel \<Rightarrow> center \<Rightarrow> center" where
  "check_done r c =
     (case r of
        Inr x \<Rightarrow> c\<lparr>ce_rel := Some x, ce_problem := None, ce_failures := 0, ce_checking := False\<rparr>
      | Inl why \<Rightarrow> c\<lparr>ce_problem := Some why, ce_failures := ce_failures c + 1,
          ce_retry := Some (retry_delay (ce_failures c + 1)), ce_checking := False\<rparr>)"

definition job_report :: "nat \<Rightarrow> air_state \<Rightarrow> center \<Rightarrow> center" where
  "job_report n j c = c\<lparr>ce_jobs := map (\<lambda>(m, r). (m, if ru_id r = n then r\<lparr>ru_job := j\<rparr> else r)) (ce_jobs c)\<rparr>"

definition download_done :: "string \<Rightarrow> string + string \<Rightarrow> center \<Rightarrow> center" where
  "download_done to r c = c\<lparr>ce_comp := (case r of Inr path \<Rightarrow> CuReady to path | Inl why \<Rightarrow> CuFailed why)\<rparr>"

definition install_done :: "string option \<Rightarrow> center \<Rightarrow> center" where
  "install_done r c = (case r of None \<Rightarrow> c | Some why \<Rightarrow> c\<lparr>ce_comp := CuFailed why\<rparr>)"

text \<open>The start of a cable update, in its thread: the plan, the two files, and what the cable is then called with.\<close>

definition cable_thread :: "ota_env \<Rightarrow> string \<Rightarrow> ota_release \<Rightarrow> seen option \<Rightarrow> bool \<Rightarrow> com_port list \<Rightarrow> string option \<Rightarrow> bool \<Rightarrow>
    (cable_plan_kind \<times> u8 list \<times> u8 list) option wprog2" where
  "cable_thread V source rel s paired com known prefer_native =
     (case cable_plan s paired com known prefer_native of
        Inl why \<Rightarrow> seq (fail_job why) (ret None)
      | Inr plan \<Rightarrow>
          seq (set_job (JCable ''downloading the release'' 0 (as_size (or_image rel))))
          (case or_table rel of
             None \<Rightarrow> seq (fail_job ''this release has no partition table for the cable'') (ret None)
           | Some ta \<Rightarrow>
               bnd (attempt (bnd (fetch_asset V source (or_image rel) IMAGE_CAP) (\<lambda>img.
                      bnd (fetch_asset V source ta 0x1000) (\<lambda>table. ret (img, table))))) (\<lambda>got. case got of
                 Inl why \<Rightarrow> seq (fail_job why) (ret None)
               | Inr (img, table) \<Rightarrow>
                   bnd cancel_read (\<lambda>c.
                     if c then seq (set_job JStopped) (ret None)
                     else ret (Some (plan, img, table))))))"

definition end_thread :: "center_thread \<Rightarrow> center \<Rightarrow> center" where
  "end_thread th c = c\<lparr>ce_threads := remove1 th (ce_threads c)\<rparr>"

subsection \<open>Every order of events\<close>

text \<open>A thread ends with its result; an update ends with the first report that is final.\<close>

inductive center_step :: "center_env \<Rightarrow> center \<Rightarrow> center \<Rightarrow> bool" for E where
  turn: "center_step E c (center_turn E t got c)"
| checked: "ThCheck \<in> set (ce_threads c) \<Longrightarrow> center_step E c (end_thread ThCheck (check_done r c))"
| reported: "ThUpdate n m cable \<in> set (ce_threads c) \<Longrightarrow> \<not> job_over j \<Longrightarrow> center_step E c (job_report n j c)"
| updated: "ThUpdate n m cable \<in> set (ce_threads c) \<Longrightarrow> job_over j \<Longrightarrow>
    center_step E c (end_thread (ThUpdate n m cable) (job_report n j c))"
| downloaded: "ThDownload to a \<in> set (ce_threads c) \<Longrightarrow> center_step E c (end_thread (ThDownload to a) (download_done to r c))"
| installed: "ThInstall to p \<in> set (ce_threads c) \<Longrightarrow> center_step E c (end_thread (ThInstall to p) (install_done r c))"

inductive center_reach :: "center_env \<Rightarrow> center \<Rightarrow> bool" for E where
  new: "center_reach E (center_new wall)"
| step: "center_reach E c \<Longrightarrow> center_step E c c' \<Longrightarrow> center_reach E c'"

definition checks :: "center \<Rightarrow> nat" where
  "checks c = length (filter (\<lambda>th. th = ThCheck) (ce_threads c))"

definition updates_of :: "string \<Rightarrow> center \<Rightarrow> center_thread list" where
  "updates_of m c = filter (\<lambda>th. \<exists>n cable. th = ThUpdate n m cable) (ce_threads c)"

text \<open>The invariant: one row for each board with an update, with the numbers of its runs below the next; every thread of an
  update is the run of its board's row, not over; two threads of updates have different runs; and the flag of the
  check says whether its one thread is there.\<close>

definition live :: "center \<Rightarrow> center_thread \<Rightarrow> bool" where
  "live c th \<longleftrightarrow> (case th of
     ThUpdate n m cable \<Rightarrow> (\<exists>j. map_of (ce_jobs c) m = Some j \<and> ru_id j = n \<and> ru_done j = None \<and> \<not> job_over (ru_job j))
   | _ \<Rightarrow> True)"

definition run_of :: "center_thread \<Rightarrow> nat option" where
  "run_of th = (case th of ThUpdate n m cable \<Rightarrow> Some n | _ \<Rightarrow> None)"

definition center_inv :: "center \<Rightarrow> bool" where
  "center_inv c \<longleftrightarrow> distinct (map fst (ce_jobs c)) \<and> distinct (map (ru_id \<circ> snd) (ce_jobs c)) \<and>
     (\<forall>(m, j) \<in> set (ce_jobs c). ru_id j < ce_runs c) \<and> (\<forall>th \<in> set (ce_threads c). live c th) \<and>
     distinct (List.map_filter run_of (ce_threads c)) \<and> checks c = (if ce_checking c then 1 else 0)"

text \<open>What only changes other things keeps it.\<close>

lemma center_inv_cong:
  assumes "center_inv c" and "ce_jobs c' = ce_jobs c" and "ce_threads c' = ce_threads c" and "ce_checking c' = ce_checking c"
    and "ce_runs c' = ce_runs c"
  shows "center_inv c'"
proof -
  have "live c' = live c" using assms(2) by (auto simp: live_def fun_eq_iff split: center_thread.split)
  then show ?thesis using assms by (simp add: center_inv_def checks_def)
qed

lemma live_cong: "ce_jobs c' = ce_jobs c \<Longrightarrow> live c' th = live c th"
  by (simp add: live_def split: center_thread.split)

lemma live_other: "run_of th = None \<Longrightarrow> live c th"
  by (simp add: run_of_def live_def split: center_thread.splits)

lemma map_filter_snoc: "List.map_filter f (xs @ [x]) = List.map_filter f xs @ (case f x of Some y \<Rightarrow> [y] | None \<Rightarrow> [])"
  by (simp add: List.map_filter_def split: option.split)

lemma inv_add_thread:
  assumes "center_inv c" and "ce_jobs c' = ce_jobs c" and "ce_threads c' = ce_threads c @ [th]" and "run_of th = None"
    and "ce_runs c' = ce_runs c" and "checks c' = (if ce_checking c' then 1 else 0)"
  shows "center_inv c'"
  using assms live_other [OF assms(4)] by (simp add: center_inv_def live_cong [OF assms(2)] map_filter_snoc)

lemma inv_start_check:
  assumes "center_inv c"
  shows "center_inv (start_check t c)"
proof (cases "release_due (tn_wall t) (ce_next c) \<and> \<not> ce_checking c")
  case True
  then show ?thesis
    using assms by (intro inv_add_thread [OF assms, where th = ThCheck])
      (simp_all add: start_check_def run_of_def checks_def center_inv_def)
next
  case False
  show ?thesis unfolding start_check_def if_not_P [OF False] by (rule assms)
qed

lemma inv_take_retry: "center_inv c \<Longrightarrow> center_inv (take_retry t c)"
  by (auto simp: take_retry_def split: option.split intro: center_inv_cong)

lemma inv_look_boards: "center_inv c \<Longrightarrow> look_boards E t every bs c = (rows, c') \<Longrightarrow> center_inv c'"
proof (induction bs arbitrary: c rows)
  case (Cons b bs)
  have "center_inv (look_board t every b c)"
    using Cons.prems(1) by (auto simp: look_board_def split: option.split sum.split intro: center_inv_cong)
  with Cons show ?case by (auto simp: Let_def split: prod.splits)
qed simp

lemma inv_look_again: "center_inv c \<Longrightarrow> center_inv (look_again t f c)"
  by (auto simp: look_again_def intro: center_inv_cong)

lemma inv_fold_look: "center_inv c \<Longrightarrow> center_inv (fold (look_again t) fs c)"
  by (induction fs arbitrary: c) (simp_all add: inv_look_again)

text \<open>A change of the rows that keeps their runs, and the rows of every thread.\<close>

lemma inv_map_jobs:
  assumes inv: "center_inv c" and jobs: "ce_jobs c' = filter P (map (\<lambda>(m, j). (m, f m j)) (ce_jobs c))"
    and same: "ce_threads c' = ce_threads c" "ce_runs c' = ce_runs c" "ce_checking c' = ce_checking c"
    and ids: "\<And>m j. ru_id (f m j) = ru_id j"
    and keep: "\<And>n m cable j. ThUpdate n m cable \<in> set (ce_threads c) \<Longrightarrow> (m, j) \<in> set (ce_jobs c) \<Longrightarrow> ru_id j = n \<Longrightarrow>
      ru_done j = None \<Longrightarrow> \<not> job_over (ru_job j) \<Longrightarrow> P (m, f m j) \<and> ru_done (f m j) = None \<and> \<not> job_over (ru_job (f m j))"
  shows "center_inv c'"
proof -
  let ?g = "\<lambda>(m, j). (m, f m j)"
  have fst: "map fst (map ?g js) = map fst js" and id: "map (ru_id \<circ> snd) (map ?g js) = map (ru_id \<circ> snd) js" for js
    by (induction js) (auto simp: ids)
  have d: "distinct (map fst (ce_jobs c))" "distinct (map (ru_id \<circ> snd) (ce_jobs c))" using inv by (simp_all add: center_inv_def)
  then have d': "distinct (map fst (ce_jobs c'))" "distinct (map (ru_id \<circ> snd) (ce_jobs c'))"
    unfolding jobs by (intro distinct_map_filter; simp only: fst id)+
  have "\<forall>(m, j) \<in> set (ce_jobs c'). ru_id j < ce_runs c'" using inv ids by (auto simp: jobs same center_inv_def)
  moreover have "live c' th" if th: "th \<in> set (ce_threads c)" for th
  proof (cases th)
    case (ThUpdate n m cable)
    from inv th have "live c th" by (simp add: center_inv_def)
    then obtain j where j: "(m, j) \<in> set (ce_jobs c)" "ru_id j = n" "ru_done j = None" "\<not> job_over (ru_job j)"
      using map_of_eq_Some_iff [OF d(1)] by (auto simp: live_def ThUpdate)
    note k = keep [OF th [unfolded ThUpdate] j]
    with j(1) have "(m, f m j) \<in> set (ce_jobs c')" unfolding jobs by force
    with k j(2) show ?thesis using map_of_eq_Some_iff [OF d'(1)] ids by (auto simp: live_def ThUpdate)
  qed (simp_all add: live_def)
  ultimately show ?thesis using inv d' by (simp add: center_inv_def same checks_def)
qed

lemma inv_end_jobs: "center_inv c \<Longrightarrow> center_inv (end_jobs t c)"
  by (erule inv_map_jobs [where f = "\<lambda>_ j. mark_over (tn_now t) j"
        and P = "\<lambda>(_, j). case ru_done j of None \<Rightarrow> True | Some d \<Rightarrow> tn_now t - d < 600000"])
    (simp_all add: end_jobs_def mark_over_def)

lemma update_there: "distinct (map fst al) \<Longrightarrow> map_of al k = Some v0 \<Longrightarrow> AList.update k v al = map (\<lambda>(k', v'). (k', if k' = k then v else v')) al"
proof (induction al)
  case (Cons kv al)
  then show ?case by (cases kv) (force intro!: map_idI [symmetric] split: if_splits)
qed simp

lemma inv_edit_job:
  assumes "center_inv c" and "\<And>j. ru_id (g j) = ru_id j \<and> ru_done (g j) = ru_done j \<and> ru_job (g j) = ru_job j"
  shows "center_inv (edit_job m g c)"
proof (cases "map_of (ce_jobs c) m")
  case None
  then show ?thesis using assms(1) by (simp add: edit_job_def)
next
  case (Some j)
  have d: "distinct (map fst (ce_jobs c))" using assms(1) by (simp add: center_inv_def)
  have "map_of (ce_jobs c) m' = Some j'" if "(m', j') \<in> set (ce_jobs c)" for m' j'
    using that d by simp
  then have same: "map (\<lambda>(k', v'). (k', if k' = m then g j else v')) (ce_jobs c) = map (\<lambda>(m', j'). (m', if m' = m then g j' else j')) (ce_jobs c)"
    using Some by (auto intro!: map_cong)
  show ?thesis
    by (rule inv_map_jobs [OF assms(1), where f = "\<lambda>m' j'. if m' = m then g j' else j'" and P = "\<lambda>_. True"])
      (use assms(2) in \<open>auto simp: edit_job_def Some update_there [OF d Some] same\<close>)
qed

lemma set_AList_update: "distinct (map fst al) \<Longrightarrow> set (AList.update k v al) = insert (k, v) {(k', v') \<in> set al. k' \<noteq> k}"
proof -
  assume d: "distinct (map fst al)"
  then have du: "distinct (map fst (AList.update k v al))" by (rule distinct_update)
  have "(k', v') \<in> set (AList.update k v al) \<longleftrightarrow> (k', v') \<in> insert (k, v) {(k', v') \<in> set al. k' \<noteq> k}" for k' v'
    using map_of_eq_Some_iff [OF du, of k' v'] map_of_eq_Some_iff [OF d, of k' v'] by (auto simp: update_conv' split: if_splits)
  then show ?thesis by auto
qed

lemma distinct_ids_update:
  assumes "distinct (map fst al)" and "distinct (map g (map snd al))" and "\<forall>x \<in> set al. g (snd x) \<noteq> g v"
  shows "distinct (map g (map snd (AList.update k v al)))"
  using assms
proof (induction al)
  case (Cons kv al)
  have "distinct (map fst al)" using Cons.prems by simp
  then have "g (snd kv) \<notin> set (map g (map snd (AList.update k v al)))"
    using Cons.prems by (auto simp: set_AList_update)
  with Cons show ?case by (cases kv) auto
qed simp

lemma inv_start_update:
  assumes inv: "center_inv c"
  shows "center_inv (start_update t m cable c)"
proof (cases "start_update t m cable c = c")
  case False
  let ?j = "\<lparr>ru_id = ce_runs c, ru_job = JIdle, ru_cancel = False, ru_restart = False, ru_done = None\<rparr>"
  let ?c = "c\<lparr>ce_jobs := AList.update m ?j (ce_jobs c),
      ce_threads := ce_threads c @ [ThUpdate (ce_runs c) m cable], ce_runs := Suc (ce_runs c)\<rparr>"
  from False have c': "start_update t m cable c = ?c"
    and free: "\<not> (case map_of (ce_jobs c) m of Some j \<Rightarrow> ru_done j = None | None \<Rightarrow> False)"
    by (auto simp: start_update_def split: if_splits)
  have d: "distinct (map fst (ce_jobs c))" "distinct (map (ru_id \<circ> snd) (ce_jobs c))"
    and below: "\<forall>(m, j) \<in> set (ce_jobs c). ru_id j < ce_runs c" and live: "\<forall>th \<in> set (ce_threads c). live c th"
    and runs: "distinct (List.map_filter run_of (ce_threads c))" and chk: "checks c = (if ce_checking c then 1 else 0)"
    using inv by (simp_all add: center_inv_def)
  have "distinct (map (ru_id \<circ> snd) (AList.update m ?j (ce_jobs c)))"
  proof -
    have "\<forall>x \<in> set (ce_jobs c). ru_id (snd x) \<noteq> ce_runs c" using below by fastforce
    with distinct_ids_update [OF d(1), of ru_id ?j m] d(2) show ?thesis by (simp add: comp_def)
  qed
  moreover have "\<forall>(m, j) \<in> set (ce_jobs ?c). ru_id j < ce_runs ?c"
    using below by (auto simp: set_AList_update [OF d(1)])
  moreover have lv: "live ?c th" if th: "th \<in> set (ce_threads c)" for th
  proof (cases th)
    case (ThUpdate n m' cable')
    with live th have l: "\<exists>j. map_of (ce_jobs c) m' = Some j \<and> ru_id j = n \<and> ru_done j = None \<and> \<not> job_over (ru_job j)"
      by (auto simp: live_def)
    with free have "m' \<noteq> m" by auto
    with l show ?thesis by (auto simp: live_def ThUpdate update_conv')
  qed (simp_all add: live_def)
  moreover have "live ?c (ThUpdate (ce_runs c) m cable)" by (simp add: live_def update_conv' job_over_def)
  moreover have "distinct (List.map_filter run_of (ce_threads ?c))"
  proof -
    have "n < ce_runs c" if n: "n \<in> set (List.map_filter run_of (ce_threads c))" for n
    proof -
      from n obtain th where th: "th \<in> set (ce_threads c)" "run_of th = Some n" by (auto simp: List.map_filter_def)
      then obtain m' cable' where u: "th = ThUpdate n m' cable'" by (auto simp: run_of_def split: center_thread.splits)
      from live th(1) have "live c (ThUpdate n m' cable')" by (simp add: u)
      then obtain j where "map_of (ce_jobs c) m' = Some j" "ru_id j = n" by (auto simp: live_def)
      then show ?thesis using below map_of_SomeD by force
    qed
    then show ?thesis using runs by (auto simp: map_filter_snoc run_of_def)
  qed
  ultimately have "center_inv ?c" using d(1) chk by (simp add: center_inv_def distinct_update checks_def)
  then show ?thesis unfolding c' .
qed (use inv in simp)

lemma inv_end_thread:
  assumes "center_inv c" and "ce_jobs c' = ce_jobs c" and "ce_threads c' = remove1 th (ce_threads c)" and "ce_runs c' = ce_runs c"
    and "checks c' = (if ce_checking c' then 1 else 0)"
  shows "center_inv c'"
proof -
  have "distinct (List.map_filter run_of (remove1 th xs))" if "distinct (List.map_filter run_of xs)" for xs
  proof (cases "th \<in> set xs")
    case True
    then obtain ys zs where "xs = ys @ th # zs" "th \<notin> set ys" by (blast dest: split_list_first)
    then show ?thesis using that by (auto simp: remove1_append List.map_filter_def split: if_splits)
  qed (use that in \<open>simp add: remove1_idem\<close>)
  then show ?thesis
    using assms subsetD [OF set_remove1_subset [of th "ce_threads c"]] by (auto simp: center_inv_def live_cong [OF assms(2)])
qed

lemma checks_remove1: "checks (c\<lparr>ce_threads := remove1 th (ce_threads c)\<rparr>) =
    (if th = ThCheck \<and> ThCheck \<in> set (ce_threads c) then checks c - 1 else checks c)"
proof -
  have "length (filter (\<lambda>th. th = ThCheck) (remove1 th xs)) =
      (if th = ThCheck \<and> ThCheck \<in> set xs then length (filter (\<lambda>th. th = ThCheck) xs) - 1 else length (filter (\<lambda>th. th = ThCheck) xs))" for xs
  proof (induction xs)
    case (Cons x xs)
    then show ?case by (cases "x = ThCheck") (auto simp: neq_Nil_conv dest: split_list)
  qed simp
  then show ?thesis by (simp add: checks_def)
qed

lemma inv_job_report:
  assumes "center_inv c" and "\<And>th. th \<in> set (ce_threads c) \<Longrightarrow> run_of th = Some n \<Longrightarrow> \<not> job_over j"
  shows "center_inv (job_report n j c)"
proof (rule inv_map_jobs [OF assms(1), where f = "\<lambda>_ r. if ru_id r = n then r\<lparr>ru_job := j\<rparr> else r" and P = "\<lambda>_. True"])
  fix n' m cable and r :: running
  assume "ThUpdate n' m cable \<in> set (ce_threads c)" "ru_id r = n'" "ru_done r = None" "\<not> job_over (ru_job r)"
  then show "True \<and> ru_done (if ru_id r = n then r\<lparr>ru_job := j\<rparr> else r) = None \<and>
      \<not> job_over (ru_job (if ru_id r = n then r\<lparr>ru_job := j\<rparr> else r))"
    using assms(2) [of "ThUpdate n' m cable"] by (simp add: run_of_def)
qed (simp_all add: job_report_def)

lemma run_once:
  assumes "distinct (List.map_filter run_of xs)" and "th \<in> set xs" and "run_of th = Some n" and "th' \<in> set (remove1 th xs)"
  shows "run_of th' \<noteq> Some n"
proof
  assume r: "run_of th' = Some n"
  from assms(2) obtain ys zs where xs: "xs = ys @ th # zs" "th \<notin> set ys" by (blast dest: split_list_first)
  with assms(4) have "th' \<in> set ys \<or> th' \<in> set zs" by (auto simp: remove1_append split: if_splits)
  then have "n \<in> set (List.map_filter run_of ys) \<or> n \<in> set (List.map_filter run_of zs)"
    using r by (force simp: List.map_filter_def)
  with assms(1,3) show False by (auto simp: xs List.map_filter_def)
qed

lemma inv_look_around: "center_inv c \<Longrightarrow> center_inv (look_around E t c)"
proof -
  assume inv: "center_inv c"
  let ?c1 = "take_retry t (start_check t c)"
  obtain rows c2 where l: "look_boards E t (if busy ?c1 then 2000 else 30000) (tn_here t) ?c1 = (rows, c2)" by fastforce
  have "center_inv c2" by (rule inv_look_boards [OF inv_take_retry [OF inv_start_check [OF inv]] l])
  then have "center_inv (end_jobs t (fold (look_again t) (List.map_filter bu_firmware rows) c2))"
    by (intro inv_end_jobs inv_fold_look)
  then show ?thesis by (rule center_inv_cong) (simp_all add: look_around_def Let_def l show_view_def)
qed

lemma checks_cong: "ce_threads c' = ce_threads c @ [th] \<Longrightarrow> th \<noteq> ThCheck \<Longrightarrow> checks c' = checks c"
  by (simp add: checks_def)

lemma inv_get_companion:
  assumes "center_inv c"
  shows "center_inv (get_companion E c)"
proof (cases "get_companion E c = c")
  case False
  then obtain to a where c': "get_companion E c = c\<lparr>ce_comp := CuDownloading to, ce_threads := ce_threads c @ [ThDownload to a]\<rparr>"
    by (auto simp: get_companion_def split: option.splits)
  show ?thesis unfolding c'
    by (rule inv_add_thread [OF assms, where th = "ThDownload to a"])
      (use assms in \<open>simp_all add: run_of_def center_inv_def checks_def\<close>)
qed (use assms in simp)

lemma inv_open_installer:
  assumes "center_inv c"
  shows "center_inv (open_installer c)"
proof (cases "open_installer c = c")
  case False
  then obtain to p where c': "open_installer c = c\<lparr>ce_comp := CuInstalling to, ce_threads := ce_threads c @ [ThInstall to p]\<rparr>"
    by (auto simp: open_installer_def split: comp_upd.splits)
  show ?thesis unfolding c'
    by (rule inv_add_thread [OF assms, where th = "ThInstall to p"])
      (use assms in \<open>simp_all add: run_of_def center_inv_def checks_def\<close>)
qed (use assms in simp)

lemma inv_do_command:
  assumes "center_inv c"
  shows "center_inv (do_command E t cmd c)"
proof (cases cmd)
  case CheckNow
  then show ?thesis using assms by (auto simp: do_command_def intro: center_inv_cong)
qed (use assms in \<open>simp_all add: do_command_def inv_edit_job inv_start_update inv_get_companion inv_open_installer\<close>)

lemma check_there: "ThCheck \<in> set (ce_threads c) \<Longrightarrow> 0 < checks c"
  by (auto simp: checks_def filter_empty_conv)

lemma checks_other: "ce_threads c' = remove1 th (ce_threads c) \<Longrightarrow> th \<noteq> ThCheck \<Longrightarrow> checks c' = checks c"
  by (simp add: checks_def filter_remove1 remove1_idem)

lemma inv_step:
  assumes "center_step E c c'" and inv: "center_inv c"
  shows "center_inv c'"
  using assms(1)
proof cases
  case (turn t got)
  then show ?thesis using inv by (simp add: center_turn_def inv_look_around inv_do_command split: option.split)
next
  case (checked r)
  have "checks c = 1" using check_there [OF checked(2)] inv by (auto simp: center_inv_def split: if_splits)
  then show ?thesis
    using checked checks_remove1 [where c = "check_done r c" and th = ThCheck] unfolding checked(1)
    by (intro inv_end_thread [OF inv, where th = ThCheck])
      (auto simp: end_thread_def check_done_def checks_def split: sum.splits)
next
  case (reported n m cable j)
  then show ?thesis using inv by (simp add: inv_job_report)
next
  case (updated n m cable j)
  let ?th = "ThUpdate n m cable"
  have "center_inv (end_thread ?th c)"
    using inv by (intro inv_end_thread [OF inv, where th = ?th]) (auto simp: end_thread_def checks_remove1 center_inv_def)
  moreover have "run_of th \<noteq> Some n" if "th \<in> set (ce_threads (end_thread ?th c))" for th
    using run_once [of "ce_threads c" ?th n th] that inv updated(2) by (simp add: end_thread_def center_inv_def run_of_def)
  ultimately have "center_inv (job_report n j (end_thread ?th c))" by (intro inv_job_report) blast+
  moreover have "job_report n j (end_thread ?th c) = end_thread ?th (job_report n j c)"
    by (cases c) (simp add: job_report_def end_thread_def)
  ultimately show ?thesis unfolding updated(1) by simp
next
  case (downloaded to a r)
  show ?thesis unfolding downloaded(1)
    by (rule inv_end_thread [OF inv, where th = "ThDownload to a"])
      (use inv in \<open>simp_all add: end_thread_def download_done_def checks_other center_inv_def\<close>)
next
  case (installed to p r)
  have same: "ce_jobs (install_done r c) = ce_jobs c" "ce_threads (install_done r c) = ce_threads c" "ce_runs (install_done r c) = ce_runs c"
    "ce_checking (install_done r c) = ce_checking c" by (simp_all add: install_done_def split: option.split)
  show ?thesis unfolding installed(1)
    by (rule inv_end_thread [OF inv, where th = "ThInstall to p"])
      (use inv in \<open>simp_all add: end_thread_def same checks_other center_inv_def checks_def filter_remove1 remove1_idem\<close>)
qed

lemma reach_inv: "center_reach E c \<Longrightarrow> center_inv c"
proof (induction rule: center_reach.induct)
  case (new wall)
  show ?case by (simp add: center_inv_def center_new_def checks_def List.map_filter_def)
qed (rule inv_step)

text \<open>C26. Whatever the order in which commands come and threads report, at most one update of a board runs at a time and its
  own run is what the board's row shows, not over while it runs; and at most one look for a release is on its way,
  exactly while the flag of the check is set.\<close>

theorem one_update_per_board:
  assumes "center_reach E c"
  shows "length (updates_of m c) \<le> 1 \<and> checks c = (if ce_checking c then 1 else 0) \<and>
    (\<forall>n cable. ThUpdate n m cable \<in> set (ce_threads c) \<longrightarrow>
       (\<exists>j. map_of (ce_jobs c) m = Some j \<and> ru_id j = n \<and> \<not> job_over (ru_job j)))"
proof -
  note inv = reach_inv [OF assms]
  have row: "\<exists>j. map_of (ce_jobs c) m = Some j \<and> ru_id j = n \<and> \<not> job_over (ru_job j)"
    if "ThUpdate n m cable \<in> set (ce_threads c)" for n cable
  proof -
    have "live c (ThUpdate n m cable)" using inv that by (simp add: center_inv_def)
    then show ?thesis by (auto simp: live_def)
  qed
  have "length xs \<le> 1" if "distinct (List.map_filter run_of xs)" "\<forall>th \<in> set xs. run_of th = Some n" for xs n
  proof -
    have "List.map_filter run_of xs = replicate (length xs) n" using that(2) by (induction xs) (auto simp: List.map_filter_def)
    with that(1) show ?thesis by (cases xs rule: remdups_adj.cases) auto
  qed
  moreover have "distinct (List.map_filter run_of (updates_of m c))"
  proof -
    have "distinct (List.map_filter run_of xs) \<Longrightarrow> distinct (List.map_filter run_of (filter P xs))" for P xs
      unfolding List.map_filter_def using distinct_map_filter [of "the \<circ> run_of" "filter (\<lambda>x. run_of x \<noteq> None) xs" P]
      by (simp add: conj_commute)
    then show ?thesis using inv by (simp add: updates_of_def center_inv_def)
  qed
  moreover have "\<forall>th \<in> set (updates_of m c). run_of th = Some (ru_id (the (map_of (ce_jobs c) m)))"
    using row by (fastforce simp: updates_of_def run_of_def)
  ultimately show ?thesis using row inv by (fastforce simp: center_inv_def)
qed

definition demo_center_env :: center_env where
  "demo_center_env = \<lparr>cn_source = [], cn_dir = ''d'', cn_version = ''4.0'', cn_os = ''linux'',
     cn_json = \<lparr>js_print = \<lambda>_. [], js_parse = \<lambda>_. None\<rparr>\<rparr>"

definition demo_turn :: turn where
  "demo_turn = \<lparr>tn_now = 0, tn_wall = 0, tn_here = [\<lparr>bh_mac = ''A'', bh_url = None\<rparr>], tn_paired = (\<lambda>_. True), tn_status = (\<lambda>_. Inl []),
     tn_disk = \<lparr>files = \<lambda>_. None, io_errors = []\<rparr>, tn_wall_after = 0\<rparr>"

text \<open>A check, its release, and twice the consent to the same update.\<close>

definition demo_center :: center where
  "demo_center =
     (let c1 = center_turn demo_center_env demo_turn None (center_new 0);
          c2 = end_thread ThCheck (check_done (Inr (demo_release, [], [])) c1);
          c3 = center_turn demo_center_env demo_turn (Some (UpdateBoard ''A'' False)) c2
      in center_turn demo_center_env demo_turn (Some (UpdateBoard ''A'' True)) c3)"

lemma demo_center_facts:
  "center_reach demo_center_env demo_center" "ce_threads demo_center = [ThUpdate 0 ''A'' False]" "\<not> ce_checking demo_center"
  "ce_next demo_center = 86400000 \<and> ce_retry demo_center = None"
proof -
  let ?E = demo_center_env and ?t = demo_turn
  obtain c1 where c1: "c1 = center_turn ?E ?t None (center_new 0)" by blast
  obtain c2 where c2: "c2 = end_thread ThCheck (check_done (Inr (demo_release, [], [])) c1)" by blast
  obtain c3 where c3: "c3 = center_turn ?E ?t (Some (UpdateBoard ''A'' False)) c2" by blast
  have demo: "demo_center = center_turn ?E ?t (Some (UpdateBoard ''A'' True)) c3" by (simp add: demo_center_def Let_def c1 c2 c3)
  have day: "CHECK_EVERY = 86400000" by (simp add: CHECK_EVERY_def)
  note turn = center_turn_def look_around_def Let_def start_check_def take_retry_def release_due_def busy_def look_board_def board_row_def
    board_seen_def end_jobs_def mark_over_def job_over_def show_view_def do_command_def start_update_def List.map_filter_def day
  have f1: "ce_threads c1 = [ThCheck]" "ce_checking c1" "ce_next c1 = 86400000" "ce_retry c1 = None" "ce_jobs c1 = []" "ce_runs c1 = 0"
    unfolding c1 by (simp_all add: turn demo_turn_def center_new_def)
  have f2: "ce_threads c2 = []" "\<not> ce_checking c2" "ce_next c2 = 86400000" "ce_retry c2 = None" "ce_jobs c2 = []" "ce_runs c2 = 0"
    "ce_rel c2 \<noteq> None"
    using f1 by (simp_all add: c2 end_thread_def check_done_def)
  have f3: "ce_threads c3 = [ThUpdate 0 ''A'' False]" "\<not> ce_checking c3" "ce_next c3 = 86400000" "ce_retry c3 = None"
    "ce_jobs c3 = [(''A'', \<lparr>ru_id = 0, ru_job = JIdle, ru_cancel = False, ru_restart = False, ru_done = None\<rparr>)]"
    unfolding c3 using f2 by (simp_all add: turn demo_turn_def)
  show "ce_threads demo_center = [ThUpdate 0 ''A'' False]" "\<not> ce_checking demo_center"
    "ce_next demo_center = 86400000 \<and> ce_retry demo_center = None"
    unfolding demo using f3 by (simp_all add: turn demo_turn_def)
  have "center_reach ?E c1" unfolding c1 by (rule center_reach.step [OF center_reach.new center_step.turn])
  then have "center_reach ?E c2" unfolding c2 by (rule center_reach.step [OF _ center_step.checked]) (simp add: f1)
  then show "center_reach ?E demo_center"
    unfolding demo c3 by (intro center_reach.step [OF _ center_step.turn])
qed

theorem one_update_per_board_witness:
  "center_reach demo_center_env demo_center \<and> length (updates_of ''A'' demo_center) \<le> 1 \<and>
   (\<exists>j. map_of (ce_jobs demo_center) ''A'' = Some j \<and> ru_id j = 0)"
  using one_update_per_board [OF demo_center_facts(1), of "''A''"] demo_center_facts by fastforce

subsection \<open>When a release is looked for\<close>

lemma look_boards_frame:
  "look_boards E t every bs c = (rows, c') \<Longrightarrow>
     ce_next c' = ce_next c \<and> ce_retry c' = ce_retry c \<and> ce_checking c' = ce_checking c \<and> ce_threads c' = ce_threads c"
proof (induction bs arbitrary: c rows)
  case (Cons b bs)
  have "ce_next (look_board t every b c) = ce_next c \<and> ce_retry (look_board t every b c) = ce_retry c \<and>
      ce_checking (look_board t every b c) = ce_checking c \<and> ce_threads (look_board t every b c) = ce_threads c"
    by (simp add: look_board_def split: option.split sum.split)
  with Cons show ?case by (auto simp: Let_def split: prod.splits)
qed simp

lemma fold_look_frame:
  "ce_next (fold (look_again t) fs c) \<in> {ce_next c, tn_wall t} \<and> ce_retry (fold (look_again t) fs c) = ce_retry c \<and>
   ce_checking (fold (look_again t) fs c) = ce_checking c \<and> ce_threads (fold (look_again t) fs c) = ce_threads c"
proof (induction fs arbitrary: c)
  case (Cons f fs)
  have "ce_next (look_again t f c) \<in> {ce_next c, tn_wall t} \<and> ce_retry (look_again t f c) = ce_retry c \<and>
      ce_checking (look_again t f c) = ce_checking c \<and> ce_threads (look_again t f c) = ce_threads c"
    by (simp add: look_again_def)
  with Cons [of "look_again t f c"] show ?case by auto
qed simp

lemma look_around_frame:
  "ce_next (look_around E t c) \<in> {ce_next (take_retry t (start_check t c)), tn_wall t}"
  "ce_retry (look_around E t c) = None" "ce_checking (look_around E t c) = ce_checking (start_check t c)"
  "ce_threads (look_around E t c) = ce_threads (start_check t c)"
proof -
  let ?c1 = "take_retry t (start_check t c)"
  obtain rows c2 where l: "look_boards E t (if busy ?c1 then 2000 else 30000) (tn_here t) ?c1 = (rows, c2)" by fastforce
  have r: "ce_retry ?c1 = None" "ce_checking ?c1 = ce_checking (start_check t c)" "ce_threads ?c1 = ce_threads (start_check t c)"
    by (simp_all add: take_retry_def split: option.split)
  show "ce_next (look_around E t c) \<in> {ce_next ?c1, tn_wall t}" "ce_retry (look_around E t c) = None"
    "ce_checking (look_around E t c) = ce_checking (start_check t c)" "ce_threads (look_around E t c) = ce_threads (start_check t c)"
    using look_boards_frame [OF l] fold_look_frame [of t "List.map_filter bu_firmware rows" c2] r
    by (simp_all add: look_around_def Let_def l show_view_def end_jobs_def)
qed

lemma command_frame: "cmd \<noteq> CheckNow \<Longrightarrow> ce_next (do_command E t cmd c) = ce_next c"
  "ce_retry (do_command E t cmd c) = ce_retry c" "ce_checking (do_command E t cmd c) = ce_checking c"
  by (cases cmd; simp add: do_command_def edit_job_def start_update_def get_companion_def open_installer_def
      split: option.split comp_upd.split)+

lemma retry_delay_bounds: "retry_delay n \<le> CHECK_EVERY" "60000 \<le> retry_delay n"
proof -
  have "(1 :: nat) \<le> 2 ^ min (unat n - 1) 16" by simp
  then show "60000 \<le> retry_delay n" unfolding retry_delay_def Let_def CHECK_EVERY_def by linarith
qed (simp add: retry_delay_def Let_def)

lemma retry_within_day: "center_reach E c \<Longrightarrow> ce_retry c = Some d \<Longrightarrow> d \<le> CHECK_EVERY"
proof (induction arbitrary: d rule: center_reach.induct)
  case (step c c')
  from step.hyps(2) show ?case
  proof cases
    case (turn t got)
    have "ce_retry c' = None" unfolding turn center_turn_def by (simp add: look_around_frame command_frame split: option.split)
    then show ?thesis using step.prems by simp
  next
    case (checked r)
    then show ?thesis using step retry_delay_bounds by (auto simp: end_thread_def check_done_def split: sum.splits)
  qed (use step in \<open>auto simp: end_thread_def job_report_def download_done_def install_done_def split: option.splits\<close>)
qed (simp add: center_new_def)



subsection \<open>What the cable is called with\<close>

lemma fetch_asset_cases:
  obtains (checked) b w' where "fetch_asset V source a cap w = (Ok b, w')" "asset_matches V a b"
  | (failed) e w' where "fetch_asset V source a cap w = (Err e, w')"
proof (cases "uw_gets w")
  case Nil
  then show thesis by (intro failed) (simp add: fetch_asset_def bnd_def uw_get_def)
next
  case (Cons g gs)
  show thesis
  proof (cases g)
    case (Inl e)
    then show thesis using Cons by (intro failed) (simp add: fetch_asset_def bnd_def uw_get_def)
  next
    case (Inr b)
    show thesis
    proof (cases "asset_matches V a b")
      case True
      then show thesis using Cons Inr by (intro checked) (simp_all add: fetch_asset_def bnd_def uw_get_def ret_def)
    next
      case False
      then show thesis using Cons Inr by (intro failed) (simp add: fetch_asset_def bnd_def uw_get_def throw_def)
    qed
  qed
qed

text \<open>The two files, one after the other.\<close>

lemma both_files:
  obtains (checked) img table w' where "bnd (fetch_asset V source a cap) (\<lambda>img. bnd (fetch_asset V source ta cap') (\<lambda>table. ret (img, table))) w =
      (Ok (img, table), w')" "asset_matches V a img" "asset_matches V ta table"
  | (failed) e w' where "bnd (fetch_asset V source a cap) (\<lambda>img. bnd (fetch_asset V source ta cap') (\<lambda>table. ret (img, table))) w = (Err e, w')"
proof (cases rule: fetch_asset_cases [of V source a cap w])
  case (checked b w1)
  show thesis
  proof (cases rule: fetch_asset_cases [of V source ta cap' w1])
    case (checked b' w2)
    then show thesis using \<open>fetch_asset V source a cap w = (Ok b, w1)\<close> \<open>asset_matches V a b\<close>
      by (intro that(1)) (simp_all add: ret_def)
  next
    case (failed e w2)
    then show thesis using checked by (intro that(2)) simp
  qed
next
  case (failed e w1)
  then show thesis by (intro that(2)) simp
qed

text \<open>C28. A cable update begins only with checked files: the cable is called only with a plan that was made for this board, and
  with an image and a partition table whose size and SHA-256 are those the release pins; in every other case it is not
  called and the job has ended, stopped or failed.\<close>

theorem cable_called_verified:
  "\<exists>res w'. cable_thread V source rel s paired com known native w = (Ok res, w') \<and>
     (case res of
        Some (plan, img, table) \<Rightarrow> cable_plan s paired com known native = Inr plan \<and> asset_matches V (or_image rel) img \<and>
          (\<exists>ta. or_table rel = Some ta \<and> asset_matches V ta table)
      | None \<Rightarrow> job_over (uw_job w'))"
proof (cases "cable_plan s paired com known native")
  case (Inl why)
  then show ?thesis by (simp add: cable_thread_def fail_job_def set_job_def modify_def seq_def bnd_def ret_def job_over_def)
next
  case (Inr plan)
  let ?w1 = "w\<lparr>uw_job := JCable ''downloading the release'' 0 (as_size (or_image rel))\<rparr>"
  have job: "set_job j v = (Ok (), v\<lparr>uw_job := j\<rparr>)" for j v by (simp add: set_job_def modify_def)
  show ?thesis
  proof (cases "or_table rel")
    case None
    then show ?thesis unfolding cable_thread_def Inr sum.case
      by (simp add: job fail_job_def ret_def job_over_def)
  next
    case (Some ta)
    let ?both = "bnd (fetch_asset V source (or_image rel) IMAGE_CAP) (\<lambda>img. bnd (fetch_asset V source ta 0x1000) (\<lambda>table. ret (img, table)))"
    have start: "cable_thread V source rel s paired com known native w =
        bnd (attempt ?both) (\<lambda>got. case got of
                 Inl why \<Rightarrow> seq (fail_job why) (ret None)
               | Inr (img, table) \<Rightarrow>
                   bnd cancel_read (\<lambda>c. if c then seq (set_job JStopped) (ret None) else ret (Some (plan, img, table)))) ?w1"
      unfolding cable_thread_def Inr sum.case Some option.case by (simp only: seq_Ok [OF job])
    show ?thesis
    proof (cases rule: both_files [of V source "or_image rel" IMAGE_CAP ta "0x1000" ?w1])
      case (checked img table w2)
      then have "attempt ?both ?w1 = (Ok (Inr (img, table)), w2)" by (simp only: attempt_def outcome.case prod.case)
      then have run: "cable_thread V source rel s paired com known native w =
          bnd cancel_read (\<lambda>c. if c then seq (set_job JStopped) (ret None) else ret (Some (plan, img, table))) w2"
        unfolding start by (simp only: bnd_Ok sum.case prod.case)
      show ?thesis unfolding run using checked(2,3) Inr Some
        by (cases "uw_cancel w2") (simp_all add: cancel_read_def bnd_def seq_def job ret_def job_over_def)
    next
      case (failed e w2)
      then have "attempt ?both ?w1 = (Ok (Inl e), w2)" by (simp only: attempt_def outcome.case prod.case)
      then have run: "cable_thread V source rel s paired com known native w = seq (fail_job e) (ret None) w2"
        unfolding start by (simp only: bnd_Ok sum.case prod.case)
      show ?thesis unfolding run by (simp add: fail_job_def seq_def bnd_def job ret_def job_over_def)
    qed
  qed
qed

text \<open>Nothing keeps a second download of the installer from starting beside the first, into the same file.\<close>

lemma download_unguarded:
  assumes "ce_comp c = CuDownloading v" and "rel_known c = Some r" and "companion_offer (cn_os E) (Some r) (cn_version E) = Some a"
  shows "ce_threads (do_command E t GetCompanion c) = ce_threads c @ [ThDownload (comp_version r) a]"
  using assms(2,3) by (simp add: do_command_def get_companion_def)

end
