(* ===== verification/Stream_Gate.thy ===== *)
theory Stream_Gate
  imports Session "HOL-Library.AList"
begin

section \<open>Who may watch (crates/hidfi-stream/src/server.rs)\<close>

text \<open>
  The guards before a viewer: the addresses it may come from, the tickets a board signed, the strikes of an address that
  presents bad ones, and the slots.  The nonces the gate accepts are the ones the session announces.  The watchers' counters are touched by
  one thread for each viewer, so claiming and giving back a slot are modelled as the atomic steps they consist of, in
  any order of the threads.  Times are in milliseconds.
\<close>

subsection \<open>Definitions: addresses\<close>

text \<open>\<open>IpAddr\<close>: four bytes, or eight 16-bit segments.\<close>

datatype ip_addr = IpV4 u8 u8 u8 u8 | IpV6 u16 u16 u16 u16 u16 u16 u16 u16

definition v4_private :: "u8 \<Rightarrow> u8 \<Rightarrow> bool" where
  "v4_private a b \<longleftrightarrow> a = 10 \<or> a = 172 \<and> 16 \<le> b \<and> b \<le> 31 \<or> a = 192 \<and> b = 168"

definition v4_loopback :: "u8 \<Rightarrow> bool" where "v4_loopback a \<longleftrightarrow> a = 127"
definition v4_link_local :: "u8 \<Rightarrow> u8 \<Rightarrow> bool" where "v4_link_local a b \<longleftrightarrow> a = 169 \<and> b = 254"

definition v6_mapped :: "ip_addr \<Rightarrow> ip_addr option" where
  "v6_mapped ip =
     (case ip of
        IpV6 a b c d e f g h \<Rightarrow>
          if a = 0 \<and> b = 0 \<and> c = 0 \<and> d = 0 \<and> e = 0 \<and> f = 0xFFFF
          then Some (IpV4 (ucast (drop_bit 8 g)) (ucast g) (ucast (drop_bit 8 h)) (ucast h)) else None
      | IpV4 _ _ _ _ \<Rightarrow> None)"

fun private_v4 :: "ip_addr \<Rightarrow> bool" where
  "private_v4 (IpV4 a b c d) \<longleftrightarrow> v4_private a b \<or> v4_loopback a \<or> v4_link_local a b"
| "private_v4 (IpV6 _ _ _ _ _ _ _ _) \<longleftrightarrow> False"

fun private_peer :: "ip_addr \<Rightarrow> bool" where
  "private_peer (IpV4 a b c d) \<longleftrightarrow> private_v4 (IpV4 a b c d)"
| "private_peer (IpV6 a b c d e f g h) \<longleftrightarrow>
     (case v6_mapped (IpV6 a b c d e f g h) of
        Some m \<Rightarrow> private_v4 m
      | None \<Rightarrow>
          IpV6 a b c d e f g h = IpV6 0 0 0 0 0 0 0 1 \<or>
          Bit_Operations.and a 0xFE00 = 0xFC00 \<or> Bit_Operations.and a 0xFFC0 = 0xFE80)"

subsection \<open>Definitions: tickets\<close>

definition USED_FOR :: nat where "USED_FOR = 300000"

datatype admission = AdmitYes u64 | AdmitClosed | AdmitNo

record gate_key =
  gk_tag :: u64
  gk_key :: pair_key
  gk_here :: bool

record ticket_gate =
  tg_keys :: "gate_key list"
  tg_nonces :: ticket_nonces
  tg_used :: "(string \<times> nat) list"

definition gate_new :: "gate_key list \<Rightarrow> ticket_nonces \<Rightarrow> ticket_gate" where
  "gate_new ks ns = \<lparr>tg_keys = ks, tg_nonces = ns, tg_used = []\<rparr>"

definition recent :: "nat \<Rightarrow> (string \<times> nat) list \<Rightarrow> (string \<times> nat) list" where
  "recent now q = filter (\<lambda>(_, at). now - at < USED_FOR) q"

definition gate_admit :: "crypto \<Rightarrow> nat \<Rightarrow> string \<Rightarrow> string \<Rightarrow> u8 list \<Rightarrow> ticket_gate \<Rightarrow> admission \<times> ticket_gate" where
  "gate_admit C now tn vn tk g =
     (if \<not> is_live tn now (tg_nonces g) then (AdmitNo, g)
      else
        (case find (\<lambda>k. ticket_ok C (gk_key k) tn vn tk) (tg_keys g) of
           None \<Rightarrow> (AdmitNo, g)
         | Some k \<Rightarrow>
             if \<not> gk_here k then (AdmitClosed, g)
             else
               (let used = recent now (tg_used g) in
                if list_ex (\<lambda>(v, _). v = vn) used then (AdmitNo, g\<lparr>tg_used := used\<rparr>)
                else (AdmitYes (gk_tag k), g\<lparr>tg_used := used @ [(vn, now)]\<rparr>))))"

definition still_open :: "u64 \<Rightarrow> ticket_gate \<Rightarrow> bool" where
  "still_open tag g \<longleftrightarrow> list_ex (\<lambda>k. gk_tag k = tag \<and> gk_here k) (tg_keys g)"

subsection \<open>Definitions: strikes\<close>

definition BAD_LIMIT :: nat where "BAD_LIMIT = 5"
definition BAD_WINDOW :: nat where "BAD_WINDOW = 600000"
definition MAX_VIEWERS :: nat where "MAX_VIEWERS = 6"
definition MAX_CONNS :: nat where "MAX_CONNS = 10"

text \<open>The times of the bad tickets of each address, one entry for an address.\<close>

type_synonym strikes = "(ip_addr \<times> nat list) list"

definition strikes_of :: "ip_addr \<Rightarrow> strikes \<Rightarrow> nat list" where
  "strikes_of ip b = (case map_of b ip of Some q \<Rightarrow> q | None \<Rightarrow> [])"

definition blocked :: "nat \<Rightarrow> ip_addr \<Rightarrow> strikes \<Rightarrow> bool \<times> strikes" where
  "blocked now ip b =
     (let q = filter (\<lambda>t. now - t < BAD_WINDOW) (strikes_of ip b);
          b1 = (if q = [] then AList.delete ip b else AList.update ip q b);
          b2 = (if 256 < length b1 then filter (\<lambda>(_, q). BAD_LIMIT \<le> length q) b1 else b1)
      in (BAD_LIMIT \<le> length q, b2))"

definition strike :: "nat \<Rightarrow> ip_addr \<Rightarrow> strikes \<Rightarrow> strikes" where
  "strike now ip b = AList.update ip (strikes_of ip b @ [now]) b"

text \<open>The accept loop's decision on a connection, with the number of connections that are there.\<close>

definition accept_peer :: "nat \<Rightarrow> ip_addr \<Rightarrow> nat \<Rightarrow> strikes \<Rightarrow> bool \<times> strikes" where
  "accept_peer now ip conns b =
     (if \<not> private_peer ip then (False, b)
      else (case blocked now ip b of (out, b') \<Rightarrow> (\<not> out \<and> conns < MAX_CONNS, b')))"

subsection \<open>Definitions: slots\<close>

record watchers =
  wt_total :: nat
  wt_by :: "u64 \<rightharpoonup> nat"

definition watchers_default :: watchers where
  "watchers_default = \<lparr>wt_total = 0, wt_by = Map.empty\<rparr>"

definition of_board :: "u64 \<Rightarrow> watchers \<Rightarrow> nat" where
  "of_board tag w = (case wt_by w tag of Some n \<Rightarrow> n | None \<Rightarrow> 0)"

text \<open>The atomic steps of \<open>claim\<close> and of dropping the slot.\<close>

definition total_add :: "watchers \<Rightarrow> nat \<times> watchers" where
  "total_add w = (wt_total w, w\<lparr>wt_total := wt_total w + 1\<rparr>)"

definition total_sub :: "watchers \<Rightarrow> watchers" where
  "total_sub w = w\<lparr>wt_total := wt_total w - 1\<rparr>"

definition board_add :: "u64 \<Rightarrow> watchers \<Rightarrow> watchers" where
  "board_add tag w = w\<lparr>wt_by := (wt_by w)(tag \<mapsto> of_board tag w + 1)\<rparr>"

text \<open>\<open>*n -= 1\<close> panics at zero.\<close>

definition board_sub :: "u64 \<Rightarrow> watchers \<Rightarrow> watchers option" where
  "board_sub tag w =
     (case wt_by w tag of
        None \<Rightarrow> Some w
      | Some n \<Rightarrow>
          if n = 0 then None
          else if n - 1 = 0 then Some (w\<lparr>wt_by := (wt_by w)(tag := None)\<rparr>)
          else Some (w\<lparr>wt_by := (wt_by w)(tag \<mapsto> n - 1)\<rparr>))"

definition claim :: "u64 \<Rightarrow> nat \<Rightarrow> watchers \<Rightarrow> bool \<times> watchers" where
  "claim tag mx w =
     (case total_add w of (before, w1) \<Rightarrow>
        if mx \<le> before then (False, total_sub w1) else (True, board_add tag w1))"

definition slot_drop :: "u64 \<Rightarrow> watchers \<Rightarrow> watchers option" where
  "slot_drop tag w = map_option total_sub (board_sub tag w)"

text \<open>Where a viewer's thread is between them.\<close>

datatype slot_thread = SlRefused | SlClaiming u64 | SlHolding u64 | SlLeaving u64

record slots =
  sl_watchers :: watchers
  sl_threads :: "slot_thread list"
  sl_panic :: bool

definition slots_new :: slots where
  "slots_new = \<lparr>sl_watchers = watchers_default, sl_threads = [], sl_panic = False\<rparr>"

definition moves :: "slot_thread \<Rightarrow> slot_thread list \<Rightarrow> watchers \<Rightarrow> slots \<Rightarrow> slots" where
  "moves th new w s = s\<lparr>sl_watchers := w, sl_threads := new @ remove1 th (sl_threads s)\<rparr>"

inductive slot_step :: "nat \<Rightarrow> slots \<Rightarrow> slots \<Rightarrow> bool" for mx where
  refused: "total_add (sl_watchers s) = (before, w) \<Longrightarrow> mx \<le> before \<Longrightarrow>
    slot_step mx s (s\<lparr>sl_watchers := w, sl_threads := SlRefused # sl_threads s\<rparr>)"
| added: "total_add (sl_watchers s) = (before, w) \<Longrightarrow> before < mx \<Longrightarrow>
    slot_step mx s (s\<lparr>sl_watchers := w, sl_threads := SlClaiming tag # sl_threads s\<rparr>)"
| undone: "SlRefused \<in> set (sl_threads s) \<Longrightarrow> slot_step mx s (moves SlRefused [] (total_sub (sl_watchers s)) s)"
| claimed: "SlClaiming tag \<in> set (sl_threads s) \<Longrightarrow>
    slot_step mx s (moves (SlClaiming tag) [SlHolding tag] (board_add tag (sl_watchers s)) s)"
| left_board: "SlHolding tag \<in> set (sl_threads s) \<Longrightarrow> board_sub tag (sl_watchers s) = Some w \<Longrightarrow>
    slot_step mx s (moves (SlHolding tag) [SlLeaving tag] w s)"
| panicked: "SlHolding tag \<in> set (sl_threads s) \<Longrightarrow> board_sub tag (sl_watchers s) = None \<Longrightarrow>
    slot_step mx s (s\<lparr>sl_panic := True\<rparr>)"
| left_slot: "SlLeaving tag \<in> set (sl_threads s) \<Longrightarrow> slot_step mx s (moves (SlLeaving tag) [] (total_sub (sl_watchers s)) s)"

inductive slot_reach :: "nat \<Rightarrow> slots \<Rightarrow> bool" for mx where
  new: "slot_reach mx slots_new"
| step: "slot_reach mx s \<Longrightarrow> slot_step mx s s' \<Longrightarrow> slot_reach mx s'"

subsection \<open>Addresses\<close>

text \<open>What the guard is meant to say, in the notation of the networks: \<open>in_net w net len n\<close> is membership of the \<open>w\<close>-bit
  address \<open>n\<close> in \<open>net/len\<close>.\<close>

definition in_net :: "nat \<Rightarrow> nat \<Rightarrow> nat \<Rightarrow> nat \<Rightarrow> bool" where
  "in_net w net len n \<longleftrightarrow> n div 2 ^ (w - len) = net div 2 ^ (w - len)"

definition v4_number :: "nat \<Rightarrow> nat \<Rightarrow> nat \<Rightarrow> nat \<Rightarrow> nat" where
  "v4_number a b c d = ((a * 256 + b) * 256 + c) * 256 + d"

definition v6_number :: "nat list \<Rightarrow> nat" where
  "v6_number segs = fold (\<lambda>s n. n * 65536 + s) segs 0"

definition home_v4 :: "nat \<Rightarrow> bool" where
  "home_v4 n \<longleftrightarrow> in_net 32 (v4_number 10 0 0 0) 8 n \<or> in_net 32 (v4_number 172 16 0 0) 12 n \<or> in_net 32 (v4_number 192 168 0 0) 16 n \<or>
     in_net 32 (v4_number 127 0 0 0) 8 n \<or> in_net 32 (v4_number 169 254 0 0) 16 n"

definition home_v6 :: "nat \<Rightarrow> bool" where
  "home_v6 n \<longleftrightarrow> n = 1 \<or> in_net 128 (v6_number [0xFC00, 0, 0, 0, 0, 0, 0, 0]) 7 n \<or> in_net 128 (v6_number [0xFE80, 0, 0, 0, 0, 0, 0, 0]) 10 n \<or>
     in_net 128 (v6_number [0, 0, 0, 0, 0, 0xFFFF, 0, 0]) 96 n \<and> home_v4 (n mod 2 ^ 32)"

fun home_address :: "ip_addr \<Rightarrow> bool" where
  "home_address (IpV4 a b c d) \<longleftrightarrow> home_v4 (v4_number (unat a) (unat b) (unat c) (unat d))"
| "home_address (IpV6 a b c d e f g h) \<longleftrightarrow> home_v6 (v6_number (map unat [a, b, c, d, e, f, g, h]))"

lemma unat_top:
  fixes a :: u16
  shows "unat (Bit_Operations.and a (Bit_Operations.not (mask n))) = 2 ^ n * (unat a div 2 ^ n)"
proof -
  have p: "Bit_Operations.and a (Bit_Operations.not (mask n)) = push_bit n (drop_bit n a)"
    by (rule bit_word_eqI) (auto simp: bit_and_iff bit_not_iff bit_mask_iff bit_push_bit_iff bit_drop_bit_eq)
  have "2 ^ n * (unat a div 2 ^ n) < 65536"
    using unsigned_less [of a] by (intro order.strict_trans1 [OF times_div_less_eq_dividend]) simp
  moreover have "unat (push_bit n (drop_bit n a)) = take_bit 16 (push_bit n (unat (drop_bit n a)))"
    using unsigned_push_bit_eq [where 'a = nat, of n "drop_bit n a"] by simp
  moreover have "unat (drop_bit n a) = unat a div 2 ^ n" by (metis unat_drop_bit_eq drop_bit_eq_div)
  ultimately show ?thesis unfolding p by (simp add: push_bit_nat_def take_bit_eq_mod mult.commute)
qed

lemma top_bits:
  fixes a :: u16
  shows "Bit_Operations.and a 0xFE00 = 0xFC00 \<longleftrightarrow> unat a div 512 = 126"
    and "Bit_Operations.and a 0xFFC0 = 0xFE80 \<longleftrightarrow> unat a div 64 = 1018"
proof -
  have "Bit_Operations.not (mask 9) = (0xFE00 :: u16)" "Bit_Operations.not (mask 6) = (0xFFC0 :: u16)"
    by (simp_all add: mask_numeral)
  with unat_top [of a 9] unat_top [of a 6]
  have "unat (Bit_Operations.and a 0xFE00) = 512 * (unat a div 512)" "unat (Bit_Operations.and a 0xFFC0) = 64 * (unat a div 64)"
    by simp_all
  then show "Bit_Operations.and a 0xFE00 = 0xFC00 \<longleftrightarrow> unat a div 512 = 126"
    "Bit_Operations.and a 0xFFC0 = 0xFE80 \<longleftrightarrow> unat a div 64 = 1018"
    by (simp_all add: word_unat_eq_iff)
qed

lemma v4_div:
  assumes "b < 256" and "c < 256" and "d < 256"
  shows "v4_number a b c d div 2 ^ 24 = a" "v4_number a b c d div 2 ^ 16 = a * 256 + b" "v4_number a b c d div 2 ^ 20 = a * 16 + b div 16"
proof -
  have "v4_number a b c d div 2 ^ 16 = v4_number a b c d div 256 div 256" by (simp add: div_mult2_eq [symmetric])
  then show s: "v4_number a b c d div 2 ^ 16 = a * 256 + b" using assms by (simp add: v4_number_def)
  have "v4_number a b c d div 2 ^ 24 = v4_number a b c d div 2 ^ 16 div 256" by (simp add: div_mult2_eq [symmetric])
  then show "v4_number a b c d div 2 ^ 24 = a" using s assms by simp
  have "v4_number a b c d div 2 ^ 20 = v4_number a b c d div 2 ^ 16 div 16" by (simp add: div_mult2_eq [symmetric])
  then show "v4_number a b c d div 2 ^ 20 = a * 16 + b div 16" using s by simp
qed

lemma radix_eq: "(b :: nat) < m \<Longrightarrow> y < m \<Longrightarrow> a * m + b = x * m + y \<longleftrightarrow> a = x \<and> b = y"
proof
  assume b: "b < m" and y: "y < m" and e: "a * m + b = x * m + y"
  have "(a * m + b) div m = a" "(x * m + y) div m = x" using b y by simp_all
  with e show "a = x \<and> b = y" by simp
qed simp

lemma nibble_eq: "(b :: nat) < 256 \<Longrightarrow> a * 16 + b div 16 = 172 * 16 + 1 \<longleftrightarrow> a = 172 \<and> 16 \<le> b \<and> b \<le> 31"
  using radix_eq [of "b div 16" 16 1 a 172] by auto

lemma home_v4_bytes:
  fixes a b c d :: u8
  shows "home_v4 (v4_number (unat a) (unat b) (unat c) (unat d)) \<longleftrightarrow> private_v4 (IpV4 a b c d)"
proof -
  note n = v4_div [of "unat b" "unat c" "unat d" "unat a", OF unat_u8_less unat_u8_less unat_u8_less]
  have v: "v4_number 10 0 0 0 div 2 ^ 24 = 10" "v4_number 127 0 0 0 div 2 ^ 24 = 127" "v4_number 172 16 0 0 div 2 ^ 20 = 172 * 16 + 1"
    "v4_number 192 168 0 0 div 2 ^ 16 = 192 * 256 + 168" "v4_number 169 254 0 0 div 2 ^ 16 = 169 * 256 + 254"
    by (simp_all add: v4_number_def)
  have "unat a * 256 + unat b = 192 * 256 + 168 \<longleftrightarrow> unat a = 192 \<and> unat b = 168"
    "unat a * 256 + unat b = 169 * 256 + 254 \<longleftrightarrow> unat a = 169 \<and> unat b = 254"
    by (intro radix_eq unat_u8_less; simp)+
  moreover have "unat a * 16 + unat b div 16 = 172 * 16 + 1 \<longleftrightarrow> unat a = 172 \<and> 16 \<le> unat b \<and> unat b \<le> 31"
    by (rule nibble_eq [OF unat_u8_less])
  moreover have "private_v4 (IpV4 a b c d) \<longleftrightarrow> unat a = 10 \<or> unat a = 172 \<and> 16 \<le> unat b \<and> unat b \<le> 31 \<or>
      unat a = 192 \<and> unat b = 168 \<or> unat a = 127 \<or> unat a = 169 \<and> unat b = 254"
    by (simp add: v4_private_def v4_loopback_def v4_link_local_def word_unat_eq_iff word_le_nat_alt disj_assoc)
  ultimately show ?thesis unfolding home_v4_def in_net_def by (simp add: n [simplified] v [simplified])
qed

lemma v6_top:
  fixes a b c d e f g h :: u16
  defines "n \<equiv> v6_number (map unat [a, b, c, d, e, f, g, h])"
  shows "n div 2 ^ 121 = unat a div 512" "n div 2 ^ 118 = unat a div 64"
    "n div 2 ^ 32 = 0xFFFF \<longleftrightarrow> a = 0 \<and> b = 0 \<and> c = 0 \<and> d = 0 \<and> e = 0 \<and> f = 0xFFFF"
    "n mod 2 ^ 32 = unat g * 65536 + unat h"
    "n = 1 \<longleftrightarrow> a = 0 \<and> b = 0 \<and> c = 0 \<and> d = 0 \<and> e = 0 \<and> f = 0 \<and> g = 0 \<and> h = 1"
proof -
  have lt: "unat x < 65536" for x :: u16 using unsigned_less [of x] by simp
  let ?k = "\<lambda>x y :: nat. x * 65536 + y"
  let ?f = "?k (?k (?k (?k (?k (unat a) (unat b)) (unat c)) (unat d)) (unat e)) (unat f)"
  have n: "n = ?k (?k ?f (unat g)) (unat h)" by (simp add: n_def v6_number_def)
  have s: "?k x (unat y) div 65536 = x" "?k x (unat y) mod 65536 = unat y" for x and y :: u16 using lt [of y] by simp_all
  have "n div 2 ^ 32 = n div 65536 div 65536" by (simp add: div_mult2_eq [symmetric])
  then have f: "n div 2 ^ 32 = ?f" unfolding n s .
  have "n div 2 ^ 112 = n div 2 ^ 32 div 65536 div 65536 div 65536 div 65536 div 65536" by (simp add: div_mult2_eq [symmetric])
  then have top: "n div 2 ^ 112 = unat a" unfolding f s .
  have "n div 2 ^ 121 = n div 2 ^ 112 div 512" "n div 2 ^ 118 = n div 2 ^ 112 div 64" by (simp_all add: div_mult2_eq [symmetric])
  then show "n div 2 ^ 121 = unat a div 512" "n div 2 ^ 118 = unat a div 64" unfolding top by simp_all
  have z: "?k x (unat y) = 0 \<longleftrightarrow> x = 0 \<and> unat y = 0" for x and y :: u16 by simp
  have c1: "?k x (unat y) = 1 \<longleftrightarrow> x = 0 \<and> unat y = 1" for x and y :: u16 using radix_eq [where b = "unat y" and m = 65536 and y = 1 and a = x and x = 0] lt [of y] by simp
  have cF: "?k x (unat y) = 0xFFFF \<longleftrightarrow> x = 0 \<and> unat y = 0xFFFF" for x and y :: u16 using radix_eq [where b = "unat y" and m = 65536 and y = "0xFFFF" and a = x and x = 0] lt [of y] by simp
  have w: "unat x = 0 \<longleftrightarrow> x = 0" "unat x = 1 \<longleftrightarrow> x = 1" "unat x = 0xFFFF \<longleftrightarrow> x = 0xFFFF" for x :: u16 by (simp_all add: word_unat_eq_iff)
  show "n div 2 ^ 32 = 0xFFFF \<longleftrightarrow> a = 0 \<and> b = 0 \<and> c = 0 \<and> d = 0 \<and> e = 0 \<and> f = 0xFFFF" unfolding f cF z w by auto
  show "n = 1 \<longleftrightarrow> a = 0 \<and> b = 0 \<and> c = 0 \<and> d = 0 \<and> e = 0 \<and> f = 0 \<and> g = 0 \<and> h = 1" unfolding n c1 z w by auto
  have "n = 2 ^ 32 * ?f + ?k (unat g) (unat h)" unfolding n by (simp add: algebra_simps)
  moreover have "?k (unat g) (unat h) < 2 ^ 32" using lt [of g] lt [of h] by simp
  moreover have "(2 ^ 32 * q + r) mod 2 ^ 32 = r" if "r < 2 ^ 32" for q r :: nat using that by simp
  ultimately show "n mod 2 ^ 32 = ?k (unat g) (unat h)" by metis
qed

lemma mapped_bytes:
  fixes g h :: u16
  shows "v4_number (unat (ucast (drop_bit 8 g) :: u8)) (unat (ucast g :: u8)) (unat (ucast (drop_bit 8 h) :: u8)) (unat (ucast h :: u8)) =
    unat g * 65536 + unat h"
proof -
  have two_8: "2 ^ 8 = (256 :: nat)" by simp
  have hi: "unat (ucast (drop_bit 8 x) :: u8) = unat x div 256" for x :: u16
  proof -
    have "unat (drop_bit 8 x) = unat x div 256" by (metis unat_drop_bit_eq [of 8 x] drop_bit_eq_div [of 8 "unat x"] two_8)
    moreover have "unat x div 256 < 256" using unsigned_less [of x, where 'a = nat] by simp
    ultimately show ?thesis by (simp add: unsigned_ucast_eq take_bit_eq_mod)
  qed
  have lo: "unat (ucast x :: u8) = unat x mod 256" for x :: u16 by (simp add: unsigned_ucast_eq take_bit_eq_mod)
  have "v4_number (unat g div 256) (unat g mod 256) (unat h div 256) (unat h mod 256) =
      (unat g div 256 * 256 + unat g mod 256) * 65536 + (unat h div 256 * 256 + unat h mod 256)"
    by (simp add: v4_number_def algebra_simps del: div_mult_mod_eq mod_div_mult_eq)
  then show ?thesis unfolding hi unfolding lo div_mult_mod_eq .
qed

text \<open>C33. Nobody on the public internet reaches the viewer's door: the addresses that are let in are exactly the private networks
  10/8, 172.16/12 and 192.168/16, loopback 127/8 and link-local 169.254/16, the same inside an IPv6 address (::ffff:0:0/96), and
  IPv6's loopback, unique-local fc00::/7 and link-local fe80::/10.\<close>

theorem private_peer_spec: "private_peer ip \<longleftrightarrow> home_address ip"
proof (cases ip)
  case (IpV4 a b c d)
  then show ?thesis using home_v4_bytes by simp
next
  case (IpV6 a b c d e f g h)
  let ?n = "v6_number (map unat [a, b, c, d, e, f, g, h])"
  let ?mapped = "a = 0 \<and> b = 0 \<and> c = 0 \<and> d = 0 \<and> e = 0 \<and> f = 0xFFFF"
  note t = v6_top [of a b c d e f g h, simplified]
  have nets: "v6_number [0xFC00, 0, 0, 0, 0, 0, 0, 0] div 2 ^ 121 = 126" "v6_number [0xFE80, 0, 0, 0, 0, 0, 0, 0] div 2 ^ 118 = 1018"
    "v6_number [0, 0, 0, 0, 0, 0xFFFF, 0, 0] div 2 ^ 32 = 0xFFFF"
    by (simp_all add: v6_number_def)
  have h6: "home_v6 ?n \<longleftrightarrow> (a = 0 \<and> b = 0 \<and> c = 0 \<and> d = 0 \<and> e = 0 \<and> f = 0 \<and> g = 0 \<and> h = 1) \<or> unat a div 512 = 126 \<or>
      unat a div 64 = 1018 \<or> ?mapped \<and> home_v4 (unat g * 65536 + unat h)"
    unfolding home_v6_def in_net_def by (simp add: t nets [simplified])
  have m: "home_v4 (unat g * 65536 + unat h) \<longleftrightarrow>
      private_v4 (IpV4 (ucast (drop_bit 8 g)) (ucast g) (ucast (drop_bit 8 h)) (ucast h))"
    unfolding mapped_bytes [symmetric] by (rule home_v4_bytes)
  show ?thesis
  proof (cases ?mapped)
    case True
    then have "unat a div 512 = 0" "unat a div 64 = 0" "f \<noteq> 0" by simp_all
    with True show ?thesis unfolding IpV6 home_address.simps h6 m by (simp add: v6_mapped_def)
  next
    case False
    then show ?thesis unfolding IpV6 home_address.simps h6 by (auto simp: v6_mapped_def top_bits)
  qed
qed

subsection \<open>Tickets\<close>

lemma found: "find P xs = Some x \<Longrightarrow> x \<in> set xs \<and> P x"
  by (induction xs) (auto split: if_splits)

lemma admit_yes:
  assumes "gate_admit C now tn vn tk g = (AdmitYes tag, g')"
  shows "is_live tn now (tg_nonces g)" and "vn \<notin> fst ` set (recent now (tg_used g))"
    and "\<exists>k \<in> set (tg_keys g). gk_tag k = tag \<and> gk_here k \<and> ticket_ok C (gk_key k) tn vn tk"
    and "g' = g\<lparr>tg_used := recent now (tg_used g) @ [(vn, now)]\<rparr>"
  using assms by (auto simp: gate_admit_def Let_def list_ex_iff dest!: found split: if_splits option.splits)

lemma admit_other:
  assumes "gate_admit C now tn vn tk g = (r, g')" and "\<forall>tag. r \<noteq> AdmitYes tag"
  shows "g' = g \<or> g' = g\<lparr>tg_used := recent now (tg_used g)\<rparr>"
  using assms by (auto simp: gate_admit_def Let_def split: if_splits option.splits)

text \<open>What happens to a gate, with its time: the session announces a nonce, the service changes the keys, a viewer presents a
  ticket.\<close>

datatype gate_event = GAnnounce string | GKeys "gate_key list" | GAdmit string string "u8 list"

fun gate_step :: "crypto \<Rightarrow> nat \<times> gate_event \<Rightarrow> ticket_gate \<Rightarrow> admission option \<times> ticket_gate" where
  "gate_step C (t, GAnnounce tn) g = (None, g\<lparr>tg_nonces := announce tn t (tg_nonces g)\<rparr>)"
| "gate_step C (t, GKeys ks) g = (None, g\<lparr>tg_keys := ks\<rparr>)"
| "gate_step C (t, GAdmit tn vn tk) g = (case gate_admit C t tn vn tk g of (r, g') \<Rightarrow> (Some r, g'))"

text \<open>The tickets that were let in, each with the keys of its moment.\<close>

record entry =
  en_time :: nat
  en_tn :: string
  en_vn :: string
  en_ticket :: "u8 list"
  en_tag :: u64
  en_keys :: "gate_key list"

fun admitted :: "crypto \<Rightarrow> (nat \<times> gate_event) list \<Rightarrow> ticket_gate \<Rightarrow> entry list" where
  "admitted C [] g = []"
| "admitted C (e # es) g =
     (case gate_step C e g of (r, g') \<Rightarrow>
        (case (r, e) of
           (Some (AdmitYes tag), (t, GAdmit tn vn tk)) \<Rightarrow>
             \<lparr>en_time = t, en_tn = tn, en_vn = vn, en_ticket = tk, en_tag = tag, en_keys = tg_keys g\<rparr> # admitted C es g'
         | _ \<Rightarrow> admitted C es g'))"

definition announced :: "(nat \<times> gate_event) list \<Rightarrow> (string \<times> nat) list" where
  "announced es = List.map_filter (\<lambda>(t, e). case e of GAnnounce tn \<Rightarrow> Some (tn, t) | _ \<Rightarrow> None) es"

definition entry_ok :: "crypto \<Rightarrow> (string \<times> nat) list \<Rightarrow> entry \<Rightarrow> bool" where
  "entry_ok C A x \<longleftrightarrow>
     (\<exists>a. (en_tn x, a) \<in> set A \<and> a \<le> en_time x \<and> en_time x - a < TN_LIFETIME) \<and>
     (\<exists>k \<in> set (en_keys x). gk_tag k = en_tag x \<and> gk_here k \<and> ticket_ok C (gk_key k) (en_tn x) (en_vn x) (en_ticket x))"

definition gate_inv :: "crypto \<Rightarrow> (string \<times> nat) list \<Rightarrow> entry list \<Rightarrow> nat \<Rightarrow> ticket_gate \<Rightarrow> bool" where
  "gate_inv C A H T g \<longleftrightarrow> set (tg_nonces g) \<subseteq> set A \<and> (\<forall>(tn, a) \<in> set A. a \<le> T) \<and>
     (\<forall>x \<in> set H. entry_ok C A x \<and> en_time x \<le> T \<and> ((en_vn x, en_time x) \<in> set (tg_used g) \<or> USED_FOR \<le> T - en_time x)) \<and>
     distinct (map (\<lambda>x. (en_tn x, en_vn x)) H)"

lemma recent_mem: "(v, at) \<in> set (recent now q) \<longleftrightarrow> (v, at) \<in> set q \<and> now - at < USED_FOR"
  by (auto simp: recent_def)

lemma entry_ok_mono: "entry_ok C A x \<Longrightarrow> set A \<subseteq> set B \<Longrightarrow> entry_ok C B x"
  by (auto simp: entry_ok_def)

text \<open>The used tickets are kept for longer than a nonce lives, so the one that would come again is still among them.\<close>

lemma not_again:
  assumes inv: "gate_inv C A H T g" and "T \<le> t" and nonces: "distinct (map fst A)"
    and yes: "gate_admit C t tn vn tk g = (AdmitYes tag, g')" and x: "x \<in> set H"
  shows "(en_tn x, en_vn x) \<noteq> (tn, vn)"
proof
  assume same: "(en_tn x, en_vn x) = (tn, vn)"
  from inv x obtain a where a: "(tn, a) \<in> set A" "a \<le> en_time x" "en_time x - a < TN_LIFETIME"
    and used: "(vn, en_time x) \<in> set (tg_used g) \<or> USED_FOR \<le> T - en_time x"
    using same by (auto simp: gate_inv_def entry_ok_def)
  from admit_yes(1) [OF yes] obtain b where b: "(tn, b) \<in> set (tg_nonces g)" "t - b < TN_LIFETIME" by (auto simp: is_live_def list_ex_iff)
  from b(1) inv have "(tn, b) \<in> set A" by (auto simp: gate_inv_def)
  with a(1) nonces have "b = a" by (metis map_of_is_SomeI option.inject)
  with a b(2) have "t - en_time x < USED_FOR" by (simp add: TN_LIFETIME_def USED_FOR_def)
  with used \<open>T \<le> t\<close> have "(vn, en_time x) \<in> set (recent t (tg_used g))" by (auto simp: recent_mem)
  with admit_yes(2) [OF yes] show False by force
qed

lemma gate_inv_step:
  assumes inv: "gate_inv C A H T g" and "T \<le> t" and nonces: "distinct (map fst (A @ announced [(t, e)]))"
    and s: "gate_step C (t, e) g = (r, g')"
  shows "gate_inv C (A @ announced [(t, e)]) (case (r, e) of
      (Some (AdmitYes tag), GAdmit tn vn tk) \<Rightarrow>
        H @ [\<lparr>en_time = t, en_tn = tn, en_vn = vn, en_ticket = tk, en_tag = tag, en_keys = tg_keys g\<rparr>]
    | _ \<Rightarrow> H) t g'"
proof (cases e)
  case (GAnnounce tn)
  have "set (take 8 ((tn, t) # tg_nonces g)) \<subseteq> set ((tn, t) # tg_nonces g)" by (rule set_take_subset)
  with inv s \<open>T \<le> t\<close> GAnnounce show ?thesis
    by (fastforce simp: gate_inv_def announced_def announce_def List.map_filter_def intro: entry_ok_mono)
next
  case (GKeys ks)
  with inv s \<open>T \<le> t\<close> show ?thesis by (fastforce simp: gate_inv_def announced_def List.map_filter_def)
next
  case (GAdmit tn vn tk)
  have A: "A @ announced [(t, e)] = A" by (simp add: GAdmit announced_def List.map_filter_def)
  obtain a where a: "gate_admit C t tn vn tk g = (a, g')" "r = Some a" using s by (auto simp: GAdmit split: prod.splits)
  have later: "entry_ok C A x \<and> en_time x \<le> t \<and> ((en_vn x, en_time x) \<in> set (recent t (tg_used g)) \<or> USED_FOR \<le> t - en_time x)"
    if "x \<in> set H" for x
    using inv that \<open>T \<le> t\<close> by (fastforce simp: gate_inv_def recent_mem)
  have T: "\<forall>(tn, a) \<in> set A. a \<le> t" using inv \<open>T \<le> t\<close> by (fastforce simp: gate_inv_def)
  show ?thesis
  proof (cases "\<exists>tag. a = AdmitYes tag")
    case True
    then obtain tag where yes: "gate_admit C t tn vn tk g = (AdmitYes tag, g')" "r = Some (AdmitYes tag)" using a by auto
    let ?x = "\<lparr>en_time = t, en_tn = tn, en_vn = vn, en_ticket = tk, en_tag = tag, en_keys = tg_keys g\<rparr>"
    have "\<forall>x \<in> set H. (en_tn x, en_vn x) \<noteq> (tn, vn)" using not_again [OF inv \<open>T \<le> t\<close> _ yes(1)] nonces A by simp
    moreover have "entry_ok C A ?x"
      using admit_yes(1,3) [OF yes(1)] inv T by (fastforce simp: entry_ok_def is_live_def list_ex_iff gate_inv_def)
    ultimately show ?thesis
      unfolding A using later inv T admit_yes(4) [OF yes(1)]
      by (fastforce simp: gate_inv_def GAdmit yes(2))
  next
    case False
    then have "g' = g \<or> g' = g\<lparr>tg_used := recent t (tg_used g)\<rparr>" using admit_other [OF a(1)] by blast
    moreover have "(case (r, e) of (Some (AdmitYes tag), GAdmit tn vn tk) \<Rightarrow> z tag tn vn tk | _ \<Rightarrow> H) = H" for z
      using False by (simp add: a(2) GAdmit split: admission.split)
    moreover have "\<forall>x \<in> set H. entry_ok C A x \<and> en_time x \<le> t \<and> ((en_vn x, en_time x) \<in> set (tg_used g) \<or> USED_FOR \<le> t - en_time x)"
      using later by (auto simp: recent_mem)
    moreover have "\<forall>x \<in> set H. entry_ok C A x \<and> en_time x \<le> t \<and> ((en_vn x, en_time x) \<in> set (recent t (tg_used g)) \<or> USED_FOR \<le> t - en_time x)"
      using later by blast
    ultimately show ?thesis
      unfolding A using inv T by (auto simp: gate_inv_def)
  qed
qed

lemma admitted_step:
  "gate_step C (t, e) g = (r, g') \<Longrightarrow> H @ admitted C ((t, e) # es) g = (case (r, e) of
      (Some (AdmitYes tag), GAdmit tn vn tk) \<Rightarrow>
        H @ [\<lparr>en_time = t, en_tn = tn, en_vn = vn, en_ticket = tk, en_tag = tag, en_keys = tg_keys g\<rparr>]
    | _ \<Rightarrow> H) @ admitted C es g'"
  by (simp split: option.split admission.split gate_event.split)

lemma gate_inv_run:
  "gate_inv C A H T g \<Longrightarrow> sorted (T # map fst es) \<Longrightarrow> distinct (map fst (A @ announced es)) \<Longrightarrow>
     \<exists>T' g'. gate_inv C (A @ announced es) (H @ admitted C es g) T' g'"
proof (induction es arbitrary: A H T g)
  case Nil
  then show ?case by (auto simp: announced_def List.map_filter_def)
next
  case (Cons te es)
  obtain t e where te: "te = (t, e)" by fastforce
  obtain r g' where s: "gate_step C (t, e) g = (r, g')" by fastforce
  have an: "announced (te # es) = announced [(t, e)] @ announced es"
    by (simp add: te announced_def List.map_filter_def split: gate_event.split)
  from Cons.prems have d: "distinct (map fst (A @ announced [(t, e)]))" "distinct (map fst ((A @ announced [(t, e)]) @ announced es))"
    unfolding an by (auto simp: distinct_append)
  have o: "T \<le> t" "sorted (t # map fst es)" using Cons.prems(2) by (auto simp: te)
  from Cons.IH [OF gate_inv_step [OF Cons.prems(1) o(1) d(1) s] o(2) d(2)] show ?case
    unfolding te an [unfolded te] admitted_step [OF s] by simp
qed

text \<open>C29. A ticket lets one viewer in once, and only on behalf of a board that is plugged in here: in any history of announced nonces, changes of the
  boards and presented tickets - with a clock that does not run backwards and no nonce announced twice - no ticket (nonces of the app and of the
  viewer) is let in a second time, and each one that is let in names a nonce announced less than 90 seconds before, and is the
  proof for it under the key of a board that is plugged in at that moment, whose tag is the one the viewer is tied to.\<close>

theorem ticket_works_once:
  assumes "sorted (map fst es)" and "distinct (map fst (announced es))"
  shows "distinct (map (\<lambda>x. (en_tn x, en_vn x)) (admitted C es (gate_new ks []))) \<and>
    (\<forall>x \<in> set (admitted C es (gate_new ks [])).
       (\<exists>a. (en_tn x, a) \<in> set (announced es) \<and> a \<le> en_time x \<and> en_time x - a < TN_LIFETIME) \<and>
       (\<exists>k \<in> set (en_keys x). gk_tag k = en_tag x \<and> gk_here k \<and>
          en_ticket x = hmac C (gk_key k) (bytes (''tkt|'' @ en_tn x @ ''|'' @ en_vn x))))"
proof -
  have "gate_inv C [] [] 0 (gate_new ks [])" by (simp add: gate_inv_def gate_new_def)
  from gate_inv_run [OF this, of es] assms show ?thesis by (auto simp: gate_inv_def entry_ok_def ticket_ok_iff)
qed

definition demo_keys :: "gate_key list" where
  "demo_keys = [\<lparr>gk_tag = 7, gk_key = PairKey [1], gk_here = True\<rparr>]"

definition demo_events :: "(nat \<times> gate_event) list" where
  "demo_events = (let tk = hmac toy_crypto (PairKey [1]) (bytes ''tkt|n|v'') in
     [(0, GAnnounce ''n''), (5, GAdmit ''n'' ''v'' tk), (6, GAdmit ''n'' ''v'' tk)])"

theorem ticket_works_once_witness:
  "map (\<lambda>x. (en_tn x, en_vn x, en_tag x)) (admitted toy_crypto demo_events (gate_new demo_keys [])) = [(''n'', ''v'', 7)] \<and>
   distinct (map (\<lambda>x. (en_tn x, en_vn x)) (admitted toy_crypto demo_events (gate_new demo_keys [])))"
proof -
  have "sorted (map fst demo_events)" "distinct (map fst (announced demo_events))"
    by (simp_all add: demo_events_def Let_def announced_def List.map_filter_def)
  note once = ticket_works_once [OF this]
  have "map (\<lambda>x. (en_tn x, en_vn x, en_tag x)) (admitted toy_crypto demo_events (gate_new demo_keys [])) = [(''n'', ''v'', 7)]"
    by (simp add: demo_events_def Let_def gate_new_def announce_def gate_admit_def is_live_def TN_LIFETIME_def demo_keys_def ticket_ok_iff
        recent_def USED_FOR_def)
  with once show ?thesis by blast
qed

subsection \<open>Slots\<close>

definition board_entry :: "nat \<Rightarrow> nat option" where
  "board_entry n = (if n = 0 then None else Some n)"

definition slots_inv :: "nat \<Rightarrow> slots \<Rightarrow> bool" where
  "slots_inv mx s \<longleftrightarrow> wt_total (sl_watchers s) = length (sl_threads s) \<and>
     wt_by (sl_watchers s) = (\<lambda>tag. board_entry (count_list (sl_threads s) (SlHolding tag))) \<and>
     length (filter (\<lambda>th. th \<noteq> SlRefused) (sl_threads s)) \<le> mx \<and> \<not> sl_panic s"

lemma count_remove1: "count_list (remove1 x xs) y = count_list xs y - (if x = y then 1 else 0)"
  by (induction xs) (auto simp: count_list_0_iff)

lemma length_filter_remove1: "x \<in> set xs \<Longrightarrow> length (filter P (remove1 x xs)) = length (filter P xs) - (if P x then 1 else 0)"
  by (simp add: filter_remove1 length_remove1)

lemma of_board_entry: "wt_by w tag = board_entry n \<Longrightarrow> of_board tag w = n"
  by (simp add: of_board_def board_entry_def)

lemma slots_inv_step:
  assumes "slot_step mx s s'" and inv: "slots_inv mx s"
  shows "slots_inv mx s'"
  using assms(1)
proof cases
  case (claimed tag)
  then have "0 < length (filter (\<lambda>th. th \<noteq> SlRefused) (sl_threads s))" by (auto simp: filter_empty_conv)
  with claimed inv show ?thesis
    by (auto simp: fun_eq_iff slots_inv_def moves_def board_add_def of_board_entry count_remove1 length_remove1 length_filter_remove1 board_entry_def
        dest: length_pos_if_in_set)
next
  case (left_board tag w)
  then have n: "count_list (sl_threads s) (SlHolding tag) \<noteq> 0" by (simp add: count_list_0_iff)
  then have e: "wt_by (sl_watchers s) tag = Some (count_list (sl_threads s) (SlHolding tag))"
    using inv by (simp add: slots_inv_def board_entry_def)
  have "0 < length (filter (\<lambda>th. th \<noteq> SlRefused) (sl_threads s))" using left_board by (auto simp: filter_empty_conv)
  moreover have "wt_total w = wt_total (sl_watchers s)"
    using left_board(3) by (auto simp: board_sub_def split: option.splits if_splits)
  moreover have "wt_by w = (\<lambda>x. board_entry (count_list (SlLeaving tag # remove1 (SlHolding tag) (sl_threads s)) (SlHolding x)))"
    using left_board(3) inv e by (intro ext) (auto simp: board_sub_def slots_inv_def count_remove1 board_entry_def split: if_splits)
  ultimately show ?thesis
    using left_board(1,2) inv
    by (auto simp: slots_inv_def moves_def length_remove1 length_filter_remove1 dest: length_pos_if_in_set)
next
  case (panicked tag)
  then have "count_list (sl_threads s) (SlHolding tag) \<noteq> 0" by (simp add: count_list_0_iff)
  with panicked inv have False by (auto simp: slots_inv_def board_sub_def board_entry_def split: if_splits)
  then show ?thesis ..
next
  case (added before w tag)
  have "length (filter (\<lambda>th. th \<noteq> SlRefused) (sl_threads s)) < mx"
    using added(2,3) inv by (intro order.strict_trans1 [OF length_filter_le]) (auto simp: slots_inv_def total_add_def)
  with added inv show ?thesis by (auto simp: slots_inv_def total_add_def)
qed (use inv in \<open>auto simp: slots_inv_def moves_def total_add_def total_sub_def count_remove1 length_remove1 length_filter_remove1\<close>)

lemma slots_reach_inv: "slot_reach mx s \<Longrightarrow> slots_inv mx s"
proof (induction rule: slot_reach.induct)
  case new
  show ?case by (simp add: slots_inv_def slots_new_def watchers_default_def board_entry_def)
qed (rule slots_inv_step)

text \<open>One thread alone: a slot that was claimed and is given back leaves the counters as they were.\<close>

lemma claim_drop: "claim tag mx w = (True, w') \<Longrightarrow> wt_by w tag \<noteq> Some 0 \<Longrightarrow> slot_drop tag w' = Some w"
  by (cases "wt_by w tag") (auto simp: claim_def slot_drop_def total_add_def total_sub_def board_add_def board_sub_def of_board_def fun_upd_idem
      split: if_splits)

lemma claim_full: "claim tag mx w = (False, w') \<Longrightarrow> w' = w"
  by (auto simp: claim_def total_add_def total_sub_def split: if_splits)


text \<open>A viewer holds the only slot, and a second one is being refused.\<close>

definition demo_slots :: slots where
  "demo_slots = \<lparr>sl_watchers = \<lparr>wt_total = 2, wt_by = [7 \<mapsto> 1]\<rparr>, sl_threads = [SlRefused, SlHolding 7], sl_panic = False\<rparr>"

lemma demo_slots_reach: "slot_reach 1 demo_slots"
proof -
  let ?s1 = "\<lparr>sl_watchers = \<lparr>wt_total = 1, wt_by = Map.empty\<rparr>, sl_threads = [SlClaiming 7], sl_panic = False\<rparr>"
  let ?s2 = "\<lparr>sl_watchers = \<lparr>wt_total = 1, wt_by = [7 \<mapsto> 1]\<rparr>, sl_threads = [SlHolding 7], sl_panic = False\<rparr>"
  have "slot_step 1 slots_new ?s1"
    using slot_step.added [of slots_new 0 _ 1 7] by (simp add: slots_new_def watchers_default_def total_add_def)
  moreover have "slot_step 1 ?s1 ?s2"
    using slot_step.claimed [of 7 ?s1 1] by (simp add: moves_def board_add_def of_board_def)
  moreover have "slot_step 1 ?s2 demo_slots"
    using slot_step.refused [of ?s2 1 _ 1] by (simp add: total_add_def demo_slots_def numeral_2_eq_2)
  ultimately show ?thesis by (blast intro: slot_reach.intros)
qed


subsection \<open>Strikes\<close>

text \<open>The history of an accept loop: looks at an address that knocks, and strikes.\<close>

datatype knock = Looked | Struck

fun knock_step :: "nat \<times> ip_addr \<times> knock \<Rightarrow> strikes \<Rightarrow> strikes" where
  "knock_step (t, ip, Looked) b = snd (blocked t ip b)"
| "knock_step (t, ip, Struck) b = strike t ip b"

definition strikes_after :: "(nat \<times> ip_addr \<times> knock) list \<Rightarrow> strikes" where
  "strikes_after es = fold knock_step es []"

definition struck_within :: "nat \<Rightarrow> ip_addr \<Rightarrow> (nat \<times> ip_addr \<times> knock) list \<Rightarrow> nat list" where
  "struck_within now ip es = map fst (filter (\<lambda>(t, i, e). i = ip \<and> e = Struck \<and> now - t < BAD_WINDOW) es)"

definition strikes_inv :: "(nat \<times> ip_addr \<times> knock) list \<Rightarrow> nat \<Rightarrow> strikes \<Rightarrow> bool" where
  "strikes_inv es T b \<longleftrightarrow> distinct (map fst b) \<and> fst ` set b \<subseteq> (fst \<circ> snd) ` set es \<and>
     (\<forall>now ip. T \<le> now \<longrightarrow> filter (\<lambda>t. now - t < BAD_WINDOW) (strikes_of ip b) = struck_within now ip es)"

lemma strikes_of_update: "strikes_of ip (AList.update i q b) = (if ip = i then q else strikes_of ip b)"
  by (simp add: strikes_of_def update_conv')

lemma strikes_of_delete: "strikes_of ip (AList.delete i b) = (if ip = i then [] else strikes_of ip b)"
  by (simp add: strikes_of_def delete_conv')

lemma keys_update: "fst ` set (AList.update k v al) = insert k (fst ` set al)"
  by (metis dom_map_of_conv_image_fst dom_update update_conv' dom_fun_upd option.distinct(1))

lemma keys_delete: "fst ` set (AList.delete k al) = fst ` set al - {k}"
  by (metis delete_keys list.set_map set_removeAll)

lemma recent_recent: "T \<le> now \<Longrightarrow> filter (\<lambda>t. now - t < BAD_WINDOW) (filter (\<lambda>t. T - t < BAD_WINDOW) q) = filter (\<lambda>t. now - t < BAD_WINDOW) q"
  by (induction q) auto

lemma few_addresses:
  assumes "distinct (map fst b)" and "fst ` set b \<subseteq> A" and "finite A" and "card A \<le> 256"
  shows "length b \<le> 256"
  using assms card_mono [OF assms(3,2)] distinct_card [OF assms(1)] by simp

lemma strikes_inv_step:
  assumes inv: "strikes_inv es T b" and "T \<le> t" and few: "card ((fst \<circ> snd) ` set (es @ [(t, ip, e)])) \<le> 256"
  shows "strikes_inv (es @ [(t, ip, e)]) t (knock_step (t, ip, e) b)"
proof (cases e)
  case Struck
  have "filter (\<lambda>t. now - t < BAD_WINDOW) (strikes_of i (strike t ip b)) = struck_within now i (es @ [(t, ip, e)])" if "t \<le> now" for now i
    using inv that \<open>T \<le> t\<close> by (auto simp: strikes_inv_def strike_def strikes_of_update struck_within_def Struck)
  moreover have "distinct (map fst (strike t ip b))" "fst ` set (strike t ip b) \<subseteq> (fst \<circ> snd) ` set (es @ [(t, ip, e)])"
    using inv by (auto simp: strikes_inv_def strike_def distinct_update keys_update)
  ultimately show ?thesis by (simp add: strikes_inv_def Struck)
next
  case Looked
  let ?q = "filter (\<lambda>s. t - s < BAD_WINDOW) (strikes_of ip b)"
  let ?b = "if ?q = [] then AList.delete ip b else AList.update ip ?q b"
  have d: "distinct (map fst ?b)" "fst ` set ?b \<subseteq> (fst \<circ> snd) ` set (es @ [(t, ip, e)])"
    using inv by (auto simp: strikes_inv_def distinct_update distinct_delete keys_update keys_delete)
  have "length ?b \<le> 256" by (rule few_addresses [OF d]) (use few in simp_all)
  then have b: "knock_step (t, ip, e) b = ?b" by (simp add: Looked blocked_def Let_def)
  have "filter (\<lambda>s. now - s < BAD_WINDOW) (strikes_of i ?b) = struck_within now i (es @ [(t, ip, e)])" if "t \<le> now" for now i
  proof -
    have "filter (\<lambda>s. now - s < BAD_WINDOW) (strikes_of i ?b) = filter (\<lambda>s. now - s < BAD_WINDOW) (strikes_of i b)"
      using recent_recent [OF that, of "strikes_of ip b"] by (cases "?q = []") (simp_all add: strikes_of_update strikes_of_delete del: filter_filter)
    then show ?thesis using inv that \<open>T \<le> t\<close> by (simp add: strikes_inv_def struck_within_def Looked)
  qed
  with d show ?thesis unfolding b strikes_inv_def by blast
qed

text \<open>An address is turned away exactly when it presented five bad tickets in the last ten minutes: in any history of looks and strikes of up to 256
  addresses, whatever the other addresses did.\<close>

theorem strikes_exact:
  assumes "sorted (map fst es)" and "\<forall>e \<in> set es. fst e \<le> now" and "card ((fst \<circ> snd) ` set es) \<le> 256"
  shows "fst (blocked now ip (strikes_after es)) \<longleftrightarrow> BAD_LIMIT \<le> length (struck_within now ip es)"
proof -
  have "\<exists>T. T \<le> now \<and> (es \<noteq> [] \<longrightarrow> T = fst (last es)) \<and> strikes_inv es T (strikes_after es)"
    using assms
  proof (induction es rule: rev_induct)
    case Nil
    show ?case by (rule exI [of _ 0]) (simp add: strikes_inv_def strikes_after_def strikes_of_def struck_within_def)
  next
    case (snoc e es)
    obtain t i k where e: "e = (t, i, k)" by (cases e)
    have "card ((fst \<circ> snd) ` set es) \<le> card ((fst \<circ> snd) ` set (es @ [e]))" by (rule card_mono) auto
    with snoc obtain T where T: "es \<noteq> [] \<longrightarrow> T = fst (last es)" "strikes_inv es T (strikes_after es)"
      by (auto simp: sorted_append)
    have "\<exists>T \<le> t. strikes_inv es T (strikes_after es)"
    proof (cases "es = []")
      case True
      then have "strikes_inv es 0 (strikes_after es)" by (simp add: strikes_inv_def strikes_after_def strikes_of_def struck_within_def)
      then show ?thesis by blast
    next
      case False
      then have "fst (last es) \<le> t" using snoc.prems(1) by (simp add: sorted_append e)
      with T False show ?thesis by auto
    qed
    then obtain T' where "T' \<le> t" "strikes_inv es T' (strikes_after es)" by blast
    from strikes_inv_step [OF this(2,1)] snoc.prems(2,3) show ?case by (auto simp: e strikes_after_def)
  qed
  then show ?thesis by (auto simp: strikes_inv_def blocked_def Let_def)
qed

definition demo_ip :: ip_addr where "demo_ip = IpV4 192 168 0 9"

theorem strikes_exact_witness:
  "fst (blocked 60 demo_ip (strikes_after (map (\<lambda>t. (t, demo_ip, Struck)) [10, 20, 30, 40, 50])))"
  using strikes_exact [of "map (\<lambda>t. (t, demo_ip, Struck)) [10, 20, 30, 40, 50]" 60 demo_ip]
  by (simp add: struck_within_def BAD_LIMIT_def BAD_WINDOW_def)

text \<open>The comment on the clean-up - a flood of addresses cannot grow the table without bound - is not what it does: an entry with five
  strikes is only looked at again when its own address knocks, so it stays however old it is.\<close>

lemma strikes_only_grow:
  assumes "(ip, q) \<in> set b" and "BAD_LIMIT \<le> length q" and "ip' \<noteq> ip" and "distinct (map fst b)"
  shows "(ip, q) \<in> set (snd (blocked now ip' b))"
proof -
  have "map_of b ip = Some q" using assms by simp
  then have "map_of (AList.update ip' q' b) ip = Some q" "map_of (AList.delete ip' b) ip = Some q" for q'
    using assms(3) by (simp_all add: update_conv' delete_conv')
  then have "(ip, q) \<in> set (AList.update ip' q' b)" "(ip, q) \<in> set (AList.delete ip' b)" for q' by (blast dest: map_of_SomeD)+
  then show ?thesis using assms(2) by (simp add: blocked_def Let_def)
qed

end
