(* ===== verification/Stream_Serve.thy ===== *)
theory Stream_Serve
  imports Stream_Gate
begin

section \<open>Serving a viewer (crates/hidfi-stream/src/server.rs, \<open>serve\<close>)\<close>

text \<open>
  One viewer's connection, from its hello to its end.  The outside is a script: what each read of the WebSocket gives and when,
  whether each message could be sent, what the gate and the slots answer, the displays and the sound each time they are looked at, and
  whether the pipeline has moved the viewer to the main display meanwhile.  What the connection does is kept in a log.  The two threads that
  carry the frames and the session of str0m are seen through the stop flag they set and the reason they leave.  Setting up the
  socket is one answer; its time-outs are left out.  Times are in milliseconds.
\<close>

subsection \<open>Definitions: messages\<close>

record display =
  dp_id :: u32
  dp_name :: string
  dp_width :: u32
  dp_height :: u32
  dp_main :: bool

definition json_of_display :: "display \<Rightarrow> json" where
  "json_of_display d = JObj [(''id'', JInt (uint (dp_id d))), (''name'', JStr (dp_name d)), (''width'', JInt (uint (dp_width d))),
     (''height'', JInt (uint (dp_height d))), (''main'', JBool (dp_main d))]"

definition main_id :: "display list \<Rightarrow> u32 option" where
  "main_id ds =
     (case find dp_main ds of
        Some d \<Rightarrow> Some (dp_id d)
      | None \<Rightarrow> (case ds of d # _ \<Rightarrow> Some (dp_id d) | [] \<Rightarrow> None))"

datatype share = ShareOff | ShareOn | ShareUnavailable string

record audio_state =
  au_system :: share
  au_mic :: share

definition share_word :: "share \<Rightarrow> string" where
  "share_word s = (case s of ShareOn \<Rightarrow> ''on'' | ShareOff \<Rightarrow> ''off'' | ShareUnavailable _ \<Rightarrow> ''unavailable'')"

definition share_why :: "share \<Rightarrow> json" where
  "share_why s = (case s of ShareUnavailable w \<Rightarrow> JStr (utf8s (take 120 (chars w))) | _ \<Rightarrow> JNull)"

definition audio_json :: "audio_state \<Rightarrow> json" where
  "audio_json a = JObj [(''t'', JStr ''audio''), (''system'', JStr (share_word (au_system a))), (''mic'', JStr (share_word (au_mic a))),
     (''why'', JObj [(''system'', share_why (au_system a)), (''mic'', share_why (au_mic a))])]"

datatype from_viewer = FvHello string string string | FvOffer string | FvDisplay u32 | FvKey | FvBye

definition from_viewer_of_json :: "json \<Rightarrow> from_viewer option" where
  "from_viewer_of_json v =
     (case v of
        JObj ms \<Rightarrow>
          (let text = (\<lambda>k. Option.bind (field ms k) as_str) in
           (case text ''t'' of
              None \<Rightarrow> None
            | Some t \<Rightarrow>
                if t = ''hello'' then
                  (case (text ''tn'', text ''vn'', text ''ticket'') of
                     (Some tn, Some vn, Some tk) \<Rightarrow> Some (FvHello tn vn tk) | _ \<Rightarrow> None)
                else if t = ''offer'' then map_option FvOffer (text ''sdp'')
                else if t = ''display'' then map_option FvDisplay (Option.bind (field ms ''id'') as_u32)
                else if t = ''key'' then Some FvKey
                else if t = ''bye'' then Some FvBye
                else None))
      | _ \<Rightarrow> None)"

definition json_opt :: "u32 option \<Rightarrow> json" where
  "json_opt i = (case i of Some n \<Rightarrow> JInt (uint n) | None \<Rightarrow> JNull)"

definition error_json :: "string \<Rightarrow> json" where
  "error_json why = JObj [(''t'', JStr ''error''), (''reason'', JStr why)]"

definition offer_error_json :: "string \<Rightarrow> json" where
  "offer_error_json e = JObj [(''t'', JStr ''error''), (''reason'', JStr ''offer''), (''detail'', JStr e)]"

definition ready_json :: "display list \<Rightarrow> audio_state option \<Rightarrow> json" where
  "ready_json shown a = JObj ([(''t'', JStr ''ready''), (''displays'', JArr (map json_of_display shown)), (''display'', json_opt (main_id shown))] @
     (case a of Some a \<Rightarrow> [(''audio'', audio_json a)] | None \<Rightarrow> []))"

definition answer_json :: "string \<Rightarrow> json" where
  "answer_json sdp = JObj [(''t'', JStr ''answer''), (''sdp'', JStr sdp)]"

definition displays_json :: "display list \<Rightarrow> u32 option \<Rightarrow> json" where
  "displays_json shown i = JObj [(''t'', JStr ''displays''), (''displays'', JArr (map json_of_display shown)), (''display'', json_opt i)]"

definition display_json :: "u32 option \<Rightarrow> bool \<Rightarrow> json" where
  "display_json i moved = JObj [(''t'', JStr ''display''), (''id'', json_opt i), (''fallback'', JBool moved)]"

definition stats_json :: "u32 \<Rightarrow> json" where
  "stats_json fps = JObj [(''t'', JStr ''stats''), (''fps'', JInt (uint fps))]"

definition end_json :: "string \<Rightarrow> json" where
  "end_json why = JObj [(''t'', JStr ''end''), (''reason'', JStr why)]"

datatype end_reason = EndStopped | EndDisconnected | EndNeverConnected | EndPipelineGone | EndFailed string

subsection \<open>Definitions: the world\<close>

definition HELLO_DEADLINE :: nat where "HELLO_DEADLINE = 5000"
definition OFFER_DEADLINE :: nat where "OFFER_DEADLINE = 10000"
definition DISPLAYS_EVERY :: nat where "DISPLAYS_EVERY = 3000"
definition MAIN_DISPLAY :: u32 where "MAIN_DISPLAY = 0xFFFFFFFF"

text \<open>What one read of the WebSocket gives.\<close>

datatype ws_result = WsText string | WsClose | WsOther | WsTimeout | WsError

datatype serve_event =
    EvStrike
  | EvSend bool json
  | EvAdmit string string "u8 list" admission
  | EvClaim u64 bool
  | EvRelease u64
  | EvSubscribe
  | EvUnsubscribe
  | EvSoundOn
  | EvSoundOff
  | EvWatch u32
  | EvKey
  | EvClose

record serve_world =
  sv_ready :: bool
  sv_times :: "nat list"
  sv_ws :: "ws_result list"
  sv_sends :: "bool list"
  sv_open :: "bool list"
  sv_still :: "bool list"
  sv_admit :: admission
  sv_slot :: bool
  sv_lists :: "display list list"
  sv_sound :: "audio_state list"
  sv_prepared :: "string + string"
  sv_display :: u32
  sv_moved :: "bool list"
  sv_fps :: "u32 list"
  sv_ended :: "end_reason option"
  sv_last_error :: "string option"
  sv_log :: "serve_event list"

type_synonym 'a vprog = "(serve_world, string, 'a) prog"

record serve_env =
  sr_json :: codec
  sr_hex :: hex_crate
  sr_audio :: bool
  sr_debug :: "string \<Rightarrow> string"

text \<open>The next answer of a script, or a default past its end.\<close>

definition next_of :: "('w \<Rightarrow> 'x list) \<Rightarrow> ('x list \<Rightarrow> 'w \<Rightarrow> 'w) \<Rightarrow> 'x \<Rightarrow> ('w, 'e, 'x) prog" where
  "next_of sel upd x0 w = (case sel w of [] \<Rightarrow> (Ok x0, w) | x # xs \<Rightarrow> (Ok x, upd xs w))"

definition log_it :: "serve_event \<Rightarrow> unit vprog" where
  "log_it e = modify (\<lambda>w. w\<lparr>sv_log := sv_log w @ [e]\<rparr>)"

definition sv_now :: "nat vprog" where "sv_now = next_of sv_times (\<lambda>xs w. w\<lparr>sv_times := xs\<rparr>) 0"
definition open_now :: "bool vprog" where "open_now = next_of sv_open (\<lambda>xs w. w\<lparr>sv_open := xs\<rparr>) False"
definition still_now :: "bool vprog" where "still_now = next_of sv_still (\<lambda>xs w. w\<lparr>sv_still := xs\<rparr>) False"
definition displays_now :: "display list vprog" where "displays_now = next_of sv_lists (\<lambda>xs w. w\<lparr>sv_lists := xs\<rparr>) []"
definition fps_now :: "u32 vprog" where "fps_now = next_of sv_fps (\<lambda>xs w. w\<lparr>sv_fps := xs\<rparr>) 0"

definition sound_now :: "serve_env \<Rightarrow> audio_state option vprog" where
  "sound_now E =
     (if sr_audio E then
        bnd (next_of sv_sound (\<lambda>xs w. w\<lparr>sv_sound := xs\<rparr>) \<lparr>au_system = ShareOff, au_mic = ShareOff\<rparr>) (\<lambda>a. ret (Some a))
      else ret None)"

text \<open>\<open>Control::display\<close>: by then the pipeline may have moved this viewer to the main display.\<close>

definition display_now :: "u32 vprog" where
  "display_now = bnd (next_of sv_moved (\<lambda>xs w. w\<lparr>sv_moved := xs\<rparr>) False) (\<lambda>m.
     seq (if m then modify (\<lambda>w. w\<lparr>sv_display := MAIN_DISPLAY\<rparr>) else ret ()) (asks sv_display))"

text \<open>\<open>Control::set_display\<close>: a change starts over with a keyframe.\<close>

definition set_display :: "u32 \<Rightarrow> unit vprog" where
  "set_display i = bnd (asks sv_display) (\<lambda>d.
     if d = i then ret () else seq (modify (\<lambda>w. w\<lparr>sv_display := i\<rparr>)) (log_it (EvWatch i)))"

definition ws_send :: "json \<Rightarrow> unit vprog" where
  "ws_send v = bnd (next_of sv_sends (\<lambda>xs w. w\<lparr>sv_sends := xs\<rparr>) False) (\<lambda>ok.
     seq (log_it (EvSend ok v)) (if ok then ret () else throw ''the socket is gone''))"

definition say :: "json \<Rightarrow> unit vprog" where
  "say v = bnd (attempt (ws_send v)) (\<lambda>_. ret ())"

subsection \<open>Definitions: reading\<close>

datatype got = GotMsg "from_viewer option" | GotQuiet | GotGone

text \<open>\<open>read\<close>: the clock is read before each try.\<close>

fun ws_read :: "codec \<Rightarrow> nat \<Rightarrow> nat list \<Rightarrow> ws_result list \<Rightarrow> got \<times> nat list \<times> ws_result list" where
  "ws_read J deadline [] ws = (GotQuiet, [], ws)"
| "ws_read J deadline (t # ts) ws =
     (if deadline - t = 0 then (GotQuiet, ts, ws)
      else
        (case ws of
           [] \<Rightarrow> (GotGone, ts, [])
         | WsText s # ws' \<Rightarrow> (GotMsg (Option.bind (js_parse J s) from_viewer_of_json), ts, ws')
         | WsClose # ws' \<Rightarrow> (GotGone, ts, ws')
         | WsOther # ws' \<Rightarrow> ws_read J deadline ts ws'
         | WsTimeout # ws' \<Rightarrow> ws_read J deadline ts ws'
         | WsError # ws' \<Rightarrow> (GotGone, ts, ws')))"

lemma ws_read_shorter: "ws_read J deadline ts ws = (GotMsg m, ts', ws') \<Longrightarrow> length ws' < length ws"
  by (induction J deadline ts ws rule: ws_read.induct) (fastforce split: if_splits list.splits ws_result.splits)+

definition read_until :: "serve_env \<Rightarrow> nat \<Rightarrow> got vprog" where
  "read_until E deadline w =
     (case ws_read (sr_json E) deadline (sv_times w) (sv_ws w) of
        (g, ts, ws) \<Rightarrow> (Ok g, w\<lparr>sv_times := ts, sv_ws := ws\<rparr>))"

definition expect :: "serve_env \<Rightarrow> nat \<Rightarrow> from_viewer option vprog" where
  "expect E within = bnd sv_now (\<lambda>t. bnd (read_until E (t + within)) (\<lambda>g. ret (case g of GotMsg m \<Rightarrow> m | _ \<Rightarrow> None)))"

text \<open>The wait for the offer, with the display the viewer asked for before it.\<close>

function offer_reads ::
  "codec \<Rightarrow> nat \<Rightarrow> u32 option \<Rightarrow> nat list \<Rightarrow> ws_result list \<Rightarrow> (string \<times> u32 option) option \<times> nat list \<times> ws_result list" where
  "offer_reads J until early ts ws =
     (case ws_read J until ts ws of
        (GotMsg m, ts', ws') \<Rightarrow>
          (case m of
             Some (FvOffer sdp) \<Rightarrow> (Some (sdp, early), ts', ws')
           | Some (FvDisplay i) \<Rightarrow> offer_reads J until (Some i) ts' ws'
           | _ \<Rightarrow> offer_reads J until early ts' ws')
      | (_, ts', ws') \<Rightarrow> (None, ts', ws'))"
  by pat_completeness auto
termination
  by (relation "measure (\<lambda>(J, until, early, ts, ws). length ws)") (auto dest: ws_read_shorter [OF sym])

declare offer_reads.simps [simp del]

definition offer_wait :: "serve_env \<Rightarrow> nat \<Rightarrow> (string \<times> u32 option) vprog" where
  "offer_wait E until w =
     (case offer_reads (sr_json E) until None (sv_times w) (sv_ws w) of
        (r, ts, ws) \<Rightarrow> ((case r of Some x \<Rightarrow> Ok x | None \<Rightarrow> Err ''no offer''), w\<lparr>sv_times := ts, sv_ws := ws\<rparr>))"

subsection \<open>Definitions: the control channel\<close>

text \<open>What the loop keeps: the displays last shown, the one the viewer was told it watches and the one it asked for, the sound it was told
  of, and when it last looked.\<close>

record channel =
  ch_shown :: "display list"
  ch_told :: "u32 option"
  ch_asked :: "u32 option"
  ch_sound :: "audio_state option"
  ch_stats_at :: nat
  ch_displays_at :: nat

definition current :: "display list \<Rightarrow> u32 \<Rightarrow> u32 option" where
  "current ds d = (if d = MAIN_DISPLAY then main_id ds else Some d)"

text \<open>Only a display this computer has; the main one by its id follows the main display.\<close>

definition choose_display :: "display list \<Rightarrow> u32 \<Rightarrow> unit vprog" where
  "choose_display shown i =
     (if main_id shown = Some i then set_display MAIN_DISPLAY
      else if list_ex (\<lambda>d. dp_id d = i) shown then set_display i
      else ret ())"

text \<open>A step that goes on with a channel, or ends the loop.\<close>

definition further :: "channel option vprog \<Rightarrow> (channel \<Rightarrow> channel option vprog) \<Rightarrow> channel option vprog" where
  "further m k = bnd m (\<lambda>r. case r of None \<Rightarrow> ret None | Some c \<Rightarrow> k c)"

definition tell :: "json \<Rightarrow> channel \<Rightarrow> channel option vprog" where
  "tell v c = bnd (attempt (ws_send v)) (\<lambda>r. ret (case r of Inl _ \<Rightarrow> None | Inr _ \<Rightarrow> Some c))"

definition hear :: "serve_env \<Rightarrow> channel \<Rightarrow> channel option vprog" where
  "hear E c =
     bnd sv_now (\<lambda>t. bnd (read_until E (t + 1000)) (\<lambda>g. case g of
       GotMsg (Some FvKey) \<Rightarrow> seq (log_it EvKey) (ret (Some c))
     | GotMsg (Some (FvDisplay i)) \<Rightarrow> seq (choose_display (ch_shown c) i) (ret (Some (c\<lparr>ch_asked := Some i\<rparr>)))
     | GotMsg (Some FvBye) \<Rightarrow> ret None
     | GotGone \<Rightarrow> ret None
     | _ \<Rightarrow> ret (Some c)))"

definition hand_main :: "display list \<Rightarrow> unit vprog" where
  "hand_main now =
     bnd display_now (\<lambda>d.
       if d = MAIN_DISPLAY then ret ()
       else bnd display_now (\<lambda>d. if list_ex (\<lambda>x. dp_id x = d) now then ret () else set_display MAIN_DISPLAY))"

definition look_at_displays :: "channel \<Rightarrow> channel option vprog" where
  "look_at_displays c =
     bnd sv_now (\<lambda>t.
       if t - ch_displays_at c < DISPLAYS_EVERY then ret (Some c)
       else bnd sv_now (\<lambda>t'. bnd displays_now (\<lambda>now.
         let c = c\<lparr>ch_displays_at := t'\<rparr> in
         if now = ch_shown c then ret (Some c)
         else
           seq (hand_main now)
           (bnd display_now (\<lambda>d.
              let i = current now d in tell (displays_json now i) (c\<lparr>ch_shown := now, ch_told := i\<rparr>))))))"

definition tell_display :: "channel \<Rightarrow> channel option vprog" where
  "tell_display c =
     bnd display_now (\<lambda>d.
       let i = current (ch_shown c) d in
       if i = ch_told c then ret (Some c)
       else
         let moved = (case ch_asked c of Some a \<Rightarrow> Some a \<noteq> i | None \<Rightarrow> False);
             c = (if moved then c\<lparr>ch_asked := None\<rparr> else c)
         in tell (display_json i moved) (c\<lparr>ch_told := i\<rparr>))"

definition tell_sound :: "serve_env \<Rightarrow> channel \<Rightarrow> channel option vprog" where
  "tell_sound E c =
     bnd (sound_now E) (\<lambda>a. case a of
       None \<Rightarrow> ret (Some c)
     | Some now \<Rightarrow> if ch_sound c = Some now then ret (Some c) else tell (audio_json now) (c\<lparr>ch_sound := Some now\<rparr>))"

definition tell_stats :: "channel \<Rightarrow> channel option vprog" where
  "tell_stats c =
     bnd sv_now (\<lambda>t.
       if t - ch_stats_at c < 1000 then ret (Some c)
       else bnd sv_now (\<lambda>t'. bnd fps_now (\<lambda>n. tell (stats_json n) (c\<lparr>ch_stats_at := t'\<rparr>))))"

definition channel_round :: "serve_env \<Rightarrow> channel \<Rightarrow> channel option vprog" where
  "channel_round E c =
     further (further (further (further (hear E c) look_at_displays) tell_display) (tell_sound E)) tell_stats"

text \<open>\<open>stops\<close>: the two stop flags, each time the loop looks at them.\<close>

fun channel_loop :: "serve_env \<Rightarrow> bool list \<Rightarrow> channel \<Rightarrow> unit vprog" where
  "channel_loop E [] c = ret ()"
| "channel_loop E (stop # stops) c =
     (if stop then ret ()
      else
        bnd open_now (\<lambda>open. if \<not> open then ret () else
        bnd still_now (\<lambda>still. if \<not> still then ret () else
        bnd (channel_round E c) (\<lambda>r. case r of None \<Rightarrow> ret () | Some c' \<Rightarrow> channel_loop E stops c'))))"

subsection \<open>Definitions: the connection\<close>

definition end_text :: "serve_env \<Rightarrow> end_reason \<Rightarrow> string" where
  "end_text E e =
     (case e of
        EndStopped \<Rightarrow> ''Stopped'' | EndDisconnected \<Rightarrow> ''Disconnected'' | EndNeverConnected \<Rightarrow> ''NeverConnected''
      | EndPipelineGone \<Rightarrow> ''PipelineGone'' | EndFailed s \<Rightarrow> ''Failed('' @ sr_debug E s @ '')'')"

definition end_why :: "serve_env \<Rightarrow> string vprog" where
  "end_why E =
     bnd (asks (\<lambda>w. case sv_ended w of Some e \<Rightarrow> e | None \<Rightarrow> EndStopped)) (\<lambda>e.
     bnd open_now (\<lambda>open. if \<not> open then ret ''closed'' else
     bnd still_now (\<lambda>still. if \<not> still then ret ''closed'' else
       if e = EndPipelineGone then
         bnd (asks sv_last_error) (\<lambda>le. ret (case le of
             Some t \<Rightarrow> if str_contains ''Screen Recording'' t then ''permission'' else ''capture''
           | None \<Rightarrow> end_text E e))
       else ret (end_text E e))))"

definition session_run :: "serve_env \<Rightarrow> bool list \<Rightarrow> display list \<Rightarrow> string \<Rightarrow> u32 option \<Rightarrow> unit vprog" where
  "session_run E stops shown sdp early =
     (let sound = (sr_audio E \<and> str_contains ''m=audio'' sdp) in
      seq (modify (\<lambda>w. w\<lparr>sv_display := MAIN_DISPLAY, sv_log := sv_log w @ [EvSubscribe]\<rparr>))
      (seq (case early of Some d \<Rightarrow> choose_display shown d | None \<Rightarrow> ret ())
      (seq (if sound then log_it EvSoundOn else ret ())
      (bnd (sound_now E) (\<lambda>a.
       bnd sv_now (\<lambda>ts. bnd sv_now (\<lambda>td.
       seq (channel_loop E stops
              \<lparr>ch_shown = shown, ch_told = current shown MAIN_DISPLAY, ch_asked = None, ch_sound = a, ch_stats_at = ts, ch_displays_at = td\<rparr>)
       (seq (log_it EvUnsubscribe)
       (seq (if sound then log_it EvSoundOff else ret ())
       (bnd (end_why E) (\<lambda>why.
        seq (say (end_json why)) (log_it EvClose))))))))))))"

definition watch :: "serve_env \<Rightarrow> bool list \<Rightarrow> unit vprog" where
  "watch E stops =
     bnd displays_now (\<lambda>shown.
     bnd (sound_now E) (\<lambda>a.
     seq (ws_send (ready_json shown a))
     (bnd sv_now (\<lambda>t.
      bnd (offer_wait E (t + OFFER_DEADLINE)) (\<lambda>(sdp, early).
      bnd (asks sv_prepared) (\<lambda>p. case p of
        Inl e \<Rightarrow> seq (say (offer_error_json e)) (throw e)
      | Inr ans \<Rightarrow> seq (ws_send (answer_json ans)) (session_run E stops shown sdp early)))))))"

text \<open>The slot is given back on every way out.\<close>

definition with_slot :: "u64 \<Rightarrow> unit vprog \<Rightarrow> unit vprog" where
  "with_slot tag m =
     bnd (asks sv_slot) (\<lambda>free.
     seq (log_it (EvClaim tag free))
       (if \<not> free then seq (say (error_json ''busy'')) (throw ''busy'')
        else (\<lambda>w. case m w of (r, w') \<Rightarrow> (r, w'\<lparr>sv_log := sv_log w' @ [EvRelease tag]\<rparr>))))"

definition serve :: "serve_env \<Rightarrow> bool list \<Rightarrow> unit vprog" where
  "serve E stops =
     bnd (asks sv_ready) (\<lambda>ready. if \<not> ready then throw ''set-up'' else
     bnd (expect E HELLO_DEADLINE) (\<lambda>m. case m of
       Some (FvHello tn vn tk) \<Rightarrow>
         bnd open_now (\<lambda>open.
           if \<not> open then seq (say (error_json ''closed'')) (throw ''closed'')
           else
             let ticket = (case hx_decode (sr_hex E) tk of Some b \<Rightarrow> b | None \<Rightarrow> []) in
             bnd (asks sv_admit) (\<lambda>a.
             seq (log_it (EvAdmit tn vn ticket a))
               (case a of
                  AdmitYes tag \<Rightarrow> with_slot tag (watch E stops)
                | AdmitClosed \<Rightarrow> seq (say (error_json ''closed'')) (seq (log_it EvClose) (throw ''its board is not plugged in here''))
                | AdmitNo \<Rightarrow> seq (log_it EvStrike) (seq (say (error_json ''ticket'')) (seq (log_it EvClose) (throw ''bad ticket''))))))
     | _ \<Rightarrow> seq (log_it EvStrike) (seq (say (error_json ''hello'')) (throw ''no hello''))))"

subsection \<open>What a program adds to the log\<close>

definition adds :: "'a vprog \<Rightarrow> ((string, 'a) outcome \<Rightarrow> serve_event list \<Rightarrow> bool) \<Rightarrow> bool" where
  "adds m P \<longleftrightarrow> (\<forall>w. \<exists>xs. sv_log (snd (m w)) = sv_log w @ xs \<and> P (fst (m w)) xs)"

lemma addsD: "adds m P \<Longrightarrow> m w = (r, w') \<Longrightarrow> \<exists>xs. sv_log w' = sv_log w @ xs \<and> P r xs"
  unfolding adds_def by (metis fst_conv snd_conv)

lemma addsI: "(\<And>w. \<exists>xs. sv_log (snd (m w)) = sv_log w @ xs \<and> P (fst (m w)) xs) \<Longrightarrow> adds m P"
  by (simp add: adds_def)

lemma adds_weaken: "adds m P \<Longrightarrow> (\<And>r xs. P r xs \<Longrightarrow> Q r xs) \<Longrightarrow> adds m Q"
  by (fastforce simp: adds_def)

lemma adds_bnd:
  assumes "adds m P" and "\<And>x. adds (k x) (Q x)"
    and "\<And>x r xs ys. P (Ok x) xs \<Longrightarrow> Q x r ys \<Longrightarrow> R r (xs @ ys)" and "\<And>e xs. P (Err e) xs \<Longrightarrow> R (Err e) xs"
    and "\<And>xs. \<not> P Panic xs" and "\<And>xs. \<not> P OutOfFuel xs"
  shows "adds (bnd m k) R"
proof (rule addsI)
  fix w
  obtain r w1 where m: "m w = (r, w1)" by fastforce
  from addsD [OF assms(1) m] obtain xs where xs: "sv_log w1 = sv_log w @ xs" "P r xs" by blast
  show "\<exists>xs. sv_log (snd (bnd m k w)) = sv_log w @ xs \<and> R (fst (bnd m k w)) xs"
  proof (cases r)
    case (Ok x)
    obtain r2 w2 where k: "k x w1 = (r2, w2)" by fastforce
    from addsD [OF assms(2) k] obtain ys where "sv_log w2 = sv_log w1 @ ys" "Q x r2 ys" by blast
    with xs Ok m k show ?thesis using assms(3) by (fastforce simp: bnd_def)
  qed (use xs m assms(4,5,6) in \<open>auto simp: bnd_def\<close>)
qed

text \<open>A program that always returns and adds only events in \<open>A\<close>.\<close>

definition only :: "'a vprog \<Rightarrow> serve_event set \<Rightarrow> bool" where
  "only m A \<longleftrightarrow> adds m (\<lambda>r xs. (\<exists>x. r = Ok x) \<and> set xs \<subseteq> A)"

lemma only_bnd: "only m A \<Longrightarrow> (\<And>x. only (k x) A) \<Longrightarrow> only (bnd m k) A"
  unfolding only_def by (erule adds_bnd) auto

lemma only_seq: "only m A \<Longrightarrow> only n A \<Longrightarrow> only (seq m n) A"
  unfolding seq_def by (rule only_bnd)

lemma only_simps: "only (ret x) A" "only (asks f) A"
  by (auto simp: only_def adds_def ret_def asks_def)

lemma only_if: "(b \<Longrightarrow> only m A) \<Longrightarrow> (\<not> b \<Longrightarrow> only n A) \<Longrightarrow> only (if b then m else n) A"
  by simp

lemma only_mono: "only m A \<Longrightarrow> A \<subseteq> B \<Longrightarrow> only m B"
  unfolding only_def by (erule adds_weaken) auto

lemma only_next: "(\<And>xs w. sv_log (upd xs w) = sv_log w) \<Longrightarrow> only (next_of sel upd d) A"
  by (auto simp: only_def adds_def next_of_def split: list.split)

lemma only_reads: "only sv_now A" "only open_now A" "only still_now A" "only displays_now A" "only fps_now A" "only (sound_now E) A"
  by (auto simp: sv_now_def open_now_def still_now_def displays_now_def fps_now_def sound_now_def
      intro!: only_next only_bnd only_simps)

lemma only_read_until: "only (read_until E d) A"
  by (auto simp: only_def adds_def read_until_def split: prod.split)

lemma only_display_now: "only display_now A"
proof -
  have "only (modify (\<lambda>w. w\<lparr>sv_display := MAIN_DISPLAY\<rparr>)) A" by (simp add: only_def adds_def modify_def)
  then show ?thesis unfolding display_now_def by (intro only_bnd only_seq only_next only_if only_simps) simp_all
qed

lemma only_log: "e \<in> A \<Longrightarrow> only (log_it e) A"
  by (auto simp: only_def adds_def log_it_def modify_def)

lemma only_set_display: "range EvWatch \<subseteq> A \<Longrightarrow> only (set_display i) A"
proof -
  assume "range EvWatch \<subseteq> A"
  moreover have "only (modify (\<lambda>w. w\<lparr>sv_display := i\<rparr>)) A" by (simp add: only_def adds_def modify_def)
  ultimately show ?thesis unfolding set_display_def by (intro only_bnd only_seq only_if only_simps only_log) auto
qed

lemma adds_send: "adds (ws_send v) (\<lambda>r xs. (r = Ok () \<and> xs = [EvSend True v]) \<or> (\<exists>e. r = Err e) \<and> xs = [EvSend False v])"
  by (auto simp: adds_def ws_send_def next_of_def log_it_def modify_def seq_def bnd_def ret_def throw_def split: list.split)

lemma adds_attempt:
  "adds m P \<Longrightarrow> (\<And>xs. \<not> P Panic xs) \<Longrightarrow> (\<And>xs. \<not> P OutOfFuel xs) \<Longrightarrow>
   adds (attempt m) (\<lambda>r xs. (\<exists>x. r = Ok (Inr x) \<and> P (Ok x) xs) \<or> (\<exists>e. r = Ok (Inl e) \<and> P (Err e) xs))"
  unfolding adds_def attempt_def by (auto split: prod.split outcome.split) (metis outcome.exhaust fst_conv snd_conv prod.collapse)+

lemma only_try: "\<forall>b. EvSend b v \<in> A \<Longrightarrow> only (attempt (ws_send v)) A"
  unfolding only_def by (rule adds_weaken [OF adds_attempt [OF adds_send]]) auto

lemma only_say: "\<forall>b. EvSend b v \<in> A \<Longrightarrow> only (say v) A"
  unfolding say_def by (intro only_bnd only_try only_simps)

lemma adds_say: "adds (say v) (\<lambda>r xs. r = Ok () \<and> (\<exists>b. xs = [EvSend b v]))"
  unfolding say_def
  by (rule adds_bnd [OF adds_attempt [OF adds_send], where Q = "\<lambda>_ r ys. r = Ok () \<and> ys = []"])
    (auto simp: adds_def ret_def)

lemma adds_then:
  assumes "adds m (\<lambda>r xs. (\<exists>x. r = Ok x) \<and> P xs)" and "\<And>x. adds (k x) Q"
  shows "adds (bnd m k) (\<lambda>r zs. \<exists>xs ys. zs = xs @ ys \<and> P xs \<and> Q r ys)"
  by (rule adds_bnd [OF assms]) auto

lemma adds_silent:
  assumes "only m {}" and "\<And>x. adds (k x) Q"
  shows "adds (bnd m k) Q"
  by (rule adds_weaken [OF adds_then [OF assms(1) [unfolded only_def] assms(2)]]) auto

lemma adds_log: "adds (log_it e) (\<lambda>r xs. (\<exists>x. r = Ok x) \<and> xs = [e])"
  by (auto simp: adds_def log_it_def modify_def)

lemma adds_logged: "adds n Q \<Longrightarrow> adds (seq (log_it e) n) (\<lambda>r zs. \<exists>ys. zs = e # ys \<and> Q r ys)"
  unfolding seq_def by (rule adds_weaken [OF adds_then [OF adds_log]]) auto

lemma adds_said: "adds n Q \<Longrightarrow> adds (seq (say v) n) (\<lambda>r zs. \<exists>b ys. zs = EvSend b v # ys \<and> Q r ys)"
  unfolding seq_def
  by (rule adds_weaken [OF adds_then [where P = "\<lambda>xs. \<exists>b. xs = [EvSend b v]"]]) (auto intro: adds_weaken [OF adds_say])

lemma adds_throw: "adds (throw e) (\<lambda>r xs. xs = [])"
  by (simp add: adds_def throw_def)

lemma adds_if: "(b \<Longrightarrow> adds m P) \<Longrightarrow> (\<not> b \<Longrightarrow> adds n Q) \<Longrightarrow> adds (if b then m else n) (\<lambda>r xs. if b then P r xs else Q r xs)"
  by simp

subsection \<open>The control channel\<close>

text \<open>What happens between the subscription and its end.\<close>

definition inner :: "serve_event set" where
  "inner = {e. (\<exists>b v. e = EvSend b v) \<or> (\<exists>i. e = EvWatch i) \<or> e = EvKey}"

lemma inner_mem [simp]: "EvSend b v \<in> inner" "EvWatch i \<in> inner" "EvKey \<in> inner"
  by (auto simp: inner_def)

lemma only_set_display_inner: "only (set_display i) inner"
  by (rule only_set_display) auto

lemma only_choose: "only (choose_display ds i) inner"
  unfolding choose_display_def by (intro only_if only_simps only_set_display_inner)

lemma only_further: "only m A \<Longrightarrow> (\<And>c. only (k c) A) \<Longrightarrow> only (further m k) A"
  unfolding further_def by (intro only_bnd) (auto split: option.split intro: only_simps)

lemma only_tell: "only (tell v c) inner"
  unfolding tell_def by (intro only_bnd only_try only_simps) simp

lemma only_hear: "only (hear E c) inner"
  unfolding hear_def
  by (intro only_bnd only_reads only_read_until)
    (auto split: got.split option.split from_viewer.split intro!: only_simps only_seq only_log only_choose)

lemma only_look: "only (look_at_displays c) inner"
  unfolding look_at_displays_def hand_main_def Let_def
  by (intro only_bnd only_reads only_if only_simps only_seq only_display_now only_set_display_inner only_tell)

lemma only_round: "only (channel_round E c) inner"
  unfolding channel_round_def
proof (intro only_further only_hear only_look)
  show "only (tell_display c) inner" for c
    unfolding tell_display_def Let_def by (intro only_bnd only_display_now only_if only_simps only_tell)
  show "only (tell_sound E c) inner" for c
    unfolding tell_sound_def by (intro only_bnd only_reads) (auto split: option.split intro!: only_simps only_tell)
  show "only (tell_stats c) inner" for c
    unfolding tell_stats_def by (intro only_bnd only_reads only_if only_simps only_tell)
qed

lemma only_loop: "only (channel_loop E stops c) inner"
proof (induction stops arbitrary: c)
  case (Cons stop stops)
  then show ?case
    unfolding channel_loop.simps
    by (intro only_if only_simps only_bnd only_reads only_round) (auto split: option.split intro: only_simps)
qed (simp add: only_simps)

lemma only_end_why: "only (end_why E) A"
  unfolding end_why_def by (intro only_bnd only_reads only_if only_simps)

text \<open>A session: subscribed once and unsubscribed, sound on and off, and at the end the reason.\<close>

definition session_shape :: "serve_event list \<Rightarrow> bool" where
  "session_shape xs \<longleftrightarrow>
     (\<exists>early ys on off b why. xs = EvSubscribe # early @ on @ ys @ [EvUnsubscribe] @ off @ [EvSend b (end_json why), EvClose] \<and>
        set early \<subseteq> inner \<and> set ys \<subseteq> inner \<and> (on, off) \<in> {([], []), ([EvSoundOn], [EvSoundOff])})"

lemma session_shapeI:
  assumes "set early \<subseteq> inner" and "set ys \<subseteq> inner"
  shows "session_shape ([EvSubscribe] @ early @ (if s then [EvSoundOn] else []) @ ys @ [EvUnsubscribe] @ (if s then [EvSoundOff] else []) @
    [EvSend b (end_json why), EvClose])"
  unfolding session_shape_def
  by (rule exI [of _ early], rule exI [of _ ys], rule exI [of _ "if s then [EvSoundOn] else []"], rule exI [of _ "if s then [EvSoundOff] else []"],
      rule exI [of _ b], rule exI [of _ why]) (simp add: assms)

lemma only_adds: "only m A \<Longrightarrow> adds m (\<lambda>r xs. (\<exists>x. r = Ok x) \<and> set xs \<subseteq> A)"
  by (simp add: only_def)

lemma session_run_shape: "adds (session_run E stops shown sdp early) (\<lambda>r xs. (\<exists>x. r = Ok x) \<and> session_shape xs)"
proof -
  let ?s = "sr_audio E \<and> str_contains ''m=audio'' sdp"
  have start: "adds (modify (\<lambda>w. w\<lparr>sv_display := MAIN_DISPLAY, sv_log := sv_log w @ [EvSubscribe]\<rparr>))
      (\<lambda>r xs. (\<exists>x. r = Ok x) \<and> xs = [EvSubscribe])"
    by (simp add: adds_def modify_def)
  have pick: "only (case early of Some d \<Rightarrow> choose_display shown d | None \<Rightarrow> ret ()) inner"
    by (simp split: option.split add: only_choose only_simps)
  have sound: "adds (if ?s then log_it e else ret ()) (\<lambda>r xs. (\<exists>x. r = Ok x) \<and> xs = (if ?s then [e] else []))" for e
    by (auto simp: adds_def log_it_def modify_def ret_def)
  have close: "adds (seq (say (end_json why)) (log_it EvClose)) (\<lambda>r zs. (\<exists>x. r = Ok x) \<and> (\<exists>b. zs = [EvSend b (end_json why), EvClose]))" for why
    by (rule adds_weaken [OF adds_said [OF adds_log]]) auto
  have tail: "adds (seq (log_it EvUnsubscribe) (seq (if ?s then log_it EvSoundOff else ret ())
        (bnd (end_why E) (\<lambda>why. seq (say (end_json why)) (log_it EvClose)))))
      (\<lambda>r zs. (\<exists>x. r = Ok x) \<and> (\<exists>b why. zs = [EvUnsubscribe] @ (if ?s then [EvSoundOff] else []) @ [EvSend b (end_json why), EvClose]))"
    unfolding seq_def [of "if ?s then log_it EvSoundOff else ret ()"]
    by (rule adds_weaken [OF adds_logged [OF adds_then [OF sound adds_silent [OF only_end_why adds_weaken [OF close,
            where Q = "\<lambda>r zs. (\<exists>x. r = Ok x) \<and> (\<exists>b why. zs = [EvSend b (end_json why), EvClose])"]]]]]) auto
  let ?ch = "\<lambda>a ts td. \<lparr>ch_shown = shown, ch_told = current shown MAIN_DISPLAY, ch_asked = None, ch_sound = a, ch_stats_at = ts, ch_displays_at = td\<rparr>"
  note rest = adds_silent [OF only_reads(6) adds_silent [OF only_reads(1) adds_silent [OF only_reads(1)
        adds_then [OF only_adds [OF only_loop] tail]]]]
  show ?thesis
    unfolding session_run_def Let_def seq_def [of "modify _"] seq_def [of "case early of Some d \<Rightarrow> choose_display shown d | None \<Rightarrow> ret ()"]
      seq_def [of "if ?s then log_it EvSoundOn else ret ()"] seq_def [of "channel_loop _ _ _"]
    by (rule adds_weaken, rule adds_then [OF start], rule adds_then [OF only_adds [OF pick]], rule adds_then [OF sound], rule rest)
      (elim exE conjE, hypsubst, intro conjI exI [of _ "()"], simp, rule session_shapeI)
qed

subsection \<open>The connection\<close>

definition watch_shape :: "serve_event list \<Rightarrow> bool" where
  "watch_shape xs \<longleftrightarrow>
     (\<exists>shown a. (\<exists>b. xs = [EvSend b (ready_json shown a)]) \<or>
        (\<exists>b e. xs = [EvSend True (ready_json shown a), EvSend b (offer_error_json e)]) \<or>
        (\<exists>ans. xs = [EvSend True (ready_json shown a), EvSend False (answer_json ans)]) \<or>
        (\<exists>ans ys. xs = [EvSend True (ready_json shown a), EvSend True (answer_json ans)] @ ys \<and> session_shape ys))"

definition serve_shape :: "serve_event list \<Rightarrow> bool" where
  "serve_shape xs \<longleftrightarrow>
     xs = [] \<or> (\<exists>b. xs = [EvStrike, EvSend b (error_json ''hello'')]) \<or> (\<exists>b. xs = [EvSend b (error_json ''closed'')]) \<or>
     (\<exists>tn vn tk b. xs = [EvAdmit tn vn tk AdmitClosed, EvSend b (error_json ''closed''), EvClose]) \<or>
     (\<exists>tn vn tk b. xs = [EvAdmit tn vn tk AdmitNo, EvStrike, EvSend b (error_json ''ticket''), EvClose]) \<or>
     (\<exists>tn vn tk tag b. xs = [EvAdmit tn vn tk (AdmitYes tag), EvClaim tag False, EvSend b (error_json ''busy'')]) \<or>
     (\<exists>tn vn tk tag ys. xs = [EvAdmit tn vn tk (AdmitYes tag), EvClaim tag True] @ ys @ [EvRelease tag] \<and> watch_shape ys)"

lemma adds_sent:
  assumes "adds n Q"
  shows "adds (seq (ws_send v) n) (\<lambda>r zs. zs = [EvSend False v] \<and> (\<exists>e. r = Err e) \<or> (\<exists>ys. zs = EvSend True v # ys \<and> Q r ys))"
  unfolding seq_def by (rule adds_bnd [OF adds_send assms]) auto

lemma offer_wait_adds: "adds (offer_wait E u) (\<lambda>r xs. ((\<exists>x. r = Ok x) \<or> (\<exists>e. r = Err e)) \<and> xs = [])"
  by (auto simp: adds_def offer_wait_def split: prod.split option.split)

lemma watch_adds: "adds (watch E stops) (\<lambda>r xs. watch_shape xs)"
proof -
  have refuse: "adds (seq (say (offer_error_json e)) (throw e)) (\<lambda>r zs. \<exists>b. zs = [EvSend b (offer_error_json e)])" for e
    by (rule adds_weaken [OF adds_said [OF adds_throw]]) auto
  have accept: "adds (seq (ws_send (answer_json ans)) (session_run E stops shown sdp early))
      (\<lambda>r zs. zs = [EvSend False (answer_json ans)] \<or> (\<exists>ys. zs = EvSend True (answer_json ans) # ys \<and> session_shape ys))" for ans shown sdp early
    by (rule adds_weaken [OF adds_sent [OF session_run_shape]]) auto
  let ?Q = "\<lambda>zs. zs = [] \<or> (\<exists>b e. zs = [EvSend b (offer_error_json e)]) \<or> (\<exists>ans. zs = [EvSend False (answer_json ans)]) \<or>
      (\<exists>ans ys. zs = EvSend True (answer_json ans) # ys \<and> session_shape ys)"
  have answered: "adds (bnd (asks sv_prepared) (\<lambda>p. case p of
        Inl e \<Rightarrow> seq (say (offer_error_json e)) (throw e)
      | Inr ans \<Rightarrow> seq (ws_send (answer_json ans)) (session_run E stops shown sdp early))) (\<lambda>r. ?Q)" for shown sdp early
    by (intro adds_silent only_simps) (auto split: sum.split intro!: adds_weaken [OF refuse] adds_weaken [OF accept])
  have wait: "adds (bnd (offer_wait E u) (\<lambda>(sdp, early). bnd (asks sv_prepared) (\<lambda>p. case p of
        Inl e \<Rightarrow> seq (say (offer_error_json e)) (throw e)
      | Inr ans \<Rightarrow> seq (ws_send (answer_json ans)) (session_run E stops shown sdp early)))) (\<lambda>r. ?Q)" for u shown
    by (rule adds_bnd [OF offer_wait_adds, where Q = "\<lambda>_ r. ?Q"]) (auto split: prod.split intro: answered)
  show ?thesis
    unfolding watch_def
    by (intro adds_silent only_reads, rule adds_weaken [OF adds_sent [OF adds_silent [OF only_reads(1) wait]]])
      (elim disjE exE conjE; hypsubst; unfold watch_shape_def append.simps; blast)
qed

lemma with_slot_adds:
  "adds (with_slot tag (watch E stops)) (\<lambda>r xs. (\<exists>b. xs = [EvClaim tag False, EvSend b (error_json ''busy'')]) \<or>
     (\<exists>ys. xs = EvClaim tag True # ys @ [EvRelease tag] \<and> watch_shape ys))"
proof -
  let ?m = "\<lambda>w. case watch E stops w of (r, w') \<Rightarrow> (r, w'\<lparr>sv_log := sv_log w' @ [EvRelease tag]\<rparr>)"
  have held: "adds ?m (\<lambda>r zs. \<exists>ys. zs = ys @ [EvRelease tag] \<and> watch_shape ys)"
  proof (rule addsI)
    fix w
    obtain r w' where m: "watch E stops w = (r, w')" by fastforce
    from addsD [OF watch_adds m] show "\<exists>xs. sv_log (snd (?m w)) = sv_log w @ xs \<and> (\<exists>ys. xs = ys @ [EvRelease tag] \<and> watch_shape ys)"
      by (auto simp: m)
  qed
  have busy: "adds (seq (say (error_json ''busy'')) (throw ''busy'')) (\<lambda>r zs. \<exists>b. zs = [EvSend b (error_json ''busy'')])"
    by (rule adds_weaken [OF adds_said [OF adds_throw]]) auto
  show ?thesis
    unfolding with_slot_def
    by (intro adds_silent only_simps, rule adds_weaken [OF adds_logged [OF adds_if [OF busy held]]]) (auto split: if_splits)
qed


subsection \<open>What the viewer is told it watches\<close>

text \<open>The display the last message named: \<open>ready\<close> and \<open>displays\<close> say which of the list, \<open>display\<close> says it changed.\<close>

definition named_display :: "json \<Rightarrow> json option" where
  "named_display v =
     (case jget v ''t'' of
        Some (JStr t) \<Rightarrow>
          if t = ''display'' then jget v ''id''
          else if t = ''ready'' \<or> t = ''displays'' then jget v ''display''
          else None
      | _ \<Rightarrow> None)"

fun note_told :: "serve_event \<Rightarrow> json option \<Rightarrow> json option" where
  "note_told (EvSend True v) l = (case named_display v of Some d \<Rightarrow> Some d | None \<Rightarrow> l)"
| "note_told _ l = l"

definition last_told :: "serve_event list \<Rightarrow> json option" where
  "last_told xs = fold note_told xs None"

lemma last_told_snoc [simp]: "last_told (xs @ [e]) = note_told e (last_told xs)"
  by (simp add: last_told_def)

lemma named_simps [simp]:
  "named_display (display_json i m) = Some (json_opt i)" "named_display (displays_json ds i) = Some (json_opt i)"
  "named_display (ready_json ds a) = Some (json_opt (main_id ds))" "named_display (audio_json x) = None"
  "named_display (stats_json n) = None" "named_display (answer_json s) = None"
  by (auto simp: named_display_def display_json_def displays_json_def ready_json_def audio_json_def stats_json_def answer_json_def
      split: option.split)

text \<open>Conditions on what was told last and on the display that is watched.\<close>

definition viewed :: "(json option \<Rightarrow> u32 \<Rightarrow> bool) \<Rightarrow> serve_world \<Rightarrow> bool" where
  "viewed P w \<longleftrightarrow> P (last_told (sv_log w)) (sv_display w)"

definition told_ok :: "channel \<Rightarrow> serve_world \<Rightarrow> bool" where
  "told_ok c = viewed (\<lambda>l d. l = Some (json_opt (ch_told c)))"

definition watch_ok :: "channel \<Rightarrow> serve_world \<Rightarrow> bool" where
  "watch_ok c = viewed (\<lambda>l d. l = Some (json_opt (ch_told c)) \<and> ch_told c = current (ch_shown c) d)"

definition goes_on :: "(channel \<Rightarrow> serve_world \<Rightarrow> bool) \<Rightarrow> channel option \<Rightarrow> serve_world \<Rightarrow> bool" where
  "goes_on S r w \<longleftrightarrow> (\<forall>c. r = Some c \<longrightarrow> S c w)"

lemma viewed_next: "(\<And>xs w. last_told (sv_log (upd xs w)) = last_told (sv_log w) \<and> sv_display (upd xs w) = sv_display w) \<Longrightarrow>
    okay (viewed P) (next_of sel upd x0) (\<lambda>_. viewed P)"
  by (auto simp: okay_def next_of_def viewed_def split: list.splits)

lemma viewed_reads: "okay (viewed P) sv_now (\<lambda>_. viewed P)" "okay (viewed P) displays_now (\<lambda>_. viewed P)" "okay (viewed P) fps_now (\<lambda>_. viewed P)"
    "okay (viewed P) (sound_now E) (\<lambda>_. viewed P)" "okay (viewed P) (read_until E u) (\<lambda>_. viewed P)"
proof -
  show 1: "okay (viewed P) sv_now (\<lambda>_. viewed P)" "okay (viewed P) displays_now (\<lambda>_. viewed P)" "okay (viewed P) fps_now (\<lambda>_. viewed P)"
    unfolding sv_now_def displays_now_def fps_now_def by (intro viewed_next; simp)+
  have "okay (viewed P) (next_of sv_sound (\<lambda>xs w. w\<lparr>sv_sound := xs\<rparr>) x0) (\<lambda>_. viewed P)" for x0
    by (intro viewed_next) simp
  then show "okay (viewed P) (sound_now E) (\<lambda>_. viewed P)"
    unfolding sound_now_def by (intro okay_if okay_bnd okay_ret)
  show "okay (viewed P) (read_until E u) (\<lambda>_. viewed P)"
    by (auto simp: okay_def read_until_def viewed_def split: prod.splits)
qed

lemma viewed_log: "note_told e = id \<Longrightarrow> okay (viewed P) (log_it e) (\<lambda>_. viewed P)"
  by (simp add: okay_def log_it_def modify_def viewed_def)

lemma viewed_display_now: "okay (viewed (\<lambda>l _. l = L)) display_now (\<lambda>d. viewed (\<lambda>l x. l = L \<and> x = d))"
  by (auto simp: okay_def display_now_def next_of_def bnd_def seq_def modify_def asks_def ret_def viewed_def split: list.splits if_splits)

lemma viewed_set_display: "okay (viewed (\<lambda>l _. l = L)) (set_display i) (\<lambda>_. viewed (\<lambda>l _. l = L))"
  by (auto simp: okay_def set_display_def bnd_def seq_def modify_def asks_def ret_def log_it_def viewed_def split: if_splits)

lemma viewed_choose: "okay (viewed (\<lambda>l _. l = L)) (choose_display ds i) (\<lambda>_. viewed (\<lambda>l _. l = L))"
  unfolding choose_display_def by (intro okay_if viewed_set_display okay_ret)

lemma viewed_tell:
  "okay (viewed P) (tell v c) (\<lambda>r w. \<forall>c'. r = Some c' \<longrightarrow> c' = c \<and>
     viewed (\<lambda>l d. \<exists>l0. P l0 d \<and> l = (case named_display v of Some i \<Rightarrow> Some i | None \<Rightarrow> l0)) w)"
  by (auto simp: okay_def tell_def ws_send_def attempt_def next_of_def log_it_def modify_def seq_def bnd_def ret_def throw_def viewed_def
      split: list.splits if_splits prod.splits option.splits)

lemma okay_further: "okay P m (goes_on S) \<Longrightarrow> (\<And>c. okay (S c) (k c) (goes_on S')) \<Longrightarrow> okay P (further m k) (goes_on S')"
  unfolding further_def by (rule okay_bnd, assumption) (auto simp: okay_def goes_on_def ret_def split: option.splits)

lemma told_hear: "okay (told_ok c) (hear E c) (goes_on told_ok)"
proof -
  have on: "okay (told_ok c) (ret (Some c')) (goes_on told_ok)" if "ch_told c' = ch_told c" for c'
    using that by (intro okay_ret) (simp add: goes_on_def told_ok_def)
  have off: "okay (told_ok c) (ret None) (goes_on told_ok)" by (intro okay_ret) (simp add: goes_on_def)
  have key: "okay (told_ok c) (log_it EvKey) (\<lambda>_. told_ok c)" unfolding told_ok_def by (rule viewed_log) (simp add: fun_eq_iff)
  have pick: "okay (told_ok c) (choose_display ds i) (\<lambda>_. told_ok c)" for ds i unfolding told_ok_def by (rule viewed_choose)
  show ?thesis
    unfolding hear_def
    by (rule okay_bnd [where R = "\<lambda>_. told_ok c"], simp add: told_ok_def viewed_reads, rule okay_bnd [where R = "\<lambda>_. told_ok c"],
        simp add: told_ok_def viewed_reads)
      (auto split: got.split option.split from_viewer.split intro!: on off okay_seq [OF key] okay_seq [OF pick])
qed

lemma told_tell:
  assumes "named_display v = Some (json_opt (ch_told c))"
  shows "okay (viewed P) (tell v c) (goes_on told_ok)"
  by (rule okay_weaken [OF viewed_tell]) (auto simp: goes_on_def told_ok_def viewed_def assms)

lemma viewed_any: "okay (viewed (\<lambda>l x. l = L \<and> x = d)) m Q" if "okay (viewed (\<lambda>l _. l = L)) m Q"
  by (rule okay_weaken [OF that]) (simp_all add: viewed_def)

lemma told_look: "okay (told_ok c) (look_at_displays c) (goes_on told_ok)"
proof -
  have hand: "okay (viewed (\<lambda>l _. l = L)) (hand_main ds) (\<lambda>_. viewed (\<lambda>l _. l = L))" for L ds
    unfolding hand_main_def
    by (intro okay_bnd [OF viewed_display_now] okay_if viewed_any viewed_set_display okay_ret) simp_all
  have go: "okay (told_ok c) (ret (Some c')) (goes_on told_ok)" if "ch_told c' = ch_told c" for c'
    using that by (intro okay_ret) (simp add: goes_on_def told_ok_def)
  show ?thesis
    unfolding look_at_displays_def Let_def
  proof (rule okay_bnd [where R = "\<lambda>_. told_ok c"], goal_cases)
    case 1
    show ?case by (simp add: told_ok_def viewed_reads)
  next
    case (2 t)
    show ?case
    proof (intro okay_if go refl, rule okay_bnd [where R = "\<lambda>_. told_ok c"], goal_cases)
      case 1
      show ?case by (simp add: told_ok_def viewed_reads)
    next
      case (2 t')
      show ?case
      proof (rule okay_bnd [where R = "\<lambda>_. told_ok c"], goal_cases)
        case 1
        show ?case by (simp add: told_ok_def viewed_reads)
      next
        case (2 now)
        show ?case
          by (intro okay_if go okay_seq [where R = "told_ok c"] okay_bnd [where R = "\<lambda>_. viewed (\<lambda>_ _. True)"] told_tell)
            (auto simp: told_ok_def hand intro: okay_weaken [OF viewed_display_now] simp: viewed_def)
      qed
    qed
  qed
qed

lemma watched_named:
  assumes "named_display v = Some (json_opt (ch_told c))" and "ch_told c = current (ch_shown c) d"
  shows "okay (viewed (\<lambda>l x. l = L \<and> x = d)) (tell v c) (goes_on watch_ok)"
proof (rule okay_weaken [OF viewed_tell])
  fix r w
  assume "\<forall>c'. r = Some c' \<longrightarrow> c' = c \<and>
     viewed (\<lambda>l x. \<exists>l0. (l0 = L \<and> x = d) \<and> l = (case named_display v of Some i \<Rightarrow> Some i | None \<Rightarrow> l0)) w"
  then show "goes_on watch_ok r w" using assms by (cases r) (simp_all add: goes_on_def watch_ok_def viewed_def)
qed

lemma watched_tell:
  assumes "named_display v = None" and "ch_told c' = ch_told c" and "ch_shown c' = ch_shown c"
  shows "okay (watch_ok c) (tell v c') (goes_on watch_ok)"
  unfolding watch_ok_def [of c]
proof (rule okay_weaken [OF viewed_tell])
  fix r w
  assume "\<forall>c''. r = Some c'' \<longrightarrow> c'' = c' \<and>
     viewed (\<lambda>l x. \<exists>l0. (l0 = Some (json_opt (ch_told c)) \<and> ch_told c = current (ch_shown c) x) \<and>
       l = (case named_display v of Some i \<Rightarrow> Some i | None \<Rightarrow> l0)) w"
  then show "goes_on watch_ok r w" by (cases r) (simp_all add: goes_on_def watch_ok_def viewed_def assms)
qed

lemma watched_display: "okay (told_ok c) (tell_display c) (goes_on watch_ok)"
proof -
  let ?L = "Some (json_opt (ch_told c))"
  have first: "okay (told_ok c) display_now (\<lambda>d. viewed (\<lambda>l x. l = ?L \<and> x = d))" unfolding told_ok_def by (rule viewed_display_now)
  have stay: "okay (viewed (\<lambda>l x. l = ?L \<and> x = d)) (ret (Some c)) (goes_on watch_ok)" if "current (ch_shown c) d = ch_told c" for d
    using that by (intro okay_ret) (simp add: goes_on_def watch_ok_def viewed_def)
  have change: "okay (viewed (\<lambda>l x. l = ?L \<and> x = d))
      (tell (display_json (current (ch_shown c) d) m) ((if b then c\<lparr>ch_asked := None\<rparr> else c)\<lparr>ch_told := current (ch_shown c) d\<rparr>))
      (goes_on watch_ok)" for d m b
    by (rule watched_named) simp_all
  show ?thesis unfolding tell_display_def Let_def by (intro okay_bnd [OF first] okay_if stay change)
qed

lemma watched_ret: "okay (watch_ok c) (ret (Some c)) (goes_on watch_ok)"
  by (intro okay_ret) (simp add: goes_on_def)

lemma watched_read: "(\<And>P. okay (viewed P) m (\<lambda>_. viewed P)) \<Longrightarrow> okay (watch_ok c) m (\<lambda>_. watch_ok c)"
  unfolding watch_ok_def by blast

lemma watched_sound: "okay (watch_ok c) (tell_sound E c) (goes_on watch_ok)"
  unfolding tell_sound_def
proof (rule okay_bnd [OF watched_read [OF viewed_reads(4)]], goal_cases)
  case (1 a)
  show ?case
  proof (cases a)
    case None
    then show ?thesis by (simp add: watched_ret)
  next
    case (Some now)
    have "okay (watch_ok c) (tell (audio_json now) (c\<lparr>ch_sound := Some now\<rparr>)) (goes_on watch_ok)"
      by (intro watched_tell) simp_all
    with Some show ?thesis by (simp add: watched_ret)
  qed
qed

lemma watched_stats: "okay (watch_ok c) (tell_stats c) (goes_on watch_ok)"
  unfolding tell_stats_def
  by (intro okay_bnd [OF watched_read [OF viewed_reads(1)]] okay_bnd [OF watched_read [OF viewed_reads(3)]] okay_if watched_ret watched_tell)
    simp_all


text \<open>A viewer that asked for display 5 is moved to the main display 1, and told so.\<close>

definition demo_serve_env :: serve_env where
  "demo_serve_env = \<lparr>sr_json = \<lparr>js_print = (\<lambda>_. []), js_parse = (\<lambda>_. None)\<rparr>, sr_hex = hex_demo, sr_audio = False, sr_debug = (\<lambda>s. s)\<rparr>"

definition demo_display :: "u32 \<Rightarrow> display" where
  "demo_display i = \<lparr>dp_id = i, dp_name = ''d'', dp_width = 4, dp_height = 3, dp_main = (i = 1)\<rparr>"

definition demo_channel :: channel where
  "demo_channel = \<lparr>ch_shown = [demo_display 1, demo_display 5], ch_told = Some 5, ch_asked = Some 5, ch_sound = None, ch_stats_at = 0, ch_displays_at = 0\<rparr>"

definition demo_serve_world :: serve_world where
  "demo_serve_world = \<lparr>sv_ready = True, sv_times = [], sv_ws = [], sv_sends = [True], sv_open = [], sv_still = [], sv_admit = AdmitNo,
     sv_slot = False, sv_lists = [], sv_sound = [], sv_prepared = Inl [], sv_display = 5, sv_moved = [True], sv_fps = [], sv_ended = None,
     sv_last_error = None, sv_log = [EvSend True (display_json (Some 5) False)]\<rparr>"


end
