(* ===== verification/Stream_Lanes.thy ===== *)
theory Stream_Lanes
  imports Complex_Main Hidfi_Prelude "HOL-Library.AList"
begin

section \<open>From the encoders to the viewers (crates/hidfi-stream/src/pipeline.rs)\<close>

text \<open>
  Each viewer watches one display in one of three sizes; each display and size that is watched is a lane with an encoder of its own.  Here are a
  viewer's flags and what its session does to them, the choice of its size, the rate and the frame rate of a lane, when a lane makes a keyframe, and how a
  frame is handed to the viewers.  Capture, scaling and the encoders are outside: a frame comes with its lane and whether it is a
  keyframe.  A channel takes a frame, is full, or is gone, as a script says.  Floating point is exact arithmetic with a rounding
  after every operation (\<open>fl\<close> for f64, \<open>fl32\<close> for f32), which is an argument, as are the conversion to a duration and \<open>powf\<close>.  Times are in
  nanoseconds.
\<close>

subsection \<open>Definitions: constants\<close>

definition MAIN :: u32 where "MAIN = 0xFFFFFFFF"
definition FULL :: nat where "FULL = 0"
definition HALF :: nat where "HALF = 1"
definition QUARTER :: nat where "QUARTER = 2"
definition TIERS :: nat where "TIERS = 3"
definition QUARTER_BELOW :: u32 where "QUARTER_BELOW = 700000"
definition QUARTER_UP :: u32 where "QUARTER_UP = 1200000"
definition DOWN_BPS :: u32 where "DOWN_BPS = 2500000"
definition UP_BPS :: u32 where "UP_BPS = 4500000"
definition MIN_BITRATE :: u32 where "MIN_BITRATE = 300000"
definition MAX_BITRATE :: u32 where "MAX_BITRATE = 12000000"
definition FULL_MIN_BPS :: nat where "FULL_MIN_BPS = 1000000"
definition FULL_FPS_OK :: nat where "FULL_FPS_OK = 20"
definition HALF_MIN_BPS :: nat where "HALF_MIN_BPS = 400000"
definition MS :: nat where "MS = 1000000"
definition KEY_GAP :: nat where "KEY_GAP = 1000 * MS"
definition KEY_GAP_MAX :: nat where "KEY_GAP_MAX = 5000 * MS"
definition TIER_HOLD :: nat where "TIER_HOLD = 3000 * MS"
definition TIER_HOLD_DOWN :: nat where "TIER_HOLD_DOWN = 1000 * MS"
definition FPS_GRACE :: nat where "FPS_GRACE = 3000 * MS"

record floats =
  fl :: "rat \<Rightarrow> rat"
  fl32 :: "rat \<Rightarrow> rat"
  fl_secs :: "rat \<Rightarrow> nat"
  fl_pow :: "rat \<Rightarrow> rat \<Rightarrow> rat"

text \<open>\<open>Duration::as_secs_f64\<close>, and a float as a 32-bit number.\<close>

definition as_secs :: "floats \<Rightarrow> nat \<Rightarrow> rat" where
  "as_secs F d = fl F (fl F (of_nat (d div (1000 * MS))) + fl F (of_nat (d mod (1000 * MS)) / of_nat (1000 * MS)))"

definition as_u32_of :: "rat \<Rightarrow> u32" where
  "as_u32_of r = of_nat (min (nat \<lfloor>r\<rfloor>) (2 ^ 32 - 1))"

subsection \<open>Definitions: one viewer\<close>

text \<open>\<open>Shared1\<close>.\<close>

record viewer_state =
  vs_need_key :: bool
  vs_want_key :: bool
  vs_join :: bool
  vs_tier :: nat
  vs_est :: u32
  vs_display :: u32
  vs_crossed :: "nat option"
  vs_switched :: bool
  vs_urgent :: bool
  vs_full_need :: u32

definition viewer_new :: viewer_state where
  "viewer_new = \<lparr>vs_need_key = True, vs_want_key = False, vs_join = True, vs_tier = HALF, vs_est = 0, vs_display = MAIN, vs_crossed = None,
     vs_switched = False, vs_urgent = False, vs_full_need = 0\<rparr>"

definition request_keyframe :: "viewer_state \<Rightarrow> viewer_state" where
  "request_keyframe v = v\<lparr>vs_need_key := True\<rparr>"

definition browser_wants_keyframe :: "viewer_state \<Rightarrow> viewer_state" where
  "browser_wants_keyframe v = v\<lparr>vs_want_key := True\<rparr>"

definition restart :: "viewer_state \<Rightarrow> viewer_state" where
  "restart v = v\<lparr>vs_need_key := True, vs_join := True\<rparr>"

definition joined :: "viewer_state \<Rightarrow> viewer_state" where
  "joined v = restart v"

definition needs_key :: "viewer_state \<Rightarrow> bool" where
  "needs_key v = vs_need_key v"

definition viewer_tier :: "viewer_state \<Rightarrow> nat" where
  "viewer_tier v = min (vs_tier v) (TIERS - 1)"

definition switch_display :: "u32 \<Rightarrow> viewer_state \<Rightarrow> viewer_state" where
  "switch_display i v = (if vs_display v \<noteq> i then restart (v\<lparr>vs_display := i\<rparr>) else v\<lparr>vs_display := i\<rparr>)"

subsection \<open>Definitions: the size for a link\<close>

definition best_tier :: "floats \<Rightarrow> nat \<Rightarrow> nat \<Rightarrow> rat \<Rightarrow> nat" where
  "best_tier F bps need margin =
     (case find (\<lambda>t. fl F (of_nat ([FULL_MIN_BPS, HALF_MIN_BPS, 0] ! t) * margin) \<le> of_nat bps \<and>
                     fl F (fl F (of_nat need / ([1, 3, 9] ! t)) * margin) \<le> of_nat bps) [0..<TIERS] of
        Some t \<Rightarrow> t | None \<Rightarrow> QUARTER)"

text \<open>What content costs at \<open>FULL_FPS_OK\<close>, and the size that is wanted: by the link alone while that is not known, else the largest that fits.\<close>

definition full_need_ok :: "viewer_state \<Rightarrow> nat" where
  "full_need_ok v = unat (vs_full_need v) * FULL_FPS_OK div 30"

definition wanted_tier :: "floats \<Rightarrow> u32 \<Rightarrow> viewer_state \<Rightarrow> nat" where
  "wanted_tier F bps v =
     (let now = viewer_tier v; need = full_need_ok v in
      if need = 0 then
        (if now = FULL \<and> bps < QUARTER_BELOW then QUARTER
         else if now = FULL \<and> bps < DOWN_BPS then HALF
         else if now = HALF \<and> UP_BPS < bps then FULL
         else if now = HALF \<and> bps < QUARTER_BELOW then QUARTER
         else if now = QUARTER \<and> UP_BPS < bps then FULL
         else if now = QUARTER \<and> QUARTER_UP < bps then HALF
         else now)
      else
        let up = best_tier F (unat bps) need (fl F (12 / 10)); stay = best_tier F (unat bps) need (fl F (8 / 10)) in
        if up < now then up else if now < stay then stay else now)"

text \<open>\<open>offer_bitrate\<close>, with the two readings of the clock it takes when it has to wait: when it starts to, and when it looks how
  long it has.\<close>

definition next_tier :: "nat \<Rightarrow> nat \<Rightarrow> nat \<Rightarrow> viewer_state \<Rightarrow> nat \<times> viewer_state" where
  "next_tier t1 t2 want v =
     (let now = viewer_tier v in
      if want = now then (now, v\<lparr>vs_crossed := None\<rparr>)
      else if \<not> vs_switched v then (want, v\<lparr>vs_switched := True, vs_crossed := None\<rparr>)
      else if now < want \<and> vs_urgent v then (want, v\<lparr>vs_urgent := False, vs_crossed := None\<rparr>)
      else
        let since = (case vs_crossed v of Some t \<Rightarrow> t | None \<Rightarrow> t1) in
        if (if now < want then TIER_HOLD_DOWN else TIER_HOLD) \<le> t2 - since then (want, v\<lparr>vs_crossed := None\<rparr>)
        else (now, v\<lparr>vs_crossed := Some since\<rparr>))"

definition offer_bitrate :: "floats \<Rightarrow> nat \<Rightarrow> nat \<Rightarrow> u32 \<Rightarrow> viewer_state \<Rightarrow> viewer_state" where
  "offer_bitrate F t1 t2 bps v =
     (let v = v\<lparr>vs_est := bps\<rparr>; now = viewer_tier v in
      case next_tier t1 t2 (wanted_tier F bps v) v of
        (next, v) \<Rightarrow> if next \<noteq> now then restart (v\<lparr>vs_tier := next\<rparr>) else v)"

definition link_lost :: "floats \<Rightarrow> nat \<Rightarrow> nat \<Rightarrow> u32 \<Rightarrow> viewer_state \<Rightarrow> viewer_state" where
  "link_lost F t1 t2 bps v = (offer_bitrate F t1 t2 bps (v\<lparr>vs_urgent := True\<rparr>))\<lparr>vs_urgent := False\<rparr>"

subsection \<open>Definitions: lanes\<close>

type_synonym lane_id = "u32 \<times> nat"

definition lane_of :: "viewer_state \<Rightarrow> lane_id" where
  "lane_of v = (vs_display v, viewer_tier v)"

definition lane_add :: "u32 \<Rightarrow> lane_id \<times> u32 \<Rightarrow> (lane_id \<rightharpoonup> u32) \<Rightarrow> (lane_id \<rightharpoonup> u32)" where
  "lane_add initial v m =
     (let e = (if snd v = 0 then initial else snd v) in
      m(fst v \<mapsto> (case m (fst v) of Some b \<Rightarrow> min b e | None \<Rightarrow> e)))"

definition lane_rates :: "u32 \<Rightarrow> (lane_id \<times> u32) list \<Rightarrow> (lane_id \<rightharpoonup> u32)" where
  "lane_rates initial vs = fold (lane_add initial) vs Map.empty"

definition lane_fps :: "u32 \<Rightarrow> nat \<Rightarrow> nat" where
  "lane_fps bps fps = min fps (if 600000 \<le> bps then 60 else if 400000 \<le> bps then 15 else 8)"

definition key_gap :: "floats \<Rightarrow> u32 \<Rightarrow> u32 \<Rightarrow> nat" where
  "key_gap F key_bytes bps =
     (let spend = fl F (fl F (fl F (of_nat (unat key_bytes) * 8) * 2) / of_nat (unat (max bps MIN_BITRATE))) in
      min (max KEY_GAP (fl_secs F spend)) KEY_GAP_MAX)"

record fps_cap =
  fc_cap :: "nat option"
  fc_at_bps :: u32
  fc_tried :: nat
  fc_dropped :: nat
  fc_since :: "nat option"
  fc_born :: "nat option"

definition fps_cap_default :: fps_cap where
  "fps_cap_default = \<lparr>fc_cap = None, fc_at_bps = 0, fc_tried = 0, fc_dropped = 0, fc_since = None, fc_born = None\<rparr>"

definition fps_get :: "nat \<Rightarrow> fps_cap \<Rightarrow> nat" where
  "fps_get fps c = min (case fc_cap c of Some n \<Rightarrow> n | None \<Rightarrow> fps) fps"

definition fps_rate :: "u32 \<Rightarrow> fps_cap \<Rightarrow> fps_cap" where
  "fps_rate bps c = (if fc_cap c \<noteq> None \<and> min (unat (fc_at_bps c) * 3) (2 ^ 32 - 1) div 2 < unat bps then c\<lparr>fc_cap := None\<rparr> else c)"

text \<open>The new cap for the share of frames the encoder dropped.\<close>

definition fps_judge :: "floats \<Rightarrow> rat \<Rightarrow> nat \<Rightarrow> nat \<Rightarrow> nat" where
  "fps_judge F ratio cap fps =
     (if fl32 F (2 / 10) < ratio then max (cap * 2 div 3) 8
      else if ratio < fl32 F (5 / 100) then min (cap * 3 div 2 + 1) fps
      else cap)"

definition fps_record :: "floats \<Rightarrow> bool \<Rightarrow> nat \<Rightarrow> u32 \<Rightarrow> nat \<Rightarrow> fps_cap \<Rightarrow> (nat \<times> rat) option \<times> fps_cap" where
  "fps_record F dropped fps bps now c =
     (let born = (case fc_born c of Some b \<Rightarrow> b | None \<Rightarrow> now); c = c\<lparr>fc_born := Some born\<rparr> in
      if now - born < FPS_GRACE then (None, c)
      else
        let since = (case fc_since c of Some s \<Rightarrow> s | None \<Rightarrow> now);
            c = c\<lparr>fc_tried := fc_tried c + 1, fc_dropped := fc_dropped c + (if dropped then 1 else 0), fc_since := Some since\<rparr> in
        if now - since < 1000 * MS \<or> fc_tried c < 5 then (None, c)
        else
          let cap = fps_get fps c;
              ratio = fl32 F (fl32 F (of_nat (fc_dropped c)) / fl32 F (of_nat (fc_tried c)));
              c = (if fl32 F (2 / 10) < ratio then c\<lparr>fc_at_bps := bps\<rparr> else c);
              c = c\<lparr>fc_cap := Some (fps_judge F ratio cap fps), fc_tried := 0, fc_dropped := 0, fc_since := Some now\<rparr>
          in (if fc_cap c \<noteq> Some cap then Some (fps_get fps c, ratio) else None, c))"

text \<open>What a lane remembers between turns, its encoder by the size of its pictures; the counts for the log are left out.\<close>

record lane =
  ln_enc :: "(u32 \<times> u32) option"
  ln_applied :: u32
  ln_last_key :: "nat option"
  ln_last_sent :: "nat option"
  ln_due :: "nat option"
  ln_key_bytes :: u32
  ln_fps_cap :: fps_cap
  ln_win_bytes :: nat
  ln_win_at :: "nat option"
  ln_out :: u32

definition lane_default :: lane where
  "lane_default = \<lparr>ln_enc = None, ln_applied = 0, ln_last_key = None, ln_last_sent = None, ln_due = None, ln_key_bytes = 0,
     ln_fps_cap = fps_cap_default, ln_win_bytes = 0, ln_win_at = None, ln_out = 0\<rparr>"

text \<open>What one turn asks of a lane: a frame, a keyframe, and a picture even of a still screen.\<close>

definition lane_force :: "floats \<Rightarrow> nat \<Rightarrow> u32 \<Rightarrow> viewer_state list \<Rightarrow> lane \<Rightarrow> bool" where
  "lane_force F now bps vs l \<longleftrightarrow>
     list_ex vs_join vs \<or>
     list_ex (\<lambda>v. vs_need_key v \<or> vs_want_key v) vs \<and>
       (case ln_last_key l of None \<Rightarrow> True | Some k \<Rightarrow> key_gap F (ln_key_bytes l) bps \<le> now - k) \<or>
     ln_enc l = None"

definition lane_stale :: "nat \<Rightarrow> lane \<Rightarrow> bool" where
  "lane_stale now l \<longleftrightarrow> (case ln_last_sent l of None \<Rightarrow> True | Some s \<Rightarrow> 2000 * MS < now - s)"

definition lane_want :: "floats \<Rightarrow> nat \<Rightarrow> u32 \<Rightarrow> viewer_state list \<Rightarrow> lane \<Rightarrow> bool" where
  "lane_want F now bps vs l \<longleftrightarrow>
     lane_force F now bps vs l \<or> (case ln_due l of None \<Rightarrow> True | Some d \<Rightarrow> d \<le> now) \<or> lane_stale now l"

definition clamp_bps :: "u32 \<Rightarrow> u32" where
  "clamp_bps b = min (max b MIN_BITRATE) MAX_BITRATE"

text \<open>When a lane that takes this picture is due again: one step from now, less half a period of the loop.\<close>

definition lane_step :: "nat \<Rightarrow> nat \<Rightarrow> u32 \<Rightarrow> lane \<Rightarrow> lane" where
  "lane_step fps now rate l =
     (let bps = clamp_bps rate; cap = fps_rate bps (ln_fps_cap l);
          lane_rate = max (min (lane_fps bps fps) (fps_get fps cap)) 1;
          step = 1000000 div lane_rate * 1000; period = 1000000 div fps * 1000
      in l\<lparr>ln_fps_cap := cap, ln_due := Some (now + (step - period div 2))\<rparr>)"

text \<open>A frame that came out.\<close>

definition lane_sent :: "nat \<Rightarrow> bool \<Rightarrow> nat \<Rightarrow> lane \<Rightarrow> lane" where
  "lane_sent sent_at key len l =
     (let l = l\<lparr>ln_last_sent := Some sent_at, ln_win_bytes := ln_win_bytes l + len\<rparr> in
      if key then l\<lparr>ln_last_key := Some sent_at, ln_key_bytes := of_nat len\<rparr> else l)"

subsection \<open>Definitions: handing a frame to the viewers\<close>

datatype try_send = Sent | ChannelFull | ChannelGone

record frame =
  fm_lane :: lane_id
  fm_key :: bool
  fm_seq :: nat

record viewer =
  vw_id :: nat
  vw_state :: viewer_state
  vw_got :: "frame list"

record pipeline =
  pl_viewers :: "viewer list"
  pl_next_id :: nat
  pl_last_error :: "string option"

definition pipeline_new :: pipeline where
  "pipeline_new = \<lparr>pl_viewers = [], pl_next_id = 0, pl_last_error = None\<rparr>"

definition subscribe :: "pipeline \<Rightarrow> nat \<times> pipeline" where
  "subscribe p =
     (let i = pl_next_id p + 1 in
      (i, p\<lparr>pl_next_id := i, pl_viewers := pl_viewers p @ [\<lparr>vw_id = i, vw_state = viewer_new, vw_got = []\<rparr>]\<rparr>))"

definition unsubscribe :: "nat \<Rightarrow> pipeline \<Rightarrow> pipeline" where
  "unsubscribe i p = p\<lparr>pl_viewers := filter (\<lambda>v. vw_id v \<noteq> i) (pl_viewers p)\<rparr>"

definition control :: "nat \<Rightarrow> (viewer_state \<Rightarrow> viewer_state) \<Rightarrow> pipeline \<Rightarrow> pipeline" where
  "control i f p = p\<lparr>pl_viewers := map (\<lambda>v. if vw_id v = i then v\<lparr>vw_state := f (vw_state v)\<rparr> else v) (pl_viewers p)\<rparr>"

definition move_off :: "u32 \<Rightarrow> string \<Rightarrow> pipeline \<Rightarrow> pipeline" where
  "move_off d why p =
     (if d = MAIN then p\<lparr>pl_last_error := Some why, pl_viewers := filter (\<lambda>v. vs_display (vw_state v) \<noteq> MAIN) (pl_viewers p)\<rparr>
      else p\<lparr>pl_viewers := map (\<lambda>v. if vs_display (vw_state v) = d
               then v\<lparr>vw_state := (vw_state v)\<lparr>vs_display := MAIN, vs_need_key := True, vs_join := True\<rparr>\<rparr> else v) (pl_viewers p)\<rparr>)"

text \<open>One viewer and a frame: kept or not.\<close>

definition take_frame :: "frame \<Rightarrow> try_send \<Rightarrow> viewer \<Rightarrow> viewer option" where
  "take_frame f s v =
     (if lane_of (vw_state v) \<noteq> fm_lane f then Some v
      else
        let st = (if fm_key f then (vw_state v)\<lparr>vs_join := False\<rparr> else vw_state v) in
        if \<not> fm_key f \<and> vs_need_key st then Some (v\<lparr>vw_state := st\<rparr>)
        else
          (case s of
             Sent \<Rightarrow>
               let st = (if fm_key f then st\<lparr>vs_need_key := False, vs_want_key := False, vs_join := False\<rparr> else st) in
               Some (v\<lparr>vw_state := st, vw_got := vw_got v @ [f]\<rparr>)
           | ChannelFull \<Rightarrow> Some (v\<lparr>vw_state := st\<lparr>vs_need_key := True\<rparr>\<rparr>)
           | ChannelGone \<Rightarrow> None))"

definition hand_out :: "frame \<Rightarrow> (nat \<Rightarrow> try_send) \<Rightarrow> pipeline \<Rightarrow> pipeline" where
  "hand_out f s p = p\<lparr>pl_viewers := List.map_filter (\<lambda>v. take_frame f (s (vw_id v)) v) (pl_viewers p)\<rparr>"

subsection \<open>Every order of events\<close>

text \<open>The frames of a lane are numbered as its encoder makes them; one that is no keyframe builds on the one before it.  The operations of the sessions
  and of the encoding threads come in any order, each as one step.\<close>

record stream =
  sm_pipe :: pipeline
  sm_seq :: "lane_id \<Rightarrow> nat"

definition frame_next :: "lane_id \<Rightarrow> bool \<Rightarrow> stream \<Rightarrow> frame" where
  "frame_next l key s = \<lparr>fm_lane = l, fm_key = key, fm_seq = Suc (sm_seq s l)\<rparr>"

inductive stream_step :: "floats \<Rightarrow> stream \<Rightarrow> stream \<Rightarrow> bool" for F where
  subscribed: "stream_step F s (s\<lparr>sm_pipe := snd (subscribe (sm_pipe s))\<rparr>)"
| unsubscribed: "stream_step F s (s\<lparr>sm_pipe := unsubscribe i (sm_pipe s)\<rparr>)"
| lost_frame: "stream_step F s (s\<lparr>sm_pipe := control i request_keyframe (sm_pipe s)\<rparr>)"
| browser_asks: "stream_step F s (s\<lparr>sm_pipe := control i browser_wants_keyframe (sm_pipe s)\<rparr>)"
| connects: "stream_step F s (s\<lparr>sm_pipe := control i joined (sm_pipe s)\<rparr>)"
| picks: "stream_step F s (s\<lparr>sm_pipe := control i (switch_display d) (sm_pipe s)\<rparr>)"
| estimates: "stream_step F s (s\<lparr>sm_pipe := control i (offer_bitrate F t1 t2 bps) (sm_pipe s)\<rparr>)"
| loses: "stream_step F s (s\<lparr>sm_pipe := control i (link_lost F t1 t2 bps) (sm_pipe s)\<rparr>)"
| costs: "stream_step F s (s\<lparr>sm_pipe := control i (\<lambda>v. v\<lparr>vs_full_need := n\<rparr>) (sm_pipe s)\<rparr>)"
| moved: "stream_step F s (s\<lparr>sm_pipe := move_off d why (sm_pipe s)\<rparr>)"
| produced: "stream_step F s (s\<lparr>sm_pipe := hand_out (frame_next l key s) r (sm_pipe s), sm_seq := (sm_seq s)(l := Suc (sm_seq s l))\<rparr>)"

inductive stream_reach :: "floats \<Rightarrow> stream \<Rightarrow> bool" for F where
  new: "stream_reach F \<lparr>sm_pipe = pipeline_new, sm_seq = (\<lambda>_. 0)\<rparr>"
| step: "stream_reach F s \<Longrightarrow> stream_step F s s' \<Longrightarrow> stream_reach F s'"

text \<open>What a decoder can show: a keyframe, or the frame that follows the last one it was given.\<close>

definition decodable :: "frame list \<Rightarrow> bool" where
  "decodable fs \<longleftrightarrow> (case fs of [] \<Rightarrow> True | f # _ \<Rightarrow> fm_key f) \<and>
     successively (\<lambda>f g. fm_key g \<or> fm_lane g = fm_lane f \<and> fm_seq g = Suc (fm_seq f)) fs"

subsection \<open>No frame that cannot be shown\<close>

lemma decodable_snoc:
  "decodable (fs @ [g]) \<longleftrightarrow> decodable fs \<and>
     (fm_key g \<or> fs \<noteq> [] \<and> fm_lane g = fm_lane (last fs) \<and> fm_seq g = Suc (fm_seq (last fs)))"
proof (cases "fs = []")
  case False
  then have "successively P (fs @ [g]) \<longleftrightarrow> successively P fs \<and> P (last fs) g" for P by (simp add: successively_append_iff)
  with False show ?thesis unfolding decodable_def by (cases fs) auto
qed (simp add: decodable_def)

text \<open>Which lane a viewer is on depends on its display and its size alone.\<close>

lemma lane_of_simps [simp]: "lane_of (st\<lparr>vs_need_key := b\<rparr>) = lane_of st" "lane_of (st\<lparr>vs_want_key := b\<rparr>) = lane_of st"
    "lane_of (st\<lparr>vs_join := b\<rparr>) = lane_of st" "lane_of (st\<lparr>vs_est := e\<rparr>) = lane_of st" "lane_of (st\<lparr>vs_urgent := b\<rparr>) = lane_of st"
    "lane_of (st\<lparr>vs_full_need := n\<rparr>) = lane_of st"
  by (simp_all add: lane_of_def viewer_tier_def)

text \<open>A viewer that waits for no keyframe was given the newest frame of its lane.\<close>

definition in_step :: "(lane_id \<Rightarrow> nat) \<Rightarrow> viewer_state \<Rightarrow> frame list \<Rightarrow> bool" where
  "in_step q st fs \<longleftrightarrow> decodable fs \<and>
     (\<not> vs_need_key st \<longrightarrow> fs \<noteq> [] \<and> fm_lane (last fs) = lane_of st \<and> fm_seq (last fs) = q (lane_of st))"

definition stream_inv :: "stream \<Rightarrow> bool" where
  "stream_inv s \<longleftrightarrow> (\<forall>v \<in> set (pl_viewers (sm_pipe s)). in_step (sm_seq s) (vw_state v) (vw_got v))"

text \<open>An operation of a session: the lane stays and nothing is forgotten, or a keyframe is waited for.\<close>

definition steady :: "(viewer_state \<Rightarrow> viewer_state) \<Rightarrow> bool" where
  "steady f \<longleftrightarrow> (\<forall>st. vs_need_key (f st) \<or> \<not> vs_need_key st \<and> lane_of (f st) = lane_of st)"

lemma steady_in_step: "steady f \<Longrightarrow> in_step q st fs \<Longrightarrow> in_step q (f st) fs"
  unfolding steady_def in_step_def by metis

lemma steady_simple: "steady request_keyframe" "steady browser_wants_keyframe" "steady joined" "steady (switch_display d)"
    "steady (\<lambda>v. v\<lparr>vs_full_need := n\<rparr>)" "steady (\<lambda>v. v\<lparr>vs_urgent := b\<rparr>)"
  by (auto simp: steady_def request_keyframe_def browser_wants_keyframe_def joined_def restart_def switch_display_def lane_of_def viewer_tier_def)

lemma steady_next: "next_tier t1 t2 want v = (n, v') \<Longrightarrow>
    vs_need_key v' = vs_need_key v \<and> vs_tier v' = vs_tier v \<and> vs_display v' = vs_display v"
  by (auto simp: next_tier_def Let_def split: if_splits)

lemma steady_offer: "steady (offer_bitrate F t1 t2 bps)"
  unfolding steady_def
proof
  fix st :: viewer_state
  let ?v = "st\<lparr>vs_est := bps\<rparr>"
  obtain n v' where n: "next_tier t1 t2 (wanted_tier F bps ?v) ?v = (n, v')" by fastforce
  note same = steady_next [OF n]
  show "vs_need_key (offer_bitrate F t1 t2 bps st) \<or> \<not> vs_need_key st \<and> lane_of (offer_bitrate F t1 t2 bps st) = lane_of st"
    using same by (auto simp: offer_bitrate_def Let_def n restart_def lane_of_def viewer_tier_def)
qed

lemma steady_comp: "steady f \<Longrightarrow> steady g \<Longrightarrow> steady (\<lambda>v. f (g v))"
  unfolding steady_def by metis

lemma steady_lost: "steady (link_lost F t1 t2 bps)"
proof -
  have "link_lost F t1 t2 bps = (\<lambda>v. (\<lambda>v. v\<lparr>vs_urgent := False\<rparr>) (offer_bitrate F t1 t2 bps ((\<lambda>v. v\<lparr>vs_urgent := True\<rparr>) v)))"
    by (simp add: link_lost_def fun_eq_iff)
  then show ?thesis by (simp only:) (intro steady_comp [OF steady_simple(6)] steady_comp [OF steady_offer steady_simple(6)])
qed

lemma inv_control: "steady f \<Longrightarrow> stream_inv s \<Longrightarrow> stream_inv (s\<lparr>sm_pipe := control i f (sm_pipe s)\<rparr>)"
  by (auto simp: stream_inv_def control_def steady_in_step)

lemma in_step_frame:
  assumes "in_step q (vw_state v) (vw_got v)" and "take_frame f r v = Some v'" and "fm_seq f = Suc (q (fm_lane f))"
  shows "in_step (q(fm_lane f := Suc (q (fm_lane f)))) (vw_state v') (vw_got v')"
proof (cases "lane_of (vw_state v) = fm_lane f")
  case False
  then show ?thesis using assms by (auto simp: take_frame_def in_step_def)
next
  case True
  show ?thesis
    using assms True by (auto simp: take_frame_def in_step_def Let_def decodable_snoc split: if_splits try_send.splits)
qed

lemma stream_inv_step:
  assumes "stream_step F s s'" and inv: "stream_inv s"
  shows "stream_inv s'"
  using assms(1)
proof cases
  case subscribed
  then show ?thesis using inv by (auto simp: stream_inv_def subscribe_def Let_def in_step_def viewer_new_def decodable_def)
next
  case (unsubscribed i)
  then show ?thesis using inv by (auto simp: stream_inv_def unsubscribe_def)
next
  case (moved d why)
  then show ?thesis using inv by (auto simp: stream_inv_def move_off_def in_step_def)
next
  case (produced l key r)
  let ?f = "frame_next l key s"
  have f: "fm_lane ?f = l" "fm_seq ?f = Suc (sm_seq s (fm_lane ?f))" by (simp_all add: frame_next_def)
  have "in_step ((sm_seq s)(l := Suc (sm_seq s l))) (vw_state v') (vw_got v')"
    if "v \<in> set (pl_viewers (sm_pipe s))" "take_frame ?f (r (vw_id v)) v = Some v'" for v v'
    using in_step_frame [of "sm_seq s" v ?f "r (vw_id v)" v'] that f inv by (simp add: stream_inv_def)
  then show ?thesis using inv unfolding produced stream_inv_def hand_out_def by (auto simp: List.map_filter_def)
qed (use inv in \<open>simp_all add: inv_control steady_simple steady_offer steady_lost\<close>)


definition exact_floats :: floats where
  "exact_floats = \<lparr>fl = (\<lambda>x. x), fl32 = (\<lambda>x. x), fl_secs = (\<lambda>s. nat \<lfloor>s * 1000000000\<rfloor>), fl_pow = (\<lambda>x y. x ^ nat \<lfloor>y\<rfloor>)\<rparr>"

text \<open>One viewer: a keyframe, a lost frame after it, and a frame that is held back.\<close>

definition make_frame :: "bool \<Rightarrow> try_send \<Rightarrow> stream \<Rightarrow> stream" where
  "make_frame key r s = s\<lparr>sm_pipe := hand_out (frame_next (MAIN, HALF) key s) (\<lambda>_. r) (sm_pipe s),
     sm_seq := (sm_seq s)((MAIN, HALF) := Suc (sm_seq s (MAIN, HALF)))\<rparr>"

definition demo_stream :: stream where
  "demo_stream = make_frame False Sent (make_frame False ChannelFull (make_frame False Sent (make_frame True Sent
     \<lparr>sm_pipe = snd (subscribe pipeline_new), sm_seq = (\<lambda>_. 0)\<rparr>)))"

lemma demo_stream_reach: "stream_reach F demo_stream"
proof -
  have "stream_reach F \<lparr>sm_pipe = snd (subscribe pipeline_new), sm_seq = (\<lambda>_. 0)\<rparr>"
    using stream_reach.step [OF stream_reach.new, OF stream_step.subscribed, of F] by simp
  then show ?thesis unfolding demo_stream_def make_frame_def by (intro stream_reach.step [OF _ stream_step.produced])
qed

lemma demo_stream_viewers: "pl_viewers (sm_pipe demo_stream) =
    [\<lparr>vw_id = 1, vw_state = viewer_new\<lparr>vs_join := False\<rparr>,
      vw_got = [\<lparr>fm_lane = (MAIN, HALF), fm_key = True, fm_seq = 1\<rparr>, \<lparr>fm_lane = (MAIN, HALF), fm_key = False, fm_seq = 2\<rparr>]\<rparr>]"
  by (simp add: demo_stream_def make_frame_def subscribe_def pipeline_new_def hand_out_def take_frame_def frame_next_def List.map_filter_def viewer_new_def
      lane_of_def viewer_tier_def HALF_def TIERS_def Let_def)


subsection \<open>Changing size\<close>

lemma best_tier_less: "best_tier F bps need m < TIERS"
proof (cases "find (\<lambda>t. fl F (of_nat ([FULL_MIN_BPS, HALF_MIN_BPS, 0] ! t) * m) \<le> of_nat bps \<and>
                     fl F (fl F (of_nat need / ([1, 3, 9] ! t)) * m) \<le> of_nat bps) [0..<TIERS]")
  case None
  then show ?thesis by (simp add: best_tier_def QUARTER_def TIERS_def)
next
  case (Some t)
  then have "t \<in> set [0..<TIERS]" by (auto simp: find_Some_iff)
  then show ?thesis by (simp add: best_tier_def Some)
qed

lemma wanted_tier_less: "wanted_tier F bps v < TIERS"
proof -
  have "viewer_tier v < TIERS" by (simp add: viewer_tier_def TIERS_def)
  then show ?thesis using best_tier_less by (simp add: wanted_tier_def Let_def FULL_def HALF_def QUARTER_def TIERS_def)
qed

text \<open>What reaches one viewer's controls: an estimate, losses, what its display costs, another display.  An estimate and a loss come with the two
  readings of the clock.\<close>

datatype link_event = Estimate nat nat u32 | Losing nat nat u32 | Costs u32 | Shows u32

fun link_do :: "floats \<Rightarrow> link_event \<Rightarrow> viewer_state \<Rightarrow> viewer_state" where
  "link_do F (Estimate t1 t2 bps) v = offer_bitrate F t1 t2 bps v"
| "link_do F (Losing t1 t2 bps) v = link_lost F t1 t2 bps v"
| "link_do F (Costs n) v = v\<lparr>vs_full_need := n\<rparr>"
| "link_do F (Shows d) v = switch_display d v"

fun readings :: "link_event \<Rightarrow> nat list" where
  "readings (Estimate t1 t2 _) = [t1, t2]" | "readings (Losing t1 t2 _) = [t1, t2]" | "readings _ = []"

record change =
  ch_at :: nat
  ch_from :: nat
  ch_to :: nat
  ch_losing :: bool

definition change_of :: "link_event \<Rightarrow> viewer_state \<Rightarrow> viewer_state \<Rightarrow> change list" where
  "change_of e v v' = (if viewer_tier v' = viewer_tier v then [] else
     [\<lparr>ch_at = last (readings e), ch_from = viewer_tier v, ch_to = viewer_tier v', ch_losing = (case e of Losing _ _ _ \<Rightarrow> True | _ \<Rightarrow> False)\<rparr>])"

fun size_changes :: "floats \<Rightarrow> viewer_state \<Rightarrow> link_event list \<Rightarrow> change list" where
  "size_changes F v [] = []"
| "size_changes F v (e # es) = change_of e v (link_do F e v) @ size_changes F (link_do F e v) es"

text \<open>How long after one change of size the next may come.\<close>

definition held :: "nat \<Rightarrow> change \<Rightarrow> bool" where
  "held t c \<longleftrightarrow> (ch_to c < ch_from c \<longrightarrow> t + TIER_HOLD \<le> ch_at c) \<and> (ch_from c < ch_to c \<and> \<not> ch_losing c \<longrightarrow> t + TIER_HOLD_DOWN \<le> ch_at c)"

definition after_change :: "nat \<Rightarrow> viewer_state \<Rightarrow> bool" where
  "after_change t v \<longleftrightarrow> vs_switched v \<and> \<not> vs_urgent v \<and> (case vs_crossed v of None \<Rightarrow> True | Some c \<Rightarrow> t \<le> c)"

lemma viewer_tier_frame [simp]:
  "viewer_tier (v\<lparr>vs_est := b\<rparr>) = viewer_tier v" "viewer_tier (v\<lparr>vs_crossed := c\<rparr>) = viewer_tier v" "viewer_tier (v\<lparr>vs_switched := s\<rparr>) = viewer_tier v"
  "viewer_tier (v\<lparr>vs_urgent := s\<rparr>) = viewer_tier v" "viewer_tier (v\<lparr>vs_need_key := s\<rparr>) = viewer_tier v" "viewer_tier (v\<lparr>vs_join := s\<rparr>) = viewer_tier v"
  "viewer_tier (v\<lparr>vs_full_need := n\<rparr>) = viewer_tier v" "viewer_tier (v\<lparr>vs_display := d\<rparr>) = viewer_tier v"
  by (simp_all add: viewer_tier_def)

text \<open>What one offer does, whatever the reason for the size it wants.\<close>

lemma offer_hold:
  assumes s: "vs_switched v" and c: "case vs_crossed v of None \<Rightarrow> True | Some c \<Rightarrow> t \<le> c" and t: "t \<le> t1" "t1 \<le> t2"
    and v': "v' = offer_bitrate F t1 t2 bps v"
  shows "vs_switched v'"
    and "if viewer_tier v' = viewer_tier v then case vs_crossed v' of None \<Rightarrow> True | Some c \<Rightarrow> t \<le> c else vs_crossed v' = None"
    and "viewer_tier v' < viewer_tier v \<Longrightarrow> t + TIER_HOLD \<le> t2"
    and "viewer_tier v < viewer_tier v' \<Longrightarrow> \<not> vs_urgent v \<Longrightarrow> t + TIER_HOLD_DOWN \<le> t2"
    and "\<not> vs_urgent v \<Longrightarrow> \<not> vs_urgent v'"
proof -
  let ?v = "v\<lparr>vs_est := bps\<rparr>" and ?w = "wanted_tier F bps (v\<lparr>vs_est := bps\<rparr>)"
  have less: "viewer_tier (x\<lparr>vs_tier := ?w\<rparr>) = ?w" for x using wanted_tier_less [of F bps ?v] by (simp add: viewer_tier_def)
  have hold: "0 < TIER_HOLD" "0 < TIER_HOLD_DOWN" by (simp_all add: TIER_HOLD_def TIER_HOLD_DOWN_def MS_def)
  show "vs_switched v'" "if viewer_tier v' = viewer_tier v then case vs_crossed v' of None \<Rightarrow> True | Some c \<Rightarrow> t \<le> c else vs_crossed v' = None"
    using s c t less by (auto simp: v' offer_bitrate_def next_tier_def Let_def restart_def split: option.splits)
  show "viewer_tier v' < viewer_tier v \<Longrightarrow> t + TIER_HOLD \<le> t2"
    using s c t less hold by (auto simp: v' offer_bitrate_def next_tier_def Let_def restart_def split: option.splits if_splits)
  show "viewer_tier v < viewer_tier v' \<Longrightarrow> \<not> vs_urgent v \<Longrightarrow> t + TIER_HOLD_DOWN \<le> t2"
    using s c t less hold by (auto simp: v' offer_bitrate_def next_tier_def Let_def restart_def split: option.splits if_splits)
  show "\<not> vs_urgent v \<Longrightarrow> \<not> vs_urgent v'"
    using s by (auto simp: v' offer_bitrate_def next_tier_def Let_def restart_def)
qed

lemma losing_after:
  assumes "after_change t v" and "t \<le> t1" "t1 \<le> t2" and v': "v' = link_lost F t1 t2 bps v"
  shows "if viewer_tier v' = viewer_tier v then after_change t v' else after_change t2 v'"
    and "viewer_tier v' < viewer_tier v \<Longrightarrow> t + TIER_HOLD \<le> t2"
proof -
  let ?u = "v\<lparr>vs_urgent := True\<rparr>"
  note h = offer_hold [of ?u t t1 t2 _ F bps, OF _ _ assms(2,3) refl]
  show "if viewer_tier v' = viewer_tier v then after_change t v' else after_change t2 v'"
    using h(1,2) assms(1) by (auto simp: v' link_lost_def after_change_def split: if_splits)
  show "viewer_tier v' < viewer_tier v \<Longrightarrow> t + TIER_HOLD \<le> t2"
    using h(3) assms(1) by (auto simp: v' link_lost_def after_change_def)
qed

lemma estimate_after:
  assumes "after_change t v" and "t \<le> t1" "t1 \<le> t2" and v': "v' = offer_bitrate F t1 t2 bps v"
  shows "if viewer_tier v' = viewer_tier v then after_change t v' else after_change t2 v'"
    and "viewer_tier v' < viewer_tier v \<Longrightarrow> t + TIER_HOLD \<le> t2"
    and "viewer_tier v < viewer_tier v' \<Longrightarrow> t + TIER_HOLD_DOWN \<le> t2"
  using assms(1) offer_hold [of v t t1 t2 v' F bps, OF _ _ assms(2,3) v'] by (auto simp: after_change_def split: if_splits)

lemma link_do_after:
  assumes "after_change t v" and "sorted (readings e)" "\<forall>r \<in> set (readings e). t \<le> r"
  shows "(case change_of e v (link_do F e v) of [] \<Rightarrow> after_change t (link_do F e v) | c # cs \<Rightarrow> cs = [] \<and> held t c \<and> after_change (ch_at c) (link_do F e v))"
proof (cases e)
  case (Estimate t1 t2 bps)
  then show ?thesis using assms estimate_after [of t v t1 t2 _ F bps, OF assms(1) _ _ refl] by (auto simp: change_of_def held_def split: if_splits)
next
  case (Losing t1 t2 bps)
  then show ?thesis using assms losing_after [of t v t1 t2 _ F bps, OF assms(1) _ _ refl] by (auto simp: change_of_def held_def split: if_splits)
next
  case (Costs n)
  then show ?thesis using assms(1) by (simp add: change_of_def after_change_def)
next
  case (Shows d)
  then show ?thesis using assms(1) by (auto simp: change_of_def after_change_def switch_display_def restart_def)
qed

text \<open>Each change waits for the one before it.\<close>

fun all_held :: "nat \<Rightarrow> change list \<Rightarrow> bool" where
  "all_held t [] = True"
| "all_held t (c # cs) = (held t c \<and> all_held (ch_at c) cs)"

lemma changes_held:
  assumes "after_change t v" and "sorted (concat (map readings es))" "\<forall>r \<in> set (concat (map readings es)). t \<le> r"
  shows "all_held t (size_changes F v es)"
  using assms
proof (induction es arbitrary: t v)
  case (Cons e es)
  have e: "sorted (readings e)" "\<forall>r \<in> set (readings e). t \<le> r" "sorted (concat (map readings es))"
      "\<forall>r \<in> set (concat (map readings es)). t \<le> r"
    using Cons.prems by (auto simp: sorted_append)
  note one = link_do_after [OF Cons.prems(1) e(1,2), of F]
  show ?case
  proof (cases "change_of e v (link_do F e v)")
    case Nil
    then show ?thesis using one Cons.IH [OF _ e(3,4)] by simp
  next
    case (Cons c cs)
    have "readings e \<noteq> [] \<and> ch_at c = last (readings e)"
      using Cons by (cases e) (auto simp: change_of_def switch_display_def restart_def split: if_splits)
    then have "\<forall>r \<in> set (concat (map readings es)). ch_at c \<le> r"
      using Cons.prems(2) by (auto simp: sorted_append)
    then show ?thesis using one Cons Cons.IH e(3) by simp
  qed
qed simp

definition before_change :: "viewer_state \<Rightarrow> bool" where
  "before_change v \<longleftrightarrow> \<not> vs_switched v \<and> \<not> vs_urgent v \<and> vs_crossed v = None"

lemma first_offer:
  assumes "\<not> vs_switched v" "vs_crossed v = None" and v': "v' = offer_bitrate F t1 t2 bps v"
  shows "vs_urgent v' = vs_urgent v" "vs_crossed v' = None" "vs_switched v' \<longleftrightarrow> viewer_tier v' \<noteq> viewer_tier v"
proof -
  have "viewer_tier (x\<lparr>vs_tier := wanted_tier F bps (v\<lparr>vs_est := bps\<rparr>)\<rparr>) = wanted_tier F bps (v\<lparr>vs_est := bps\<rparr>)" for x
    using wanted_tier_less [of F bps "v\<lparr>vs_est := bps\<rparr>"] by (simp add: viewer_tier_def)
  then show "vs_urgent v' = vs_urgent v" "vs_crossed v' = None" "vs_switched v' \<longleftrightarrow> viewer_tier v' \<noteq> viewer_tier v"
    using assms(1,2) by (auto simp: v' offer_bitrate_def next_tier_def Let_def restart_def)
qed

lemma link_do_before:
  assumes "before_change v"
  shows "case change_of e v (link_do F e v) of [] \<Rightarrow> before_change (link_do F e v) | c # cs \<Rightarrow> cs = [] \<and> after_change (ch_at c) (link_do F e v)"
proof (cases e)
  case (Estimate t1 t2 bps)
  then show ?thesis using assms first_offer [of v _ F t1 t2 bps, OF _ _ refl] by (auto simp: change_of_def before_change_def after_change_def)
next
  case (Losing t1 t2 bps)
  then show ?thesis
    using assms first_offer [of "v\<lparr>vs_urgent := True\<rparr>" _ F t1 t2 bps, OF _ _ refl]
    by (auto simp: change_of_def before_change_def after_change_def link_lost_def)
next
  case (Costs n)
  then show ?thesis using assms by (simp add: change_of_def before_change_def)
next
  case (Shows d)
  then show ?thesis using assms by (auto simp: change_of_def before_change_def switch_display_def restart_def)
qed

lemma changes_from_before:
  assumes "before_change v" and "sorted (concat (map readings es))"
  shows "case size_changes F v es of [] \<Rightarrow> True | c # cs \<Rightarrow> all_held (ch_at c) cs"
  using assms
proof (induction es arbitrary: v)
  case (Cons e es)
  have rest: "sorted (concat (map readings es))" using Cons.prems(2) by (simp add: sorted_append)
  note one = link_do_before [OF Cons.prems(1), where e = e and F = F]
  show ?case
  proof (cases "change_of e v (link_do F e v)")
    case Nil
    then show ?thesis using one Cons.IH rest by simp
  next
    case (Cons c cs)
    have "readings e \<noteq> [] \<and> ch_at c = last (readings e)"
      using Cons by (cases e) (auto simp: change_of_def switch_display_def restart_def split: if_splits)
    then have "\<forall>r \<in> set (concat (map readings es)). ch_at c \<le> r"
      using Cons.prems(2) by (auto simp: sorted_append)
    then show ?thesis using one Cons changes_held rest by simp
  qed
qed simp

text \<open>C34. A viewer's picture does not flap: whatever estimates, losses, costs and displays come, in the order of the clock, after the first change of
  size (which may come at once) each later one to a larger picture comes at least three seconds (\<open>TIER_HOLD\<close>) after the change before it, and each one
  to a smaller picture at least one second (\<open>TIER_HOLD_DOWN\<close>) after it, unless packets are being lost.\<close>

theorem size_does_not_flap:
  assumes "sorted (concat (map readings es))" and "size_changes F viewer_new es = c # cs"
  shows "all_held (ch_at c) cs"
  using changes_from_before [of viewer_new es F] assms by (simp add: before_change_def viewer_new_def)

lemmas link_sizes = change_of_def link_lost_def offer_bitrate_def next_tier_def wanted_tier_def full_need_ok_def viewer_tier_def restart_def Let_def
  FULL_def HALF_def QUARTER_def TIERS_def QUARTER_BELOW_def QUARTER_UP_def DOWN_BPS_def UP_BPS_def TIER_HOLD_def TIER_HOLD_DOWN_def MS_def

text \<open>A viewer whose link proves itself, is full size three seconds later, and loses packets.\<close>

definition demo_link :: "link_event list" where
  "demo_link = [Estimate 0 0 (of_nat 500000), Estimate (1000 * MS) (1000 * MS) (of_nat 5000000), Estimate (3000 * MS) (3000 * MS) (of_nat 5000000),
     Estimate (4000 * MS) (4000 * MS) (of_nat 5000000), Losing (4100 * MS) (4100 * MS) (of_nat 1000000)]"

lemma demo_link_changes: "size_changes exact_floats viewer_new demo_link =
    [\<lparr>ch_at = 0, ch_from = HALF, ch_to = QUARTER, ch_losing = False\<rparr>, \<lparr>ch_at = 4000 * MS, ch_from = QUARTER, ch_to = FULL, ch_losing = False\<rparr>,
     \<lparr>ch_at = 4100 * MS, ch_from = FULL, ch_to = HALF, ch_losing = True\<rparr>]"
  by (simp add: demo_link_def MS_def link_sizes viewer_new_def)

lemma size_does_not_flap_witness:
  "sorted (concat (map readings demo_link)) \<and>
   all_held (ch_at (hd (size_changes exact_floats viewer_new demo_link))) (tl (size_changes exact_floats viewer_new demo_link))"
proof -
  have "sorted (concat (map readings demo_link))" by (simp add: demo_link_def MS_def)
  then show ?thesis using size_does_not_flap [OF _ demo_link_changes] demo_link_changes by simp
qed

text \<open>The wait counts from when the estimate first asked for another size, whichever that was: two seconds of wanting a larger picture, and one reading that
  asks for a smaller one, change the size at once.\<close>

lemma hold_is_shared:
  "size_changes exact_floats (viewer_new\<lparr>vs_switched := True\<rparr>)
     [Estimate 0 0 (of_nat 5000000), Estimate (2000 * MS) (2000 * MS) (of_nat 600000)] =
   [\<lparr>ch_at = 2000 * MS, ch_from = HALF, ch_to = QUARTER, ch_losing = False\<rparr>]"
  by (simp add: MS_def link_sizes viewer_new_def)

subsection \<open>The gap between two atomic stores\<close>

text \<open>The session does not take the lock of the pipeline: an operation of it may come between the moment the lane of a viewer is looked at and the moment its
  flags are cleared.  Such a turn, for a keyframe that is sent, with the session's operation \<open>g\<close> in between:\<close>

definition take_keyframe_raced :: "frame \<Rightarrow> (viewer_state \<Rightarrow> viewer_state) \<Rightarrow> viewer \<Rightarrow> viewer" where
  "take_keyframe_raced f g v =
     (if lane_of (vw_state v) \<noteq> fm_lane f then v\<lparr>vw_state := g (vw_state v)\<rparr>
      else v\<lparr>vw_state := (g ((vw_state v)\<lparr>vs_join := False\<rparr>))\<lparr>vs_need_key := False, vs_want_key := False, vs_join := False\<rparr>,
             vw_got := vw_got v @ [f]\<rparr>)"

text \<open>A viewer that picks another display then has no keyframe to wait for, and the next frame of the new lane goes to it, which it cannot decode.\<close>

lemma restart_lost:
  assumes "v = \<lparr>vw_id = 1, vw_state = viewer_new, vw_got = []\<rparr>" and "d \<noteq> MAIN"
  shows "\<exists>v'. take_frame \<lparr>fm_lane = (d, HALF), fm_key = False, fm_seq = n\<rparr> Sent
      (take_keyframe_raced \<lparr>fm_lane = (MAIN, HALF), fm_key = True, fm_seq = k\<rparr> (switch_display d) v) = Some v' \<and>
    length (vw_got v') = 2 \<and> \<not> decodable (vw_got v')"
  using assms(2)
  by (simp add: assms(1) take_keyframe_raced_def take_frame_def switch_display_def restart_def viewer_new_def lane_of_def viewer_tier_def HALF_def TIERS_def
      decodable_def)

subsection \<open>Rates\<close>

text \<open>What the estimates of the viewers of a lane count as.\<close>

definition counted :: "u32 \<Rightarrow> (lane_id \<times> u32) list \<Rightarrow> lane_id \<Rightarrow> u32 set" where
  "counted initial vs k = (\<lambda>v. if snd v = 0 then initial else snd v) ` {v \<in> set vs. fst v = k}"

lemma counted_snoc: "counted initial (vs @ [v]) k =
    (if fst v = k then insert (if snd v = 0 then initial else snd v) (counted initial vs k) else counted initial vs k)"
proof -
  have "{w \<in> set (vs @ [v]). fst w = k} = (if fst v = k then insert v {w \<in> set vs. fst w = k} else {w \<in> set vs. fst w = k})" by auto
  then show ?thesis unfolding counted_def by simp
qed

text \<open>Each lane runs at the slowest estimate among its viewers, a viewer without an estimate counting as the starting rate, and the lanes that run
  are those that somebody watches.\<close>

theorem lane_rates_spec:
  "lane_rates initial vs k = (if counted initial vs k = {} then None else Some (Min (counted initial vs k)))"
proof (induction vs rule: rev_induct)
  case Nil
  show ?case by (simp add: lane_rates_def counted_def)
next
  case (snoc v vs)
  have "lane_rates initial (vs @ [v]) = lane_add initial v (lane_rates initial vs)" by (simp add: lane_rates_def)
  moreover have "finite (counted initial vs k)" by (simp add: counted_def)
  ultimately show ?case
    using snoc.IH unfolding counted_snoc by (cases "fst v = k") (auto simp: lane_add_def Let_def min.commute)
qed

text \<open>A lane's frame rate.\<close>

datatype fps_event = Rate_now u32 | Frame_tried bool u32 nat

fun fps_do :: "floats \<Rightarrow> nat \<Rightarrow> fps_event \<Rightarrow> fps_cap \<Rightarrow> fps_cap" where
  "fps_do F fps (Rate_now bps) c = fps_rate bps c"
| "fps_do F fps (Frame_tried dropped bps now) c = snd (fps_record F dropped fps bps now c)"

lemma fps_do_floor:
  assumes "min 8 fps \<le> fps_get fps c"
  shows "min 8 fps \<le> fps_get fps (fps_do F fps e c)"
proof (cases e)
  case (Rate_now bps)
  then show ?thesis using assms by (simp add: fps_rate_def fps_get_def)
next
  case (Frame_tried d bps now)
  have "min 8 fps \<le> min (fps_judge F r (fps_get fps c) fps) fps" for r
    using assms by (auto simp: fps_judge_def fps_get_def)
  then show ?thesis using assms Frame_tried by (simp add: fps_record_def Let_def fps_get_def split: if_splits)
qed

text \<open>However many frames an encoder drops and whatever the lane's rate does, the cap on its frame rate stays at eight frames a second or above (all of
  them, when the screen is captured at fewer) and never goes over the rate the screen is captured at.\<close>

theorem fps_cap_bounds:
  "min 8 fps \<le> fps_get fps (fold (fps_do F fps) es fps_cap_default) \<and> fps_get fps (fold (fps_do F fps) es fps_cap_default) \<le> fps"
proof -
  have "min 8 fps \<le> fps_get fps (fold (fps_do F fps) es c)" if "min 8 fps \<le> fps_get fps c" for c
    using that by (induction es arbitrary: c) (simp_all add: fps_do_floor)
  then show ?thesis by (simp add: fps_get_def fps_cap_default_def)
qed

lemma key_gap_bounds: "KEY_GAP \<le> key_gap F b r \<and> key_gap F b r \<le> KEY_GAP_MAX"
  by (simp add: key_gap_def Let_def KEY_GAP_def KEY_GAP_MAX_def MS_def)

end
