(* ===== verification/Stream_Rtc.thy ===== *)
theory Stream_Rtc
  imports Stream_Lanes Stream_Serve
begin

section \<open>From a viewer's channel to its browser (crates/hidfi-stream/src/rtc.rs)\<close>

text \<open>
  The rate a link's estimates ask for, the pace of one viewer, the loop of its session, and the thread of server.rs that moves frames
  from the pipeline's channel to the session's.  str0m and the sockets are a script: what each poll of it gives, what comes over the channel and
  whether a write works.  The viewer's flags are shared with the pipeline and the forwarder, so each turn begins with what they did to them
  since the last.  Floating point and times are as in the theory of the lanes; \<open>u64\<close> wraps, as in a release build.
\<close>

subsection \<open>Definitions: the rate for a link\<close>

definition CONNECT_DEADLINE :: nat where "CONNECT_DEADLINE = 20000 * MS"
definition DESIRED_MIN_BPS :: u64 where "DESIRED_MIN_BPS = 6000000"
definition START_BPS :: u64 where "START_BPS = 6000000"
definition DESIRED_MAX_BPS :: u64 where "DESIRED_MAX_BPS = 12000000"
definition STEADY_HOLD :: nat where "STEADY_HOLD = 2500 * MS"
definition ENCODE_SHARE :: rat where "ENCODE_SHARE = 6 / 10"
definition STEADY_LOSS :: rat where "STEADY_LOSS = 5 / 100"

definition desired :: "u64 \<Rightarrow> u64" where
  "desired estimate = min (max (estimate * 2) DESIRED_MIN_BPS) DESIRED_MAX_BPS"

text \<open>\<open>Steady\<close>: the estimates seen lately, the oldest first.\<close>

type_synonym steady_link = "(nat \<times> u64) list"

definition sat_double :: "u64 \<Rightarrow> u64" where
  "sat_double b = (if 2 ^ 64 \<le> unat b * 2 then - 1 else b * 2)"

definition steady_rate :: "u64 \<Rightarrow> steady_link \<Rightarrow> u64" where
  "steady_rate cur s =
     (let best = (case s of [] \<Rightarrow> cur | _ \<Rightarrow> Max (snd ` set s)) in
      max (min best (sat_double cur)) cur)"

definition steady_estimate :: "u64 \<Rightarrow> nat \<Rightarrow> steady_link \<Rightarrow> u64 \<times> steady_link" where
  "steady_estimate bps now s =
     (let s = dropWhile (\<lambda>(t, _). STEADY_HOLD < now - t) (s @ [(now, bps)]) in (steady_rate bps s, s))"

definition steady_loss :: "floats \<Rightarrow> rat \<Rightarrow> u64 \<Rightarrow> nat \<Rightarrow> steady_link \<Rightarrow> steady_link" where
  "steady_loss F fraction cur now s = (if fl32 F STEADY_LOSS \<le> fraction then [(now, cur)] else s)"

text \<open>What is encoded for: a share of the rate, as a 32-bit number.\<close>

definition encode_rate :: "floats \<Rightarrow> u64 \<Rightarrow> u32" where
  "encode_rate F rate = as_u32_of (fl F (fl F (of_nat (unat rate)) * fl F ENCODE_SHARE))"

subsection \<open>Definitions: the pace\<close>

record pace =
  pc_bps :: rat
  pc_tokens :: rat
  pc_at :: nat

definition BURST_S :: rat where "BURST_S = 1 / 2"

definition pace_new :: "floats \<Rightarrow> u64 \<Rightarrow> nat \<Rightarrow> pace" where
  "pace_new F bps now =
     \<lparr>pc_bps = fl F (of_nat (unat bps)), pc_tokens = fl F (fl F (fl F (of_nat (unat bps)) / 8) * BURST_S), pc_at = now\<rparr>"

definition set_rate :: "floats \<Rightarrow> u64 \<Rightarrow> pace \<Rightarrow> pace" where
  "set_rate F bps p = p\<lparr>pc_bps := fl F (of_nat (unat bps))\<rparr>"

definition pace_admit :: "floats \<Rightarrow> nat \<Rightarrow> bool \<Rightarrow> nat \<Rightarrow> pace \<Rightarrow> bool \<times> pace" where
  "pace_admit F len key now p =
     (let dt = as_secs F (now - pc_at p); second = fl F (pc_bps p / 8);
          tokens = min (fl F (pc_tokens p + fl F (second * dt))) (fl F (second * BURST_S));
          p = p\<lparr>pc_at := now, pc_tokens := tokens\<rparr>
      in if tokens < - second \<and> \<not> key then (False, p)
         else (True, p\<lparr>pc_tokens := fl F (tokens - fl F (of_nat len))\<rparr>))"

subsection \<open>Definitions: the session\<close>

text \<open>What str0m's writer of a stream does with a sample.\<close>

datatype writer = WrNone | WrOk | WrFail string

datatype rtc_message = RmTimeout | RmGone | RmUdp bool | RmSound writer | RmFrame frame nat writer

datatype rtc_poll = RpTimeout | RpTransmit | RpConnected | RpDisconnected | RpVideo bool | RpAudio bool | RpKeyframe
  | RpLoss "rat option" | RpEstimate u64 | RpOther | RpFailed string

datatype rtc_event = RxWrote frame | RxHeld frame | RxUnready frame | RxNoWriter frame | RxSound | RxStats nat | RxDesired u64

record rtc_session =
  rs_connected :: bool
  rs_video :: bool
  rs_audio :: bool
  rs_sent :: nat
  rs_stats_at :: nat
  rs_pace :: pace
  rs_steady :: steady_link
  rs_waiting_key :: bool
  rs_estimate :: u64
  rs_view :: viewer_state
  rs_log :: "rtc_event list"

definition rtc_new :: "floats \<Rightarrow> nat \<Rightarrow> viewer_state \<Rightarrow> rtc_session" where
  "rtc_new F now v = \<lparr>rs_connected = False, rs_video = False, rs_audio = False, rs_sent = 0, rs_stats_at = now, rs_pace = pace_new F 3000000 now,
     rs_steady = [], rs_waiting_key = True, rs_estimate = 0, rs_view = v, rs_log = []\<rparr>"

definition rx :: "rtc_event \<Rightarrow> rtc_session \<Rightarrow> rtc_session" where
  "rx e s = s\<lparr>rs_log := rs_log s @ [e]\<rparr>"

text \<open>A frame that came: whether it goes on to the writer.\<close>

definition media_frame :: "floats \<Rightarrow> frame \<Rightarrow> nat \<Rightarrow> nat \<Rightarrow> rtc_session \<Rightarrow> bool \<times> rtc_session" where
  "media_frame F f len now s =
     (let s = (if needs_key (rs_view s) \<and> \<not> fm_key f then s\<lparr>rs_waiting_key := True\<rparr> else s) in
      if rs_waiting_key s \<and> \<not> fm_key f then (False, s)
      else
        (case pace_admit F len (fm_key f) now (rs_pace s) of
           (ok, p) \<Rightarrow>
             (let s = s\<lparr>rs_pace := p\<rparr> in
              if \<not> ok then (False, s\<lparr>rs_waiting_key := True, rs_view := request_keyframe (rs_view s)\<rparr>)
              else (True, s\<lparr>rs_waiting_key := False\<rparr>))))"

text \<open>A new estimate of the link, with the readings of the clock it takes.\<close>

definition new_estimate :: "floats \<Rightarrow> u64 \<Rightarrow> nat \<Rightarrow> nat \<Rightarrow> nat \<Rightarrow> rtc_session \<Rightarrow> rtc_session" where
  "new_estimate F b now t1 t2 s =
     (case steady_estimate b now (rs_steady s) of
        (rate, st) \<Rightarrow> rx (RxDesired (desired b))
          (s\<lparr>rs_estimate := b, rs_steady := st, rs_view := offer_bitrate F t1 t2 (encode_rate F rate) (rs_view s), rs_pace := set_rate F rate (rs_pace s)\<rparr>))"

definition new_loss :: "floats \<Rightarrow> rat \<Rightarrow> nat \<Rightarrow> nat \<Rightarrow> nat \<Rightarrow> nat \<Rightarrow> rtc_session \<Rightarrow> rtc_session" where
  "new_loss F l now now' t1 t2 s =
     (let s = s\<lparr>rs_steady := steady_loss F l (rs_estimate s) now (rs_steady s)\<rparr> in
      if fl32 F STEADY_LOSS \<le> l then
        (case steady_estimate (rs_estimate s) now' (rs_steady s) of
           (rate, st) \<Rightarrow> s\<lparr>rs_steady := st, rs_view := link_lost F t1 t2 (encode_rate F rate) (rs_view s), rs_pace := set_rate F rate (rs_pace s)\<rparr>)
      else s)"

text \<open>One turn of the loop: what the other threads did to the flags, whether the stop flag is set, the clock, what str0m gives, and the message that
  comes when there is nothing to do for it.\<close>

record rtc_turn =
  rt_others :: "viewer_state \<Rightarrow> viewer_state"
  rt_stop :: bool
  rt_elapsed :: nat
  rt_poll :: rtc_poll
  rt_now :: nat
  rt_now2 :: nat
  rt_hold :: "nat \<times> nat"
  rt_msg :: rtc_message
  rt_stats :: "nat \<times> nat"

definition take_poll :: "floats \<Rightarrow> rtc_turn \<Rightarrow> rtc_session \<Rightarrow> end_reason option \<times> rtc_session" where
  "take_poll F t s =
     (case rt_poll t of
        RpConnected \<Rightarrow> (None, rx (RxDesired (desired START_BPS)) (s\<lparr>rs_connected := True, rs_view := joined (rs_view s)\<rparr>))
      | RpDisconnected \<Rightarrow> (Some EndDisconnected, s)
      | RpVideo found \<Rightarrow> if found then (None, s\<lparr>rs_video := True\<rparr>) else (Some (EndFailed ''no H.264 baseline in the offer''), s)
      | RpAudio found \<Rightarrow> (None, s\<lparr>rs_audio := found\<rparr>)
      | RpKeyframe \<Rightarrow> (None, s\<lparr>rs_view := browser_wants_keyframe (rs_view s)\<rparr>)
      | RpLoss (Some l) \<Rightarrow> (None, new_loss F l (rt_now t) (rt_now2 t) (fst (rt_hold t)) (snd (rt_hold t)) s)
      | RpEstimate b \<Rightarrow> (None, new_estimate F b (rt_now t) (fst (rt_hold t)) (snd (rt_hold t)) s)
      | RpFailed e \<Rightarrow> (Some (EndFailed e), s)
      | _ \<Rightarrow> (None, s))"

definition tell_rate :: "rtc_turn \<Rightarrow> rtc_session \<Rightarrow> rtc_session" where
  "tell_rate t s =
     (if 1000 * MS \<le> fst (rt_stats t) - rs_stats_at s then rx (RxStats (rs_sent s)) (s\<lparr>rs_sent := 0, rs_stats_at := snd (rt_stats t)\<rparr>) else s)"

definition take_message :: "floats \<Rightarrow> rtc_turn \<Rightarrow> rtc_session \<Rightarrow> end_reason option \<times> rtc_session" where
  "take_message F t s =
     (case rt_msg t of
        RmTimeout \<Rightarrow> (None, s)
      | RmGone \<Rightarrow> (Some EndPipelineGone, s)
      | RmUdp ok \<Rightarrow> (None, if ok then tell_rate t s else s)
      | RmSound w \<Rightarrow>
          if \<not> (rs_audio s \<and> rs_connected s) then (None, s)
          else (case w of WrNone \<Rightarrow> (None, s) | WrOk \<Rightarrow> (None, tell_rate t (rx RxSound s)) | WrFail e \<Rightarrow> (Some (EndFailed e), s))
      | RmFrame f len w \<Rightarrow>
          if \<not> (rs_video s \<and> rs_connected s) then (None, rx (RxUnready f) s)
          else
            (case media_frame F f len (rt_now t) s of
               (go, s) \<Rightarrow>
                 if \<not> go then (None, rx (RxHeld f) s)
                 else (case w of
                     WrNone \<Rightarrow> (None, rx (RxNoWriter f) s)
                   | WrOk \<Rightarrow> (None, tell_rate t (rx (RxWrote f) (s\<lparr>rs_sent := rs_sent s + 1\<rparr>)))
                   | WrFail e \<Rightarrow> (Some (EndFailed e), s))))"

definition rtc_turn_step :: "floats \<Rightarrow> nat \<Rightarrow> rtc_turn \<Rightarrow> rtc_session \<Rightarrow> end_reason option \<times> rtc_session" where
  "rtc_turn_step F started t s =
     (let s = s\<lparr>rs_view := rt_others t (rs_view s)\<rparr> in
      if rt_stop t then (Some EndStopped, s)
      else if \<not> rs_connected s \<and> CONNECT_DEADLINE < rt_elapsed t - started then (Some EndNeverConnected, s)
      else (case rt_poll t of RpTimeout \<Rightarrow> take_message F t s | _ \<Rightarrow> take_poll F t s))"

fun rtc_run :: "floats \<Rightarrow> nat \<Rightarrow> rtc_turn list \<Rightarrow> rtc_session \<Rightarrow> end_reason option \<times> rtc_session" where
  "rtc_run F started [] s = (None, s)"
| "rtc_run F started (t # ts) s =
     (case rtc_turn_step F started t s of (Some e, s') \<Rightarrow> (Some e, s') | (None, s') \<Rightarrow> rtc_run F started ts s')"

subsection \<open>Definitions: from the pipeline to the browser\<close>

text \<open>The thread that moves a frame to the session's channel, which the packets of the network and the sound share: there is room for it or not.\<close>

definition forward_frame :: "bool \<Rightarrow> frame \<Rightarrow> frame list \<times> viewer_state \<Rightarrow> frame list \<times> viewer_state" where
  "forward_frame room f qv = (case qv of (q, v) \<Rightarrow> if room then (q @ [f], v) else (q, request_keyframe v))"

definition VIEWER_ROOM :: nat where "VIEWER_ROOM = 8"

text \<open>One viewer with both channels, its session and what was written.\<close>

record chain =
  ca_view :: viewer
  ca_seq :: "lane_id \<Rightarrow> nat"
  ca_first :: "frame list"
  ca_second :: "frame list"
  ca_sess :: rtc_session
  ca_written :: "frame list"

definition chain_new :: "floats \<Rightarrow> chain" where
  "chain_new F = \<lparr>ca_view = \<lparr>vw_id = 1, vw_state = viewer_new, vw_got = []\<rparr>, ca_seq = (\<lambda>_. 0), ca_first = [], ca_second = [],
     ca_sess = rtc_new F 0 viewer_new, ca_written = []\<rparr>"

text \<open>What can happen next: an operation on the flags, a frame of some lane, a frame that is forwarded (or is not, for want of room), one that
  reaches the session, and what makes the session ready.\<close>

datatype chain_op = ChAct "viewer_state \<Rightarrow> viewer_state" | ChMade lane_id bool | ChForward bool | ChMedia nat nat | ChConnect | ChVideo

definition on_flags :: "(viewer_state \<Rightarrow> viewer_state) \<Rightarrow> chain \<Rightarrow> chain" where
  "on_flags f c = c\<lparr>ca_view := (ca_view c)\<lparr>vw_state := f (vw_state (ca_view c))\<rparr>\<rparr>"

definition chain_made :: "lane_id \<Rightarrow> bool \<Rightarrow> chain \<Rightarrow> chain" where
  "chain_made l key c =
     (let f = \<lparr>fm_lane = l, fm_key = key, fm_seq = Suc (ca_seq c l)\<rparr>; v = ca_view c;
          v' = the (take_frame f (if length (ca_first c) < VIEWER_ROOM then Sent else ChannelFull) v)
      in c\<lparr>ca_view := v', ca_seq := (ca_seq c)(l := Suc (ca_seq c l)), ca_first := ca_first c @ drop (length (vw_got v)) (vw_got v')\<rparr>)"

definition chain_media :: "floats \<Rightarrow> nat \<Rightarrow> nat \<Rightarrow> frame \<Rightarrow> chain \<Rightarrow> bool \<times> rtc_session" where
  "chain_media F len now f c = media_frame F f len now ((ca_sess c)\<lparr>rs_view := vw_state (ca_view c)\<rparr>)"

fun chain_do :: "floats \<Rightarrow> chain_op \<Rightarrow> chain \<Rightarrow> chain" where
  "chain_do F (ChAct f) c = on_flags f c"
| "chain_do F (ChMade l key) c = chain_made l key c"
| "chain_do F (ChForward room) c =
     (case ca_first c of
        [] \<Rightarrow> c
      | f # fs \<Rightarrow> (case forward_frame room f (ca_second c, vw_state (ca_view c)) of
          (q, v) \<Rightarrow> on_flags (\<lambda>_. v) (c\<lparr>ca_first := fs, ca_second := q\<rparr>)))"
| "chain_do F (ChMedia len now) c =
     (case ca_second c of
        [] \<Rightarrow> c
      | f # fs \<Rightarrow>
          if \<not> (rs_video (ca_sess c) \<and> rs_connected (ca_sess c)) then c\<lparr>ca_second := fs\<rparr>
          else (case chain_media F len now f c of
              (go, s) \<Rightarrow> on_flags (\<lambda>_. rs_view s) (c\<lparr>ca_second := fs, ca_sess := s, ca_written := ca_written c @ (if go then [f] else [])\<rparr>)))"
| "chain_do F ChConnect c = on_flags joined (c\<lparr>ca_sess := (ca_sess c)\<lparr>rs_connected := True\<rparr>\<rparr>)"
| "chain_do F ChVideo c = c\<lparr>ca_sess := (ca_sess c)\<lparr>rs_video := True\<rparr>\<rparr>"

subsection \<open>Gaps\<close>

definition follows :: "frame \<Rightarrow> frame \<Rightarrow> bool" where
  "follows f g \<longleftrightarrow> fm_key g \<or> fm_lane g = fm_lane f \<and> fm_seq g = Suc (fm_seq f)"

text \<open>Each gap has a keyframe behind it, or one is asked for.\<close>

fun mended :: "bool \<Rightarrow> frame list \<Rightarrow> bool" where
  "mended need (f # g # gs) \<longleftrightarrow> (follows f g \<or> need \<or> list_ex fm_key gs) \<and> mended need (g # gs)"
| "mended need _ \<longleftrightarrow> True"

lemma mended_tl: "mended n (x # xs) \<Longrightarrow> mended n xs"
  by (cases xs) simp_all

lemma mended_drop: "mended n (xs @ ys) \<Longrightarrow> mended n ys"
  by (induction xs) (auto dest: mended_tl)

lemma mended_need: "mended True xs"
  by (induction "True" xs rule: mended.induct) simp_all

lemma mended_key: "fm_key k \<Longrightarrow> mended n (xs @ [k])"
proof (induction xs)
  case (Cons x xs)
  then show ?case by (cases xs) (simp_all add: follows_def)
qed simp

lemma mended_snoc: "mended n xs \<Longrightarrow> xs = [] \<or> follows (last xs) f \<Longrightarrow> mended n (xs @ [f])"
  by (induction n xs rule: mended.induct) auto

text \<open>What is on its way, after the last frame that was written.\<close>

definition on_way :: "chain \<Rightarrow> frame list" where
  "on_way c = (if rs_waiting_key (ca_sess c) then [] else [last (ca_written c)]) @ ca_second c @ ca_first c"

definition need :: "chain \<Rightarrow> bool" where
  "need c = vs_need_key (vw_state (ca_view c))"

definition chain_inv :: "chain \<Rightarrow> bool" where
  "chain_inv c \<longleftrightarrow>
     in_step (ca_seq c) (vw_state (ca_view c)) (vw_got (ca_view c)) \<and> 
     (\<not> rs_waiting_key (ca_sess c) \<longrightarrow> ca_written c \<noteq> [] \<and> rs_video (ca_sess c) \<and> rs_connected (ca_sess c)) \<and>
     (need c \<or> mended False (on_way c)) \<and> (\<not> need c \<and> on_way c \<noteq> [] \<longrightarrow> last (on_way c) = last (vw_got (ca_view c)))"

lemma chain_inv_new: "chain_inv (chain_new F)"
  by (simp add: chain_inv_def chain_new_def rtc_new_def need_def in_step_def decodable_def viewer_new_def)

lemma chain_inv_act:
  assumes "steady f" "chain_inv c"
  shows "chain_inv (on_flags f c)"
proof -
  have "need (on_flags f c) \<or> \<not> need c" using assms(1) by (auto simp: steady_def need_def on_flags_def)
  moreover have "on_way (on_flags f c) = on_way c" by (simp add: on_way_def on_flags_def)
  ultimately show ?thesis using assms steady_in_step [OF assms(1)] by (auto simp: chain_inv_def on_flags_def need_def)
qed

lemma take_sends:
  assumes "in_step q (vw_state v) (vw_got v)" and "take_frame f r v = Some v'" and "fm_seq f = Suc (q (fm_lane f))"
  shows "vw_got v' = vw_got v \<and> (vs_need_key (vw_state v') \<or> \<not> vs_need_key (vw_state v)) \<or>
    vw_got v' = vw_got v @ [f] \<and> (fm_key f \<or> \<not> vs_need_key (vw_state v) \<and> \<not> vs_need_key (vw_state v') \<and> follows (last (vw_got v)) f)"
  using assms by (auto simp: take_frame_def in_step_def follows_def Let_def split: if_splits try_send.splits)

lemma take_some: "r \<noteq> ChannelGone \<Longrightarrow> \<exists>v'. take_frame f r v = Some v'"
  by (cases r) (auto simp: take_frame_def Let_def)

lemma chain_inv_made:
  assumes inv: "chain_inv c"
  shows "chain_inv (chain_made l key c)"
proof -
  let ?f = "\<lparr>fm_lane = l, fm_key = key, fm_seq = Suc (ca_seq c l)\<rparr>" and ?v = "ca_view c"
  let ?r = "if length (ca_first c) < VIEWER_ROOM then Sent else ChannelFull"
  have "?r \<noteq> ChannelGone" by simp
  then obtain v' where v': "take_frame ?f ?r ?v = Some v'" using take_some by blast
  have step: "in_step (ca_seq c) (vw_state ?v) (vw_got ?v)" using inv by (simp add: chain_inv_def)
  have keep: "in_step ((ca_seq c)(l := Suc (ca_seq c l))) (vw_state v') (vw_got v')"
    using in_step_frame [OF step v'] by simp
  have made: "chain_made l key c = c\<lparr>ca_view := v', ca_seq := (ca_seq c)(l := Suc (ca_seq c l)), ca_first := ca_first c @ drop (length (vw_got ?v)) (vw_got v')\<rparr>"
    unfolding chain_made_def Let_def using v' by simp
  have "fm_seq ?f = Suc (ca_seq c (fm_lane ?f))" by simp
  from take_sends [OF step v' this] show ?thesis
  proof
    assume "vw_got v' = vw_got ?v \<and> (vs_need_key (vw_state v') \<or> \<not> vs_need_key (vw_state ?v))"
    then show ?thesis using inv keep unfolding made chain_inv_def need_def on_way_def by auto
  next
    assume got: "vw_got v' = vw_got ?v @ [?f] \<and>
      (fm_key ?f \<or> \<not> vs_need_key (vw_state ?v) \<and> \<not> vs_need_key (vw_state v') \<and> follows (last (vw_got ?v)) ?f)"
    have way: "on_way (chain_made l key c) = on_way c @ [?f]" using got unfolding made on_way_def by simp
    have "mended False (on_way c @ [?f])"
    proof (cases "fm_key ?f")
      case True
      then show ?thesis by (rule mended_key)
    next
      case False
      then show ?thesis using got inv by (auto simp: chain_inv_def need_def intro!: mended_snoc)
    qed
    then show ?thesis using got keep inv way unfolding chain_inv_def by (simp add: made)
  qed
qed

lemma chain_inv_forward:
  assumes inv: "chain_inv c"
  shows "chain_inv (chain_do F (ChForward room) c)"
proof (cases "ca_first c")
  case (Cons f fs)
  show ?thesis
  proof (cases room)
    case True
    then have "on_way (chain_do F (ChForward room) c) = on_way c" by (simp add: Cons forward_frame_def on_way_def on_flags_def)
    then show ?thesis using inv True by (simp add: chain_inv_def Cons forward_frame_def on_flags_def need_def)
  next
    case False
    let ?c = "c\<lparr>ca_first := fs\<rparr>"
    have "chain_do F (ChForward room) c = on_flags request_keyframe ?c" using False by (simp add: Cons forward_frame_def on_flags_def)
    then show ?thesis using inv steady_in_step [OF steady_simple(1)]
      by (auto simp: chain_inv_def on_flags_def need_def request_keyframe_def on_way_def)
  qed
qed (use inv in simp)

text \<open>What the session does with a frame, whatever the pace says.\<close>

lemma media_go:
  assumes "media_frame F f len now s = (True, s')"
  shows "\<not> rs_waiting_key s'" "rs_view s' = rs_view s" "fm_key f \<or> \<not> rs_waiting_key s \<and> \<not> needs_key (rs_view s)"
  using assms by (auto simp: media_frame_def Let_def pace_admit_def split: if_splits)

lemma media_stop:
  assumes "media_frame F f len now s = (False, s')"
  shows "rs_waiting_key s'" "rs_view s' = rs_view s \<or> rs_view s' = request_keyframe (rs_view s)" "\<not> fm_key f"
  using assms by (auto simp: media_frame_def Let_def pace_admit_def split: if_splits)

lemma media_ready:
  assumes "media_frame F f len now s = (go, s')"
  shows "rs_video s' = rs_video s \<and> rs_connected s' = rs_connected s"
  using assms by (auto simp: media_frame_def Let_def pace_admit_def split: if_splits)

lemma chain_inv_media:
  assumes inv: "chain_inv c"
  shows "chain_inv (chain_do F (ChMedia len now) c)"
proof (cases "ca_second c")
  case (Cons f fs)
  let ?v = "vw_state (ca_view c)"
  obtain go s where m: "chain_media F len now f c = (go, s)" by fastforce
  note media = m [unfolded chain_media_def]
  obtain xs where way: "on_way c = xs @ f # fs @ ca_first c" by (simp add: on_way_def Cons)
  have tl: "mended False (f # fs @ ca_first c)" "mended False (fs @ ca_first c)" if "mended False (on_way c)"
    using mended_drop [of False xs] mended_tl that unfolding way by blast+
  have last: "on_way c \<noteq> []" "last (on_way c) = last (f # fs @ ca_first c)" using way by auto
  show ?thesis
  proof (cases "rs_video (ca_sess c) \<and> rs_connected (ca_sess c)")
    case False
    then have "rs_waiting_key (ca_sess c)" using inv by (auto simp: chain_inv_def)
    then show ?thesis using False inv tl last by (auto simp: chain_inv_def Cons on_way_def need_def)
  next
    case ready: True
    show ?thesis
    proof (cases go)
      case True
      have "chain_media F len now f c = (True, s)" using m True by simp
      note g = media_go [OF this [unfolded chain_media_def]]
      let ?c = "on_flags (\<lambda>_. rs_view s) (c\<lparr>ca_second := fs, ca_sess := s, ca_written := ca_written c @ [f]\<rparr>)"
      have "chain_do F (ChMedia len now) c = ?c" using ready m True by (simp add: Cons)
      moreover have "on_way ?c = f # fs @ ca_first c" "need ?c = need c"
        using g by (simp_all add: on_way_def on_flags_def need_def)
      ultimately show ?thesis using inv tl last media_ready [OF media] ready g by (auto simp: chain_inv_def on_flags_def)
    next
      case False
      have "chain_media F len now f c = (False, s)" using m False by simp
      note g = media_stop [OF this [unfolded chain_media_def]]
      let ?c = "on_flags (\<lambda>_. rs_view s) (c\<lparr>ca_second := fs, ca_sess := s\<rparr>)"
      have c: "chain_do F (ChMedia len now) c = ?c" using ready m False by (simp add: Cons)
      have way': "on_way ?c = fs @ ca_first c" using g(1) by (simp add: on_way_def on_flags_def)
      have "rs_view s = ?v \<or> rs_view s = request_keyframe ?v" using g(2) by simp
      then show ?thesis
      proof
        assume "rs_view s = ?v"
        then have "need ?c = need c" "in_step (ca_seq c) (rs_view s) (vw_got (ca_view c))" using inv by (simp_all add: need_def on_flags_def chain_inv_def)
        then show ?thesis using inv tl last g(1) unfolding c chain_inv_def way' by (auto simp: on_flags_def)
      next
        assume r: "rs_view s = request_keyframe ?v"
        then have "need ?c" by (simp add: need_def on_flags_def request_keyframe_def)
        moreover have "in_step (ca_seq c) (rs_view s) (vw_got (ca_view c))"
          using inv steady_in_step [OF steady_simple(1)] by (simp add: chain_inv_def r)
        ultimately show ?thesis using g(1) unfolding c chain_inv_def by (simp add: on_flags_def)
      qed
    qed
  qed
qed (use inv in simp)

lemma chain_inv_do:
  assumes "chain_inv c" and "case e of ChAct f \<Rightarrow> steady f | _ \<Rightarrow> True"
  shows "chain_inv (chain_do F e c)"
proof (cases e)
  case ChConnect
  have "chain_inv (on_flags joined c)" using assms(1) by (rule chain_inv_act [OF steady_simple(3)])
  then show ?thesis by (auto simp: ChConnect chain_inv_def on_flags_def on_way_def need_def)
next
  case ChVideo
  then show ?thesis using assms(1) by (auto simp: chain_inv_def on_way_def need_def)
qed (use assms chain_inv_act chain_inv_made chain_inv_forward chain_inv_media in \<open>auto simp del: chain_do.simps(3,4)\<close>)

lemma chain_inv_run:
  assumes "chain_inv c" and "\<forall>f. ChAct f \<in> set es \<longrightarrow> steady f"
  shows "chain_inv (fold (chain_do F) es c)"
  using assms
proof (induction es arbitrary: c)
  case (Cons e es)
  then show ?case using chain_inv_do [of c e F] by (auto split: chain_op.splits)
qed simp


text \<open>A frame is lost on its way to the session, the one behind it is not, and the keyframe that was asked for is already there when the session reads it.\<close>

definition demo_ops :: "chain_op list" where
  "demo_ops = [ChConnect, ChVideo, ChMade (MAIN, HALF) True, ChForward True, ChMedia 100 0, ChMade (MAIN, HALF) False, ChMade (MAIN, HALF) False,
     ChForward False, ChForward True, ChMade (MAIN, HALF) True]"

abbreviation demo_frame :: "bool \<Rightarrow> nat \<Rightarrow> frame" where
  "demo_frame key n \<equiv> \<lparr>fm_lane = (MAIN, HALF), fm_key = key, fm_seq = n\<rparr>"

lemma demo_chain:
  defines "c \<equiv> fold (chain_do exact_floats) demo_ops (chain_new exact_floats)"
  shows "ca_second c = [demo_frame False 3]" and "ca_first c = [demo_frame True 4]" and "ca_written c = [demo_frame True 1]"
    and "fst (chain_media exact_floats 100 0 (demo_frame False 3) c)"
  by (simp_all add: c_def demo_ops_def chain_new_def rtc_new_def viewer_new_def on_flags_def chain_made_def chain_media_def media_frame_def pace_admit_def
      pace_new_def exact_floats_def take_frame_def forward_frame_def joined_def restart_def request_keyframe_def needs_key_def lane_of_def viewer_tier_def
      HALF_def TIERS_def VIEWER_ROOM_def as_secs_def BURST_S_def Let_def)


subsection \<open>The session alone\<close>

text \<open>The frames of a session in the order it took them.\<close>

fun sight :: "rtc_event \<Rightarrow> bool option" where
  "sight (RxWrote f) = Some True" | "sight (RxNoWriter f) = Some True" | "sight (RxHeld f) = Some False" | "sight (RxUnready f) = Some False"
| "sight _ = None"

text \<open>Whether a frame that is no keyframe may be written after this much of the log.\<close>

definition flowing :: "rtc_event list \<Rightarrow> bool" where
  "flowing es = (case List.map_filter sight es of [] \<Rightarrow> False | bs \<Rightarrow> last bs)"

definition flow_ok :: "rtc_event list \<Rightarrow> bool" where
  "flow_ok es \<longleftrightarrow> (\<forall>i < length es. case es ! i of RxWrote f \<Rightarrow> fm_key f \<or> flowing (take i es) | _ \<Rightarrow> True)"

lemma flowing_snoc: "flowing (es @ [e]) = (case sight e of Some b \<Rightarrow> b | None \<Rightarrow> flowing es)"
proof -
  have "List.map_filter sight (es @ [e]) = List.map_filter sight es @ (case sight e of Some b \<Rightarrow> [b] | None \<Rightarrow> [])"
    by (induction es) (simp_all add: List.map_filter_def split: option.split)
  moreover have "(case bs @ [b] of [] \<Rightarrow> False | cs \<Rightarrow> last cs) = b" for bs b by (cases bs) simp_all
  ultimately show ?thesis by (simp add: flowing_def split: option.split)
qed

lemma flow_ok_snoc: "flow_ok (es @ [e]) \<longleftrightarrow> flow_ok es \<and> (case e of RxWrote f \<Rightarrow> fm_key f \<or> flowing es | _ \<Rightarrow> True)"
  by (simp add: flow_ok_def All_less_Suc nth_append conj_commute cong: rtc_event.case_cong)

definition session_inv :: "rtc_session \<Rightarrow> bool" where
  "session_inv s \<longleftrightarrow> flow_ok (rs_log s) \<and> (rs_waiting_key s \<longleftrightarrow> \<not> flowing (rs_log s)) \<and>
     (rs_waiting_key s \<or> rs_video s \<and> rs_connected s)"

text \<open>An event that is no frame.\<close>

lemma session_inv_other: "session_inv s \<Longrightarrow> sight e = None \<Longrightarrow> session_inv (rx e s)"
  by (cases e) (auto simp: session_inv_def rx_def flow_ok_snoc flowing_snoc)

lemma session_inv_frame [simp]: "session_inv (s\<lparr>rs_sent := n\<rparr>) = session_inv s" "session_inv (s\<lparr>rs_stats_at := t\<rparr>) = session_inv s"
    "session_inv (s\<lparr>rs_view := v\<rparr>) = session_inv s" "session_inv (s\<lparr>rs_pace := p\<rparr>) = session_inv s" "session_inv (s\<lparr>rs_steady := st\<rparr>) = session_inv s"
    "session_inv (s\<lparr>rs_estimate := b\<rparr>) = session_inv s" "session_inv (s\<lparr>rs_audio := a\<rparr>) = session_inv s"
  by (simp_all add: session_inv_def)

lemma session_inv_ready: "session_inv s \<Longrightarrow> session_inv (s\<lparr>rs_video := True\<rparr>)" "session_inv s \<Longrightarrow> session_inv (s\<lparr>rs_connected := True\<rparr>)"
  by (auto simp: session_inv_def)

lemma session_inv_tell: "session_inv s \<Longrightarrow> session_inv (tell_rate t s)"
  by (simp add: tell_rate_def session_inv_other)

lemma session_inv_poll:
  assumes "session_inv s"
  shows "session_inv (snd (take_poll F t s))"
proof -
  have "session_inv (new_estimate F b n t1 t2 s)" for b n t1 t2
    using assms by (simp add: new_estimate_def session_inv_other split: prod.split)
  moreover have "session_inv (new_loss F l n n' t1 t2 s)" for l n n' t1 t2
    using assms by (simp add: new_loss_def Let_def split: prod.split)
  ultimately show ?thesis
    using assms by (auto simp: take_poll_def session_inv_other session_inv_ready split: rtc_poll.split option.split)
qed

lemma session_inv_media:
  assumes inv: "session_inv s" and m: "media_frame F f len now s = (go, s')" and ready: "rs_video s" "rs_connected s"
  shows "if go then session_inv (rx (RxWrote f) s') \<and> session_inv (rx (RxNoWriter f) s') else session_inv (rx (RxHeld f) s')"
proof -
  have log: "rs_log s' = rs_log s" "rs_video s' = rs_video s" "rs_connected s' = rs_connected s"
    using m by (auto simp: media_frame_def Let_def pace_admit_def split: if_splits)
  show ?thesis
  proof (cases go)
    case True
    then have "media_frame F f len now s = (True, s')" using m by simp
    from media_go [OF this] show ?thesis
      using inv ready log True by (auto simp: session_inv_def rx_def flow_ok_snoc flowing_snoc)
  next
    case False
    then have "media_frame F f len now s = (False, s')" using m by simp
    from media_stop [OF this] show ?thesis
      using inv ready log False by (auto simp: session_inv_def rx_def flow_ok_snoc flowing_snoc)
  qed
qed

text \<open>A turn that goes on.\<close>

lemma session_inv_message:
  assumes inv: "session_inv s" and "take_message F t s = (None, s')"
  shows "session_inv s'"
proof (cases "rt_msg t")
  case (RmFrame f len w)
  show ?thesis
  proof (cases "rs_video s \<and> rs_connected s")
    case False
    then have "s' = rx (RxUnready f) s" using assms(2) by (simp add: take_message_def RmFrame)
    then show ?thesis using inv False by (auto simp: session_inv_def rx_def flow_ok_snoc flowing_snoc)
  next
    case True
    obtain go s1 where m: "media_frame F f len (rt_now t) s = (go, s1)" by fastforce
    have sent: "session_inv (rx e (s1\<lparr>rs_sent := n\<rparr>)) = session_inv (rx e s1)" for e n by (simp add: session_inv_def rx_def)
    show ?thesis
      using session_inv_media [OF inv m] True assms(2)
      by (auto simp: take_message_def RmFrame m sent session_inv_tell split: if_splits writer.splits)
  qed
qed (use assms in \<open>auto simp: take_message_def session_inv_tell session_inv_other split: if_splits writer.splits\<close>)

text \<open>At its end a session keeps what it wrote.\<close>

lemma message_end_log: "take_message F t s = (Some e, s') \<Longrightarrow> rs_log s' = rs_log s"
  by (auto simp: take_message_def media_frame_def Let_def pace_admit_def split: rtc_message.splits if_splits writer.splits prod.splits)

lemma session_turn:
  assumes "session_inv s" and "rtc_turn_step F started t s = (r, s')"
  shows "if r = None then session_inv s' else flow_ok (rs_log s')"
proof -
  let ?s = "s\<lparr>rs_view := rt_others t (rs_view s)\<rparr>"
  have inv: "session_inv ?s" using assms(1) by simp
  then have ok: "flow_ok (rs_log ?s)" by (simp add: session_inv_def)
  have poll: "if r = None then session_inv s' else flow_ok (rs_log s')" if "take_poll F t ?s = (r, s')"
    using session_inv_poll [OF inv, of F t] that by (auto simp: session_inv_def)
  have msg: "if r = None then session_inv s' else flow_ok (rs_log s')" if "take_message F t ?s = (r, s')"
    using session_inv_message [OF inv] message_end_log ok that by (cases r) fastforce+
  show ?thesis
    using assms(2) inv ok poll msg unfolding rtc_turn_step_def Let_def by (auto split: if_splits rtc_poll.splits)
qed

text \<open>C39. A session never writes a frame that it had to skip to: among the frames that reach it, one that is no keyframe is written only right after
  one that was let through, so what it writes begins with a keyframe, and after a frame held back - for the pace, or because the picture is broken -
  nothing is written before the next keyframe, whatever the other threads do to the viewer's flags meanwhile.\<close>

theorem session_resumes_on_keyframe: "flow_ok (rs_log (snd (rtc_run F started ts (rtc_new F now v))))"
proof -
  have "flow_ok (rs_log (snd (rtc_run F started ts s)))" if "session_inv s" for s
    using that
  proof (induction ts arbitrary: s)
    case (Cons t ts)
    obtain r s' where t: "rtc_turn_step F started t s = (r, s')" by fastforce
    show ?case using session_turn [OF Cons.prems t] Cons.IH by (cases r) (simp_all add: t)
  qed (auto simp: session_inv_def)
  moreover have "session_inv (rtc_new F now v)"
    by (simp add: session_inv_def rtc_new_def flow_ok_def flowing_def List.map_filter_def)
  ultimately show ?thesis .
qed

subsection \<open>The rate for a link and the pace\<close>

lemma sat_double_ge: "b \<le> sat_double b"
proof (cases "2 ^ 64 \<le> unat b * 2")
  case False
  then have "unat (b * 2) = unat b * 2" by (simp add: unat_word_ariths)
  with False show ?thesis by (simp add: sat_double_def word_le_nat_alt)
qed (simp add: sat_double_def)

lemma steady_rate_bounds: "b \<le> steady_rate b s \<and> steady_rate b s \<le> sat_double b"
  using sat_double_ge [of b] by (auto simp: steady_rate_def Let_def)

text \<open>The picture is encoded for at least the current estimate of the link and at most twice that, and for no more than the best estimate of the last two and
  a half seconds; when packets are really being lost, for the current estimate at once.\<close>

theorem steady_rate_spec:
  assumes "sorted (map fst s)" and "\<forall>(t, b) \<in> set s. t \<le> now" and "steady_estimate bps now s = (rate, s')"
  shows "bps \<le> rate \<and> rate \<le> sat_double bps \<and>
    (\<exists>(t, b) \<in> insert (now, bps) (set s). now - t \<le> STEADY_HOLD \<and> rate \<le> b) \<and>
    (fl32 F STEADY_LOSS \<le> l \<longrightarrow> fst (steady_estimate bps now' (steady_loss F l bps now s)) = bps)"
proof -
  let ?q = "dropWhile (\<lambda>(t, _). STEADY_HOLD < now - t) (s @ [(now, bps)])"
  have r: "rate = steady_rate bps ?q" using assms(3) unfolding steady_estimate_def Let_def by (rule Pair_inject) (rule sym)
  have "(now, bps) \<in> set ?q" by (induction s) auto
  then have q: "?q \<noteq> []" "(now, bps) \<in> set ?q" by auto
  have recent: "now - t \<le> STEADY_HOLD" if "(t, b) \<in> set ?q" for t b
  proof -
    have "sorted (map fst (s @ [(now, bps)]))" using assms(1,2) by (auto simp: sorted_append)
    then have "sorted (map fst ?q)"
      by (metis dropWhile_eq_drop drop_map sorted_wrt_drop)
    moreover have "\<not> STEADY_HOLD < now - fst (hd ?q)" using hd_dropWhile [OF q(1)] by (simp add: case_prod_beta)
    moreover have "hd (map fst ?q) \<le> t" if "sorted (map fst ?q)"
      using that \<open>(t, b) \<in> set ?q\<close> by (cases ?q) force+
    ultimately show ?thesis using q(1) by (simp add: hd_map)
  qed
  have sub: "set ?q \<subseteq> insert (now, bps) (set s)" using set_dropWhileD by force
  have "\<exists>b \<in> snd ` set ?q. rate \<le> b"
  proof -
    have "steady_rate bps ?q = max (min (Max (snd ` set ?q)) (sat_double bps)) bps" using q(1) by (simp add: steady_rate_def Let_def split: list.split)
    moreover have "max (min m d) b \<le> max b m" for m d b :: u64 by (auto simp: max_def min_def)
    ultimately have "rate \<le> max bps (Max (snd ` set ?q))" by (metis r)
    moreover have "bps \<le> Max (snd ` set ?q)" using q(2) by (intro Max_ge) force+
    moreover have "Max (snd ` set ?q) \<in> snd ` set ?q" using q(1) by (intro Max_in) simp_all
    ultimately show ?thesis by (fastforce simp: max_def split: if_splits)
  qed
  then obtain u b where "(u, b) \<in> set ?q" "rate \<le> b" by auto
  then have "\<exists>(t, b) \<in> insert (now, bps) (set s). now - t \<le> STEADY_HOLD \<and> rate \<le> b" using recent sub by blast
  moreover have "fst (steady_estimate bps now' [(now, bps)]) = bps"
    using sat_double_ge [of bps] by (simp add: steady_estimate_def Let_def steady_rate_def max_def min_def)
  ultimately show ?thesis
    using steady_rate_bounds [of bps ?q] unfolding r [symmetric] by (simp add: steady_loss_def)
qed

text \<open>An estimate that falls to a tenth is followed to a fifth, and at once when packets are lost.\<close>

theorem steady_rate_spec_witness:
  "fst (steady_estimate 1000000 (2000 * MS) [(0, 10000000)]) = (2000000 :: u64) \<and>
   fst (steady_estimate 1000000 (2000 * MS) (steady_loss exact_floats (1 / 10) 1000000 (2000 * MS) [(0, 10000000)])) = 1000000"
proof -
  have a: "sorted (map fst [(0 :: nat, 10000000 :: u64)])" "\<forall>(t, b) \<in> set [(0 :: nat, 10000000 :: u64)]. t \<le> 2000 * MS" by simp_all
  have "steady_estimate 1000000 (2000 * MS) [(0, 10000000)] = (2000000, [(0, 10000000), (2000 * MS, 1000000)])"
    by (simp add: steady_estimate_def steady_rate_def sat_double_def STEADY_HOLD_def MS_def Let_def)
  from steady_rate_spec [OF a this, of exact_floats "1 / 10" "2000 * MS"] this
  show ?thesis by (simp add: exact_floats_def STEADY_LOSS_def)
qed

text \<open>Frames through the pace, with what was let through before each.\<close>

fun pace_run :: "floats \<Rightarrow> (nat \<times> bool \<times> nat) list \<Rightarrow> pace \<Rightarrow> (nat \<times> bool) list \<times> pace" where
  "pace_run F [] p = ([], p)"
| "pace_run F ((len, key, now) # fs) p =
     (case pace_admit F len key now p of
        (ok, p') \<Rightarrow> (case pace_run F fs p' of (rs, q) \<Rightarrow> ((len, ok) # rs, q)))"

definition let_through :: "(nat \<times> bool) list \<Rightarrow> nat" where
  "let_through rs = sum_list (map fst (filter snd rs))"

definition secs :: "nat \<Rightarrow> rat" where
  "secs d = of_nat d / of_nat (1000 * MS)"

lemma secs_add: "secs (a + b) = secs a + secs b"
  by (simp add: secs_def add_divide_distrib)

lemma exact_simps [simp]: "fl exact_floats x = x" "fl32 exact_floats x = x"
  by (simp_all add: exact_floats_def)

lemma as_secs_exact [simp]: "as_secs exact_floats d = secs d"
proof -
  have "(of_nat d :: rat) = of_nat (d div (1000 * MS)) * of_nat (1000 * MS) + of_nat (d mod (1000 * MS))"
    by (metis of_nat_add of_nat_mult div_mult_mod_eq)
  then show ?thesis by (simp add: as_secs_def secs_def MS_def field_simps)
qed

text \<open>What is in hand and what went never exceed half a second and the time that passed.\<close>

lemma pace_admit_exact:
  assumes p: "pace_admit exact_floats len key now p = (ok, p')"
  shows "pc_at p' = now" "pc_bps p' = pc_bps p"
    "pc_tokens p' + (if ok then of_nat len else 0) \<le> pc_tokens p + pc_bps p / 8 * secs (now - pc_at p)"
    "ok \<Longrightarrow> \<not> key \<Longrightarrow> - (pc_bps p / 8) \<le> pc_tokens p' + of_nat len"
  using p by (auto simp: pace_admit_def Let_def split: if_splits)

lemma pace_run_exact:
  assumes "pace_run exact_floats fs p = (rs, q)" and "sorted (pc_at p # map (snd \<circ> snd) fs @ [T])"
  shows "pc_bps q = pc_bps p \<and> pc_at p \<le> pc_at q \<and> pc_at q \<le> T \<and>
    pc_tokens q + of_nat (let_through rs) \<le> pc_tokens p + pc_bps p / 8 * secs (pc_at q - pc_at p)"
  using assms
proof (induction fs arbitrary: p rs)
  case (Cons f fs)
  obtain len key now where f: "f = (len, key, now)" by (cases f) auto
  obtain ok p' where a: "pace_admit exact_floats len key now p = (ok, p')" by fastforce
  obtain rs' where r: "pace_run exact_floats fs p' = (rs', q)" "rs = (len, ok) # rs'"
    using Cons.prems(1) by (auto simp: f a split: prod.splits)
  have now: "pc_at p \<le> now" using Cons.prems(2) by (simp add: f)
  note one = pace_admit_exact [OF a]
  have rest: "pc_bps q = pc_bps p" "now \<le> pc_at q" "pc_at q \<le> T"
    "pc_tokens q + of_nat (let_through rs') \<le> pc_tokens p' + pc_bps p / 8 * secs (pc_at q - now)"
    using Cons.IH [OF r(1)] Cons.prems(2) one(1,2) by (simp_all add: f)
  have "secs (pc_at q - pc_at p) = secs (pc_at q - now) + secs (now - pc_at p)"
    using now rest(2) by (simp flip: secs_add)
  then have "pc_bps p / 8 * secs (pc_at q - pc_at p) = pc_bps p / 8 * secs (pc_at q - now) + pc_bps p / 8 * secs (now - pc_at p)"
    by (simp add: distrib_left)
  then show ?case using one(3) rest now r(2) by (auto simp: let_through_def add_divide_distrib)
qed (simp add: let_through_def secs_def)



end
