(* ===== verification/Stream_Turn.thy ===== *)
theory Stream_Turn
  imports Stream_Lanes
begin

section \<open>Capturing and encoding a display (crates/hidfi-stream/src/pipeline.rs, \<open>run\<close> and \<open>run_display\<close>)\<close>

text \<open>
  One worker for each display that somebody watches: a turn of its loop looks who watches what, captures a picture, encodes it for each size that is due,
  hands out the frames and, once a second, tells the viewers what full size costs.  The capture and the encoders are a script: whether one could be
  made, the size of the picture, what the encoder gave.  The other threads change the viewers whenever the lock is free, so each time it is taken
  begins with what they did.  A viewer's flags are read at one moment.  The pictures themselves and the lines of the log are left out.
\<close>

subsection \<open>Definitions: the script of a turn\<close>

datatype encoded = EncFrame bool nat | EncDropped | EncError string

record picture =
  pi_frame :: "(u32 \<times> u32) option"
  pi_result :: "string + bool"

record turn_script =
  tn_others :: "(pipeline \<Rightarrow> pipeline) list"
  tn_stop :: bool
  tn_now :: nat
  tn_source :: "string option"
  tn_grab :: picture
  tn_make :: "nat \<Rightarrow> string option"
  tn_encode :: "nat \<Rightarrow> encoded"
  tn_sent_at :: "nat \<Rightarrow> nat"
  tn_sends :: "nat \<Rightarrow> nat \<Rightarrow> try_send"
  tn_need_now :: "nat \<times> nat \<times> nat"

text \<open>What a worker keeps, with the calls of its encoders: the size of the picture, whether the encoder is new, and whether a keyframe is asked for.\<close>

record encode_call =
  ec_tier :: nat
  ec_new :: bool
  ec_key :: bool
  ec_at :: nat

record encode_worker =
  wk_pipe :: pipeline
  wk_others :: "(pipeline \<Rightarrow> pipeline) list"
  wk_capture :: "nat option"
  wk_lanes :: "nat \<rightharpoonup> lane"
  wk_seq :: "lane_id \<Rightarrow> nat"
  wk_need :: u32
  wk_need_at :: nat
  wk_calls :: "encode_call list"

text \<open>Taking the lock: the others' work comes first.\<close>

definition lock :: "encode_worker \<Rightarrow> encode_worker" where
  "lock w = (case wk_others w of [] \<Rightarrow> w | g # gs \<Rightarrow> w\<lparr>wk_pipe := g (wk_pipe w), wk_others := gs\<rparr>)"

definition on_pipe :: "(pipeline \<Rightarrow> pipeline) \<Rightarrow> encode_worker \<Rightarrow> encode_worker" where
  "on_pipe f w = (let w = lock w in w\<lparr>wk_pipe := f (wk_pipe w)\<rparr>)"

definition watching :: "u32 \<Rightarrow> pipeline \<Rightarrow> viewer_state list" where
  "watching d p = filter (\<lambda>v. vs_display v = d) (map vw_state (pl_viewers p))"

definition rates_of :: "u32 \<Rightarrow> viewer_state list \<Rightarrow> (lane_id \<rightharpoonup> u32)" where
  "rates_of initial vs = lane_rates initial (map (\<lambda>v. (lane_of v, vs_est v)) vs)"

definition lane_get :: "nat \<Rightarrow> encode_worker \<Rightarrow> lane" where
  "lane_get t w = (case wk_lanes w t of Some l \<Rightarrow> l | None \<Rightarrow> lane_default)"

definition lane_put :: "nat \<Rightarrow> lane \<Rightarrow> encode_worker \<Rightarrow> encode_worker" where
  "lane_put t l w = w\<lparr>wk_lanes := (wk_lanes w)(t \<mapsto> l)\<rparr>"

subsection \<open>Definitions: one picture\<close>

text \<open>The size of the picture for each size of stream: each half of the one before, and even.\<close>

definition even_size :: "u32 \<times> u32 \<Rightarrow> u32 \<times> u32" where
  "even_size wh = (case wh of (a, b) \<Rightarrow> (Bit_Operations.and a (not 1), Bit_Operations.and b (not 1)))"

definition tier_size :: "nat \<Rightarrow> u32 \<times> u32 \<Rightarrow> u32 \<times> u32" where
  "tier_size t wh = (case wh of (a, b) \<Rightarrow> if t = FULL then (a, b) else if t = HALF then (a div 2, b div 2) else (a div 2 div 2, b div 2 div 2))"

definition far_off :: "u32 \<Rightarrow> u32 \<Rightarrow> bool" where
  "far_off b a \<longleftrightarrow> a div 10 < (if a \<le> b then b - a else a - b)"

text \<open>One size of one picture: the lane after it, what went wrong, what came out, and the call of the encoder.\<close>

definition encode_tier :: "floats \<Rightarrow> nat \<Rightarrow> turn_script \<Rightarrow> nat \<Rightarrow> u32 \<times> u32 \<Rightarrow> u32 \<Rightarrow> bool \<Rightarrow> lane \<Rightarrow>
    lane \<times> string option \<times> (bool \<times> nat) option \<times> encode_call list" where
  "encode_tier F fps S t wh rate force l =
     (let bps = clamp_bps rate; l = lane_step fps (tn_now S) rate l; size = even_size (tier_size t wh);
          fresh = (ln_enc l \<noteq> Some size)
      in
        case (if fresh then tn_make S t else None) of
          Some e \<Rightarrow> (l\<lparr>ln_enc := None\<rparr>, Some e, None, [])
        | None \<Rightarrow>
            (let key = (force \<or> fresh); l = (if fresh then l\<lparr>ln_enc := Some size, ln_applied := bps\<rparr> else l);
                 l = (if far_off bps (ln_applied l) then l\<lparr>ln_applied := bps\<rparr> else l);
                 call = [\<lparr>ec_tier = t, ec_new = fresh, ec_key = key, ec_at = tn_now S\<rparr>];
                 note = (\<lambda>dropped. l\<lparr>ln_fps_cap := snd (fps_record F dropped fps bps (tn_now S) (ln_fps_cap l))\<rparr>)
             in
               case tn_encode S t of
                 EncFrame k n \<Rightarrow> (note False, None, Some (k, n), call)
               | EncDropped \<Rightarrow> (note True, None, None, call)
               | EncError e \<Rightarrow> (l, Some e, None, call)))"

record made =
  md_worker :: encode_worker
  md_err :: "string option"
  md_frames :: "(nat \<times> bool \<times> nat) list"

definition encode_one :: "floats \<Rightarrow> nat \<Rightarrow> turn_script \<Rightarrow> u32 \<times> u32 \<Rightarrow> (nat \<Rightarrow> u32) \<Rightarrow> (nat \<Rightarrow> bool) \<Rightarrow> nat \<Rightarrow> made \<Rightarrow> made" where
  "encode_one F fps S wh rate force t m =
     (case encode_tier F fps S t wh (rate t) (force t) (lane_get t (md_worker m)) of
        (l, e, f, calls) \<Rightarrow>
          let w = lane_put t l (md_worker m) in
          \<lparr>md_worker = w\<lparr>wk_calls := wk_calls w @ calls\<rparr>,
           md_err = (case e of Some x \<Rightarrow> Some x | None \<Rightarrow> md_err m),
           md_frames = md_frames m @ (case f of Some (k, n) \<Rightarrow> [(t, k, n)] | None \<Rightarrow> [])\<rparr>)"

text \<open>\<open>grab\<close> with its callback.\<close>

definition grab :: "floats \<Rightarrow> nat \<Rightarrow> turn_script \<Rightarrow> (nat \<Rightarrow> u32) \<Rightarrow> (nat \<Rightarrow> bool) \<Rightarrow> nat list \<Rightarrow> encode_worker \<Rightarrow> made" where
  "grab F fps S rate force want w =
     (let m = \<lparr>md_worker = w, md_err = None, md_frames = []\<rparr>;
          m = (case pi_frame (tn_grab S) of None \<Rightarrow> m | Some wh \<Rightarrow> fold (encode_one F fps S wh rate force) want m)
      in case pi_result (tn_grab S) of Inl e \<Rightarrow> m\<lparr>md_err := Some (''capture: '' @ e)\<rparr> | Inr _ \<Rightarrow> m)"

text \<open>Whether the capture goes on.\<close>

definition keeps_failing :: string where "keeps_failing = ''capture or encoding keeps failing''"

definition judge :: "u32 \<Rightarrow> string option \<Rightarrow> encode_worker \<Rightarrow> encode_worker" where
  "judge d err w =
     (case err of
        None \<Rightarrow> w\<lparr>wk_capture := Some 0\<rparr>
      | Some e \<Rightarrow>
          let n = (case wk_capture w of Some n \<Rightarrow> n | None \<Rightarrow> 0) + 1;
              w = w\<lparr>wk_capture := Some n, wk_lanes := (\<lambda>t. map_option (\<lambda>l. l\<lparr>ln_enc := None\<rparr>) (wk_lanes w t))\<rparr>
          in if 50 \<le> n then on_pipe (move_off d keeps_failing) (w\<lparr>wk_capture := None\<rparr>) else w)"

text \<open>What one turn asks of each size.\<close>

definition lane_rate_of :: "u32 \<Rightarrow> (lane_id \<rightharpoonup> u32) \<Rightarrow> nat \<Rightarrow> u32" where
  "lane_rate_of d rates t = (case rates (d, t) of Some b \<Rightarrow> b | None \<Rightarrow> 0)"

definition on_lane :: "nat \<Rightarrow> viewer_state list \<Rightarrow> viewer_state list" where
  "on_lane t vs = filter (\<lambda>v. viewer_tier v = t) vs"

definition picture_turn :: "floats \<Rightarrow> nat \<Rightarrow> turn_script \<Rightarrow> u32 \<Rightarrow> viewer_state list \<Rightarrow> (lane_id \<rightharpoonup> u32) \<Rightarrow> encode_worker \<Rightarrow> (nat \<times> bool \<times> nat) list \<times> encode_worker" where
  "picture_turn F fps S d seen rates w =
     (let tiers = filter (\<lambda>t. rates (d, t) \<noteq> None) [0..<TIERS]; rate = lane_rate_of d rates;
          w = fold (\<lambda>t w. lane_put t (lane_get t w) w) tiers w;
          force = (\<lambda>t. lane_force F (tn_now S) (rate t) (on_lane t seen) (lane_get t w));
          want = filter (\<lambda>t. lane_want F (tn_now S) (rate t) (on_lane t seen) (lane_get t w)) tiers
      in if want = [] then ([], w)
         else (let m = grab F fps S rate force want w in (md_frames m, judge d (md_err m) (md_worker m))))"

subsection \<open>Definitions: handing out and the cost of full size\<close>

definition send_frame :: "u32 \<Rightarrow> turn_script \<Rightarrow> nat \<times> bool \<times> nat \<Rightarrow> encode_worker \<Rightarrow> encode_worker" where
  "send_frame d S out w =
     (case out of (t, key, len) \<Rightarrow>
        let w = lane_put t (lane_sent (tn_sent_at S t) key len (lane_get t w)) w;
            f = \<lparr>fm_lane = (d, t), fm_key = key, fm_seq = Suc (wk_seq w (d, t))\<rparr>
        in (on_pipe (hand_out f (tn_sends S t)) w)\<lparr>wk_seq := (wk_seq w)((d, t) := Suc (wk_seq w (d, t)))\<rparr>)"

definition full_cost :: "floats \<Rightarrow> (nat \<Rightarrow> (u32 \<times> nat) option) \<Rightarrow> nat \<Rightarrow> u32 \<Rightarrow> rat \<Rightarrow> u32" where
  "full_cost F lanes fps before secs =
     (let scaled = (\<lambda>(out, rate). fl F (fl F (of_nat (unat out) * of_nat fps) / of_nat (max rate 1)));
          some = (\<lambda>t. case lanes t of Some (out, rate) \<Rightarrow> 0 < out | None \<Rightarrow> False);
          now = (if some FULL then scaled (the (lanes FULL))
                 else if some HALF then fl F (scaled (the (lanes HALF)) * 3)
                 else if some QUARTER then fl F (scaled (the (lanes QUARTER)) * 9) else 0);
          faded = fl F (of_nat (unat before) * fl F (fl_pow F (fl F (9 / 10)) secs))
      in as_u32_of (max now faded))"

text \<open>A lane's output since it was last looked at.\<close>

definition lane_output :: "floats \<Rightarrow> nat \<Rightarrow> lane \<Rightarrow> lane" where
  "lane_output F now l =
     (let since = (case ln_win_at l of Some s \<Rightarrow> s | None \<Rightarrow> now); l = l\<lparr>ln_win_at := Some since\<rparr>; span = as_secs F (now - since) in
      if fl F (9 / 10) \<le> span
      then l\<lparr>ln_out := as_u32_of (fl F (fl F (fl F (of_nat (ln_win_bytes l)) * 8) / span)), ln_win_bytes := 0, ln_win_at := Some now\<rparr> else l)"

definition trusted_output :: "nat \<Rightarrow> u32 \<Rightarrow> lane \<Rightarrow> u32 \<times> nat" where
  "trusted_output fps bps l =
     (min (ln_out l) (of_nat (min (unat (max bps MIN_BITRATE) * 3) (2 ^ 32 - 1) div 2)), min (lane_fps bps fps) (fps_get fps (ln_fps_cap l)))"

definition share_need :: "u32 \<Rightarrow> u32 \<Rightarrow> pipeline \<Rightarrow> pipeline" where
  "share_need d n p = p\<lparr>pl_viewers := map (\<lambda>v. v\<lparr>vw_state := (vw_state v)\<lparr>vs_full_need := (if vs_display (vw_state v) = d then n else 0)\<rparr>\<rparr>) (pl_viewers p)\<rparr>"

definition need_turn :: "floats \<Rightarrow> nat \<Rightarrow> turn_script \<Rightarrow> u32 \<Rightarrow> (lane_id \<rightharpoonup> u32) \<Rightarrow> encode_worker \<Rightarrow> encode_worker" where
  "need_turn F fps S d rates w =
     (case tn_need_now S of (looked, read, now) \<Rightarrow>
        if looked - wk_need_at w < 1000 * MS then w
        else
          let secs = as_secs F (read - wk_need_at w);
              w = w\<lparr>wk_need_at := now, wk_lanes := (\<lambda>t. map_option (lane_output F now) (wk_lanes w t))\<rparr>;
              outs = (\<lambda>t. map_option (trusted_output fps (lane_rate_of d rates t)) (wk_lanes w t));
              w = (if list_ex (\<lambda>t. outs t \<noteq> None) [0..<TIERS] then w\<lparr>wk_need := full_cost F outs (min fps 30) (wk_need w) secs\<rparr> else w)
          in on_pipe (share_need d (wk_need w)) w)"

subsection \<open>Definitions: a turn\<close>

text \<open>Whether the worker goes on, and its state: when nobody watches, the capture and the encoders are let go.\<close>

definition display_turn :: "floats \<Rightarrow> nat \<Rightarrow> u32 \<Rightarrow> u32 \<Rightarrow> turn_script \<Rightarrow> encode_worker \<Rightarrow> bool \<times> encode_worker" where
  "display_turn F fps initial d S w =
     (let w = lock (w\<lparr>wk_others := tn_others S\<rparr>); seen = watching d (wk_pipe w) in
      if tn_stop S \<or> seen = [] then (False, w)
      else
        let rates = rates_of initial seen;
            w = w\<lparr>wk_lanes := wk_lanes w |` {t. rates (d, t) \<noteq> None}\<rparr>;
            out =
              (case (wk_capture w, tn_source S) of
                 (None, Some e) \<Rightarrow> ([], on_pipe (move_off d e) w)
               | (None, None) \<Rightarrow> picture_turn F fps S d seen rates
                   ((if d = MAIN then on_pipe (\<lambda>p. p\<lparr>pl_last_error := None\<rparr>) w else w)\<lparr>wk_capture := Some 0\<rparr>)
               | (Some _, _) \<Rightarrow> picture_turn F fps S d seen rates w);
            w = fold (send_frame d S) (fst out) (snd out)
        in (True, need_turn F fps S d rates w))"

definition worker_new :: "pipeline \<Rightarrow> (lane_id \<Rightarrow> nat) \<Rightarrow> nat \<Rightarrow> encode_worker" where
  "worker_new p q now = \<lparr>wk_pipe = p, wk_others = [], wk_capture = None, wk_lanes = Map.empty, wk_seq = q, wk_need = 0, wk_need_at = now, wk_calls = []\<rparr>"

text \<open>The thread of a display, while anyone watches it; \<open>False\<close> when it has returned.\<close>

fun run_display :: "floats \<Rightarrow> nat \<Rightarrow> u32 \<Rightarrow> u32 \<Rightarrow> turn_script list \<Rightarrow> encode_worker \<Rightarrow> bool \<times> encode_worker" where
  "run_display F fps initial d [] w = (True, w)"
| "run_display F fps initial d (S # Ss) w =
     (case display_turn F fps initial d S w of
        (True, w') \<Rightarrow> run_display F fps initial d Ss w'
      | (False, w') \<Rightarrow>
          let w' = lock w' in
          if tn_stop S \<or> watching d (wk_pipe w') = [] then (False, w')
          else run_display F fps initial d Ss ((worker_new (wk_pipe w') (wk_seq w') (tn_now S))\<lparr>wk_calls := wk_calls w'\<rparr>))"

text \<open>\<open>run\<close>: a worker for each display that is watched and has none, the finished ones forgotten.\<close>

definition spawn_one :: "(u32 \<Rightarrow> bool) \<Rightarrow> u32 \<Rightarrow> u32 list \<Rightarrow> u32 list" where
  "spawn_one works d ws = (if d \<in> set ws then ws else if works d then ws @ [d] else ws)"

definition spawn_round :: "(u32 \<Rightarrow> bool) \<Rightarrow> (u32 \<Rightarrow> bool) \<Rightarrow> pipeline \<Rightarrow> u32 list \<Rightarrow> u32 list" where
  "spawn_round finished works p ws =
     fold (spawn_one works) (sorted_list_of_set (set (map (\<lambda>v. vs_display (vw_state v)) (pl_viewers p)))) (filter (\<lambda>d. \<not> finished d) ws)"

subsection \<open>The lock and the lanes\<close>

lemma lock_simps [simp]: "wk_lanes (lock w) = wk_lanes w" "wk_capture (lock w) = wk_capture w" "wk_calls (lock w) = wk_calls w" "wk_need_at (lock w) = wk_need_at w"
  by (simp_all add: lock_def split: list.split)

lemma on_pipe_simps [simp]: "wk_lanes (on_pipe f w) = wk_lanes w" "wk_capture (on_pipe f w) = wk_capture w" "wk_calls (on_pipe f w) = wk_calls w"
    "wk_need_at (on_pipe f w) = wk_need_at w"
  by (simp_all add: on_pipe_def Let_def)

lemma lane_put_simps [simp]: "wk_lanes (lane_put t l w) = (wk_lanes w)(t \<mapsto> l)" "wk_capture (lane_put t l w) = wk_capture w"
    "wk_calls (lane_put t l w) = wk_calls w" "wk_pipe (lane_put t l w) = wk_pipe w" "wk_others (lane_put t l w) = wk_others w"
  by (simp_all add: lane_put_def)

lemma lane_get_put [simp]: "lane_get t (lane_put u l w) = (if t = u then l else lane_get t w)"
  by (simp add: lane_get_def)

text \<open>What full size costs is stored for the viewers of this display, and nought for those of every other one.\<close>

lemma need_of_others_lost:
  assumes "1000 * MS \<le> fst (tn_need_now S) - wk_need_at w" and "v \<in> set (pl_viewers (wk_pipe (need_turn F fps S d rates w)))"
    and "vs_display (vw_state v) \<noteq> d"
  shows "vs_full_need (vw_state v) = 0"
proof -
  have "\<exists>p n. wk_pipe (need_turn F fps S d rates w) = share_need d n p"
    using assms(1) by (auto simp: need_turn_def on_pipe_def Let_def split: prod.split)
  then show ?thesis using assms(2,3) by (auto simp: share_need_def)
qed

subsection \<open>What the encoders are asked\<close>

definition calls_of :: "floats \<Rightarrow> nat \<Rightarrow> turn_script \<Rightarrow> nat \<Rightarrow> u32 \<times> u32 \<Rightarrow> u32 \<Rightarrow> bool \<Rightarrow> lane \<Rightarrow> encode_call list" where
  "calls_of F fps S t wh rate force l = snd (snd (snd (encode_tier F fps S t wh rate force l)))"

lemma calls_of_mem:
  assumes "c \<in> set (calls_of F fps S t wh rate force l)"
  shows "ec_tier c = t \<and> ec_at c = tn_now S \<and> (ec_key c \<longleftrightarrow> force \<or> ec_new c) \<and> (ln_enc l = None \<longrightarrow> ec_new c)"
  using assms by (auto simp: calls_of_def encode_tier_def lane_step_def Let_def split: option.splits encoded.splits if_splits)

lemma encode_one_calls:
  "wk_calls (md_worker (encode_one F fps S wh rate force t m)) = wk_calls (md_worker m) @ calls_of F fps S t wh (rate t) (force t) (lane_get t (md_worker m))"
  "u \<noteq> t \<Longrightarrow> lane_get u (md_worker (encode_one F fps S wh rate force t m)) = lane_get u (md_worker m)"
  by (simp_all add: encode_one_def calls_of_def Let_def lane_get_def split: prod.split)

lemma encode_all_calls:
  "distinct ts \<Longrightarrow> wk_calls (md_worker (fold (encode_one F fps S wh rate force) ts m)) =
     wk_calls (md_worker m) @ concat (map (\<lambda>t. calls_of F fps S t wh (rate t) (force t) (lane_get t (md_worker m))) ts)"
proof (induction ts arbitrary: m)
  case (Cons t ts)
  have "lane_get u (md_worker (encode_one F fps S wh rate force t m)) = lane_get u (md_worker m)" if "u \<in> set ts" for u
    using that Cons.prems by (intro encode_one_calls(2)) auto
  then have same: "map (\<lambda>u. calls_of F fps S u wh (rate u) (force u) (lane_get u (md_worker (encode_one F fps S wh rate force t m)))) ts =
      map (\<lambda>u. calls_of F fps S u wh (rate u) (force u) (lane_get u (md_worker m))) ts"
    by (intro map_cong refl) simp
  have "wk_calls (md_worker (fold (encode_one F fps S wh rate force) (t # ts) m)) =
      (wk_calls (md_worker m) @ calls_of F fps S t wh (rate t) (force t) (lane_get t (md_worker m))) @
      concat (map (\<lambda>u. calls_of F fps S u wh (rate u) (force u) (lane_get u (md_worker (encode_one F fps S wh rate force t m)))) ts)"
    using Cons by (simp add: encode_one_calls(1))
  then show ?case unfolding same by simp
qed simp

lemma grab_calls:
  assumes "distinct want" and "c \<in> set (wk_calls (md_worker (grab F fps S rate force want w)))"
  shows "c \<in> set (wk_calls w) \<or> ec_tier c \<in> set want \<and> ec_at c = tn_now S \<and> (ec_key c \<longleftrightarrow> force (ec_tier c) \<or> ec_new c) \<and>
    (ln_enc (lane_get (ec_tier c) w) = None \<longrightarrow> ec_new c)"
proof -
  have same: "wk_calls (md_worker (case r of Inl e \<Rightarrow> m\<lparr>md_err := f e\<rparr> | Inr _ \<Rightarrow> m)) = wk_calls (md_worker m)" for r :: "string + bool" and f m
    by (simp split: sum.split)
  show ?thesis
    using assms(2) calls_of_mem unfolding grab_def Let_def same
    by (fastforce simp: encode_all_calls [OF assms(1)] split: option.splits)
qed

lemma judge_calls [simp]: "wk_calls (judge d err w) = wk_calls w"
  by (simp add: judge_def Let_def split: option.split)

lemma fresh_lanes:
  "lane_get u (fold (\<lambda>t w. lane_put t (lane_get t w) w) ts w) = lane_get u w"
  "wk_calls (fold (\<lambda>t w. lane_put t (lane_get t w) w) ts w) = wk_calls w"
  "dom (wk_lanes (fold (\<lambda>t w. lane_put t (lane_get t w) w) ts w)) = dom (wk_lanes w) \<union> set ts"
  "wk_capture (fold (\<lambda>t w. lane_put t (lane_get t w) w) ts w) = wk_capture w"
  by (induction ts arbitrary: w) auto

lemma sent_calls [simp]: "wk_calls (fold (send_frame d S) out w) = wk_calls w"
  by (induction out arbitrary: w) (auto simp: send_frame_def Let_def split: prod.split)

lemma need_calls [simp]: "wk_calls (need_turn F fps S d rates w) = wk_calls w"
  by (simp add: need_turn_def Let_def split: prod.split)

text \<open>Why a keyframe is asked of an encoder that goes on: someone just came, or someone waits for one and the last is long enough ago.\<close>

definition key_is_due :: "nat \<Rightarrow> viewer_state list \<Rightarrow> lane option \<Rightarrow> bool" where
  "key_is_due now vs l \<longleftrightarrow> list_ex vs_join vs \<or> list_ex (\<lambda>v. vs_need_key v \<or> vs_want_key v) vs \<and>
     (case Option.bind l ln_last_key of None \<Rightarrow> True | Some k \<Rightarrow> KEY_GAP \<le> now - k)"

lemma force_due: "lane_force F now b vs l \<Longrightarrow> ln_enc l = None \<or> key_is_due now vs (Some l)"
  by (auto simp: lane_force_def key_is_due_def split: option.splits intro: order_trans [OF conjunct1 [OF key_gap_bounds]])

lemma due_lane: "key_is_due now vs (Some (lane_get t w)) = key_is_due now vs (wk_lanes w t)"
  by (simp add: key_is_due_def lane_get_def lane_default_def split: option.split)

lemma picture_calls:
  assumes "c \<in> set (wk_calls (snd (picture_turn F fps S d seen rates w)))"
  shows "c \<in> set (wk_calls w) \<or> rates (d, ec_tier c) \<noteq> None \<and> ec_at c = tn_now S \<and> (ec_new c \<longrightarrow> ec_key c) \<and>
    (ec_key c \<longrightarrow> ec_new c \<or> key_is_due (tn_now S) (on_lane (ec_tier c) seen) (wk_lanes w (ec_tier c)))"
proof -
  let ?ts = "filter (\<lambda>t. rates (d, t) \<noteq> None) [0..<TIERS]" and ?rate = "lane_rate_of d rates"
  let ?w = "fold (\<lambda>t w. lane_put t (lane_get t w) w) ?ts w"
  let ?force = "\<lambda>t. lane_force F (tn_now S) (?rate t) (on_lane t seen) (lane_get t ?w)"
  let ?want = "filter (\<lambda>t. lane_want F (tn_now S) (?rate t) (on_lane t seen) (lane_get t ?w)) ?ts"
  have force: "ln_enc (lane_get t ?w) = None \<or> key_is_due (tn_now S) (on_lane t seen) (wk_lanes w t)" if "?force t" for t
    using force_due [OF that] by (simp only: fresh_lanes due_lane)
  have "c \<in> set (wk_calls ?w) \<or> c \<in> set (wk_calls (md_worker (grab F fps S ?rate ?force ?want ?w)))"
    using assms by (auto simp: picture_turn_def Let_def split: if_splits)
  moreover have "distinct ?want" by simp
  ultimately have "c \<in> set (wk_calls w) \<or> ec_tier c \<in> set ?want \<and> ec_at c = tn_now S \<and> (ec_key c \<longleftrightarrow> ?force (ec_tier c) \<or> ec_new c) \<and>
      (ln_enc (lane_get (ec_tier c) ?w) = None \<longrightarrow> ec_new c)"
    using grab_calls [of ?want c F fps S ?rate ?force ?w] by (simp only: fresh_lanes) blast
  then show ?thesis using force [of "ec_tier c"] by auto
qed


text \<open>The first turn of a viewer that just came.\<close>

definition demo_script :: turn_script where
  "demo_script = \<lparr>tn_others = [], tn_stop = False, tn_now = 0, tn_source = None, tn_grab = \<lparr>pi_frame = Some (1920, 1080), pi_result = Inr True\<rparr>,
     tn_make = (\<lambda>_. None), tn_encode = (\<lambda>_. EncFrame True 1000), tn_sent_at = (\<lambda>_. 0), tn_sends = (\<lambda>_ _. Sent), tn_need_now = (0, 0, 0)\<rparr>"

definition demo_encoding :: encode_worker where
  "demo_encoding = worker_new (snd (subscribe pipeline_new)) (\<lambda>_. 0) 0"

lemma demo_turn:
  "wk_calls (snd (display_turn exact_floats 30 1500000 MAIN demo_script demo_encoding)) = [\<lparr>ec_tier = HALF, ec_new = True, ec_key = True, ec_at = 0\<rparr>]"
  "fst (display_turn exact_floats 30 1500000 MAIN demo_script demo_encoding)"
  by (simp_all add: display_turn_def demo_script_def demo_encoding_def worker_new_def lock_def watching_def subscribe_def pipeline_new_def viewer_new_def
      rates_of_def lane_rates_def lane_add_def lane_of_def viewer_tier_def TIERS_def HALF_def picture_turn_def on_pipe_def upt_rec lane_want_def
      lane_force_def on_lane_def grab_def encode_one_def encode_tier_def lane_step_def lane_get_def lane_put_def lane_default_def lane_rate_of_def
      judge_def send_frame_def Let_def)


subsection \<open>A display that keeps failing\<close>

text \<open>A turn in which nothing can be captured, or no encoder works.\<close>

definition turn_fails :: "turn_script \<Rightarrow> bool" where
  "turn_fails S \<longleftrightarrow>
     (case pi_result (tn_grab S) of
        Inl _ \<Rightarrow> pi_frame (tn_grab S) = None
      | Inr _ \<Rightarrow> pi_frame (tn_grab S) \<noteq> None \<and> (\<forall>t. \<exists>e. tn_encode S t = EncError e))"

lemma encode_one_fails:
  assumes "\<forall>t. \<exists>e. tn_encode S t = EncError e"
  shows "md_err (encode_one F fps S wh rate force t m) \<noteq> None" "md_frames (encode_one F fps S wh rate force t m) = md_frames m"
proof -
  obtain e where "tn_encode S t = EncError e" using assms by blast
  then show "md_err (encode_one F fps S wh rate force t m) \<noteq> None" "md_frames (encode_one F fps S wh rate force t m) = md_frames m"
    by (auto simp: encode_one_def encode_tier_def Let_def split: option.splits prod.splits)
qed

lemma encode_one_keeps:
  "wk_capture (md_worker (encode_one F fps S wh rate force t m)) = wk_capture (md_worker m)"
  "wk_pipe (md_worker (encode_one F fps S wh rate force t m)) = wk_pipe (md_worker m)"
  "wk_others (md_worker (encode_one F fps S wh rate force t m)) = wk_others (md_worker m)"
  by (simp_all add: encode_one_def Let_def split: prod.split)

lemma encode_all_keeps:
  "wk_capture (md_worker (fold (encode_one F fps S wh rate force) ts m)) = wk_capture (md_worker m)"
  "wk_pipe (md_worker (fold (encode_one F fps S wh rate force) ts m)) = wk_pipe (md_worker m)"
  "wk_others (md_worker (fold (encode_one F fps S wh rate force) ts m)) = wk_others (md_worker m)"
  by (induction ts arbitrary: m) (simp_all add: encode_one_keeps)

lemma encode_all_fails:
  assumes "\<forall>t. \<exists>e. tn_encode S t = EncError e"
  shows "md_frames (fold (encode_one F fps S wh rate force) ts m) = md_frames m"
    and "md_err m \<noteq> None \<or> ts \<noteq> [] \<Longrightarrow> md_err (fold (encode_one F fps S wh rate force) ts m) \<noteq> None"
proof (induction ts arbitrary: m)
  case (Cons t ts)
  case 1
  show ?case using Cons.IH(1) by (simp add: encode_one_fails(2) [OF assms])
  case 2
  show ?case using Cons.IH(2) encode_one_fails(1) [OF assms] by (metis fold_simps(2))
qed simp_all

lemma grab_fails:
  assumes "turn_fails S" and "want \<noteq> []"
  shows "md_frames (grab F fps S rate force want w) = []" "md_err (grab F fps S rate force want w) \<noteq> None"
  using assms encode_all_fails [of S]
  by (auto simp: grab_def turn_fails_def Let_def split: sum.splits option.splits)

lemma grab_keeps:
  "wk_capture (md_worker (grab F fps S rate force want w)) = wk_capture w" "wk_pipe (md_worker (grab F fps S rate force want w)) = wk_pipe w"
  "wk_others (md_worker (grab F fps S rate force want w)) = wk_others w"
  by (simp_all add: grab_def Let_def encode_all_keeps split: sum.split option.split)

lemma fresh_keeps: "wk_pipe (fold (\<lambda>t w. lane_put t (lane_get t w) w) ts w) = wk_pipe w" "wk_others (fold (\<lambda>t w. lane_put t (lane_get t w) w) ts w) = wk_others w"
  by (induction ts arbitrary: w) auto

text \<open>No lane has an encoder.\<close>

definition bare :: "encode_worker \<Rightarrow> bool" where
  "bare w \<longleftrightarrow> (\<forall>t l. wk_lanes w t = Some l \<longrightarrow> ln_enc l = None)"

lemma bare_get: "bare w \<Longrightarrow> ln_enc (lane_get t w) = None"
  by (auto simp: bare_def lane_get_def lane_default_def split: option.split)

lemma judge_fails:
  assumes "wk_others w = []" and "wk_capture w = Some n"
  shows "judge d (Some e) w = (if n < 49 then w\<lparr>wk_capture := Some (n + 1), wk_lanes := (\<lambda>t. map_option (\<lambda>l. l\<lparr>ln_enc := None\<rparr>) (wk_lanes w t))\<rparr>
    else w\<lparr>wk_capture := None, wk_lanes := (\<lambda>t. map_option (\<lambda>l. l\<lparr>ln_enc := None\<rparr>) (wk_lanes w t)), wk_pipe := move_off d keeps_failing (wk_pipe w)\<rparr>)"
  using assms by (simp add: judge_def Let_def on_pipe_def lock_def)

text \<open>A picture that cannot be had.\<close>

lemma picture_fails:
  assumes f: "turn_fails S" and v: "v \<in> set seen" "rates (d, viewer_tier v) \<noteq> None" and w: "bare w" "wk_others w = []" "wk_capture w = Some n"
  shows "\<exists>w'. picture_turn F fps S d seen rates w = ([], w') \<and> wk_others w' = [] \<and> bare w' \<and>
    wk_capture w' = (if n < 49 then Some (n + 1) else None) \<and> wk_pipe w' = (if n < 49 then wk_pipe w else move_off d keeps_failing (wk_pipe w))"
proof -
  let ?ts = "filter (\<lambda>t. rates (d, t) \<noteq> None) [0..<TIERS]" and ?rate = "lane_rate_of d rates"
  let ?w = "fold (\<lambda>t w. lane_put t (lane_get t w) w) ?ts w"
  let ?force = "\<lambda>t. lane_force F (tn_now S) (?rate t) (on_lane t seen) (lane_get t ?w)"
  let ?want = "filter (\<lambda>t. lane_want F (tn_now S) (?rate t) (on_lane t seen) (lane_get t ?w)) ?ts"
  let ?m = "grab F fps S ?rate ?force ?want ?w"
  have "viewer_tier v \<in> set ?want"
    using v(2) bare_get [OF w(1)] by (simp add: lane_want_def lane_force_def fresh_lanes) (simp add: viewer_tier_def TIERS_def)
  then have want: "?want \<noteq> []" by (metis list.set(1) empty_iff)
  obtain e where e: "md_err ?m = Some e" using grab_fails(2) [OF f want] by blast
  have p: "picture_turn F fps S d seen rates w = ([], judge d (Some e) (md_worker ?m))"
    unfolding picture_turn_def Let_def using want grab_fails(1) [OF f want] e by (simp del: filter_filter)
  have m: "wk_others (md_worker ?m) = []" "wk_capture (md_worker ?m) = Some n" "wk_pipe (md_worker ?m) = wk_pipe w"
    by (simp_all add: grab_keeps fresh_keeps fresh_lanes w)
  obtain x where x: "md_worker ?m = x" by blast
  show ?thesis using m unfolding p x by (auto simp: judge_fails bare_def)
qed

lemma watching_none: "watching d p = [] \<longleftrightarrow> (\<forall>v \<in> set (pl_viewers p). vs_display (vw_state v) \<noteq> d)"
  by (auto simp: watching_def filter_empty_conv)

lemma share_keeps: "watching d' (share_need d n p) = [] \<longleftrightarrow> watching d' p = []" "pl_last_error (share_need d n p) = pl_last_error p"
    "map vw_id (pl_viewers (share_need d n p)) = map vw_id (pl_viewers p)"
  by (auto simp: watching_none share_need_def)

lemma moved_off: "watching d (move_off d why p) = []" "d = MAIN \<Longrightarrow> pl_last_error (move_off d why p) = Some why"
    "d \<noteq> MAIN \<Longrightarrow> map vw_id (pl_viewers (move_off d why p)) = map vw_id (pl_viewers p)"
  by (auto simp: watching_none move_off_def)

lemma need_keeps:
  assumes "wk_others w = []"
  shows "wk_capture (need_turn F fps S d rates w) = wk_capture w" "bare w \<Longrightarrow> bare (need_turn F fps S d rates w)"
    "watching d (wk_pipe (need_turn F fps S d rates w)) = [] \<longleftrightarrow> watching d (wk_pipe w) = []"
    "pl_last_error (wk_pipe (need_turn F fps S d rates w)) = pl_last_error (wk_pipe w)"
    "map vw_id (pl_viewers (wk_pipe (need_turn F fps S d rates w))) = map vw_id (pl_viewers (wk_pipe w))"
  using assms
  by (auto simp: need_turn_def on_pipe_def lock_def share_keeps bare_def lane_output_def Let_def split: prod.split)

text \<open>A script in which all fails and nobody else does anything.\<close>

definition hopeless :: "turn_script \<Rightarrow> bool" where
  "hopeless S \<longleftrightarrow> turn_fails S \<and> tn_others S = [] \<and> \<not> tn_stop S \<and> tn_source S = None"

text \<open>After \<open>k\<close> such turns.\<close>

definition failed_for :: "u32 \<Rightarrow> pipeline \<Rightarrow> nat \<Rightarrow> encode_worker \<Rightarrow> bool" where
  "failed_for d p k w \<longleftrightarrow> bare w \<and> wk_capture w = (if k = 0 \<or> k = 50 then None else Some k) \<and>
     (watching d (wk_pipe w) = [] \<longleftrightarrow> k = 50) \<and> (d = MAIN \<and> k = 50 \<longrightarrow> pl_last_error (wk_pipe w) = Some keeps_failing) \<and>
     (d \<noteq> MAIN \<or> k < 50 \<longrightarrow> map vw_id (pl_viewers (wk_pipe w)) = map vw_id (pl_viewers p))"

lemma hopeless_turn:
  assumes h: "hopeless S" and w: "failed_for d p k w" and k: "k < 50"
  shows "\<exists>w'. display_turn F fps initial d S w = (True, w') \<and> failed_for d p (k + 1) w'"
proof -
  let ?w = "w\<lparr>wk_others := []\<rparr>" and ?seen = "watching d (wk_pipe w)"
  let ?rates = "rates_of initial ?seen"
  let ?r = "?w\<lparr>wk_lanes := wk_lanes w |` {t. ?rates (d, t) \<noteq> None}\<rparr>"
  let ?new = "(if d = MAIN then on_pipe (\<lambda>p. p\<lparr>pl_last_error := None\<rparr>) ?r else ?r)\<lparr>wk_capture := Some 0\<rparr>"
  let ?start = "if k = 0 then ?new else ?r"
  have seen: "?seen \<noteq> []" using w k by (simp add: failed_for_def)
  then obtain v where v: "v \<in> set ?seen" by (metis list.set_intros(1) neq_Nil_conv)
  then have rate: "?rates (d, viewer_tier v) \<noteq> None"
    by (force simp: rates_of_def lane_rates_spec counted_def lane_of_def watching_def)
  have start: "bare ?start" "wk_others ?start = []" "wk_capture ?start = Some k" "watching d' (wk_pipe ?start) = watching d' (wk_pipe w)"
      "pl_viewers (wk_pipe ?start) = pl_viewers (wk_pipe w)" for d'
    using w k by (auto simp: failed_for_def bare_def on_pipe_def lock_def watching_def restrict_map_def)
  have f: "turn_fails S" using h by (simp add: hopeless_def)
  obtain w1 where w1: "picture_turn F fps S d ?seen ?rates ?start = ([], w1)" "wk_others w1 = []" "bare w1"
      "wk_capture w1 = (if k < 49 then Some (k + 1) else None)"
      "wk_pipe w1 = (if k < 49 then wk_pipe ?start else move_off d keeps_failing (wk_pipe ?start))"
    using picture_fails [where rates = ?rates and d = d and w = ?start and F = F and fps = fps, OF f v rate start(1-3)] by blast
  have "display_turn F fps initial d S w = (True, need_turn F fps S d ?rates w1)"
    using h w k seen w1(1) by (auto simp: display_turn_def hopeless_def failed_for_def lock_def Let_def)
  moreover have "failed_for d p (k + 1) (need_turn F fps S d ?rates w1)"
  proof (cases "k < 49")
    case True
    then show ?thesis using w w1 start seen by (simp add: failed_for_def need_keeps)
  next
    case False
    then have "k = 49" using k by simp
    then show ?thesis using w w1 start by (simp add: failed_for_def need_keeps moved_off)
  qed
  ultimately show ?thesis by blast
qed

lemma hopeless_turns:
  assumes "\<forall>S \<in> set Ss. hopeless S" and "failed_for d p k w" and "k + length Ss \<le> 50"
  shows "\<exists>w'. run_display F fps initial d Ss w = (True, w') \<and> failed_for d p (k + length Ss) w'"
  using assms
proof (induction Ss arbitrary: k w)
  case (Cons S Ss)
  have "k < 50" "hopeless S" using Cons.prems by simp_all
  from hopeless_turn [OF this(2) Cons.prems(2) this(1)] obtain w1
    where w1: "display_turn F fps initial d S w = (True, w1)" "failed_for d p (k + 1) w1" by blast
  obtain w2 where "run_display F fps initial d Ss w1 = (True, w2)" "failed_for d p (k + 1 + length Ss) w2"
    using Cons.IH [OF _ w1(2)] Cons.prems by auto
  then show ?case using w1(1) by auto
qed simp



subsection \<open>One worker for each display\<close>

lemma spawn_fold:
  "distinct ws \<Longrightarrow> distinct (fold (spawn_one works) ds ws) \<and> set (fold (spawn_one works) ds ws) = set ws \<union> {d \<in> set ds. works d}"
  by (induction ds arbitrary: ws) (auto simp: spawn_one_def)

text \<open>No display has two workers, a worker that goes on is kept, and after a round every display that is watched has one, unless its thread could not be
  started.\<close>

lemma spawn_round_spec:
  assumes "distinct ws"
  shows "distinct (spawn_round finished works p ws)"
    and "set (spawn_round finished works p ws) =
      {d \<in> set ws. \<not> finished d} \<union> {d. works d \<and> (\<exists>v \<in> set (pl_viewers p). vs_display (vw_state v) = d)}"
  using spawn_fold [of "filter (\<lambda>d. \<not> finished d) ws" works] assms by (auto simp: spawn_round_def)

end
