(* ===== verification/Spec2Isabelle.thy ===== *)
theory Spec2Isabelle
  imports Slip Loader_Proto Image Flasher Sim Link Stub_Loader Update Update_Safety Discovery Pairing Ota_Release Session Locate Recovery Factory Air_Update Store Update_Center Stream_Gate Stream_Serve Stream_Lanes Stream_Rtc Stream_Turn
begin

section \<open>HID-Fi: the companion application, its links to the board and its updates\<close>

text \<open>
  HID-Fi is a USB and Wi-Fi keyboard and mouse on an ESP32-S3 board, with a companion application in Rust
  (\<open>src/companion\<close>) on the computer it controls.  This development models the core of the companion: how it
  finds and pairs with a board, what it believes of a release, how it brings a new firmware to a board over the
  air or over the serial cable, how it rescues and erases a board, what it keeps on disk, and how it shows the screen to viewers.

  \<^bold>\<open>The parts, and the theories that model them.\<close>

  \<^item> \<open>Hidfi_Prelude\<close>, \<open>Rust_Text\<close>, \<open>Json\<close>: Rust integers at their width, the outcomes of a fallible call (\<open>Ok\<close>,
    \<open>Err\<close>, \<open>Panic\<close>), the sequencing of such calls over a state, text as UTF-8 bytes, JSON values and the field
    readers serde derives.
  \<^item> \<open>Slip\<close>, \<open>Loader_Proto\<close>, \<open>Port\<close>, \<open>Flasher\<close>, \<open>Stub_Loader\<close> (crate hidfi-flash: slip.rs, proto.rs, port.rs, flasher.rs,
    stub.rs): framing, the closed list of loader operations and register writes, and the flasher over any port.
    The record \<open>port_ops\<close> is the trait \<open>Port\<close>; the record \<open>flasher\<close> is the struct \<open>Flasher\<close>.
  \<^item> \<open>Image\<close> (image.rs): partition table, otadata and app images on byte lists.
  \<^item> \<open>Sim\<close>, \<open>Link\<close> (sim.rs): the simulated chip - flash, ROM loader, stub, boot chain, injected faults - and what the flasher
    obtains when it talks to it.
  \<^item> \<open>Update\<close>, \<open>Update_Safety\<close> (update.rs): preflight, journal and the steps of the cable update; over the simulated chip, what it
    may change and that the board still starts.
  \<^item> \<open>Core_Proto\<close>, \<open>Discovery\<close>, \<open>Pairing\<close>, \<open>Ota_Release\<close> (crate hidfi-core: proto.rs, discovery.rs, pairing.rs, ota.rs): messages,
    addresses, the pairing exchange with its proofs, signed releases and verdicts.
  \<^item> \<open>Session\<close>, \<open>Locate\<close> (crate hidfi-agent: session.rs, env.rs, locate.rs): the pairing and heartbeat state machine, and finding boards.
  \<^item> \<open>Recovery\<close>, \<open>Factory\<close>, \<open>Air_Update\<close>, \<open>Update_Center\<close>, \<open>Store\<close> (crate hidfi-companion: recovery.rs, factory.rs, updates.rs,
    updates/center.rs, store.rs): recovery mode, factory reset, update over the air, the update centre, the files kept.
  \<^item> \<open>Stream_Gate\<close>, \<open>Stream_Serve\<close> (crate hidfi-stream: server.rs, display.rs): who may watch the screen - addresses, tickets, strikes, slots -
    and one viewer's connection from its hello to its end.
  \<^item> \<open>Stream_Lanes\<close>, \<open>Stream_Turn\<close> (pipeline.rs): a viewer's flags and size, the rates of lanes, the handing out of frames, and a turn of the
    thread that captures and encodes a display.
  \<^item> \<open>Stream_Rtc\<close> (rtc.rs and the forwarder of server.rs): the rate for a link, the pace, the loop of a viewer's session, and the way of a frame from
    the encoders to the browser.

  The service gives the centre the boards that \<open>Locate\<close> finds; the centre reads statuses, offers what \<open>Ota_Release\<close> allows and runs
  \<open>Air_Update\<close> or, through its plan for the cable, \<open>Update\<close> over \<open>Flasher\<close>.  \<open>Factory\<close> erases over the link of \<open>Recovery\<close>, with a proof of
  \<open>Pairing\<close>.  \<open>Session\<close> holds the pairing key that \<open>Store\<close> keeps, and announces the nonces
  that the tickets of \<open>Stream_Gate\<close> are checked against.  \<open>Stream_Turn\<close> hands frames out as \<open>Stream_Lanes\<close> says, \<open>Stream_Rtc\<close> writes them, and
  the estimates it gets change the sizes in \<open>Stream_Lanes\<close>.

  \<^bold>\<open>How the code is rendered.\<close>  A function that can fail or changes state is a program: a function from the
  state to an outcome and the new state.  A panic is the outcome \<open>Panic\<close>, kept apart from an error, and the theorems say where none
  can come (or, in two places, how one can).  What is outside the repository - cryptography, JSON text, hex, the serial port, HTTP, the clock, random
  bytes, the system's file operations - is an argument: a function with its documented laws as hypotheses, or a script of
  what each call will answer, so that a theorem over all scripts is one over all behaviours of the outside.  Every file operation
  may fail, and a failing write may leave any part of its data; a power cut is a failure after which the program does nothing more.

  \<^bold>\<open>Fuel.\<close>  Loops over data recurse on it.  Loops that only the other side can end (the flasher's wait for a frame, the
  reads of a command, the wait after an update over the air) take fuel.  Fuel that runs out is the
  outcome \<open>OutOfFuel\<close> (in \<open>Air_Update\<close>, the wait going on), never a success; what must return is shown to return for enough of it: \<open>Link\<close> bounds the
  frames to come, so that a command on the simulated chip ends, \<open>Image\<close> bounds the search for a sequence number, and \<open>Air_Update\<close> ends the wait
  with the readings of the clock.  The reads of a port in recovery mode and of a viewer's socket end with their scripts, and the loops of the streaming threads
  run over a list of turns of any length.

  \<^bold>\<open>What is shown.\<close>  Roundtrips and torn writes of the flash formats (\<open>Slip\<close>, \<open>Loader_Proto\<close>, \<open>Image\<close>); that no sequence of flasher
  operations writes outside its region or sends a forbidden opcode, through the locale \<open>port_contract\<close> and its two interpretations on the
  simulated chip; that a cable update changes nothing but the inactive slot and otadata and always leaves a board that starts; that
  journal, state, keys and certificate on disk are the old ones or the new ones whatever fails, through the locale \<open>atomic_map\<close>;
  that only signed releases are believed and only pinned files are installed; that pairing agrees and a key is lost only when the board refuses it; that
  recovery and reset send only what the person agreed to; that the centre runs one update for each board in any order of events; that the screen goes only to viewers with a live ticket of a board that is
  here, in exact slots; and that every frame can be decoded where it is handed out, a gap on the way never outlasts the next keyframe, keyframes stay
  rare, sizes do not flap, and a display that fails is given up.

  \<^bold>\<open>Not modelled.\<close>  HTTP, mDNS, USB listing and serial ports of the operating system (real.rs, serial.rs), windows, menus and the service's
  threads (menu.rs, window.rs, panel.rs, service.rs, main.rs), progress reports and logging, file modes, swapping
  the running application (install.rs), capture, codecs, the mixing of sound and the WebRTC library (hidfi-stream, over native libraries), and the C++ firmware.  They are glue
  around the models above, or code of libraries that are not in the repository.
\<close>

end
